(* ===== verification/Kernel_Prelude.thy ===== *)
theory Kernel_Prelude
  imports Main "HOL-Library.Word"
begin

unbundle bit_operations_syntax

text \<open>
  Shared vocabulary of the development: the machine-integer types of the C++ code, the kernel
  result codes, the alignment helpers of \<^verbatim>\<open>common/alignment.h\<close>, and the generic facts the component
  theories use.

  Two representations of machine integers are used.  Flag words, packed handles, bitmap words and
  reference counts are \<open>'w word\<close>s, so that bitwise operations and wrap-around come with the type.
  Addresses, sizes and page counts (\<^verbatim>\<open>u64\<close>, \<^verbatim>\<open>size_t\<close>, \<^verbatim>\<open>KProcessAddress\<close>, \<^verbatim>\<open>KPhysicalAddress\<close>) are
  \<open>nat\<close> values below \<open>2 ^ 64\<close>, and every C++ addition, subtraction and multiplication of them is
  written with \<open>add64\<close>, \<open>sub64\<close> and \<open>mul64\<close>, which wrap around as the code does, except where a theory
  says that and why it cannot wrap.

  \<^verbatim>\<open>ASSERT\<close> in this code base is soft: it logs and continues unless a debug setting is on.
  The model therefore never branches on an \<^verbatim>\<open>ASSERT\<close>; where an assertion matters, its condition is
  a predicate named \<open>..._asserts\<close> and is proved.
\<close>

section \<open>Collections\<close>

named_theorems wrap_simps \<open>wrap-around arithmetic when nothing overflows\<close>
named_theorems flag_simps \<open>bitwise facts on flag words\<close>

section \<open>Types\<close>

type_synonym u8 = "8 word"
type_synonym u16 = "16 word"
type_synonym u32 = "32 word"
type_synonym u64 = "64 word"

text \<open>Addresses, sizes and page counts, values below \<open>2 ^ 64\<close>.\<close>

type_synonym addr = nat
type_synonym size64 = nat

text \<open>The kernel result codes, in the order of \<^verbatim>\<open>svc_results.h\<close>.\<close>

datatype Result =
    ResultSuccess
  | ResultOutOfSessions
  | ResultInvalidArgument
  | ResultNotImplemented
  | ResultNoSynchronizationObject
  | ResultTerminationRequested
  | ResultInvalidSize
  | ResultInvalidAddress
  | ResultOutOfResource
  | ResultOutOfMemory
  | ResultOutOfHandles
  | ResultInvalidCurrentMemory
  | ResultInvalidNewMemoryPermission
  | ResultInvalidMemoryRegion
  | ResultInvalidPriority
  | ResultInvalidCoreId
  | ResultInvalidHandle
  | ResultInvalidPointer
  | ResultInvalidCombination
  | ResultTimedOut
  | ResultCancelled
  | ResultOutOfRange
  | ResultInvalidEnumValue
  | ResultNotFound
  | ResultBusy
  | ResultSessionClosed
  | ResultInvalidState
  | ResultReservedUsed
  | ResultPortClosed
  | ResultLimitReached
  | ResultReceiveListBroken
  | ResultOutOfAddressSpace
  | ResultMessageTooLarge
  | ResultInvalidId

section \<open>64-bit arithmetic on addresses and sizes\<close>

definition add64 :: "nat \<Rightarrow> nat \<Rightarrow> nat" where
  "add64 a b = (a + b) mod 2 ^ 64"

definition sub64 :: "nat \<Rightarrow> nat \<Rightarrow> nat" where
  "sub64 a b = (a + (2 ^ 64 - b mod 2 ^ 64)) mod 2 ^ 64"

definition mul64 :: "nat \<Rightarrow> nat \<Rightarrow> nat" where
  "mul64 a b = (a * b) mod 2 ^ 64"

lemma add64_less [simp]: "add64 a b < 2 ^ 64"
  by (simp add: add64_def)

lemma sub64_less [simp]: "sub64 a b < 2 ^ 64"
  by (simp add: sub64_def)

lemma mul64_less [simp]: "mul64 a b < 2 ^ 64"
  by (simp add: mul64_def)

lemma add64_eq [wrap_simps]: "a + b < 2 ^ 64 \<Longrightarrow> add64 a b = a + b"
  by (simp add: add64_def)

lemma mul64_eq [wrap_simps]: "a * b < 2 ^ 64 \<Longrightarrow> mul64 a b = a * b"
  by (simp add: mul64_def)

lemma sub64_eq [wrap_simps]:
  assumes "b \<le> a" and "a < 2 ^ 64"
  shows "sub64 a b = a - b"
proof -
  have "b mod 2 ^ 64 = b" using assms by simp
  moreover have "a + (2 ^ 64 - b) = (a - b) + 2 ^ 64" using assms by simp
  ultimately have "sub64 a b = ((a - b) + 2 ^ 64) mod 2 ^ 64" by (simp only: sub64_def)
  also have "\<dots> = a - b"
    unfolding mod_add_self2 using assms by (intro mod_less) linarith
  finally show ?thesis .
qed

lemma sub64_add64:
  assumes "a < 2 ^ 64" and "b < 2 ^ 64"
  shows "sub64 (add64 a b) b = a"
proof -
  have "sub64 (add64 a b) b = ((a + b) mod 2 ^ 64 + (2 ^ 64 - b)) mod 2 ^ 64"
    using assms by (simp add: sub64_def add64_def del: power_numeral)
  also have "\<dots> = (a + b + (2 ^ 64 - b)) mod 2 ^ 64"
    by (rule mod_add_left_eq)
  also have "\<dots> = (a + 2 ^ 64) mod 2 ^ 64"
    using assms by (simp del: power_numeral)
  also have "\<dots> = a" using assms by (simp del: power_numeral)
  finally show ?thesis .
qed

section \<open>Pages and alignment\<close>

definition PageBits :: nat where "PageBits = 12"

definition PageSize :: nat where "PageSize = 4096"

lemma PageSize_pos [simp]: "0 < PageSize" "PageSize \<noteq> 0"
  by (simp_all add: PageSize_def)

definition AlignUp :: "nat \<Rightarrow> nat \<Rightarrow> nat" where
  "AlignUp val sz =
     (let m = val mod sz; v = val - m in if m = 0 then v else add64 v sz)"

definition AlignDown :: "nat \<Rightarrow> nat \<Rightarrow> nat" where
  "AlignDown val sz = val - val mod sz"

definition IsAligned :: "nat \<Rightarrow> nat \<Rightarrow> bool" where
  "IsAligned val alignment = (val AND sub64 alignment 1 = 0)"

definition DivideUp :: "nat \<Rightarrow> nat \<Rightarrow> nat" where
  "DivideUp x y = add64 x (sub64 y 1) div y"

lemma AlignDown_le: "AlignDown v s \<le> v"
  by (simp add: AlignDown_def)

lemma AlignDown_dvd: "s dvd AlignDown v s"
  by (simp add: AlignDown_def)

lemma AlignDown_gt: "0 < s \<Longrightarrow> v < AlignDown v s + s"
  unfolding AlignDown_def using mod_less_divisor [of s v] by linarith

lemma AlignDown_id: "s dvd v \<Longrightarrow> AlignDown v s = v"
  by (simp add: AlignDown_def)

lemma AlignUp_id: "s dvd v \<Longrightarrow> AlignUp v s = v"
  by (simp add: AlignUp_def Let_def)

lemma AlignUp_eq:
  assumes "\<not> s dvd v" and "v + s < 2 ^ 64"
  shows "AlignUp v s = AlignDown v s + s"
proof -
  have "v - v mod s + s < 2 ^ 64" using assms(2) by linarith
  with assms(1) show ?thesis
    by (simp add: AlignUp_def AlignDown_def Let_def add64_eq dvd_eq_mod_eq_0 del: power_numeral)
qed

lemma AlignUp_dvd:
  assumes "v + s < 2 ^ 64" shows "s dvd AlignUp v s"
proof (cases "s dvd v")
  case False
  with assms show ?thesis by (simp add: AlignUp_eq AlignDown_dvd)
qed (simp add: AlignUp_id)

lemma AlignUp_ge:
  assumes "v + s < 2 ^ 64" and "0 < s" shows "v \<le> AlignUp v s"
proof (cases "s dvd v")
  case False
  with assms show ?thesis using AlignDown_gt [of s v] by (simp add: AlignUp_eq)
qed (simp add: AlignUp_id)

lemma AlignUp_less:
  assumes "v + s < 2 ^ 64" and "0 < s" shows "AlignUp v s < v + s"
proof (cases "s dvd v")
  case True
  with assms show ?thesis by (simp add: AlignUp_id)
next
  case False
  then have "v mod s \<noteq> 0" by (simp add: dvd_eq_mod_eq_0)
  moreover have "v mod s \<le> v" by (rule mod_less_eq_dividend)
  ultimately have "AlignDown v s < v" unfolding AlignDown_def by linarith
  with False assms show ?thesis by (simp add: AlignUp_eq)
qed

lemma IsAligned_power2:
  assumes "n < 64"
  shows "IsAligned v (2 ^ n) \<longleftrightarrow> 2 ^ n dvd v"
proof -
  have "(2 :: nat) ^ n < 2 ^ 64" using assms by (rule power_strict_increasing) simp
  then have "sub64 (2 ^ n) 1 = 2 ^ n - 1" by (simp add: sub64_eq del: power_numeral)
  moreover have "v AND (2 ^ n - 1) = v mod 2 ^ n"
    by (simp add: take_bit_eq_mask take_bit_eq_mod mask_eq_exp_minus_1 flip: take_bit_eq_mod)
  ultimately show ?thesis by (simp add: IsAligned_def dvd_eq_mod_eq_0)
qed

lemma IsAligned_PageSize: "IsAligned v PageSize \<longleftrightarrow> PageSize dvd v"
  using IsAligned_power2 [of 12 v] by (simp add: PageSize_def)

section \<open>Options and lists\<close>

lemma map_option_Some_iff: "map_option f x = Some y \<longleftrightarrow> (\<exists>z. x = Some z \<and> y = f z)"
  by (cases x) auto

lemma nth_list_update_split:
  "i < length xs \<Longrightarrow> xs[i := v] ! j = (if j = i then v else xs ! j)"
  by (cases "j = i") auto

lemma filter_list_update_False:
  assumes "i < length xs" and "P (xs ! i)" and "\<not> P v"
  shows "length (filter P xs) = Suc (length (filter P (xs[i := v])))"
  using assms
proof (induction xs arbitrary: i)
  case (Cons x xs)
  show ?case
  proof (cases i)
    case 0
    with Cons.prems show ?thesis by simp
  next
    case (Suc j)
    with Cons.prems Cons.IH [of j] show ?thesis by auto
  qed
qed simp

lemma filter_list_update_same:
  assumes "i < length xs" and "P (xs ! i) = P v"
  shows "length (filter P (xs[i := v])) = length (filter P xs)"
  using assms
proof (induction xs arbitrary: i)
  case (Cons x xs)
  show ?case
  proof (cases i)
    case 0
    with Cons.prems show ?thesis by auto
  next
    case (Suc j)
    with Cons.prems Cons.IH [of j] show ?thesis by auto
  qed
qed simp

section \<open>Counting zeros\<close>

text \<open>\<^verbatim>\<open>std::countr_zero\<close> and \<^verbatim>\<open>std::countl_zero\<close> of a 64-bit word.\<close>

definition countr_zero :: "u64 \<Rightarrow> nat" where
  "countr_zero w = length (takeWhile (\<lambda>n. \<not> bit w n) [0..<64])"

definition countl_zero :: "u64 \<Rightarrow> nat" where
  "countl_zero w = length (takeWhile (\<lambda>n. \<not> bit w (63 - n)) [0..<64])"

lemma takeWhile_upt_least:
  assumes "\<exists>n<m. P n"
  defines "k \<equiv> length (takeWhile (\<lambda>n. \<not> P n) [0..<m])"
  shows "P k" "k < m" "\<And>n. n < k \<Longrightarrow> \<not> P n"
proof -
  let ?t = "takeWhile (\<lambda>n. \<not> P n) [0..<m]"
  have le: "k \<le> m" unfolding k_def using length_takeWhile_le [of "\<lambda>n. \<not> P n" "[0..<m]"] by simp
  have t: "?t = [0..<k]"
    unfolding k_def using takeWhile_eq_take [of "\<lambda>n. \<not> P n" "[0..<m]"] le [unfolded k_def]
    by (simp add: take_upt)
  then have lt: "\<not> P n" if "n < k" for n
    using that set_takeWhileD [of n "\<lambda>n. \<not> P n" "[0..<m]"] by simp
  then show "\<And>n. n < k \<Longrightarrow> \<not> P n" .
  obtain j where j: "j < m" "P j" using assms(1) by blast
  then have "k \<le> j" using lt by (meson linorder_not_le)
  with j show k: "k < m" by simp
  then show "P k" using nth_length_takeWhile [of "\<lambda>n. \<not> P n" "[0..<m]"] by (simp add: k_def)
qed

lemma word_nonzero_bit:
  fixes w :: u64
  assumes "w \<noteq> 0"
  shows "\<exists>n<64. bit w n"
proof (rule ccontr)
  assume *: "\<not> (\<exists>n<64. bit w n)"
  have "w = 0" by (rule bit_word_eqI) (use * in simp)
  with assms show False by contradiction
qed

lemma countr_zero:
  assumes "w \<noteq> 0"
  shows "bit w (countr_zero w)" "countr_zero w < 64" "n < countr_zero w \<Longrightarrow> \<not> bit w n"
  using takeWhile_upt_least [OF word_nonzero_bit [OF assms]] by (simp_all add: countr_zero_def)

end
