(* ===== verification/Memory_State.thy ===== *)
theory Memory_State
  imports Kernel_Prelude
begin

text \<open>
  The enumerations of \<^verbatim>\<open>svc_types.h\<close> and \<^verbatim>\<open>k_memory_block.h\<close> that describe a range of guest memory: its
  state with the capability flags attached to it, its permission, its attributes and the
  attributes that keep neighbouring blocks apart.  Every enumerator is a constant defined by the
  expression the header gives it.
\<close>

section \<open>The SVC-visible enumerations\<close>

definition Svc_MemoryState_Free :: u32 where
  "Svc_MemoryState_Free = 0"

definition Svc_MemoryState_Io :: u32 where
  "Svc_MemoryState_Io = 1"

definition Svc_MemoryState_Static :: u32 where
  "Svc_MemoryState_Static = 2"

definition Svc_MemoryState_Code :: u32 where
  "Svc_MemoryState_Code = 3"

definition Svc_MemoryState_CodeData :: u32 where
  "Svc_MemoryState_CodeData = 4"

definition Svc_MemoryState_Normal :: u32 where
  "Svc_MemoryState_Normal = 5"

definition Svc_MemoryState_Shared :: u32 where
  "Svc_MemoryState_Shared = 6"

definition Svc_MemoryState_Alias :: u32 where
  "Svc_MemoryState_Alias = 7"

definition Svc_MemoryState_AliasCode :: u32 where
  "Svc_MemoryState_AliasCode = 8"

definition Svc_MemoryState_AliasCodeData :: u32 where
  "Svc_MemoryState_AliasCodeData = 9"

definition Svc_MemoryState_Ipc :: u32 where
  "Svc_MemoryState_Ipc = 10"

definition Svc_MemoryState_Stack :: u32 where
  "Svc_MemoryState_Stack = 11"

definition Svc_MemoryState_ThreadLocal :: u32 where
  "Svc_MemoryState_ThreadLocal = 12"

definition Svc_MemoryState_Transferred :: u32 where
  "Svc_MemoryState_Transferred = 13"

definition Svc_MemoryState_SharedTransferred :: u32 where
  "Svc_MemoryState_SharedTransferred = 14"

definition Svc_MemoryState_SharedCode :: u32 where
  "Svc_MemoryState_SharedCode = 15"

definition Svc_MemoryState_Inaccessible :: u32 where
  "Svc_MemoryState_Inaccessible = 16"

definition Svc_MemoryState_NonSecureIpc :: u32 where
  "Svc_MemoryState_NonSecureIpc = 17"

definition Svc_MemoryState_NonDeviceIpc :: u32 where
  "Svc_MemoryState_NonDeviceIpc = 18"

definition Svc_MemoryState_Kernel :: u32 where
  "Svc_MemoryState_Kernel = 19"

definition Svc_MemoryState_GeneratedCode :: u32 where
  "Svc_MemoryState_GeneratedCode = 20"

definition Svc_MemoryState_CodeOut :: u32 where
  "Svc_MemoryState_CodeOut = 21"

definition Svc_MemoryState_Coverage :: u32 where
  "Svc_MemoryState_Coverage = 22"

definition Svc_MemoryState_Insecure :: u32 where
  "Svc_MemoryState_Insecure = 23"

definition Svc_MemoryAttribute_Locked :: u32 where
  "Svc_MemoryAttribute_Locked = push_bit 0 1"

definition Svc_MemoryAttribute_IpcLocked :: u32 where
  "Svc_MemoryAttribute_IpcLocked = push_bit 1 1"

definition Svc_MemoryAttribute_DeviceShared :: u32 where
  "Svc_MemoryAttribute_DeviceShared = push_bit 2 1"

definition Svc_MemoryAttribute_Uncached :: u32 where
  "Svc_MemoryAttribute_Uncached = push_bit 3 1"

definition Svc_MemoryAttribute_PermissionLocked :: u32 where
  "Svc_MemoryAttribute_PermissionLocked = push_bit 4 1"

definition Svc_MemoryPermission_None :: u32 where
  "Svc_MemoryPermission_None = push_bit 0 0"

definition Svc_MemoryPermission_Read :: u32 where
  "Svc_MemoryPermission_Read = push_bit 0 1"

definition Svc_MemoryPermission_Write :: u32 where
  "Svc_MemoryPermission_Write = push_bit 1 1"

definition Svc_MemoryPermission_Execute :: u32 where
  "Svc_MemoryPermission_Execute = push_bit 2 1"

definition Svc_MemoryPermission_ReadWrite :: u32 where
  "Svc_MemoryPermission_ReadWrite = Svc_MemoryPermission_Read OR Svc_MemoryPermission_Write"

definition Svc_MemoryPermission_ReadExecute :: u32 where
  "Svc_MemoryPermission_ReadExecute = Svc_MemoryPermission_Read OR Svc_MemoryPermission_Execute"

definition Svc_MemoryPermission_DontCare :: u32 where
  "Svc_MemoryPermission_DontCare = push_bit 28 1"

section \<open>\<^verbatim>\<open>KMemoryState\<close>\<close>

definition KMemoryState_None :: u32 where
  "KMemoryState_None = 0"

definition KMemoryState_Mask :: u32 where
  "KMemoryState_Mask = 255"

definition KMemoryState_All :: u32 where
  "KMemoryState_All = NOT KMemoryState_None"

definition KMemoryState_FlagCanReprotect :: u32 where
  "KMemoryState_FlagCanReprotect = push_bit 8 1"

definition KMemoryState_FlagCanDebug :: u32 where
  "KMemoryState_FlagCanDebug = push_bit 9 1"

definition KMemoryState_FlagCanUseIpc :: u32 where
  "KMemoryState_FlagCanUseIpc = push_bit 10 1"

definition KMemoryState_FlagCanUseNonDeviceIpc :: u32 where
  "KMemoryState_FlagCanUseNonDeviceIpc = push_bit 11 1"

definition KMemoryState_FlagCanUseNonSecureIpc :: u32 where
  "KMemoryState_FlagCanUseNonSecureIpc = push_bit 12 1"

definition KMemoryState_FlagMapped :: u32 where
  "KMemoryState_FlagMapped = push_bit 13 1"

definition KMemoryState_FlagCode :: u32 where
  "KMemoryState_FlagCode = push_bit 14 1"

definition KMemoryState_FlagCanAlias :: u32 where
  "KMemoryState_FlagCanAlias = push_bit 15 1"

definition KMemoryState_FlagCanCodeAlias :: u32 where
  "KMemoryState_FlagCanCodeAlias = push_bit 16 1"

definition KMemoryState_FlagCanTransfer :: u32 where
  "KMemoryState_FlagCanTransfer = push_bit 17 1"

definition KMemoryState_FlagCanQueryPhysical :: u32 where
  "KMemoryState_FlagCanQueryPhysical = push_bit 18 1"

definition KMemoryState_FlagCanDeviceMap :: u32 where
  "KMemoryState_FlagCanDeviceMap = push_bit 19 1"

definition KMemoryState_FlagCanAlignedDeviceMap :: u32 where
  "KMemoryState_FlagCanAlignedDeviceMap = push_bit 20 1"

definition KMemoryState_FlagCanIpcUserBuffer :: u32 where
  "KMemoryState_FlagCanIpcUserBuffer = push_bit 21 1"

definition KMemoryState_FlagReferenceCounted :: u32 where
  "KMemoryState_FlagReferenceCounted = push_bit 22 1"

definition KMemoryState_FlagCanMapProcess :: u32 where
  "KMemoryState_FlagCanMapProcess = push_bit 23 1"

definition KMemoryState_FlagCanChangeAttribute :: u32 where
  "KMemoryState_FlagCanChangeAttribute = push_bit 24 1"

definition KMemoryState_FlagCanCodeMemory :: u32 where
  "KMemoryState_FlagCanCodeMemory = push_bit 25 1"

definition KMemoryState_FlagLinearMapped :: u32 where
  "KMemoryState_FlagLinearMapped = push_bit 26 1"

definition KMemoryState_FlagCanPermissionLock :: u32 where
  "KMemoryState_FlagCanPermissionLock = push_bit 27 1"

definition KMemoryState_FlagsData :: u32 where
  "KMemoryState_FlagsData = KMemoryState_FlagCanReprotect OR KMemoryState_FlagCanUseIpc OR
     KMemoryState_FlagCanUseNonDeviceIpc OR KMemoryState_FlagCanUseNonSecureIpc OR
     KMemoryState_FlagMapped OR KMemoryState_FlagCanAlias OR KMemoryState_FlagCanTransfer OR
     KMemoryState_FlagCanQueryPhysical OR KMemoryState_FlagCanDeviceMap OR
     KMemoryState_FlagCanAlignedDeviceMap OR KMemoryState_FlagCanIpcUserBuffer OR
     KMemoryState_FlagReferenceCounted OR KMemoryState_FlagCanChangeAttribute OR
     KMemoryState_FlagLinearMapped"

definition KMemoryState_FlagsCode :: u32 where
  "KMemoryState_FlagsCode = KMemoryState_FlagCanDebug OR KMemoryState_FlagCanUseIpc OR
     KMemoryState_FlagCanUseNonDeviceIpc OR KMemoryState_FlagCanUseNonSecureIpc OR
     KMemoryState_FlagMapped OR KMemoryState_FlagCode OR KMemoryState_FlagCanQueryPhysical OR
     KMemoryState_FlagCanDeviceMap OR KMemoryState_FlagCanAlignedDeviceMap OR
     KMemoryState_FlagReferenceCounted OR KMemoryState_FlagLinearMapped"

definition KMemoryState_FlagsMisc :: u32 where
  "KMemoryState_FlagsMisc = KMemoryState_FlagMapped OR KMemoryState_FlagReferenceCounted OR
     KMemoryState_FlagCanQueryPhysical OR KMemoryState_FlagCanDeviceMap OR
     KMemoryState_FlagLinearMapped"

definition KMemoryState_Free :: u32 where
  "KMemoryState_Free = Svc_MemoryState_Free"

definition KMemoryState_IoMemory :: u32 where
  "KMemoryState_IoMemory = Svc_MemoryState_Io OR KMemoryState_FlagMapped OR
     KMemoryState_FlagCanDeviceMap OR KMemoryState_FlagCanAlignedDeviceMap"

definition KMemoryState_IoRegister :: u32 where
  "KMemoryState_IoRegister = Svc_MemoryState_Io OR KMemoryState_FlagCanDeviceMap OR
     KMemoryState_FlagCanAlignedDeviceMap"

definition KMemoryState_Static :: u32 where
  "KMemoryState_Static = Svc_MemoryState_Static OR KMemoryState_FlagMapped OR
     KMemoryState_FlagCanQueryPhysical"

definition KMemoryState_Code :: u32 where
  "KMemoryState_Code = Svc_MemoryState_Code OR KMemoryState_FlagsCode OR
     KMemoryState_FlagCanMapProcess"

definition KMemoryState_CodeData :: u32 where
  "KMemoryState_CodeData = Svc_MemoryState_CodeData OR KMemoryState_FlagsData OR
     KMemoryState_FlagCanMapProcess OR KMemoryState_FlagCanCodeMemory OR
     KMemoryState_FlagCanPermissionLock"

definition KMemoryState_Normal :: u32 where
  "KMemoryState_Normal = Svc_MemoryState_Normal OR KMemoryState_FlagsData OR
     KMemoryState_FlagCanCodeMemory"

definition KMemoryState_Shared :: u32 where
  "KMemoryState_Shared = Svc_MemoryState_Shared OR KMemoryState_FlagMapped OR
     KMemoryState_FlagReferenceCounted OR KMemoryState_FlagLinearMapped"

definition KMemoryState_AliasCode :: u32 where
  "KMemoryState_AliasCode = Svc_MemoryState_AliasCode OR KMemoryState_FlagsCode OR
     KMemoryState_FlagCanMapProcess OR KMemoryState_FlagCanCodeAlias"

definition KMemoryState_AliasCodeData :: u32 where
  "KMemoryState_AliasCodeData = Svc_MemoryState_AliasCodeData OR KMemoryState_FlagsData OR
     KMemoryState_FlagCanMapProcess OR KMemoryState_FlagCanCodeAlias OR
     KMemoryState_FlagCanCodeMemory OR KMemoryState_FlagCanPermissionLock"

definition KMemoryState_Ipc :: u32 where
  "KMemoryState_Ipc = Svc_MemoryState_Ipc OR KMemoryState_FlagsMisc OR
     KMemoryState_FlagCanAlignedDeviceMap OR KMemoryState_FlagCanUseIpc OR
     KMemoryState_FlagCanUseNonSecureIpc OR KMemoryState_FlagCanUseNonDeviceIpc"

definition KMemoryState_Stack :: u32 where
  "KMemoryState_Stack = Svc_MemoryState_Stack OR KMemoryState_FlagsMisc OR
     KMemoryState_FlagCanAlignedDeviceMap OR KMemoryState_FlagCanUseIpc OR
     KMemoryState_FlagCanUseNonSecureIpc OR KMemoryState_FlagCanUseNonDeviceIpc"

definition KMemoryState_ThreadLocal :: u32 where
  "KMemoryState_ThreadLocal = Svc_MemoryState_ThreadLocal OR KMemoryState_FlagLinearMapped"

definition KMemoryState_Transferred :: u32 where
  "KMemoryState_Transferred = Svc_MemoryState_Transferred OR KMemoryState_FlagsMisc OR
     KMemoryState_FlagCanAlignedDeviceMap OR KMemoryState_FlagCanChangeAttribute OR
     KMemoryState_FlagCanUseIpc OR KMemoryState_FlagCanUseNonSecureIpc OR
     KMemoryState_FlagCanUseNonDeviceIpc"

definition KMemoryState_SharedTransferred :: u32 where
  "KMemoryState_SharedTransferred = Svc_MemoryState_SharedTransferred OR KMemoryState_FlagsMisc OR
     KMemoryState_FlagCanAlignedDeviceMap OR KMemoryState_FlagCanUseNonSecureIpc OR
     KMemoryState_FlagCanUseNonDeviceIpc"

definition KMemoryState_SharedCode :: u32 where
  "KMemoryState_SharedCode = Svc_MemoryState_SharedCode OR KMemoryState_FlagMapped OR
     KMemoryState_FlagReferenceCounted OR KMemoryState_FlagLinearMapped OR
     KMemoryState_FlagCanUseNonSecureIpc OR KMemoryState_FlagCanUseNonDeviceIpc"

definition KMemoryState_Inaccessible :: u32 where
  "KMemoryState_Inaccessible = Svc_MemoryState_Inaccessible"

definition KMemoryState_NonSecureIpc :: u32 where
  "KMemoryState_NonSecureIpc = Svc_MemoryState_NonSecureIpc OR KMemoryState_FlagsMisc OR
     KMemoryState_FlagCanAlignedDeviceMap OR KMemoryState_FlagCanUseNonSecureIpc OR
     KMemoryState_FlagCanUseNonDeviceIpc"

definition KMemoryState_NonDeviceIpc :: u32 where
  "KMemoryState_NonDeviceIpc = Svc_MemoryState_NonDeviceIpc OR KMemoryState_FlagsMisc OR
     KMemoryState_FlagCanUseNonDeviceIpc"

definition KMemoryState_Kernel :: u32 where
  "KMemoryState_Kernel = Svc_MemoryState_Kernel"

definition KMemoryState_GeneratedCode :: u32 where
  "KMemoryState_GeneratedCode = Svc_MemoryState_GeneratedCode OR KMemoryState_FlagMapped OR
     KMemoryState_FlagReferenceCounted OR KMemoryState_FlagCanDebug OR
     KMemoryState_FlagLinearMapped"

definition KMemoryState_CodeOut :: u32 where
  "KMemoryState_CodeOut = Svc_MemoryState_CodeOut OR KMemoryState_FlagMapped OR
     KMemoryState_FlagReferenceCounted OR KMemoryState_FlagLinearMapped"

definition KMemoryState_Coverage :: u32 where
  "KMemoryState_Coverage = Svc_MemoryState_Coverage OR KMemoryState_FlagMapped"

definition KMemoryState_Insecure :: u32 where
  "KMemoryState_Insecure = Svc_MemoryState_Insecure OR KMemoryState_FlagMapped OR
     KMemoryState_FlagReferenceCounted OR KMemoryState_FlagLinearMapped OR
     KMemoryState_FlagCanChangeAttribute OR KMemoryState_FlagCanDeviceMap OR
     KMemoryState_FlagCanAlignedDeviceMap OR KMemoryState_FlagCanQueryPhysical OR
     KMemoryState_FlagCanUseNonSecureIpc OR KMemoryState_FlagCanUseNonDeviceIpc"

section \<open>\<^verbatim>\<open>KMemoryPermission\<close>\<close>

definition KernelShift :: nat where
  "KernelShift = 3"

definition KMemoryPermission_None :: u8 where
  "KMemoryPermission_None = 0"

definition KMemoryPermission_All :: u8 where
  "KMemoryPermission_All = NOT KMemoryPermission_None"

definition KMemoryPermission_KernelRead :: u8 where
  "KMemoryPermission_KernelRead = push_bit KernelShift (ucast Svc_MemoryPermission_Read)"

definition KMemoryPermission_KernelWrite :: u8 where
  "KMemoryPermission_KernelWrite = push_bit KernelShift (ucast Svc_MemoryPermission_Write)"

definition KMemoryPermission_KernelExecute :: u8 where
  "KMemoryPermission_KernelExecute = push_bit KernelShift (ucast Svc_MemoryPermission_Execute)"

definition KMemoryPermission_NotMapped :: u8 where
  "KMemoryPermission_NotMapped = push_bit (2 * KernelShift) 1"

definition KMemoryPermission_KernelReadWrite :: u8 where
  "KMemoryPermission_KernelReadWrite = KMemoryPermission_KernelRead OR
     KMemoryPermission_KernelWrite"

definition KMemoryPermission_KernelReadExecute :: u8 where
  "KMemoryPermission_KernelReadExecute = KMemoryPermission_KernelRead OR
     KMemoryPermission_KernelExecute"

definition KMemoryPermission_UserRead :: u8 where
  "KMemoryPermission_UserRead = ucast Svc_MemoryPermission_Read OR KMemoryPermission_KernelRead"

definition KMemoryPermission_UserWrite :: u8 where
  "KMemoryPermission_UserWrite = ucast Svc_MemoryPermission_Write OR
     KMemoryPermission_KernelWrite"

definition KMemoryPermission_UserExecute :: u8 where
  "KMemoryPermission_UserExecute = ucast Svc_MemoryPermission_Execute"

definition KMemoryPermission_UserReadWrite :: u8 where
  "KMemoryPermission_UserReadWrite = KMemoryPermission_UserRead OR KMemoryPermission_UserWrite"

definition KMemoryPermission_UserReadExecute :: u8 where
  "KMemoryPermission_UserReadExecute = KMemoryPermission_UserRead OR
     KMemoryPermission_UserExecute"

definition KMemoryPermission_UserMask :: u8 where
  "KMemoryPermission_UserMask = ucast (Svc_MemoryPermission_Read OR Svc_MemoryPermission_Write OR
     Svc_MemoryPermission_Execute)"

definition KMemoryPermission_IpcLockChangeMask :: u8 where
  "KMemoryPermission_IpcLockChangeMask = KMemoryPermission_NotMapped OR
     KMemoryPermission_UserReadWrite"

section \<open>\<^verbatim>\<open>KMemoryAttribute\<close> and \<^verbatim>\<open>KMemoryBlockDisableMergeAttribute\<close>\<close>

definition KMemoryAttribute_None :: u8 where
  "KMemoryAttribute_None = 0"

definition KMemoryAttribute_All :: u8 where
  "KMemoryAttribute_All = 255"

definition KMemoryAttribute_UserMask :: u8 where
  "KMemoryAttribute_UserMask = KMemoryAttribute_All"

definition KMemoryAttribute_Locked :: u8 where
  "KMemoryAttribute_Locked = ucast Svc_MemoryAttribute_Locked"

definition KMemoryAttribute_IpcLocked :: u8 where
  "KMemoryAttribute_IpcLocked = ucast Svc_MemoryAttribute_IpcLocked"

definition KMemoryAttribute_DeviceShared :: u8 where
  "KMemoryAttribute_DeviceShared = ucast Svc_MemoryAttribute_DeviceShared"

definition KMemoryAttribute_Uncached :: u8 where
  "KMemoryAttribute_Uncached = ucast Svc_MemoryAttribute_Uncached"

definition KMemoryAttribute_PermissionLocked :: u8 where
  "KMemoryAttribute_PermissionLocked = ucast Svc_MemoryAttribute_PermissionLocked"

definition KMemoryAttribute_SetMask :: u8 where
  "KMemoryAttribute_SetMask = KMemoryAttribute_Uncached OR KMemoryAttribute_PermissionLocked"

definition DisableMergeAttribute_None :: u8 where
  "DisableMergeAttribute_None = 0"

definition DisableMergeAttribute_Normal :: u8 where
  "DisableMergeAttribute_Normal = push_bit 0 1"

definition DisableMergeAttribute_DeviceLeft :: u8 where
  "DisableMergeAttribute_DeviceLeft = push_bit 1 1"

definition DisableMergeAttribute_IpcLeft :: u8 where
  "DisableMergeAttribute_IpcLeft = push_bit 2 1"

definition DisableMergeAttribute_Locked :: u8 where
  "DisableMergeAttribute_Locked = push_bit 3 1"

definition DisableMergeAttribute_DeviceRight :: u8 where
  "DisableMergeAttribute_DeviceRight = push_bit 4 1"

definition DisableMergeAttribute_AllLeft :: u8 where
  "DisableMergeAttribute_AllLeft = DisableMergeAttribute_Normal OR
     DisableMergeAttribute_DeviceLeft OR DisableMergeAttribute_IpcLeft OR
     DisableMergeAttribute_Locked"

definition DisableMergeAttribute_AllRight :: u8 where
  "DisableMergeAttribute_AllRight = DisableMergeAttribute_DeviceRight"

section \<open>Numeric values\<close>

lemmas Svc_defs =
  Svc_MemoryState_Free_def
  Svc_MemoryState_Io_def
  Svc_MemoryState_Static_def
  Svc_MemoryState_Code_def
  Svc_MemoryState_CodeData_def
  Svc_MemoryState_Normal_def
  Svc_MemoryState_Shared_def
  Svc_MemoryState_Alias_def
  Svc_MemoryState_AliasCode_def
  Svc_MemoryState_AliasCodeData_def
  Svc_MemoryState_Ipc_def
  Svc_MemoryState_Stack_def
  Svc_MemoryState_ThreadLocal_def
  Svc_MemoryState_Transferred_def
  Svc_MemoryState_SharedTransferred_def
  Svc_MemoryState_SharedCode_def
  Svc_MemoryState_Inaccessible_def
  Svc_MemoryState_NonSecureIpc_def
  Svc_MemoryState_NonDeviceIpc_def
  Svc_MemoryState_Kernel_def
  Svc_MemoryState_GeneratedCode_def
  Svc_MemoryState_CodeOut_def
  Svc_MemoryState_Coverage_def
  Svc_MemoryState_Insecure_def
  Svc_MemoryAttribute_Locked_def
  Svc_MemoryAttribute_IpcLocked_def
  Svc_MemoryAttribute_DeviceShared_def
  Svc_MemoryAttribute_Uncached_def
  Svc_MemoryAttribute_PermissionLocked_def
  Svc_MemoryPermission_None_def
  Svc_MemoryPermission_Read_def
  Svc_MemoryPermission_Write_def
  Svc_MemoryPermission_Execute_def
  Svc_MemoryPermission_ReadWrite_def
  Svc_MemoryPermission_ReadExecute_def
  Svc_MemoryPermission_DontCare_def

lemmas KMemoryState_defs =
  KMemoryState_None_def
  KMemoryState_Mask_def
  KMemoryState_All_def
  KMemoryState_FlagCanReprotect_def
  KMemoryState_FlagCanDebug_def
  KMemoryState_FlagCanUseIpc_def
  KMemoryState_FlagCanUseNonDeviceIpc_def
  KMemoryState_FlagCanUseNonSecureIpc_def
  KMemoryState_FlagMapped_def
  KMemoryState_FlagCode_def
  KMemoryState_FlagCanAlias_def
  KMemoryState_FlagCanCodeAlias_def
  KMemoryState_FlagCanTransfer_def
  KMemoryState_FlagCanQueryPhysical_def
  KMemoryState_FlagCanDeviceMap_def
  KMemoryState_FlagCanAlignedDeviceMap_def
  KMemoryState_FlagCanIpcUserBuffer_def
  KMemoryState_FlagReferenceCounted_def
  KMemoryState_FlagCanMapProcess_def
  KMemoryState_FlagCanChangeAttribute_def
  KMemoryState_FlagCanCodeMemory_def
  KMemoryState_FlagLinearMapped_def
  KMemoryState_FlagCanPermissionLock_def
  KMemoryState_FlagsData_def
  KMemoryState_FlagsCode_def
  KMemoryState_FlagsMisc_def
  KMemoryState_Free_def
  KMemoryState_IoMemory_def
  KMemoryState_IoRegister_def
  KMemoryState_Static_def
  KMemoryState_Code_def
  KMemoryState_CodeData_def
  KMemoryState_Normal_def
  KMemoryState_Shared_def
  KMemoryState_AliasCode_def
  KMemoryState_AliasCodeData_def
  KMemoryState_Ipc_def
  KMemoryState_Stack_def
  KMemoryState_ThreadLocal_def
  KMemoryState_Transferred_def
  KMemoryState_SharedTransferred_def
  KMemoryState_SharedCode_def
  KMemoryState_Inaccessible_def
  KMemoryState_NonSecureIpc_def
  KMemoryState_NonDeviceIpc_def
  KMemoryState_Kernel_def
  KMemoryState_GeneratedCode_def
  KMemoryState_CodeOut_def
  KMemoryState_Coverage_def
  KMemoryState_Insecure_def

lemmas KMemoryPermission_defs =
  KMemoryPermission_None_def
  KMemoryPermission_All_def
  KMemoryPermission_KernelRead_def
  KMemoryPermission_KernelWrite_def
  KMemoryPermission_KernelExecute_def
  KMemoryPermission_NotMapped_def
  KMemoryPermission_KernelReadWrite_def
  KMemoryPermission_KernelReadExecute_def
  KMemoryPermission_UserRead_def
  KMemoryPermission_UserWrite_def
  KMemoryPermission_UserExecute_def
  KMemoryPermission_UserReadWrite_def
  KMemoryPermission_UserReadExecute_def
  KMemoryPermission_UserMask_def
  KMemoryPermission_IpcLockChangeMask_def

lemmas KMemoryAttribute_defs =
  KMemoryAttribute_None_def
  KMemoryAttribute_All_def
  KMemoryAttribute_UserMask_def
  KMemoryAttribute_Locked_def
  KMemoryAttribute_IpcLocked_def
  KMemoryAttribute_DeviceShared_def
  KMemoryAttribute_Uncached_def
  KMemoryAttribute_PermissionLocked_def
  KMemoryAttribute_SetMask_def

lemmas DisableMergeAttribute_defs =
  DisableMergeAttribute_None_def
  DisableMergeAttribute_Normal_def
  DisableMergeAttribute_DeviceLeft_def
  DisableMergeAttribute_IpcLeft_def
  DisableMergeAttribute_Locked_def
  DisableMergeAttribute_DeviceRight_def
  DisableMergeAttribute_AllLeft_def
  DisableMergeAttribute_AllRight_def

text \<open>The values the header fixes with \<^verbatim>\<open>static_assert\<close>.\<close>

lemma KMemoryState_values:
  "KMemoryState_Free = 0"
  "KMemoryState_IoMemory = 1581057"
  "KMemoryState_IoRegister = 1572865"
  "KMemoryState_Static = 270338"
  "KMemoryState_Code = 81559043"
  "KMemoryState_CodeData = 268352772"
  "KMemoryState_Normal = 125746437"
  "KMemoryState_Shared = 71311366"
  "KMemoryState_AliasCode = 81624584"
  "KMemoryState_AliasCodeData = 268418313"
  "KMemoryState_Ipc = 73153546"
  "KMemoryState_Stack = 73153547"
  "KMemoryState_ThreadLocal = 67108876"
  "KMemoryState_Transferred = 89930765"
  "KMemoryState_SharedTransferred = 73152526"
  "KMemoryState_SharedCode = 71317519"
  "KMemoryState_Inaccessible = 16"
  "KMemoryState_NonSecureIpc = 73152529"
  "KMemoryState_NonDeviceIpc = 72099858"
  "KMemoryState_Kernel = 19"
  "KMemoryState_GeneratedCode = 71311892"
  "KMemoryState_CodeOut = 71311381"
  "KMemoryState_Coverage = 8214"
  "KMemoryState_Insecure = 89929751"
  by (simp_all add: KMemoryState_defs Svc_defs)

lemma KMemoryPermission_values [flag_simps]:
  "KMemoryPermission_None = 0"
  "KMemoryPermission_All = 255"
  "KMemoryPermission_KernelRead = 8"
  "KMemoryPermission_KernelWrite = 16"
  "KMemoryPermission_KernelExecute = 32"
  "KMemoryPermission_NotMapped = 64"
  "KMemoryPermission_KernelReadWrite = 24"
  "KMemoryPermission_KernelReadExecute = 40"
  "KMemoryPermission_UserRead = 9"
  "KMemoryPermission_UserWrite = 18"
  "KMemoryPermission_UserExecute = 4"
  "KMemoryPermission_UserReadWrite = 27"
  "KMemoryPermission_UserReadExecute = 13"
  "KMemoryPermission_UserMask = 7"
  "KMemoryPermission_IpcLockChangeMask = 91"
  by (simp_all add: KMemoryPermission_defs Svc_defs KernelShift_def)

lemma KMemoryAttribute_values [flag_simps]:
  "KMemoryAttribute_None = 0"
  "KMemoryAttribute_All = 255"
  "KMemoryAttribute_UserMask = 255"
  "KMemoryAttribute_Locked = 1"
  "KMemoryAttribute_IpcLocked = 2"
  "KMemoryAttribute_DeviceShared = 4"
  "KMemoryAttribute_Uncached = 8"
  "KMemoryAttribute_PermissionLocked = 16"
  "KMemoryAttribute_SetMask = 24"
  by (simp_all add: KMemoryAttribute_defs Svc_defs)

lemma DisableMergeAttribute_values [flag_simps]:
  "DisableMergeAttribute_None = 0"
  "DisableMergeAttribute_Normal = 1"
  "DisableMergeAttribute_DeviceLeft = 2"
  "DisableMergeAttribute_IpcLeft = 4"
  "DisableMergeAttribute_Locked = 8"
  "DisableMergeAttribute_DeviceRight = 16"
  "DisableMergeAttribute_AllLeft = 15"
  "DisableMergeAttribute_AllRight = 16"
  by (simp_all add: DisableMergeAttribute_defs)

end
