(* ===== verification/Memory_Block.thy ===== *)
theory Memory_Block
  imports Memory_State
begin

text \<open>
  \<^verbatim>\<open>KMemoryBlock\<close> and \<^verbatim>\<open>KMemoryInfo\<close> of \<^verbatim>\<open>k_memory_block.h\<close>: a run of guest pages that share one state,
  permission and attribute set, with the counters of the IPC and device locks held on it.  The
  methods are the operations the block manager performs on single blocks: splitting, merging,
  updating, and the lock and unlock functions passed to \<^verbatim>\<open>UpdateLock\<close>.  The red-black-tree node
  the C++ class inherits from is left to the manager, which keeps the blocks in address order.

  Shown here: \<open>Split\<close> followed by \<open>Add\<close> gives the block back, locking for IPC never adds a
  permission, and unlocking undoes locking exactly, for IPC locks and for device sharing, on every
  block whose counters and flags agree.
\<close>

section \<open>Data\<close>

record KMemoryBlock =
  m_device_disable_merge_left_count :: u16
  m_device_disable_merge_right_count :: u16
  m_address :: addr
  m_num_pages :: size64
  m_memory_state :: u32
  m_ipc_lock_count :: u16
  m_device_use_count :: u16
  m_ipc_disable_merge_count :: u16
  m_permission :: u8
  m_original_permission :: u8
  m_attribute :: u8
  m_disable_merge_attribute :: u8

record KMemoryInfo =
  mi_address :: addr
  mi_size :: size64
  mi_state :: u32
  mi_device_disable_merge_left_count :: u16
  mi_device_disable_merge_right_count :: u16
  mi_ipc_lock_count :: u16
  mi_device_use_count :: u16
  mi_ipc_disable_merge_count :: u16
  mi_permission :: u8
  mi_attribute :: u8
  mi_original_permission :: u8
  mi_disable_merge_attribute :: u8

record Svc_MemoryInfo =
  base_address :: addr
  svc_size :: size64
  svc_state :: u32
  svc_attribute :: u32
  svc_permission :: u32
  ipc_count :: u32
  device_count :: u32
  svc_padding :: u32

definition ConvertToKMemoryPermission :: "u32 \<Rightarrow> u8" where
  "ConvertToKMemoryPermission perm =
     (ucast perm AND KMemoryPermission_UserMask) OR
     KMemoryPermission_KernelRead OR
     push_bit KernelShift (ucast perm AND KMemoryPermission_UserWrite) OR
     (if perm = Svc_MemoryPermission_None then KMemoryPermission_NotMapped
      else KMemoryPermission_None)"

section \<open>Accessors\<close>

definition KMemoryInfo_GetSvcMemoryInfo :: "KMemoryInfo \<Rightarrow> Svc_MemoryInfo" where
  "KMemoryInfo_GetSvcMemoryInfo i =
     \<lparr>base_address = mi_address i,
      svc_size = mi_size i,
      svc_state = mi_state i AND KMemoryState_Mask,
      svc_attribute = ucast (mi_attribute i AND KMemoryAttribute_UserMask),
      svc_permission = ucast (mi_permission i AND KMemoryPermission_UserMask),
      ipc_count = ucast (mi_ipc_lock_count i),
      device_count = ucast (mi_device_use_count i),
      svc_padding = 0\<rparr>"

definition KMemoryInfo_GetNumPages :: "KMemoryInfo \<Rightarrow> size64" where
  "KMemoryInfo_GetNumPages i = mi_size i div PageSize"

definition KMemoryInfo_GetEndAddress :: "KMemoryInfo \<Rightarrow> addr" where
  "KMemoryInfo_GetEndAddress i = add64 (mi_address i) (mi_size i)"

definition KMemoryInfo_GetLastAddress :: "KMemoryInfo \<Rightarrow> addr" where
  "KMemoryInfo_GetLastAddress i = sub64 (KMemoryInfo_GetEndAddress i) 1"

definition KMemoryInfo_GetSvcState :: "KMemoryInfo \<Rightarrow> u32" where
  "KMemoryInfo_GetSvcState i = mi_state i AND KMemoryState_Mask"

definition KMemoryBlock_GetSize :: "KMemoryBlock \<Rightarrow> size64" where
  "KMemoryBlock_GetSize b = mul64 (m_num_pages b) PageSize"

definition KMemoryBlock_GetEndAddress :: "KMemoryBlock \<Rightarrow> addr" where
  "KMemoryBlock_GetEndAddress b = add64 (m_address b) (KMemoryBlock_GetSize b)"

definition KMemoryBlock_GetLastAddress :: "KMemoryBlock \<Rightarrow> addr" where
  "KMemoryBlock_GetLastAddress b = sub64 (KMemoryBlock_GetEndAddress b) 1"

definition KMemoryBlock_Compare :: "KMemoryBlock \<Rightarrow> KMemoryBlock \<Rightarrow> int" where
  "KMemoryBlock_Compare lhs rhs =
     (if m_address lhs < m_address rhs then -1
      else if m_address lhs \<le> KMemoryBlock_GetLastAddress rhs then 0
      else 1)"

definition KMemoryBlock_GetMemoryInfo :: "KMemoryBlock \<Rightarrow> KMemoryInfo" where
  "KMemoryBlock_GetMemoryInfo b =
     \<lparr>mi_address = m_address b,
      mi_size = KMemoryBlock_GetSize b,
      mi_state = m_memory_state b,
      mi_device_disable_merge_left_count = m_device_disable_merge_left_count b,
      mi_device_disable_merge_right_count = m_device_disable_merge_right_count b,
      mi_ipc_lock_count = m_ipc_lock_count b,
      mi_device_use_count = m_device_use_count b,
      mi_ipc_disable_merge_count = m_ipc_disable_merge_count b,
      mi_permission = m_permission b,
      mi_attribute = m_attribute b,
      mi_original_permission = m_original_permission b,
      mi_disable_merge_attribute = m_disable_merge_attribute b\<rparr>"

section \<open>Construction and comparison\<close>

definition KMemoryBlock_new :: "addr \<Rightarrow> size64 \<Rightarrow> u32 \<Rightarrow> u8 \<Rightarrow> u8 \<Rightarrow> KMemoryBlock" where
  "KMemoryBlock_new addr np ms p attr =
     \<lparr>m_device_disable_merge_left_count = 0,
      m_device_disable_merge_right_count = 0,
      m_address = addr,
      m_num_pages = np,
      m_memory_state = ms,
      m_ipc_lock_count = 0,
      m_device_use_count = 0,
      m_ipc_disable_merge_count = 0,
      m_permission = p,
      m_original_permission = KMemoryPermission_None,
      m_attribute = attr,
      m_disable_merge_attribute = DisableMergeAttribute_None\<rparr>"

definition KMemoryBlock_Initialize ::
    "KMemoryBlock \<Rightarrow> addr \<Rightarrow> size64 \<Rightarrow> u32 \<Rightarrow> u8 \<Rightarrow> u8 \<Rightarrow> KMemoryBlock" where
  "KMemoryBlock_Initialize b addr np ms p attr =
     b\<lparr>m_device_disable_merge_left_count := 0,
       m_device_disable_merge_right_count := 0,
       m_address := addr,
       m_num_pages := np,
       m_memory_state := ms,
       m_ipc_lock_count := 0,
       m_device_use_count := 0,
       m_permission := p,
       m_original_permission := KMemoryPermission_None,
       m_attribute := attr,
       m_disable_merge_attribute := DisableMergeAttribute_None\<rparr>"

definition AttributeIgnoreMask :: u8 where
  "AttributeIgnoreMask = KMemoryAttribute_IpcLocked OR KMemoryAttribute_DeviceShared"

definition KMemoryBlock_HasProperties :: "KMemoryBlock \<Rightarrow> u32 \<Rightarrow> u8 \<Rightarrow> u8 \<Rightarrow> bool" where
  "KMemoryBlock_HasProperties b s p a \<longleftrightarrow>
     m_memory_state b = s \<and> m_permission b = p \<and>
     (m_attribute b OR AttributeIgnoreMask) = (a OR AttributeIgnoreMask)"

definition KMemoryBlock_HasSameProperties :: "KMemoryBlock \<Rightarrow> KMemoryBlock \<Rightarrow> bool" where
  "KMemoryBlock_HasSameProperties b rhs \<longleftrightarrow>
     m_memory_state b = m_memory_state rhs \<and> m_permission b = m_permission rhs \<and>
     m_original_permission b = m_original_permission rhs \<and>
     m_attribute b = m_attribute rhs \<and> m_ipc_lock_count b = m_ipc_lock_count rhs \<and>
     m_device_use_count b = m_device_use_count rhs"

definition KMemoryBlock_CanMergeWith :: "KMemoryBlock \<Rightarrow> KMemoryBlock \<Rightarrow> bool" where
  "KMemoryBlock_CanMergeWith b rhs \<longleftrightarrow>
     KMemoryBlock_HasSameProperties b rhs \<and>
     (m_disable_merge_attribute b AND DisableMergeAttribute_AllRight) =
       DisableMergeAttribute_None \<and>
     (m_disable_merge_attribute rhs AND DisableMergeAttribute_AllLeft) =
       DisableMergeAttribute_None"

definition KMemoryBlock_Contains :: "KMemoryBlock \<Rightarrow> addr \<Rightarrow> bool" where
  "KMemoryBlock_Contains b addr \<longleftrightarrow>
     m_address b \<le> addr \<and> addr \<le> KMemoryBlock_GetEndAddress b"

section \<open>Merging, updating and splitting\<close>

definition KMemoryBlock_Add :: "KMemoryBlock \<Rightarrow> KMemoryBlock \<Rightarrow> KMemoryBlock" where
  "KMemoryBlock_Add b added =
     b\<lparr>m_num_pages := add64 (m_num_pages b) (m_num_pages added),
       m_disable_merge_attribute :=
         m_disable_merge_attribute b OR m_disable_merge_attribute added,
       m_device_disable_merge_right_count := m_device_disable_merge_right_count added\<rparr>"

definition KMemoryBlock_Update ::
    "KMemoryBlock \<Rightarrow> u32 \<Rightarrow> u8 \<Rightarrow> u8 \<Rightarrow> bool \<Rightarrow> u8 \<Rightarrow> u8 \<Rightarrow> KMemoryBlock" where
  "KMemoryBlock_Update b s p a set_disable_merge_attr set_mask clear_mask =
     (let b1 = b\<lparr>m_memory_state := s,
                 m_permission := p,
                 m_attribute := a OR (m_attribute b AND
                   (KMemoryAttribute_IpcLocked OR KMemoryAttribute_DeviceShared))\<rparr>;
          b2 = (if set_disable_merge_attr \<and> set_mask \<noteq> 0
                then b1\<lparr>m_disable_merge_attribute := m_disable_merge_attribute b1 OR set_mask\<rparr>
                else b1)
      in if clear_mask \<noteq> 0
         then b2\<lparr>m_disable_merge_attribute := m_disable_merge_attribute b2 AND NOT clear_mask\<rparr>
         else b2)"

definition KMemoryBlock_Update_asserts :: "KMemoryBlock \<Rightarrow> bool" where
  "KMemoryBlock_Update_asserts b \<longleftrightarrow>
     m_original_permission b = KMemoryPermission_None \<and>
     (m_attribute b AND KMemoryAttribute_IpcLocked) = KMemoryAttribute_None"

definition KMemoryBlock_UpdateAttribute :: "KMemoryBlock \<Rightarrow> u8 \<Rightarrow> u8 \<Rightarrow> KMemoryBlock" where
  "KMemoryBlock_UpdateAttribute b attr_mask attr =
     b\<lparr>m_attribute := (m_attribute b AND NOT attr_mask) OR attr\<rparr>"

text \<open>
  \<open>Split\<close> returns the new left block and the receiver, which keeps the right part.  Every field of
  the new block is written, so what the allocated node held before does not matter.
\<close>

definition KMemoryBlock_Split :: "KMemoryBlock \<Rightarrow> addr \<Rightarrow> KMemoryBlock \<times> KMemoryBlock" where
  "KMemoryBlock_Split b addr =
     (let block =
        \<lparr>m_device_disable_merge_left_count = m_device_disable_merge_left_count b,
         m_device_disable_merge_right_count = 0,
         m_address = m_address b,
         m_num_pages = sub64 addr (m_address b) div PageSize,
         m_memory_state = m_memory_state b,
         m_ipc_lock_count = m_ipc_lock_count b,
         m_device_use_count = m_device_use_count b,
         m_ipc_disable_merge_count = m_ipc_disable_merge_count b,
         m_permission = m_permission b,
         m_original_permission = m_original_permission b,
         m_attribute = m_attribute b,
         m_disable_merge_attribute =
           m_disable_merge_attribute b AND DisableMergeAttribute_AllLeft\<rparr>
      in (block,
          b\<lparr>m_address := addr,
            m_num_pages := sub64 (m_num_pages b) (m_num_pages block),
            m_ipc_disable_merge_count := 0,
            m_device_disable_merge_left_count := 0,
            m_disable_merge_attribute :=
              m_disable_merge_attribute b AND DisableMergeAttribute_AllRight\<rparr>))"

definition KMemoryBlock_Split_asserts :: "KMemoryBlock \<Rightarrow> addr \<Rightarrow> bool" where
  "KMemoryBlock_Split_asserts b addr \<longleftrightarrow>
     m_address b < addr \<and> KMemoryBlock_Contains b addr \<and> IsAligned addr PageSize"

section \<open>Device sharing\<close>

definition UpdateDeviceDisableMergeStateForShareLeft ::
    "KMemoryBlock \<Rightarrow> u8 \<Rightarrow> bool \<Rightarrow> bool \<Rightarrow> KMemoryBlock" where
  "UpdateDeviceDisableMergeStateForShareLeft b new_perm left right =
     (if left
      then b\<lparr>m_disable_merge_attribute :=
               m_disable_merge_attribute b OR DisableMergeAttribute_DeviceLeft,
             m_device_disable_merge_left_count := m_device_disable_merge_left_count b + 1\<rparr>
      else b)"

definition UpdateDeviceDisableMergeStateForShareRight ::
    "KMemoryBlock \<Rightarrow> u8 \<Rightarrow> bool \<Rightarrow> bool \<Rightarrow> KMemoryBlock" where
  "UpdateDeviceDisableMergeStateForShareRight b new_perm left right =
     (if right
      then b\<lparr>m_disable_merge_attribute :=
               m_disable_merge_attribute b OR DisableMergeAttribute_DeviceRight,
             m_device_disable_merge_right_count := m_device_disable_merge_right_count b + 1\<rparr>
      else b)"

definition UpdateDeviceDisableMergeStateForShare ::
    "KMemoryBlock \<Rightarrow> u8 \<Rightarrow> bool \<Rightarrow> bool \<Rightarrow> KMemoryBlock" where
  "UpdateDeviceDisableMergeStateForShare b new_perm left right =
     UpdateDeviceDisableMergeStateForShareRight
       (UpdateDeviceDisableMergeStateForShareLeft b new_perm left right) new_perm left right"

definition KMemoryBlock_ShareToDevice ::
    "KMemoryBlock \<Rightarrow> u8 \<Rightarrow> bool \<Rightarrow> bool \<Rightarrow> KMemoryBlock" where
  "KMemoryBlock_ShareToDevice b new_perm left right =
     (let b1 = b\<lparr>m_device_use_count := m_device_use_count b + 1,
                 m_attribute := m_attribute b OR KMemoryAttribute_DeviceShared\<rparr>
      in UpdateDeviceDisableMergeStateForShare b1 new_perm left right)"

definition KMemoryBlock_ShareToDevice_asserts :: "KMemoryBlock \<Rightarrow> bool" where
  "KMemoryBlock_ShareToDevice_asserts b \<longleftrightarrow>
     ((m_attribute b AND KMemoryAttribute_DeviceShared) = KMemoryAttribute_DeviceShared \<or>
      m_device_use_count b = 0) \<and>
     m_device_use_count b + 1 > 0"

definition UpdateDeviceDisableMergeStateForUnshareLeft ::
    "KMemoryBlock \<Rightarrow> u8 \<Rightarrow> bool \<Rightarrow> bool \<Rightarrow> KMemoryBlock" where
  "UpdateDeviceDisableMergeStateForUnshareLeft b new_perm left right =
     (if left \<and> m_device_disable_merge_left_count b = 0 then b
      else
        let b1 = (if left
                  then b\<lparr>m_device_disable_merge_left_count :=
                           m_device_disable_merge_left_count b - 1\<rparr>
                  else b);
            b2 = b1\<lparr>m_device_disable_merge_left_count :=
                      min (m_device_disable_merge_left_count b1) (m_device_use_count b1)\<rparr>
        in if m_device_disable_merge_left_count b2 = 0
           then b2\<lparr>m_disable_merge_attribute :=
                     m_disable_merge_attribute b2 AND NOT DisableMergeAttribute_DeviceLeft\<rparr>
           else b2)"

definition UpdateDeviceDisableMergeStateForUnshareRight ::
    "KMemoryBlock \<Rightarrow> u8 \<Rightarrow> bool \<Rightarrow> bool \<Rightarrow> KMemoryBlock" where
  "UpdateDeviceDisableMergeStateForUnshareRight b new_perm left right =
     (if right
      then
        let old = m_device_disable_merge_right_count b;
            b1 = b\<lparr>m_device_disable_merge_right_count := old - 1\<rparr>
        in if old = 1
           then b1\<lparr>m_disable_merge_attribute :=
                     m_disable_merge_attribute b1 AND NOT DisableMergeAttribute_DeviceRight\<rparr>
           else b1
      else b)"

definition UpdateDeviceDisableMergeStateForUnshare ::
    "KMemoryBlock \<Rightarrow> u8 \<Rightarrow> bool \<Rightarrow> bool \<Rightarrow> KMemoryBlock" where
  "UpdateDeviceDisableMergeStateForUnshare b new_perm left right =
     UpdateDeviceDisableMergeStateForUnshareRight
       (UpdateDeviceDisableMergeStateForUnshareLeft b new_perm left right) new_perm left right"

definition KMemoryBlock_UnshareToDevice ::
    "KMemoryBlock \<Rightarrow> u8 \<Rightarrow> bool \<Rightarrow> bool \<Rightarrow> KMemoryBlock" where
  "KMemoryBlock_UnshareToDevice b new_perm left right =
     (let old_count = m_device_use_count b;
          b1 = b\<lparr>m_device_use_count := old_count - 1\<rparr>;
          b2 = (if old_count = 1
                then b1\<lparr>m_attribute := m_attribute b1 AND NOT KMemoryAttribute_DeviceShared\<rparr>
                else b1)
      in UpdateDeviceDisableMergeStateForUnshare b2 new_perm left right)"

definition KMemoryBlock_UnshareToDevice_asserts :: "KMemoryBlock \<Rightarrow> bool" where
  "KMemoryBlock_UnshareToDevice_asserts b \<longleftrightarrow>
     (m_attribute b AND KMemoryAttribute_DeviceShared) = KMemoryAttribute_DeviceShared \<and>
     m_device_use_count b > 0"

definition KMemoryBlock_UnshareToDeviceRight ::
    "KMemoryBlock \<Rightarrow> u8 \<Rightarrow> bool \<Rightarrow> bool \<Rightarrow> KMemoryBlock" where
  "KMemoryBlock_UnshareToDeviceRight b new_perm left right =
     (let old_count = m_device_use_count b;
          b1 = b\<lparr>m_device_use_count := old_count - 1\<rparr>;
          b2 = (if old_count = 1
                then b1\<lparr>m_attribute := m_attribute b1 AND NOT KMemoryAttribute_DeviceShared\<rparr>
                else b1)
      in UpdateDeviceDisableMergeStateForUnshareRight b2 new_perm left right)"

section \<open>IPC locking\<close>

definition KMemoryBlock_LockForIpc ::
    "KMemoryBlock \<Rightarrow> u8 \<Rightarrow> bool \<Rightarrow> bool \<Rightarrow> KMemoryBlock" where
  "KMemoryBlock_LockForIpc b new_perm left right =
     (let new_lock_count = m_ipc_lock_count b + 1;
          b1 = b\<lparr>m_ipc_lock_count := new_lock_count\<rparr>;
          b2 = (if new_lock_count = 1
                then b1\<lparr>m_original_permission := m_permission b1,
                        m_permission :=
                          (new_perm AND KMemoryPermission_IpcLockChangeMask) OR
                          (m_permission b1 AND NOT KMemoryPermission_IpcLockChangeMask)\<rparr>
                else b1);
          b3 = b2\<lparr>m_attribute := m_attribute b2 OR KMemoryAttribute_IpcLocked\<rparr>
      in if left
         then b3\<lparr>m_disable_merge_attribute :=
                   m_disable_merge_attribute b3 OR DisableMergeAttribute_IpcLeft,
                 m_ipc_disable_merge_count := m_ipc_disable_merge_count b3 + 1\<rparr>
         else b3)"


definition KMemoryBlock_UnlockForIpc ::
    "KMemoryBlock \<Rightarrow> u8 \<Rightarrow> bool \<Rightarrow> bool \<Rightarrow> KMemoryBlock" where
  "KMemoryBlock_UnlockForIpc b new_perm left right =
     (let old_lock_count = m_ipc_lock_count b;
          b1 = b\<lparr>m_ipc_lock_count := old_lock_count - 1\<rparr>;
          b2 = (if old_lock_count = 1
                then b1\<lparr>m_permission := m_original_permission b1,
                        m_original_permission := KMemoryPermission_None,
                        m_attribute := m_attribute b1 AND NOT KMemoryAttribute_IpcLocked\<rparr>
                else b1)
      in if left
         then
           let old = m_ipc_disable_merge_count b2;
               b3 = b2\<lparr>m_ipc_disable_merge_count := old - 1\<rparr>
           in if old = 1
              then b3\<lparr>m_disable_merge_attribute :=
                        m_disable_merge_attribute b3 AND NOT DisableMergeAttribute_IpcLeft\<rparr>
              else b3
         else b2)"

definition KMemoryBlock_UnlockForIpc_asserts :: "KMemoryBlock \<Rightarrow> bool \<Rightarrow> bool" where
  "KMemoryBlock_UnlockForIpc_asserts b left \<longleftrightarrow>
     (m_attribute b AND KMemoryAttribute_IpcLocked) = KMemoryAttribute_IpcLocked \<and>
     m_ipc_lock_count b > 0 \<and>
     (m_ipc_lock_count b = 1 \<longrightarrow> m_original_permission b \<noteq> KMemoryPermission_None) \<and>
     (left \<longrightarrow> m_ipc_disable_merge_count b > 0)"

section \<open>Block invariants\<close>

text \<open>
  The IPC lock counter, the saved permission and the flags of a block agree; likewise the device
  counters.  The block manager creates blocks that satisfy both, and every method below keeps them.
\<close>

definition ipc_consistent :: "KMemoryBlock \<Rightarrow> bool" where
  "ipc_consistent b \<longleftrightarrow>
     (m_ipc_lock_count b = 0 \<longleftrightarrow> m_attribute b AND KMemoryAttribute_IpcLocked = 0) \<and>
     (m_ipc_lock_count b = 0 \<longrightarrow> m_original_permission b = KMemoryPermission_None) \<and>
     (m_ipc_disable_merge_count b = 0 \<longleftrightarrow>
        m_disable_merge_attribute b AND DisableMergeAttribute_IpcLeft = 0)"

definition device_consistent :: "KMemoryBlock \<Rightarrow> bool" where
  "device_consistent b \<longleftrightarrow>
     (m_device_use_count b = 0 \<longleftrightarrow> m_attribute b AND KMemoryAttribute_DeviceShared = 0) \<and>
     m_device_disable_merge_left_count b \<le> m_device_use_count b \<and>
     (m_device_disable_merge_left_count b = 0 \<longleftrightarrow>
        m_disable_merge_attribute b AND DisableMergeAttribute_DeviceLeft = 0) \<and>
     (m_device_disable_merge_right_count b = 0 \<longleftrightarrow>
        m_disable_merge_attribute b AND DisableMergeAttribute_DeviceRight = 0)"

lemmas share_defs =
  KMemoryBlock_ShareToDevice_def UpdateDeviceDisableMergeStateForShare_def
  UpdateDeviceDisableMergeStateForShareLeft_def UpdateDeviceDisableMergeStateForShareRight_def

lemmas unshare_defs =
  KMemoryBlock_UnshareToDevice_def UpdateDeviceDisableMergeStateForUnshare_def
  UpdateDeviceDisableMergeStateForUnshareLeft_def UpdateDeviceDisableMergeStateForUnshareRight_def

section \<open>Flag and counter facts\<close>

lemma and_eq_0_bits:
  fixes x f :: "'a::len word"
  assumes "x AND f = 0" shows "\<not> (bit x n \<and> bit f n)"
  using assms by (metis bit_and_iff bit_0_eq bot_apply bot_bool_def)

lemma flag_clear_set:
  fixes x f :: "'a::len word"
  assumes "x AND f = 0"
  shows "(x OR f) AND NOT f = x"
proof (rule bit_word_eqI)
  fix n assume "n < LENGTH('a)"
  with and_eq_0_bits [OF assms, of n] show "bit ((x OR f) AND NOT f) n = bit x n"
    by (auto simp: bit_simps)
qed

lemma single_flag_or:
  fixes x :: "'a::len word"
  assumes "x AND 2 ^ k \<noteq> 0"
  shows "x OR 2 ^ k = x"
proof (rule bit_word_eqI)
  fix n assume n: "n < LENGTH('a)"
  have "bit x k"
  proof (rule ccontr)
    assume "\<not> bit x k"
    then have "x AND 2 ^ k = 0" by (intro bit_word_eqI) (auto simp: bit_simps)
    with assms show False by simp
  qed
  with n show "bit (x OR 2 ^ k) n = bit x n" by (auto simp: bit_simps)
qed

lemma single_flag_or_and_ne:
  fixes x :: "'a::len word"
  assumes "k < LENGTH('a)"
  shows "(x OR 2 ^ k) AND 2 ^ k \<noteq> 0"
  using assms by simp


lemma named_flag_or:
  "x AND KMemoryAttribute_IpcLocked \<noteq> 0 \<Longrightarrow> x OR KMemoryAttribute_IpcLocked = x"
  "x AND KMemoryAttribute_DeviceShared \<noteq> 0 \<Longrightarrow> x OR KMemoryAttribute_DeviceShared = x"
  "x AND DisableMergeAttribute_IpcLeft \<noteq> 0 \<Longrightarrow> x OR DisableMergeAttribute_IpcLeft = x"
  "x AND DisableMergeAttribute_DeviceLeft \<noteq> 0 \<Longrightarrow> x OR DisableMergeAttribute_DeviceLeft = x"
  "x AND DisableMergeAttribute_DeviceRight \<noteq> 0 \<Longrightarrow> x OR DisableMergeAttribute_DeviceRight = x"
  using single_flag_or [of x 1] single_flag_or [of x 2] single_flag_or [of x 4]
  by (simp_all add: flag_simps)

lemma named_flag_ne_0:
  "KMemoryAttribute_IpcLocked \<noteq> 0" "KMemoryAttribute_DeviceShared \<noteq> 0"
  "DisableMergeAttribute_IpcLeft \<noteq> 0" "DisableMergeAttribute_DeviceLeft \<noteq> 0"
  "DisableMergeAttribute_DeviceRight \<noteq> 0"
  by (simp_all add: flag_simps)

lemma u16_Suc_ne_0: "c \<noteq> (-1 :: u16) \<Longrightarrow> c + 1 \<noteq> 0"
  by (metis add.commute add_eq_0_iff)

lemma LockForIpc_consistent:
  assumes "ipc_consistent b" and "m_ipc_lock_count b \<noteq> -1" and "m_ipc_disable_merge_count b \<noteq> -1"
  shows "ipc_consistent (KMemoryBlock_LockForIpc b p l r)"
  using assms unfolding ipc_consistent_def KMemoryBlock_LockForIpc_def
  by (simp add: Let_def u16_Suc_ne_0 named_flag_ne_0)

lemma min_count: "c \<le> (d :: u16) \<Longrightarrow> min c d = c" by (simp add: min_def)

lemma device_flags_disjoint:
  "(x OR DisableMergeAttribute_DeviceRight) AND DisableMergeAttribute_DeviceLeft =
     x AND DisableMergeAttribute_DeviceLeft"
  "(x OR DisableMergeAttribute_DeviceLeft) AND DisableMergeAttribute_DeviceRight =
     x AND DisableMergeAttribute_DeviceRight"
  "((x OR DisableMergeAttribute_DeviceLeft) OR DisableMergeAttribute_DeviceRight) AND
     NOT DisableMergeAttribute_DeviceLeft =
   ((x OR DisableMergeAttribute_DeviceLeft) AND NOT DisableMergeAttribute_DeviceLeft) OR
     DisableMergeAttribute_DeviceRight"
  "((x OR DisableMergeAttribute_DeviceRight) AND
     NOT DisableMergeAttribute_DeviceLeft) =
   (x AND NOT DisableMergeAttribute_DeviceLeft) OR DisableMergeAttribute_DeviceRight"
  by (simp_all add: flag_simps bit.conj_disj_distrib2)

lemma flag_clear_id:
  fixes x f :: "'a::len word"
  assumes "x AND f = 0" shows "x AND NOT f = x"
proof (rule bit_word_eqI)
  fix n assume "n < LENGTH('a)"
  with and_eq_0_bits [OF assms, of n] show "bit (x AND NOT f) n = bit x n"
    by (auto simp: bit_simps)
qed

lemma ShareToDevice_eq:
  "KMemoryBlock_ShareToDevice b p l r =
     b\<lparr>m_device_use_count := m_device_use_count b + 1,
       m_attribute := m_attribute b OR KMemoryAttribute_DeviceShared,
       m_device_disable_merge_left_count :=
         m_device_disable_merge_left_count b + (if l then 1 else 0),
       m_device_disable_merge_right_count :=
         m_device_disable_merge_right_count b + (if r then 1 else 0),
       m_disable_merge_attribute :=
         (m_disable_merge_attribute b OR (if l then DisableMergeAttribute_DeviceLeft else 0)) OR
         (if r then DisableMergeAttribute_DeviceRight else 0)\<rparr>"
  by (simp add: share_defs Let_def)

lemma UnshareLeft_eq:
  assumes "m_device_disable_merge_left_count x = c + (if l then 1 else 0)" and "c + 1 \<noteq> 0"
    and "c \<le> m_device_use_count x"
  shows "UpdateDeviceDisableMergeStateForUnshareLeft x p l r =
    x\<lparr>m_device_disable_merge_left_count := c,
      m_disable_merge_attribute :=
        (if c = 0 then m_disable_merge_attribute x AND NOT DisableMergeAttribute_DeviceLeft
         else m_disable_merge_attribute x)\<rparr>"
  using assms by (cases l) (simp_all add: UpdateDeviceDisableMergeStateForUnshareLeft_def Let_def min_count)

lemma UnshareRight_eq:
  assumes "m_device_disable_merge_right_count x = c + (if r then 1 else 0)" and "c + 1 \<noteq> 0"
  shows "UpdateDeviceDisableMergeStateForUnshareRight x p l r =
    x\<lparr>m_device_disable_merge_right_count := c,
      m_disable_merge_attribute :=
        (if r \<and> c = 0 then m_disable_merge_attribute x AND NOT DisableMergeAttribute_DeviceRight
         else m_disable_merge_attribute x)\<rparr>"
  using assms by (cases r) (simp_all add: UpdateDeviceDisableMergeStateForUnshareRight_def Let_def)

lemma UnshareToDevice_eq:
  assumes "m_device_use_count x = c + 1" and "m_attribute x = a OR KMemoryAttribute_DeviceShared"
    and "c = 0 \<longleftrightarrow> a AND KMemoryAttribute_DeviceShared = 0"
  shows "KMemoryBlock_UnshareToDevice x p l r =
    UpdateDeviceDisableMergeStateForUnshare
      (x\<lparr>m_device_use_count := c, m_attribute := a\<rparr>) p l r"
  using assms by (cases x; cases "c = 0")
    (simp_all add: KMemoryBlock_UnshareToDevice_def Let_def flag_clear_set named_flag_or)

lemma device_flags_restored:
  assumes "L = (0 :: u16) \<longleftrightarrow> d AND DisableMergeAttribute_DeviceLeft = 0"
    and "R = (0 :: u16) \<longleftrightarrow> d AND DisableMergeAttribute_DeviceRight = 0"
    and "d1 = (d OR (if l then DisableMergeAttribute_DeviceLeft else 0)) OR
     (if r then DisableMergeAttribute_DeviceRight else 0)"
    and "d2 = (if L = 0 then d1 AND NOT DisableMergeAttribute_DeviceLeft else d1)"
  shows "(if r \<and> R = 0 then d2 AND NOT DisableMergeAttribute_DeviceRight else d2) = d"
proof -
  have "d2 = d OR (if r then DisableMergeAttribute_DeviceRight else 0)"
    using assms(1) unfolding assms(3,4)
    by (simp add: device_flags_disjoint flag_clear_set flag_clear_id named_flag_or)
  then show ?thesis using assms(2) by (simp add: flag_clear_set named_flag_or)
qed

section \<open>The flags as bits\<close>

lemma flag_bit_iff:
  fixes x :: "'a::len word"
  assumes "k < LENGTH('a)"
  shows "x AND 2 ^ k = 0 \<longleftrightarrow> \<not> bit x k"
proof
  assume "x AND 2 ^ k = 0"
  from and_eq_0_bits [OF this, of k] show "\<not> bit x k" using assms by (simp add: bit_simps)
next
  assume "\<not> bit x k"
  then show "x AND 2 ^ k = 0" by (intro bit_word_eqI) (auto simp: bit_simps)
qed

lemma named_flag_bits:
  "x AND KMemoryAttribute_IpcLocked = 0 \<longleftrightarrow> \<not> bit x 1"
  "x AND KMemoryAttribute_DeviceShared = 0 \<longleftrightarrow> \<not> bit x 2"
  "x AND DisableMergeAttribute_IpcLeft = 0 \<longleftrightarrow> \<not> bit x 2"
  "x AND DisableMergeAttribute_DeviceLeft = 0 \<longleftrightarrow> \<not> bit x 1"
  "x AND DisableMergeAttribute_DeviceRight = 0 \<longleftrightarrow> \<not> bit x 4"
  using flag_bit_iff [of 1 x] flag_bit_iff [of 2 x] flag_bit_iff [of 4 x]
  by (simp_all add: flag_simps)

lemma flag_word_bits:
  "bit KMemoryAttribute_IpcLocked n \<longleftrightarrow> n = 1"
  "bit KMemoryAttribute_DeviceShared n \<longleftrightarrow> n = 2"
  "bit DisableMergeAttribute_IpcLeft n \<longleftrightarrow> n = 2"
  "bit DisableMergeAttribute_DeviceLeft n \<longleftrightarrow> n = 1"
  "bit DisableMergeAttribute_DeviceRight n \<longleftrightarrow> n = 4"
  "bit DisableMergeAttribute_AllLeft n \<longleftrightarrow> n < 4"
  "bit DisableMergeAttribute_AllRight n \<longleftrightarrow> n = 4"
proof -
  have e: "bit (2 ^ k :: u8) n \<longleftrightarrow> n = k" if "k < 8" for k
    using that by (auto simp: bit_simps)
  have "bit (mask 4 :: u8) n \<longleftrightarrow> n < 4" by (auto simp: bit_mask_iff)
  then have m: "bit (15 :: u8) n \<longleftrightarrow> n < 4" by (simp add: mask_eq_exp_minus_1)
  show "bit KMemoryAttribute_IpcLocked n \<longleftrightarrow> n = 1"
    "bit KMemoryAttribute_DeviceShared n \<longleftrightarrow> n = 2"
    "bit DisableMergeAttribute_IpcLeft n \<longleftrightarrow> n = 2"
    "bit DisableMergeAttribute_DeviceLeft n \<longleftrightarrow> n = 1"
    "bit DisableMergeAttribute_DeviceRight n \<longleftrightarrow> n = 4"
    "bit DisableMergeAttribute_AllLeft n \<longleftrightarrow> n < 4"
    "bit DisableMergeAttribute_AllRight n \<longleftrightarrow> n = 4"
    using e [of 1] e [of 2] e [of 4] m by (simp_all add: flag_simps)
qed

lemmas consistent_bits = ipc_consistent_def device_consistent_def named_flag_bits

definition block_consistent :: "KMemoryBlock \<Rightarrow> bool" where
  "block_consistent b \<longleftrightarrow> ipc_consistent b \<and> device_consistent b"

lemma new_consistent:
  assumes "a AND AttributeIgnoreMask = 0"
  shows "block_consistent (KMemoryBlock_new addr np ms p a)"
proof -
  have "\<not> bit a 1" "\<not> bit a 2"
    using and_eq_0_bits [OF assms, of 1] and_eq_0_bits [OF assms, of 2]
    by (simp_all add: AttributeIgnoreMask_def bit_or_iff flag_word_bits)
  then show ?thesis
    by (simp add: block_consistent_def consistent_bits KMemoryBlock_new_def
        KMemoryPermission_values DisableMergeAttribute_values(1))
qed

lemma UnlockForIpc_consistent:
  assumes "ipc_consistent b" and "m_ipc_lock_count b \<noteq> 0" and "l \<longrightarrow> m_ipc_disable_merge_count b \<noteq> 0"
  shows "ipc_consistent (KMemoryBlock_UnlockForIpc b p l r)"
  using assms unfolding KMemoryBlock_UnlockForIpc_def
  by (cases "m_ipc_lock_count b = 1"; cases l; cases "m_ipc_disable_merge_count b = 1")
    (simp_all add: Let_def consistent_bits bit_and_iff bit_not_iff flag_word_bits)

lemma LockForIpc_device_consistent:
  assumes "device_consistent b" 
  shows "device_consistent (KMemoryBlock_LockForIpc b p l r)"
  using assms unfolding KMemoryBlock_LockForIpc_def
  by (simp add: Let_def consistent_bits bit_or_iff flag_word_bits)

lemma UnlockForIpc_device_consistent:
  assumes "device_consistent b" 
  shows "device_consistent (KMemoryBlock_UnlockForIpc b p l r)"
  using assms unfolding KMemoryBlock_UnlockForIpc_def
  by (simp add: Let_def consistent_bits bit_and_iff bit_not_iff flag_word_bits)

lemma u16_unat_Suc: "c + 1 \<noteq> (0 :: u16) \<Longrightarrow> unat (c + 1) = Suc (unat c)"
  using unatSuc [of c] by (simp add: add.commute)

lemma ShareToDevice_consistent:
  assumes "block_consistent b" and "m_device_use_count b \<noteq> -1"
    and "r \<longrightarrow> m_device_disable_merge_right_count b \<noteq> -1"
  shows "block_consistent (KMemoryBlock_ShareToDevice b p l r)"
proof -
  let ?L = "m_device_disable_merge_left_count b" and ?U = "m_device_use_count b"
  have le: "?L \<le> ?U" using assms(1) by (simp add: block_consistent_def device_consistent_def)
  then have "?L \<noteq> -1" using assms(2) by (metis word_order.extremum_uniqueI)
  then have ne: "?U + 1 \<noteq> 0" "?L + 1 \<noteq> 0"
    "r \<Longrightarrow> m_device_disable_merge_right_count b + 1 \<noteq> 0"
    using assms(2,3) u16_Suc_ne_0 by blast+
  have le': "?L + (if l then 1 else 0) \<le> ?U + 1"
    using le ne(1,2) by (simp add: word_le_nat_alt u16_unat_Suc)
  show ?thesis
    using assms(1) ne le'
    by (cases l; cases r)
      (simp_all add: ShareToDevice_eq block_consistent_def consistent_bits bit_or_iff
        flag_word_bits named_flag_ne_0)
qed

lemma Update_fields:
  "m_device_use_count (KMemoryBlock_Update b s p a f m c) = m_device_use_count b"
  "m_device_disable_merge_left_count (KMemoryBlock_Update b s p a f m c) =
     m_device_disable_merge_left_count b"
  "m_device_disable_merge_right_count (KMemoryBlock_Update b s p a f m c) =
     m_device_disable_merge_right_count b"
  "m_ipc_lock_count (KMemoryBlock_Update b s p a f m c) = m_ipc_lock_count b"
  "m_ipc_disable_merge_count (KMemoryBlock_Update b s p a f m c) = m_ipc_disable_merge_count b"
  "m_original_permission (KMemoryBlock_Update b s p a f m c) = m_original_permission b"
  "m_address (KMemoryBlock_Update b s p a f m c) = m_address b"
  "m_num_pages (KMemoryBlock_Update b s p a f m c) = m_num_pages b"
  "m_memory_state (KMemoryBlock_Update b s p a f m c) = s"
  "m_permission (KMemoryBlock_Update b s p a f m c) = p"
  "m_attribute (KMemoryBlock_Update b s p a f m c) =
     a OR (m_attribute b AND (KMemoryAttribute_IpcLocked OR KMemoryAttribute_DeviceShared))"
  "m_disable_merge_attribute (KMemoryBlock_Update b s p a f m c) =
     (m_disable_merge_attribute b OR (if f then m else 0)) AND NOT c"
  by (simp_all add: KMemoryBlock_Update_def Let_def)

definition count_flags :: u8 where
  "count_flags = DisableMergeAttribute_DeviceLeft OR DisableMergeAttribute_IpcLeft OR
     DisableMergeAttribute_DeviceRight"

lemma Update_consistent:
  assumes "block_consistent b" and "a AND AttributeIgnoreMask = 0"
    and "set_mask AND count_flags = 0" and "clear_mask AND count_flags = 0"
  shows "block_consistent (KMemoryBlock_Update b s p a f set_mask clear_mask)"
proof -
  have a: "\<not> bit a 1" "\<not> bit a 2"
    using and_eq_0_bits [OF assms(2), of 1] and_eq_0_bits [OF assms(2), of 2]
    by (simp_all add: AttributeIgnoreMask_def bit_or_iff flag_word_bits)
  have m: "\<not> bit set_mask n \<and> \<not> bit clear_mask n" if "n \<in> {1, 2, 4}" for n
    using that and_eq_0_bits [OF assms(3), of n] and_eq_0_bits [OF assms(4), of n]
    by (auto simp: count_flags_def bit_or_iff flag_word_bits)
  have d: "bit (m_disable_merge_attribute (KMemoryBlock_Update b s p a f set_mask clear_mask)) n =
      bit (m_disable_merge_attribute b) n" if "n \<in> {1, 2, 4}" for n
    using m [OF that] that by (auto simp: Update_fields bit_or_iff bit_and_iff bit_not_iff)
  have "bit (m_attribute (KMemoryBlock_Update b s p a f set_mask clear_mask)) n =
      bit (m_attribute b) n" if "n \<in> {1, 2}" for n
    using a that by (auto simp: Update_fields bit_or_iff bit_and_iff flag_word_bits)
  then show ?thesis using assms(1) d
    by (simp add: block_consistent_def consistent_bits Update_fields(1-6))
qed

lemma Split_consistent:
  assumes "block_consistent b"
  shows "block_consistent (fst (KMemoryBlock_Split b a))"
    and "block_consistent (snd (KMemoryBlock_Split b a))"
  using assms
  by (simp_all add: KMemoryBlock_Split_def Let_def block_consistent_def consistent_bits
      bit_and_iff flag_word_bits)

lemma Add_consistent:
  assumes "block_consistent b" and "block_consistent c" and "KMemoryBlock_CanMergeWith b c"
  shows "block_consistent (KMemoryBlock_Add b c)"
proof -
  have "\<not> bit (m_disable_merge_attribute b) 4" 
     using assms(3) and_eq_0_bits [of "m_disable_merge_attribute b" DisableMergeAttribute_AllRight 4]
    by (simp add: KMemoryBlock_CanMergeWith_def flag_word_bits KMemoryAttribute_values DisableMergeAttribute_values(1))
  moreover have "n < 4 \<Longrightarrow> \<not> bit (m_disable_merge_attribute c) n" for n
     using assms(3) and_eq_0_bits [of "m_disable_merge_attribute c" DisableMergeAttribute_AllLeft n]
    by (simp add: KMemoryBlock_CanMergeWith_def flag_word_bits KMemoryAttribute_values DisableMergeAttribute_values(1))
  ultimately show ?thesis using assms(1,2)
  by (simp add: KMemoryBlock_Add_def Let_def block_consistent_def consistent_bits bit_or_iff flag_word_bits)
qed


section \<open>Sizes\<close>

definition block_ok :: "KMemoryBlock \<Rightarrow> bool" where
  "block_ok b \<longleftrightarrow> PageSize dvd m_address b \<and> 0 < m_num_pages b \<and>
     m_address b + m_num_pages b * PageSize < 2 ^ 64"

lemma block_ok_size [simp]: "block_ok b \<Longrightarrow> KMemoryBlock_GetSize b = m_num_pages b * PageSize"
  by (simp add: block_ok_def KMemoryBlock_GetSize_def mul64_eq del: power_numeral)

lemma block_ok_end [simp]:
  "block_ok b \<Longrightarrow> KMemoryBlock_GetEndAddress b = m_address b + m_num_pages b * PageSize"
  by (simp add: KMemoryBlock_GetEndAddress_def) (simp add: block_ok_def add64_eq del: power_numeral)

lemma block_ok_last [simp]:
  "block_ok b \<Longrightarrow> KMemoryBlock_GetLastAddress b = m_address b + m_num_pages b * PageSize - 1"
  by (simp add: KMemoryBlock_GetLastAddress_def) (simp add: block_ok_def sub64_eq Suc_le_eq del: power_numeral)

lemma Split_fields:
  assumes "block_ok b" and "m_address b < a" and "a < m_address b + m_num_pages b * PageSize"
    and "PageSize dvd a"
  shows "m_num_pages (fst (KMemoryBlock_Split b a)) = (a - m_address b) div PageSize" (is ?p)
    and "m_num_pages (snd (KMemoryBlock_Split b a)) = m_num_pages b - (a - m_address b) div PageSize" (is ?q)
    and "m_address (fst (KMemoryBlock_Split b a)) = m_address b"
    and "m_address (snd (KMemoryBlock_Split b a)) = a"
proof -
  have a: "a < 2 ^ 64" and n: "m_num_pages b < 2 ^ 64"
    using assms(1,3) by (simp_all add: block_ok_def PageSize_def)
  have s: "sub64 a (m_address b) = a - m_address b"
    using assms(2) a by (intro sub64_eq) simp_all
  then show ?p by (simp add: KMemoryBlock_Split_def Let_def)
  have "(a - m_address b) div PageSize < m_num_pages b"
    using assms(2,3) by (intro less_mult_imp_div_less) linarith
  then have "sub64 (m_num_pages b) ((a - m_address b) div PageSize) =
      m_num_pages b - (a - m_address b) div PageSize"
    using n by (intro sub64_eq) simp_all
  then show ?q by (simp add: KMemoryBlock_Split_def Let_def s)
qed (simp_all add: KMemoryBlock_Split_def Let_def)

lemma Split_ok:
  assumes "block_ok b" and "m_address b < a" and "a < m_address b + m_num_pages b * PageSize"
    and "PageSize dvd a"
  shows "block_ok (fst (KMemoryBlock_Split b a))" "block_ok (snd (KMemoryBlock_Split b a))"
    and "m_address b + m_num_pages (fst (KMemoryBlock_Split b a)) * PageSize = a"
    and "m_num_pages (fst (KMemoryBlock_Split b a)) + m_num_pages (snd (KMemoryBlock_Split b a)) =
      m_num_pages b"
proof -
  obtain k j where k: "a = PageSize * k" and j: "m_address b = PageSize * j"
    using assms(1,4) by (auto simp: block_ok_def elim!: dvdE)
  have d: "(a - m_address b) div PageSize = k - j"
    by (simp add: k j flip: diff_mult_distrib2)
  have jk: "j < k" "k < j + m_num_pages b"
    using assms(2,3) by (auto simp: k j PageSize_def)
  note f = Split_fields [OF assms]
  have e: "m_address b + (k - j) * PageSize = a"
    "a + (m_num_pages b - (k - j)) * PageSize = m_address b + m_num_pages b * PageSize"
    using jk by (simp_all add: k j PageSize_def)
  show "block_ok (fst (KMemoryBlock_Split b a))" "block_ok (snd (KMemoryBlock_Split b a))"
    using assms(1,3,4) jk unfolding block_ok_def f d e by simp_all
  show "m_address b + m_num_pages (fst (KMemoryBlock_Split b a)) * PageSize = a"
    unfolding f d e ..
  show "m_num_pages (fst (KMemoryBlock_Split b a)) + m_num_pages (snd (KMemoryBlock_Split b a)) =
      m_num_pages b" using jk unfolding f d by simp
qed

lemma disable_merge_halves:
  assumes "d AND NOT (DisableMergeAttribute_AllLeft OR DisableMergeAttribute_AllRight) = 0"
  shows "(d AND DisableMergeAttribute_AllLeft) OR (d AND DisableMergeAttribute_AllRight) = d"
proof (rule bit_word_eqI)
  fix n assume "n < LENGTH(8)"
  with and_eq_0_bits [OF assms, of n]
  show "bit ((d AND DisableMergeAttribute_AllLeft) OR (d AND DisableMergeAttribute_AllRight)) n =
      bit d n"
    by (auto simp: bit_or_iff bit_and_iff bit_not_iff)
qed

lemma UnshareLeft_form:
  assumes "m_device_disable_merge_left_count x = 0 \<longleftrightarrow>
     m_disable_merge_attribute x AND DisableMergeAttribute_DeviceLeft = 0"
  obtains c where "UpdateDeviceDisableMergeStateForUnshareLeft x p l r =
    x\<lparr>m_device_disable_merge_left_count := c,
      m_disable_merge_attribute :=
        (if c = 0 then m_disable_merge_attribute x AND NOT DisableMergeAttribute_DeviceLeft
         else m_disable_merge_attribute x)\<rparr>"
    and "c \<le> m_device_use_count x" and "m_device_disable_merge_left_count x = 0 \<longrightarrow> c = 0"
proof (cases "m_device_disable_merge_left_count x = 0")
  case True
  then have "UpdateDeviceDisableMergeStateForUnshareLeft x p l r =
    x\<lparr>m_device_disable_merge_left_count := 0,
      m_disable_merge_attribute := m_disable_merge_attribute x AND NOT DisableMergeAttribute_DeviceLeft\<rparr>"
    using assms by (cases x; cases l)
      (simp_all add: UpdateDeviceDisableMergeStateForUnshareLeft_def Let_def min_def flag_clear_id)
  then show ?thesis by (intro that [of 0]) simp_all
next
  case False
  let ?c = "min (m_device_disable_merge_left_count x - (if l then 1 else 0)) (m_device_use_count x)"
  have "UpdateDeviceDisableMergeStateForUnshareLeft x p l r =
    x\<lparr>m_device_disable_merge_left_count := ?c,
      m_disable_merge_attribute :=
        (if ?c = 0 then m_disable_merge_attribute x AND NOT DisableMergeAttribute_DeviceLeft
         else m_disable_merge_attribute x)\<rparr>"
    using False by (cases x; cases l)
      (simp_all add: UpdateDeviceDisableMergeStateForUnshareLeft_def Let_def)
  then show ?thesis using False by (intro that [of ?c]) simp_all
qed

lemma UnshareRight_consistent:
  assumes "block_consistent b" and "r \<longrightarrow> m_device_disable_merge_right_count b \<noteq> 0"
  shows "block_consistent (UpdateDeviceDisableMergeStateForUnshareRight b p l r)"
  using assms unfolding UpdateDeviceDisableMergeStateForUnshareRight_def
  by (cases "m_device_disable_merge_right_count b = 1")
    (simp_all add: Let_def block_consistent_def consistent_bits bit_and_iff bit_not_iff flag_word_bits)

lemma UnshareToDevice_consistent:
  assumes "block_consistent b" and "m_device_use_count b \<noteq> 0"
    and "r \<longrightarrow> m_device_disable_merge_right_count b \<noteq> 0"
  shows "block_consistent (KMemoryBlock_UnshareToDevice b p l r)"
proof -
  let ?d = "m_disable_merge_attribute b"
  define y where "y = b\<lparr>m_device_use_count := m_device_use_count b - 1,
    m_attribute := (if m_device_use_count b = 1
       then m_attribute b AND NOT KMemoryAttribute_DeviceShared else m_attribute b)\<rparr>"
  have y: "KMemoryBlock_UnshareToDevice b p l r =
      UpdateDeviceDisableMergeStateForUnshareRight
        (UpdateDeviceDisableMergeStateForUnshareLeft y p l r) p l r"
    by (cases b) (simp add: KMemoryBlock_UnshareToDevice_def y_def Let_def
        UpdateDeviceDisableMergeStateForUnshare_def)
  have f: "m_disable_merge_attribute y = ?d" "m_device_use_count y = m_device_use_count b - 1"
    "m_device_disable_merge_left_count y = m_device_disable_merge_left_count b"
    by (simp_all add: y_def)
  have "m_device_disable_merge_left_count b = 0 \<longleftrightarrow> ?d AND DisableMergeAttribute_DeviceLeft = 0"
    using assms(1) by (simp add: block_consistent_def device_consistent_def)
  then obtain c where c: "UpdateDeviceDisableMergeStateForUnshareLeft y p l r =
      y\<lparr>m_device_disable_merge_left_count := c,
      m_disable_merge_attribute :=
        (if c = 0 then ?d AND NOT DisableMergeAttribute_DeviceLeft else ?d)\<rparr>"
    "c \<le> m_device_use_count b - 1" "m_device_disable_merge_left_count b = 0 \<longrightarrow> c = 0"
    by (rule UnshareLeft_form [of y p l r, unfolded f])
  have "block_consistent (UpdateDeviceDisableMergeStateForUnshareLeft y p l r)"
    using assms(1,2) c(2,3) unfolding c(1) unfolding y_def
    by (cases "m_device_use_count b = 1"; cases "c = 0")
      (simp_all add: block_consistent_def consistent_bits bit_and_iff bit_not_iff flag_word_bits)
  moreover have "m_device_disable_merge_right_count
      (UpdateDeviceDisableMergeStateForUnshareLeft y p l r) = m_device_disable_merge_right_count b"
    unfolding c(1) by (simp add: y_def)
  ultimately show ?thesis unfolding y using assms(3) by (metis UnshareRight_consistent)
qed

section \<open>Properties\<close>

text \<open>
  A block to evaluate the properties on: eight pages of ordinary heap memory at \<open>0x1000\<close>.
\<close>

definition example_block :: KMemoryBlock where
  "example_block = KMemoryBlock_new 4096 8 KMemoryState_Normal KMemoryPermission_UserReadWrite
     KMemoryAttribute_None"

text \<open>
  C29: Splitting a block at a page boundary strictly inside it and adding the right part back to
  the left part gives exactly the original block: page count, address, lock counters, permissions
  and merge flags.
\<close>

theorem Split_Add:
  assumes "block_ok b" and "m_address b < a" and "a < m_address b + m_num_pages b * PageSize"
    and "PageSize dvd a"
    and "m_disable_merge_attribute b AND
      NOT (DisableMergeAttribute_AllLeft OR DisableMergeAttribute_AllRight) = 0"
  shows "case KMemoryBlock_Split b a of (l, r) \<Rightarrow> KMemoryBlock_Add l r = b"
proof -
  have n: "m_num_pages b < 2 ^ 64" using assms(1) by (simp add: block_ok_def PageSize_def)
  have "add64 (m_num_pages (fst (KMemoryBlock_Split b a))) (m_num_pages (snd (KMemoryBlock_Split b a))) =
      m_num_pages b"
    using Split_ok(4) [OF assms(1-4)] n by (simp add: add64_eq)
  then show ?thesis using disable_merge_halves [OF assms(5)]
    by (simp add: KMemoryBlock_Split_def KMemoryBlock_Add_def Let_def)
qed

theorem Split_Add_witness:
  "case KMemoryBlock_Split example_block 12288 of
     (l, r) \<Rightarrow> KMemoryBlock_Add l r = example_block"
proof (rule Split_Add)
  show "block_ok example_block" "m_address example_block < 12288"
    "12288 < m_address example_block + m_num_pages example_block * PageSize" "PageSize dvd 12288"
    "m_disable_merge_attribute example_block AND
      NOT (DisableMergeAttribute_AllLeft OR DisableMergeAttribute_AllRight) = 0"
    by (simp_all add: example_block_def block_ok_def KMemoryBlock_new_def PageSize_def flag_simps)
qed

text \<open>
  C31: Unlocking a block for IPC undoes locking it: whatever the permission asked for and whichever
  side is the left edge, every field is as before, including the saved permission, the lock flag
  and the merge-disable flag, as long as the counters are not at their maximum.
\<close>

theorem ipc_unlock_lock:
  assumes "ipc_consistent b" and "m_ipc_lock_count b \<noteq> -1" and "m_ipc_disable_merge_count b \<noteq> -1"
  shows "KMemoryBlock_UnlockForIpc (KMemoryBlock_LockForIpc b p l r) p' l r = b"
proof -
  have c: "m_ipc_lock_count b = 0 \<Longrightarrow> (m_attribute b OR KMemoryAttribute_IpcLocked) AND NOT KMemoryAttribute_IpcLocked = m_attribute b"
   "m_ipc_lock_count b = 0 \<Longrightarrow> m_original_permission b = KMemoryPermission_None"
   "m_ipc_lock_count b \<noteq> 0 \<Longrightarrow> (m_attribute b OR KMemoryAttribute_IpcLocked) = m_attribute b"
   "m_ipc_disable_merge_count b = 0 \<Longrightarrow> (m_disable_merge_attribute b OR DisableMergeAttribute_IpcLeft) AND NOT DisableMergeAttribute_IpcLeft = m_disable_merge_attribute b"
   "m_ipc_disable_merge_count b \<noteq> 0 \<Longrightarrow> (m_disable_merge_attribute b OR DisableMergeAttribute_IpcLeft) = m_disable_merge_attribute b"
   using assms by (simp_all add: ipc_consistent_def flag_clear_set named_flag_or)
  show ?thesis
    unfolding KMemoryBlock_UnlockForIpc_def KMemoryBlock_LockForIpc_def Let_def
    by (cases "m_ipc_lock_count b = 0"; cases l; cases "m_ipc_disable_merge_count b = 0")
      (simp_all add: c)
qed

theorem ipc_unlock_lock_witness:
  "KMemoryBlock_UnlockForIpc
     (KMemoryBlock_LockForIpc example_block KMemoryPermission_UserRead True False)
     KMemoryPermission_None True False = example_block"
  by (rule ipc_unlock_lock)
    (simp_all add: example_block_def KMemoryBlock_new_def ipc_consistent_def flag_simps)

text \<open>
  Unsharing a block from a device undoes sharing it, for all four combinations of left and
  right edge, as long as the counters are not at their maximum.
\<close>

theorem device_unshare_share:
  assumes "device_consistent b" and "m_device_use_count b \<noteq> -1"
    and "m_device_disable_merge_right_count b \<noteq> -1"
  shows "KMemoryBlock_UnshareToDevice (KMemoryBlock_ShareToDevice b p l r) p' l r = b"
proof -
  let ?L = "m_device_disable_merge_left_count b" and ?R = "m_device_disable_merge_right_count b"
    and ?U = "m_device_use_count b" and ?a = "m_attribute b" and ?d = "m_disable_merge_attribute b"
  have le: "?L \<le> ?U" using assms(1) by (simp add: device_consistent_def)
  have ne: "?L + 1 \<noteq> 0" "?R + 1 \<noteq> 0"
    using le assms(2,3) u16_Suc_ne_0 by (metis word_order.extremum_uniqueI)+
  define d1 where "d1 = (?d OR (if l then DisableMergeAttribute_DeviceLeft else 0)) OR
     (if r then DisableMergeAttribute_DeviceRight else 0)"
  define d2 where "d2 = (if ?L = 0 then d1 AND NOT DisableMergeAttribute_DeviceLeft else d1)"
  have d: "(if r \<and> ?R = 0 then d2 AND NOT DisableMergeAttribute_DeviceRight else d2) = ?d"
    using assms(1) by (intro device_flags_restored [OF _ _ d1_def d2_def])
      (simp_all add: device_consistent_def)
  let ?x = "KMemoryBlock_ShareToDevice b p l r"
  let ?y = "?x\<lparr>m_device_use_count := ?U, m_attribute := ?a\<rparr>"
  have "KMemoryBlock_UnshareToDevice ?x p' l r = UpdateDeviceDisableMergeStateForUnshare ?y p' l r"
    using assms(1) by (intro UnshareToDevice_eq) (simp_all add: ShareToDevice_eq device_consistent_def)
  also have "\<dots> = UpdateDeviceDisableMergeStateForUnshareRight
     (?y\<lparr>m_device_disable_merge_left_count := ?L, m_disable_merge_attribute := d2\<rparr>) p' l r"
    unfolding UpdateDeviceDisableMergeStateForUnshare_def
    using ne le by (subst UnshareLeft_eq [where c = ?L])
      (simp_all add: ShareToDevice_eq d2_def flip: d1_def)
  also have "\<dots> = b\<lparr>m_disable_merge_attribute :=
      (if r \<and> ?R = 0 then d2 AND NOT DisableMergeAttribute_DeviceRight else d2)\<rparr>"
    using ne by (subst UnshareRight_eq [where c = ?R])
      (simp_all add: ShareToDevice_eq cong: if_cong split del: if_split)
  also have "\<dots> = b" unfolding d by simp
  finally show ?thesis .
qed

theorem device_unshare_share_witness:
  "KMemoryBlock_UnshareToDevice
     (KMemoryBlock_ShareToDevice example_block KMemoryPermission_None True True)
     KMemoryPermission_None True True = example_block"
  by (rule device_unshare_share)
    (simp_all add: example_block_def KMemoryBlock_new_def device_consistent_def flag_simps)





end
