(* ===== verification/Memory_Block_Manager.thy ===== *)
theory Memory_Block_Manager
  imports Memory_Block
begin

text \<open>
  \<^verbatim>\<open>KMemoryBlockManager\<close> and its update allocator (\<^verbatim>\<open>k_memory_block_manager.h\<close>,
  \<^verbatim>\<open>k_memory_block_manager.cpp\<close>): the map of a guest address space as a sequence of memory blocks.

  The intrusive red-black tree is represented by its in-order sequence, a list of blocks, and an
  iterator by its position in that list, the past-the-end iterator being the length.  \<open>tree_find\<close>
  and \<open>tree_insert\<close> choose the position with \<^verbatim>\<open>KMemoryBlock::Compare\<close>, as the tree does.
  Dereferencing the end iterator, stepping before the first block, and using a block the allocator
  does not have are undefined in the code; the operations return \<open>None\<close> there, and the
  properties show that this never happens on a well-formed manager.

  The second half states what a well-formed address space is (\<open>contiguous\<close>: the blocks cover it
  without gaps or overlaps) and shows how the tree, the allocator, \<open>Split\<close> and \<open>Add\<close> act on one.
  The update loops are verified in \<open>Memory_Block_Update\<close>.
\<close>

section \<open>The update allocator\<close>

definition MaxBlocks :: nat where "MaxBlocks = 2"

text \<open>
  \<open>m_blocks\<close> tells which of the two block pointers is not null: what an unused block holds does
  not matter, as \<open>Split\<close> and \<open>Initialize\<close> write every field they use.  The slab manager is the
  number of blocks it can still hand out.
\<close>

record UpdateAllocator =
  m_blocks :: "bool list"
  m_index :: nat
  m_slab_manager :: nat

definition slab_Allocate :: "nat \<Rightarrow> nat option" where
  "slab_Allocate n = (if n = 0 then None else Some (n - 1))"

definition slab_Free :: "nat \<Rightarrow> nat" where
  "slab_Free n = n + 1"

fun UpdateAllocator_Initialize_loop ::
    "UpdateAllocator \<Rightarrow> nat list \<Rightarrow> Result \<times> UpdateAllocator" where
  "UpdateAllocator_Initialize_loop al [] = (ResultSuccess, al)"
| "UpdateAllocator_Initialize_loop al (i # is) =
     (case slab_Allocate (m_slab_manager al) of
        None \<Rightarrow> (ResultOutOfResource, al\<lparr>m_blocks := (m_blocks al)[m_index al + i := False]\<rparr>)
      | Some n \<Rightarrow>
          UpdateAllocator_Initialize_loop
            (al\<lparr>m_blocks := (m_blocks al)[m_index al + i := True], m_slab_manager := n\<rparr>) is)"

definition UpdateAllocator_Initialize :: "UpdateAllocator \<Rightarrow> nat \<Rightarrow> Result \<times> UpdateAllocator" where
  "UpdateAllocator_Initialize al num_blocks =
     UpdateAllocator_Initialize_loop (al\<lparr>m_index := sub64 MaxBlocks num_blocks\<rparr>)
       [0..<min num_blocks MaxBlocks]"

definition UpdateAllocator_new :: "nat \<Rightarrow> nat \<Rightarrow> Result \<times> UpdateAllocator" where
  "UpdateAllocator_new sm num_blocks =
     UpdateAllocator_Initialize
       \<lparr>m_blocks = replicate MaxBlocks False, m_index = MaxBlocks, m_slab_manager = sm\<rparr> num_blocks"

text \<open>The destructor returns what the slab manager holds afterwards.\<close>

definition UpdateAllocator_destroy :: "UpdateAllocator \<Rightarrow> nat" where
  "UpdateAllocator_destroy al =
     foldl (\<lambda>n present. if present then slab_Free n else n) (m_slab_manager al) (m_blocks al)"

definition UpdateAllocator_Allocate :: "UpdateAllocator \<Rightarrow> UpdateAllocator option" where
  "UpdateAllocator_Allocate al =
     (if m_index al < MaxBlocks \<and> m_blocks al ! m_index al
      then Some (al\<lparr>m_blocks := (m_blocks al)[m_index al := False], m_index := m_index al + 1\<rparr>)
      else None)"

definition UpdateAllocator_Free :: "UpdateAllocator \<Rightarrow> UpdateAllocator" where
  "UpdateAllocator_Free al =
     (if m_index al = 0 then al\<lparr>m_slab_manager := slab_Free (m_slab_manager al)\<rparr>
      else al\<lparr>m_blocks := (m_blocks al)[m_index al - 1 := True], m_index := m_index al - 1\<rparr>)"

section \<open>The manager and its tree\<close>

record KMemoryBlockManager =
  m_memory_block_tree :: "KMemoryBlock list"
  m_start_address :: addr
  m_end_address :: addr

fun tree_find :: "KMemoryBlock list \<Rightarrow> KMemoryBlock \<Rightarrow> nat" where
  "tree_find [] key = 0"
| "tree_find (b # bs) key = (if KMemoryBlock_Compare key b = 0 then 0 else Suc (tree_find bs key))"

fun tree_insert :: "KMemoryBlock list \<Rightarrow> KMemoryBlock \<Rightarrow> KMemoryBlock list \<times> nat" where
  "tree_insert [] x = ([x], 0)"
| "tree_insert (b # bs) x =
     (if KMemoryBlock_Compare x b < 0 then (x # b # bs, 0)
      else if KMemoryBlock_Compare x b = 0 then (b # bs, 0)
      else let (bs', i) = tree_insert bs x in (b # bs', Suc i))"

definition tree_erase :: "KMemoryBlock list \<Rightarrow> nat \<Rightarrow> KMemoryBlock list" where
  "tree_erase bs i = take i bs @ drop (Suc i) bs"

definition find_key :: "addr \<Rightarrow> KMemoryBlock" where
  "find_key address = KMemoryBlock_new address 1 KMemoryState_Free KMemoryPermission_None
     KMemoryAttribute_None"

definition KMemoryBlockManager_FindIterator :: "KMemoryBlockManager \<Rightarrow> addr \<Rightarrow> nat" where
  "KMemoryBlockManager_FindIterator mgr address =
     tree_find (m_memory_block_tree mgr) (find_key address)"

definition KMemoryBlockManager_FindBlock :: "KMemoryBlockManager \<Rightarrow> addr \<Rightarrow> KMemoryBlock option" where
  "KMemoryBlockManager_FindBlock mgr address =
     (let it = KMemoryBlockManager_FindIterator mgr address
      in if it \<noteq> length (m_memory_block_tree mgr) then Some (m_memory_block_tree mgr ! it) else None)"

text \<open>
  \<open>Initialize\<close> runs on a manager and a slab manager; the tree of a fresh manager is empty, so
  the insertion yields the single block.
\<close>

definition KMemoryBlockManager_Initialize ::
    "KMemoryBlockManager \<Rightarrow> KMemoryBlock \<Rightarrow> addr \<Rightarrow> addr \<Rightarrow> nat \<Rightarrow> Result \<times> KMemoryBlockManager \<times> nat" where
  "KMemoryBlockManager_Initialize mgr raw st nd slab =
     (case slab_Allocate slab of
        None \<Rightarrow> (ResultOutOfResource, mgr, slab)
      | Some slab' \<Rightarrow>
          let start_block = KMemoryBlock_Initialize raw st (sub64 nd st div PageSize)
                KMemoryState_Free KMemoryPermission_None KMemoryAttribute_None
          in (ResultSuccess,
              mgr\<lparr>m_start_address := st, m_end_address := nd,
                m_memory_block_tree := fst (tree_insert (m_memory_block_tree mgr) start_block)\<rparr>,
              slab'))"

text \<open>
  \<open>Finalize\<close> returns the address and size pairs the callback is called with, in order, and the
  slab manager.
\<close>

fun Finalize_loop :: "KMemoryBlock list \<Rightarrow> nat \<Rightarrow> (addr \<times> size64) list \<times> nat" where
  "Finalize_loop [] slab = ([], slab)"
| "Finalize_loop (block # bs) slab =
     (let (calls, slab') = Finalize_loop bs (slab_Free slab)
      in ((m_address block, KMemoryBlock_GetSize block) # calls, slab'))"

definition KMemoryBlockManager_Finalize ::
    "KMemoryBlockManager \<Rightarrow> nat \<Rightarrow> KMemoryBlockManager \<times> (addr \<times> size64) list \<times> nat" where
  "KMemoryBlockManager_Finalize mgr slab =
     (mgr\<lparr>m_memory_block_tree := []\<rparr>, Finalize_loop (m_memory_block_tree mgr) slab)"

section \<open>Searching for a free area\<close>

text \<open>The candidate area of one free block, and the loop over the blocks from the iterator on.\<close>

definition FindFreeArea_candidate ::
    "addr \<Rightarrow> nat \<Rightarrow> nat \<Rightarrow> nat \<Rightarrow> addr \<Rightarrow> addr" where
  "FindFreeArea_candidate region_start alignment offset guard_pages info_address =
     (let area0 = (if info_address \<le> region_start then region_start else info_address);
          area = add64 area0 (mul64 guard_pages PageSize);
          offset_area = add64 (AlignDown area alignment) offset
      in if area \<le> offset_area then offset_area else add64 offset_area alignment)"

fun FindFreeArea_loop ::
    "KMemoryBlock list \<Rightarrow> addr \<Rightarrow> addr \<Rightarrow> nat \<Rightarrow> nat \<Rightarrow> nat \<Rightarrow> nat \<Rightarrow> addr" where
  "FindFreeArea_loop [] region_start region_last num_pages alignment offset guard_pages = 0"
| "FindFreeArea_loop (b # bs) region_start region_last num_pages alignment offset guard_pages =
     (let info = KMemoryBlock_GetMemoryInfo b
      in if region_last < mi_address info then 0
         else if mi_state info \<noteq> KMemoryState_Free
         then FindFreeArea_loop bs region_start region_last num_pages alignment offset guard_pages
         else
           let area = FindFreeArea_candidate region_start alignment offset guard_pages
                 (mi_address info);
               area_end = add64 (add64 area (mul64 num_pages PageSize)) (mul64 guard_pages PageSize);
               area_last = sub64 area_end 1
           in if mi_address info \<le> area \<and> area < area_last \<and> area_last \<le> region_last \<and>
                 area_last \<le> KMemoryInfo_GetLastAddress info
              then area
              else FindFreeArea_loop bs region_start region_last num_pages alignment offset
                     guard_pages)"

definition KMemoryBlockManager_FindFreeArea ::
    "KMemoryBlockManager \<Rightarrow> addr \<Rightarrow> size64 \<Rightarrow> size64 \<Rightarrow> size64 \<Rightarrow> size64 \<Rightarrow> size64 \<Rightarrow> addr" where
  "KMemoryBlockManager_FindFreeArea mgr region_start region_num_pages num_pages alignment offset
     guard_pages =
     (if num_pages > 0
      then
        let region_end = add64 region_start (mul64 region_num_pages PageSize);
            region_last = sub64 region_end 1
        in FindFreeArea_loop
             (drop (KMemoryBlockManager_FindIterator mgr region_start) (m_memory_block_tree mgr))
             region_start region_last num_pages alignment offset guard_pages
      else 0)"

section \<open>Coalescing\<close>

text \<open>
  One round of the loop at position \<open>it\<close>: the neighbours at \<open>it\<close> and \<open>it + 1\<close> are merged if they
  can be, and the loop goes on at the merged block or at the next one.
\<close>

function CoalesceForUpdate_loop ::
    "KMemoryBlock list \<Rightarrow> nat \<Rightarrow> addr \<Rightarrow> UpdateAllocator \<Rightarrow> (KMemoryBlock list \<times> UpdateAllocator) option"
where
  "CoalesceForUpdate_loop bs it end_address al =
     (if length bs \<le> it then None
      else if Suc it = length bs then Some (bs, al)
      else
        let (bs', it', al') =
          (if KMemoryBlock_CanMergeWith (bs ! it) (bs ! Suc it)
           then ((tree_erase bs (Suc it))[it := KMemoryBlock_Add (bs ! it) (bs ! Suc it)], it,
                 UpdateAllocator_Free al)
           else (bs, Suc it, al))
        in if end_address < KMemoryInfo_GetEndAddress (KMemoryBlock_GetMemoryInfo (bs' ! it'))
           then Some (bs', al')
           else CoalesceForUpdate_loop bs' it' end_address al')"
  by pat_completeness auto
termination
  by (relation "measure (\<lambda>(bs, it, _, _). length bs - it)")
    (auto simp: tree_erase_def split: if_splits)

definition KMemoryBlockManager_CoalesceForUpdate ::
    "KMemoryBlockManager \<Rightarrow> UpdateAllocator \<Rightarrow> addr \<Rightarrow> size64 \<Rightarrow>
     (KMemoryBlockManager \<times> UpdateAllocator) option" where
  "KMemoryBlockManager_CoalesceForUpdate mgr al address num_pages =
     (let it = KMemoryBlockManager_FindIterator mgr address;
          it_prev = (if address \<noteq> m_start_address mgr
                     then (if it = 0 then None else Some (it - 1)) else Some it)
      in case it_prev of
           None \<Rightarrow> None
         | Some i \<Rightarrow>
             map_option (\<lambda>(bs, al'). (mgr\<lparr>m_memory_block_tree := bs\<rparr>, al'))
               (CoalesceForUpdate_loop (m_memory_block_tree mgr) i
                  (add64 address (mul64 num_pages PageSize)) al))"

section \<open>Updating a range\<close>

text \<open>
  The four update functions share their loop.  \<open>split_before\<close> and \<open>split_after\<close> create the new
  block before and after the part to be changed; both return the list, the iterator and the
  allocator.  \<open>update_advance\<close> is the branch that leaves a block as it is.
\<close>

definition split_before ::
    "KMemoryBlock list \<Rightarrow> nat \<Rightarrow> addr \<Rightarrow> UpdateAllocator \<Rightarrow>
     (KMemoryBlock list \<times> nat \<times> UpdateAllocator) option" where
  "split_before bs it cur_address al =
     (case UpdateAllocator_Allocate al of
        None \<Rightarrow> None
      | Some al' \<Rightarrow>
          let (new_block, right) = KMemoryBlock_Split (bs ! it) cur_address;
              (bs', i) = tree_insert (bs[it := right]) new_block
          in Some (bs', Suc i, al'))"

definition split_after ::
    "KMemoryBlock list \<Rightarrow> nat \<Rightarrow> addr \<Rightarrow> UpdateAllocator \<Rightarrow>
     (KMemoryBlock list \<times> nat \<times> UpdateAllocator) option" where
  "split_after bs it end_address al =
     (case UpdateAllocator_Allocate al of
        None \<Rightarrow> None
      | Some al' \<Rightarrow>
          let (new_block, right) = KMemoryBlock_Split (bs ! it) end_address;
              (bs', i) = tree_insert (bs[it := right]) new_block
          in Some (bs', i, al'))"

definition split_for_update ::
    "KMemoryBlock list \<Rightarrow> nat \<Rightarrow> addr \<Rightarrow> size64 \<Rightarrow> UpdateAllocator \<Rightarrow>
     (KMemoryBlock list \<times> nat \<times> addr \<times> UpdateAllocator) option" where
  "split_for_update bs it cur_address remaining_size al =
     (case (if mi_address (KMemoryBlock_GetMemoryInfo (bs ! it)) \<noteq> cur_address
            then map_option (\<lambda>(bs', it', al'). (bs', it', m_address (bs' ! it'), al'))
                   (split_before bs it cur_address al)
            else Some (bs, it, cur_address, al)) of
        None \<Rightarrow> None
      | Some (bs1, it1, cur_address1, al1) \<Rightarrow>
          if length bs1 \<le> it1 then None
          else if mi_size (KMemoryBlock_GetMemoryInfo (bs1 ! it1)) > remaining_size
          then map_option (\<lambda>(bs2, it2, al2). (bs2, it2, cur_address1, al2))
                 (split_after bs1 it1 (add64 cur_address1 remaining_size) al1)
          else Some (bs1, it1, cur_address1, al1))"

definition update_advance :: "addr \<Rightarrow> size64 \<Rightarrow> KMemoryInfo \<Rightarrow> addr \<times> size64" where
  "update_advance cur_address remaining_size cur_info =
     (if add64 cur_address remaining_size < KMemoryInfo_GetEndAddress cur_info
      then (add64 cur_address remaining_size, 0)
      else (KMemoryInfo_GetEndAddress cur_info,
            sub64 (add64 cur_address remaining_size) (KMemoryInfo_GetEndAddress cur_info)
              div PageSize))"

lemma split_for_update_index:
  assumes "split_for_update bs it cur sz al = Some (bs', it', cur', al')"
  shows "bs' = bs \<and> it' = it \<and> al' = al \<or> m_index al < m_index al' \<and> m_index al < MaxBlocks"
  using assms
  by (auto simp: split_for_update_def split_before_def split_after_def
      UpdateAllocator_Allocate_def Let_def split: if_splits option.splits prod.splits)

text \<open>
  The loop: \<open>needs\<close> is the test for blocks that have to be changed and \<open>change\<close> the method called
  on the block once it has been cut to the range.
\<close>

function update_loop ::
    "(KMemoryBlock \<Rightarrow> bool) \<Rightarrow> (KMemoryBlock \<Rightarrow> KMemoryBlock) \<Rightarrow> KMemoryBlock list \<Rightarrow> nat \<Rightarrow> addr \<Rightarrow>
     size64 \<Rightarrow> UpdateAllocator \<Rightarrow> (KMemoryBlock list \<times> UpdateAllocator) option"
where
  "update_loop needs change bs it cur_address remaining_pages al =
     (if remaining_pages = 0 then Some (bs, al)
      else if length bs \<le> it then None
      else
        let remaining_size = mul64 remaining_pages PageSize
        in if needs (bs ! it)
           then
             case split_for_update bs it cur_address remaining_size al of
               None \<Rightarrow> None
             | Some (bs', it', cur_address', al') \<Rightarrow>
                 let cur_info = KMemoryBlock_GetMemoryInfo (bs' ! it')
                 in update_loop needs change (bs'[it' := change (bs' ! it')]) (Suc it')
                      (add64 cur_address' (mi_size cur_info))
                      (sub64 remaining_pages (KMemoryInfo_GetNumPages cur_info)) al'
           else
             let (cur_address', remaining_pages') =
               update_advance cur_address remaining_size (KMemoryBlock_GetMemoryInfo (bs ! it))
             in update_loop needs change bs (Suc it) cur_address' remaining_pages' al)"
  by pat_completeness auto
termination
  by (relation "measures [\<lambda>(_, _, _, _, _, _, al). MaxBlocks - m_index al,
      \<lambda>(_, _, bs, it, _, _, _). length bs - it]")
    (auto dest!: split_for_update_index)

definition KMemoryBlockManager_update ::
    "(KMemoryBlock \<Rightarrow> bool) \<Rightarrow> (KMemoryBlock \<Rightarrow> KMemoryBlock) \<Rightarrow> KMemoryBlockManager \<Rightarrow>
     UpdateAllocator \<Rightarrow> addr \<Rightarrow> size64 \<Rightarrow> (KMemoryBlockManager \<times> UpdateAllocator) option" where
  "KMemoryBlockManager_update needs change mgr al address num_pages =
     (case update_loop needs change (m_memory_block_tree mgr)
             (KMemoryBlockManager_FindIterator mgr address) address num_pages al of
        None \<Rightarrow> None
      | Some (bs, al') \<Rightarrow>
          KMemoryBlockManager_CoalesceForUpdate (mgr\<lparr>m_memory_block_tree := bs\<rparr>) al' address
            num_pages)"

definition KMemoryBlockManager_Update ::
    "KMemoryBlockManager \<Rightarrow> UpdateAllocator \<Rightarrow> addr \<Rightarrow> size64 \<Rightarrow> u32 \<Rightarrow> u8 \<Rightarrow> u8 \<Rightarrow> u8 \<Rightarrow> u8 \<Rightarrow>
     (KMemoryBlockManager \<times> UpdateAllocator) option" where
  "KMemoryBlockManager_Update mgr al address num_pages s perm attr set_disable_attr
     clear_disable_attr =
     KMemoryBlockManager_update
       (\<lambda>b. \<not> KMemoryBlock_HasProperties b s perm attr)
       (\<lambda>b. KMemoryBlock_Update b s perm attr (m_address b = address) set_disable_attr
              clear_disable_attr)
       mgr al address num_pages"

definition KMemoryBlockManager_UpdateIfMatch ::
    "KMemoryBlockManager \<Rightarrow> UpdateAllocator \<Rightarrow> addr \<Rightarrow> size64 \<Rightarrow> u32 \<Rightarrow> u8 \<Rightarrow> u8 \<Rightarrow> u32 \<Rightarrow> u8 \<Rightarrow> u8 \<Rightarrow> u8 \<Rightarrow>
     u8 \<Rightarrow> (KMemoryBlockManager \<times> UpdateAllocator) option" where
  "KMemoryBlockManager_UpdateIfMatch mgr al address num_pages test_state test_perm test_attr s perm
     attr set_disable_attr clear_disable_attr =
     KMemoryBlockManager_update
       (\<lambda>b. KMemoryBlock_HasProperties b test_state test_perm test_attr \<and>
            \<not> KMemoryBlock_HasProperties b s perm attr)
       (\<lambda>b. KMemoryBlock_Update b s perm attr False set_disable_attr clear_disable_attr)
       mgr al address num_pages"

definition KMemoryBlockManager_UpdateLock ::
    "KMemoryBlockManager \<Rightarrow> UpdateAllocator \<Rightarrow> addr \<Rightarrow> size64 \<Rightarrow>
     (KMemoryBlock \<Rightarrow> u8 \<Rightarrow> bool \<Rightarrow> bool \<Rightarrow> KMemoryBlock) \<Rightarrow> u8 \<Rightarrow>
     (KMemoryBlockManager \<times> UpdateAllocator) option" where
  "KMemoryBlockManager_UpdateLock mgr al address num_pages lock_func perm =
     (let end_address = add64 address (mul64 num_pages PageSize)
      in KMemoryBlockManager_update (\<lambda>b. True)
           (\<lambda>b. lock_func b perm (m_address b = address)
                  (KMemoryBlock_GetEndAddress b = end_address))
           mgr al address num_pages)"

definition KMemoryBlockManager_UpdateAttribute ::
    "KMemoryBlockManager \<Rightarrow> UpdateAllocator \<Rightarrow> addr \<Rightarrow> size64 \<Rightarrow> u8 \<Rightarrow> u8 \<Rightarrow>
     (KMemoryBlockManager \<times> UpdateAllocator) option" where
  "KMemoryBlockManager_UpdateAttribute mgr al address num_pages attr_mask attr =
     KMemoryBlockManager_update
       (\<lambda>b. (m_attribute b AND attr_mask) \<noteq> attr)
       (\<lambda>b. KMemoryBlock_UpdateAttribute b attr_mask attr)
       mgr al address num_pages"

section \<open>The state check\<close>

definition counts_present :: "KMemoryBlock \<Rightarrow> bool" where
  "counts_present b \<longleftrightarrow>
     \<not> ((m_attribute b AND KMemoryAttribute_IpcLocked) \<noteq> KMemoryAttribute_None \<and>
        m_ipc_lock_count b = 0) \<and>
     \<not> ((m_attribute b AND KMemoryAttribute_DeviceShared) \<noteq> KMemoryAttribute_None \<and>
        m_device_use_count b = 0)"

fun CheckState_loop :: "KMemoryBlock \<Rightarrow> KMemoryBlock list \<Rightarrow> bool" where
  "CheckState_loop prev [] = counts_present prev"
| "CheckState_loop prev (b # bs) =
     (if KMemoryBlock_CanMergeWith prev b then False
      else if KMemoryBlock_GetEndAddress prev \<noteq> m_address b then False
      else if \<not> counts_present b then False
      else CheckState_loop b bs)"

text \<open>
  The code increments \<^verbatim>\<open>cbegin()\<close> before it tests for the end, which is defined only on a tree
  that is not empty.
\<close>

definition KMemoryBlockManager_CheckState :: "KMemoryBlockManager \<Rightarrow> bool option" where
  "KMemoryBlockManager_CheckState mgr =
     (case m_memory_block_tree mgr of
        [] \<Rightarrow> None
      | b # bs \<Rightarrow> Some (CheckState_loop b bs))"

declare CoalesceForUpdate_loop.simps [simp del] update_loop.simps [simp del]

section \<open>Well-formed address spaces\<close>

definition covers :: "KMemoryBlock \<Rightarrow> addr \<Rightarrow> bool" where
  "covers b a \<longleftrightarrow> m_address b \<le> a \<and> a < m_address b + m_num_pages b * PageSize"

text \<open>The blocks follow each other without gap or overlap from \<open>s\<close> to \<open>e\<close>.\<close>

fun contiguous :: "addr \<Rightarrow> KMemoryBlock list \<Rightarrow> addr \<Rightarrow> bool" where
  "contiguous s [] e \<longleftrightarrow> s = e"
| "contiguous s (b # bs) e \<longleftrightarrow>
     m_address b = s \<and> block_ok b \<and> contiguous (s + m_num_pages b * PageSize) bs e"

text \<open>
  What a page has of its block: state, permission, original permission, attribute, IPC lock count
  and device use count, the properties \<^verbatim>\<open>HasSameProperties\<close> compares.
\<close>

type_synonym page = "u32 \<times> u8 \<times> u8 \<times> u8 \<times> u16 \<times> u16"

definition page_of :: "KMemoryBlock \<Rightarrow> page" where
  "page_of b = (m_memory_state b, m_permission b, m_original_permission b, m_attribute b,
     m_ipc_lock_count b, m_device_use_count b)"

definition block_at :: "KMemoryBlock list \<Rightarrow> addr \<Rightarrow> KMemoryBlock option" where
  "block_at bs a = find (\<lambda>b. covers b a) bs"

definition page_at :: "KMemoryBlock list \<Rightarrow> addr \<Rightarrow> page option" where
  "page_at bs a = map_option page_of (block_at bs a)"

lemma block_ok_pos: "block_ok b \<Longrightarrow> 0 < m_num_pages b * PageSize"
  by (simp add: block_ok_def)

lemma last_iff:
  assumes "block_ok b"
  shows "a \<le> KMemoryBlock_GetLastAddress b \<longleftrightarrow> a < m_address b + m_num_pages b * PageSize"
  using block_ok_pos [OF assms] unfolding block_ok_last [OF assms] by linarith

lemma page_at_Nil [simp]: "page_at [] a = None"
  by (simp add: page_at_def block_at_def)

lemma page_at_Cons: "page_at (b # bs) a = (if covers b a then Some (page_of b) else page_at bs a)"
  by (simp add: page_at_def block_at_def)

lemma page_at_append:
  "page_at (xs @ ys) a = (case page_at xs a of None \<Rightarrow> page_at ys a | Some p \<Rightarrow> Some p)"
  by (induction xs) (simp_all add: page_at_Cons)

lemma contiguous_append:
  "contiguous s (xs @ ys) e \<longleftrightarrow> (\<exists>m. contiguous s xs m \<and> contiguous m ys e)"
  by (induction xs arbitrary: s) auto

lemma contiguous_le: "contiguous s bs e \<Longrightarrow> s \<le> e"
  by (induction bs arbitrary: s) force+

lemma contiguous_bounds:
  assumes "contiguous s bs e" and "b \<in> set bs"
  shows "block_ok b" "s \<le> m_address b" "m_address b + m_num_pages b * PageSize \<le> e"
  using assms
proof (induction bs arbitrary: s)
  case (Cons c bs)
  { case 1 then show ?case using Cons.IH(1) by auto
  next case 2 then show ?case using Cons.IH(2) by fastforce
  next case 3 then show ?case using Cons.IH(3) contiguous_le by fastforce }
qed simp_all

lemma contiguous_covers:
  assumes "contiguous s bs e" and "s \<le> a" and "a < e"
  obtains pre x ys where "bs = pre @ x # ys" and "covers x a"
proof -
  have "\<exists>x\<in>set bs. covers x a" using assms
  proof (induction bs arbitrary: s)
    case (Cons b bs)
    show ?case
    proof (cases "a < s + m_num_pages b * PageSize")
      case True with Cons.prems show ?thesis by (auto simp: covers_def)
    next
      case False with Cons.prems Cons.IH show ?thesis by fastforce
    qed
  qed simp
  then show ?thesis using that by (metis split_list)
qed

lemma contiguous_not_covers_before:
  assumes "contiguous s (pre @ x # ys) e" and "covers x a" and "b \<in> set pre"
  shows "m_address b + m_num_pages b * PageSize \<le> a"
proof -
  obtain m where m: "contiguous s pre m" "m_address x = m"
    using assms(1) by (auto simp: contiguous_append)
  then show ?thesis using contiguous_bounds(3) [OF m(1) assms(3)] assms(2)
    by (simp add: covers_def)
qed

subsection \<open>The tree operations on a well-formed space\<close>

lemma Compare_find_key:
  assumes "block_ok b"
  shows "KMemoryBlock_Compare (find_key a) b = 0 \<longleftrightarrow> covers b a"
  using assms last_iff [OF assms, of a]
  by (auto simp: KMemoryBlock_Compare_def find_key_def KMemoryBlock_new_def covers_def)

lemma tree_find_eq:
  assumes "contiguous s (pre @ x # ys) e" and "covers x a"
  shows "tree_find (pre @ x # ys) (find_key a) = length pre"
proof -
  have "tree_find (pre' @ x # ys) (find_key a) = length pre'" if "set pre' \<subseteq> set pre" for pre'
    using that
  proof (induction pre')
    case Nil
    have "block_ok x" using contiguous_bounds(1) [OF assms(1), of x] by simp
    then show ?case using assms(2) by (simp add: Compare_find_key)
  next
    case (Cons b pre')
    then have b: "b \<in> set pre" by simp
    then have "block_ok b" using contiguous_bounds(1) [OF assms(1), of b] by simp
    moreover have "\<not> covers b a"
      using contiguous_not_covers_before [OF assms b] by (simp add: covers_def)
    ultimately show ?case using Cons by (simp add: Compare_find_key)
  qed
  then show ?thesis by simp
qed

lemma tree_insert_eq:
  assumes "contiguous s pre (m_address x)" and "m_address x < m_address y"
  shows "tree_insert (pre @ y # ys) x = (pre @ x # y # ys, length pre)"
proof -
  have "tree_insert (pre' @ y # ys) x = (pre' @ x # y # ys, length pre')"
    if "set pre' \<subseteq> set pre" for pre'
    using that
  proof (induction pre')
    case Nil
    with assms(2) show ?case by (simp add: KMemoryBlock_Compare_def)
  next
    case (Cons b pre')
    then have b: "b \<in> set pre" by simp
    note bounds = contiguous_bounds [OF assms(1) b]
    have "\<not> m_address x < m_address b" "\<not> m_address x \<le> KMemoryBlock_GetLastAddress b"
      using bounds(2,3) block_ok_pos [OF bounds(1)] by (simp_all add: last_iff [OF bounds(1)])
    with Cons show ?case by (simp add: KMemoryBlock_Compare_def)
  qed
  then show ?thesis by simp
qed

lemma FindBlock_eq:
  assumes "contiguous s (m_memory_block_tree mgr) e"
  shows "KMemoryBlockManager_FindBlock mgr a = block_at (m_memory_block_tree mgr) a"
proof -
  have "(let i = tree_find bs (find_key a) in if i \<noteq> length bs then Some (bs ! i) else None) =
      find (\<lambda>b. covers b a) bs" if "\<forall>b\<in>set bs. block_ok b" for bs
    using that by (induction bs) (auto simp: Compare_find_key Let_def)
  then show ?thesis using contiguous_bounds(1) [OF assms]
    by (simp add: KMemoryBlockManager_FindBlock_def KMemoryBlockManager_FindIterator_def
        block_at_def Let_def)
qed

lemma block_at_covers:
  assumes "contiguous s (pre @ x # ys) e" and "covers x a"
  shows "block_at (pre @ x # ys) a = Some x"
proof -
  have "\<forall>b\<in>set pre. \<not> covers b a"
    using contiguous_not_covers_before [OF assms] by (force simp: covers_def)
  then have "find (\<lambda>b. covers b a) pre = None" by (simp add: find_None_iff)
  then have "find (\<lambda>b. covers b a) (pre @ x # ys) = Some x" using assms(2)
    by (induction pre) (auto split: if_splits)
  then show ?thesis by (simp add: block_at_def)
qed


subsection \<open>The allocator\<close>

definition al_ok :: "UpdateAllocator \<Rightarrow> bool" where
  "al_ok al \<longleftrightarrow> m_index al \<le> MaxBlocks \<and> m_blocks al = [m_index al = 0, m_index al \<le> 1]"

definition al_total :: "UpdateAllocator \<Rightarrow> nat" where
  "al_total al = m_slab_manager al + (MaxBlocks - m_index al)"

lemma Allocate_ok:
  assumes "al_ok al" and "m_index al < MaxBlocks"
  shows "\<exists>al'. UpdateAllocator_Allocate al = Some al' \<and> al_ok al' \<and> m_index al' = Suc (m_index al) \<and>
    Suc (al_total al') = al_total al"
proof -
  have "m_index al = 0 \<or> m_index al = 1" using assms(2) by (auto simp: MaxBlocks_def)
  then show ?thesis using assms
    by (auto simp: al_ok_def al_total_def UpdateAllocator_Allocate_def MaxBlocks_def)
qed

lemma Free_ok:
  assumes "al_ok al"
  shows "al_ok (UpdateAllocator_Free al)" "al_total (UpdateAllocator_Free al) = Suc (al_total al)"
proof -
  have "m_index al = 0 \<or> m_index al = 1 \<or> m_index al = 2"
    using assms by (auto simp: al_ok_def MaxBlocks_def)
  then show "al_ok (UpdateAllocator_Free al)"
    "al_total (UpdateAllocator_Free al) = Suc (al_total al)" using assms
    by (auto simp: al_ok_def al_total_def UpdateAllocator_Free_def slab_Free_def
        MaxBlocks_def)
qed

lemma new_ok:
  assumes "UpdateAllocator_new sm MaxBlocks = (ResultSuccess, al)"
  shows "al_ok al" "m_index al = 0" "al_total al = sm"
proof -
  have "sub64 MaxBlocks MaxBlocks = 0" by (simp add: MaxBlocks_def sub64_eq)
  then have "sm \<ge> 2 \<and> al = \<lparr>m_blocks = [True, True], m_index = 0, m_slab_manager = sm - 2\<rparr>"
    using assms
    by (auto simp: UpdateAllocator_new_def UpdateAllocator_Initialize_def slab_Allocate_def
        upt_rec numeral_2_eq_2 MaxBlocks_def split: if_splits)
  then show "al_ok al" "m_index al = 0" "al_total al = sm"
    by (auto simp: al_ok_def al_total_def MaxBlocks_def)
qed

subsection \<open>Splitting and merging inside the sequence\<close>

lemma page_of_Split [simp]:
  "page_of (fst (KMemoryBlock_Split b a)) = page_of b"
  "page_of (snd (KMemoryBlock_Split b a)) = page_of b"
  by (simp_all add: page_of_def KMemoryBlock_Split_def Let_def)

lemma page_of_Add [simp]: "page_of (KMemoryBlock_Add b c) = page_of b"
  by (simp add: page_of_def KMemoryBlock_Add_def)

lemma HasSameProperties_iff: "KMemoryBlock_HasSameProperties b c \<longleftrightarrow> page_of b = page_of c"
  by (auto simp: KMemoryBlock_HasSameProperties_def page_of_def)

lemma CanMergeWith_Split:
  "KMemoryBlock_CanMergeWith p (fst (KMemoryBlock_Split b a)) = KMemoryBlock_CanMergeWith p b"
  "KMemoryBlock_CanMergeWith (snd (KMemoryBlock_Split b a)) p = KMemoryBlock_CanMergeWith b p"
  by (simp_all add: KMemoryBlock_CanMergeWith_def HasSameProperties_iff)
    (simp_all add: KMemoryBlock_Split_def Let_def and.assoc)

lemma CanMergeWith_Add:
  assumes "KMemoryBlock_CanMergeWith b c"
  shows "KMemoryBlock_CanMergeWith p (KMemoryBlock_Add b c) = KMemoryBlock_CanMergeWith p b"
    and "KMemoryBlock_CanMergeWith (KMemoryBlock_Add b c) p = KMemoryBlock_CanMergeWith c p"
  using assms
  by (simp_all add: KMemoryBlock_CanMergeWith_def HasSameProperties_iff)
    (simp_all add: KMemoryBlock_Add_def bit.conj_disj_distrib2 DisableMergeAttribute_values(1))

lemma Add_fields:
  assumes "block_ok b" and "block_ok c" and "m_address c = m_address b + m_num_pages b * PageSize"
  shows "block_ok (KMemoryBlock_Add b c)" "m_address (KMemoryBlock_Add b c) = m_address b"
    "m_num_pages (KMemoryBlock_Add b c) = m_num_pages b + m_num_pages c"
proof -
  have "m_num_pages b + m_num_pages c < 2 ^ 64"
    using assms by (simp add: block_ok_def PageSize_def)
  then show n: "m_num_pages (KMemoryBlock_Add b c) = m_num_pages b + m_num_pages c"
    by (simp add: KMemoryBlock_Add_def add64_eq del: power_numeral)
  show a: "m_address (KMemoryBlock_Add b c) = m_address b" by (simp add: KMemoryBlock_Add_def)
  show "block_ok (KMemoryBlock_Add b c)"
    using assms by (simp add: block_ok_def n a algebra_simps)
qed

lemma info_end:
  assumes "block_ok b"
  shows "KMemoryInfo_GetEndAddress (KMemoryBlock_GetMemoryInfo b) =
    m_address b + m_num_pages b * PageSize"
  using block_ok_end [OF assms]
  by (simp add: KMemoryInfo_GetEndAddress_def KMemoryBlock_GetMemoryInfo_def
      KMemoryBlock_GetEndAddress_def)

text \<open>
  Neighbours need not be separated where their boundary lies in the updated range \<open>lo\<close> to \<open>hi\<close>;
  elsewhere they must not be mergeable.
\<close>

definition separated :: "addr \<Rightarrow> addr \<Rightarrow> KMemoryBlock \<Rightarrow> KMemoryBlock \<Rightarrow> bool" where
  "separated lo hi x y \<longleftrightarrow>
     lo \<le> m_address y \<and> m_address y \<le> hi \<or> \<not> KMemoryBlock_CanMergeWith x y"

lemma Split_in_range:
  assumes "contiguous s (pre @ x # ys) e" and "covers x a" and "a \<noteq> m_address x"
  shows "block_ok x" "m_address x < a" "a < m_address x + m_num_pages x * PageSize"
    and "contiguous s pre (m_address x)"
    and "contiguous (m_address x + m_num_pages x * PageSize) ys e"
  using assms by (auto simp: covers_def contiguous_append)

lemma contiguous_Split:
  assumes "contiguous s (pre @ x # ys) e" and "covers x a" and "a \<noteq> m_address x"
    and "PageSize dvd a"
  shows "contiguous s (pre @ fst (KMemoryBlock_Split x a) # snd (KMemoryBlock_Split x a) # ys) e"
proof -
  note range = Split_in_range [OF assms(1-3)]
  note fields = Split_fields [OF range(1-3) assms(4)] and ok = Split_ok [OF range(1-3) assms(4)]
  have "a + m_num_pages (snd (KMemoryBlock_Split x a)) * PageSize =
      m_address x + m_num_pages x * PageSize"
    using ok(3,4) by (metis add.assoc distrib_right)
  then show ?thesis
    using range ok by (auto simp: contiguous_append fields(3,4))
qed

lemma split_before_eq:
  assumes "contiguous s (pre @ x # ys) e" and "covers x a" and "a \<noteq> m_address x"
    and "UpdateAllocator_Allocate al = Some al'"
  shows "split_before (pre @ x # ys) (length pre) a al =
    Some (pre @ fst (KMemoryBlock_Split x a) # snd (KMemoryBlock_Split x a) # ys,
      Suc (length pre), al')" (is ?A)
    and "split_after (pre @ x # ys) (length pre) a al =
    Some (pre @ fst (KMemoryBlock_Split x a) # snd (KMemoryBlock_Split x a) # ys,
      length pre, al')" (is ?B)
proof -
  note range = Split_in_range [OF assms(1-3)]
  have "m_address (fst (KMemoryBlock_Split x a)) = m_address x"
    "m_address (snd (KMemoryBlock_Split x a)) = a"
    by (simp_all add: KMemoryBlock_Split_def Let_def)
  then have "tree_insert (pre @ snd (KMemoryBlock_Split x a) # ys) (fst (KMemoryBlock_Split x a)) =
      (pre @ fst (KMemoryBlock_Split x a) # snd (KMemoryBlock_Split x a) # ys, length pre)"
    using range(2,4) by (intro tree_insert_eq [of s]) simp_all
  then show ?A ?B
    by (simp_all add: split_before_def split_after_def assms(4) Let_def split_beta)
qed

lemma page_at_Split:
  assumes "block_ok x" and "covers x a" and "a \<noteq> m_address x" and "PageSize dvd a"
  shows "page_at (fst (KMemoryBlock_Split x a) # snd (KMemoryBlock_Split x a) # ys) c =
    page_at (x # ys) c"
proof -
  have a: "m_address x < a" "a < m_address x + m_num_pages x * PageSize"
    using assms(2,3) by (auto simp: covers_def)
  note fields = Split_fields [OF assms(1) a assms(4)] and ok = Split_ok [OF assms(1) a assms(4)]
  have "a + m_num_pages (snd (KMemoryBlock_Split x a)) * PageSize =
      m_address x + m_num_pages x * PageSize"
    using ok(3,4) by (metis add.assoc distrib_right)
  then have "covers x c \<longleftrightarrow> covers (fst (KMemoryBlock_Split x a)) c \<or>
      covers (snd (KMemoryBlock_Split x a)) c"
    using a ok(3) by (auto simp: covers_def fields(3,4))
  then show ?thesis by (auto simp: page_at_Cons)
qed

lemma separated_Split:
  assumes "successively (separated lo hi) (pre @ x # ys)" and "lo \<le> a" and "a \<le> hi"
  shows "successively (separated lo hi)
    (pre @ fst (KMemoryBlock_Split x a) # snd (KMemoryBlock_Split x a) # ys)"
proof -
  have "m_address (snd (KMemoryBlock_Split x a)) = a"
    "m_address (fst (KMemoryBlock_Split x a)) = m_address x"
    by (simp_all add: KMemoryBlock_Split_def Let_def)
  then show ?thesis using assms
    by (auto simp: successively_append_iff successively_Cons separated_def CanMergeWith_Split)
qed


lemma contiguous_less:
  assumes "contiguous s bs e" and "bs \<noteq> []"
  shows "e < 2 ^ 64"
  using assms
proof (induction bs arbitrary: s)
  case (Cons b bs)
  then show ?case by (cases "bs = []") (auto simp: block_ok_def)
qed simp

text \<open>
  The flags that keep a block from being merged with the one before it belong to the boundary at its start.
  \<open>left_at\<close> reads them off the blocks; where no block starts there are none.
\<close>

definition left_at :: "KMemoryBlock list \<Rightarrow> addr \<Rightarrow> u8" where
  "left_at bs a =
     (case find (\<lambda>b. m_address b = a) bs of
        Some b \<Rightarrow> m_disable_merge_attribute b AND DisableMergeAttribute_AllLeft
      | None \<Rightarrow> 0)"

lemma left_at_simps [simp]:
  "left_at [] a = 0"
  "left_at (b # bs) a =
     (if m_address b = a then m_disable_merge_attribute b AND DisableMergeAttribute_AllLeft else left_at bs a)"
  by (simp_all add: left_at_def)

lemma left_at_append: "left_at (xs @ ys) a = (if a \<in> m_address ` set xs then left_at xs a else left_at ys a)"
  by (induction xs) auto

lemma left_at_none: "a \<notin> m_address ` set bs \<Longrightarrow> left_at bs a = 0"
  by (induction bs) auto

lemma contiguous_address_before:
  assumes "contiguous s (pre @ x # ys) e" and "b \<in> set pre"
  shows "m_address b < m_address x"
proof -
  have "contiguous s pre (m_address x)" using assms(1) by (auto simp: contiguous_append)
  note b = contiguous_bounds [OF this assms(2)]
  show ?thesis using b(3) block_ok_pos [OF b(1)] by linarith
qed

lemma inside_no_block:
  assumes "contiguous s (pre @ x # ys) e" and "covers x a" and "a \<noteq> m_address x"
  shows "a \<notin> m_address ` set (pre @ x # ys)"
proof -
  note range = Split_in_range [OF assms]
  have "m_address b < a" if "b \<in> set pre" for b using contiguous_address_before [OF assms(1) that] range(2) by simp
  moreover have "a < m_address b" if "b \<in> set ys" for b using contiguous_bounds(2) [OF range(5) that] range(3) by simp
  ultimately show ?thesis using range(2) by fastforce
qed

lemma left_at_Split:
  assumes "contiguous s (pre @ x # ys) e" and "covers x a" and "a \<noteq> m_address x"
  shows "left_at (pre @ fst (KMemoryBlock_Split x a) # snd (KMemoryBlock_Split x a) # ys) c = left_at (pre @ x # ys) c"
proof (cases "c = a")
  case True
  have "(w AND DisableMergeAttribute_AllRight) AND DisableMergeAttribute_AllLeft = 0" for w :: u8
    by (simp add: flag_simps ac_simps)
  then show ?thesis
    using inside_no_block [OF assms] left_at_none [of a pre] left_at_none [of a ys] True assms(3)
    by (simp add: left_at_append KMemoryBlock_Split_def Let_def image_Un)
next
  case False
  then show ?thesis by (simp add: left_at_append KMemoryBlock_Split_def Let_def ac_simps)
qed

text \<open>
  What the two splits of one round achieve: the part \<open>m\<close> that is to be changed starts at the
  current address and does not reach beyond the range; pages are as before.
\<close>

definition cut_at ::
    "addr \<Rightarrow> addr \<Rightarrow> addr \<Rightarrow> addr \<Rightarrow> KMemoryBlock list \<Rightarrow> KMemoryBlock list \<Rightarrow> bool" where
  "cut_at s e lo hi bs bs' \<longleftrightarrow>
     contiguous s bs' e \<and> successively (separated lo hi) bs' \<and>
     (\<forall>c. page_at bs' c = page_at bs c \<and> left_at bs' c = left_at bs c)"

lemma cut_at_refl:
  "contiguous s bs e \<Longrightarrow> successively (separated lo hi) bs \<Longrightarrow> cut_at s e lo hi bs bs"
  by (simp add: cut_at_def)

lemma cut_at_Split:
  assumes "contiguous s (pre @ x # ys) e" and "successively (separated lo hi) (pre @ x # ys)"
    and "covers x a" and "a \<noteq> m_address x" and "PageSize dvd a" and "lo \<le> a" and "a \<le> hi"
  shows "cut_at s e lo hi (pre @ x # ys)
    (pre @ fst (KMemoryBlock_Split x a) # snd (KMemoryBlock_Split x a) # ys)"
  using separated_Split [OF assms(2,6,7)] contiguous_Split [OF assms(1,3-5)]
    page_at_Split [OF Split_in_range(1) [OF assms(1,3,4)] assms(3-5)] left_at_Split [OF assms(1,3,4)]
  by (simp add: cut_at_def page_at_append split: option.split)

lemma split_after_correct:
  assumes "contiguous s (pre @ x # ys) e" and "successively (separated lo hi) (pre @ x # ys)"
    and "PageSize dvd m_address x" and "0 < r" and "m_address x + r * PageSize \<le> hi" and "hi \<le> e"
    and "lo \<le> m_address x" and "al_ok al" and "m_index al < MaxBlocks"
  obtains m R al' where
    "(if mi_size (KMemoryBlock_GetMemoryInfo x) > r * PageSize
      then split_after (pre @ x # ys) (length pre) (add64 (m_address x) (r * PageSize)) al
      else Some (pre @ x # ys, length pre, al)) = Some (pre @ m # R @ ys, length pre, al')"
    and "cut_at s e lo hi (pre @ x # ys) (pre @ m # R @ ys)"
    and "m_address m = m_address x" and "m_num_pages m \<le> r" and "page_of m = page_of x"
    and "m_num_pages m < r \<longrightarrow> R = []" and "al_ok al'"
    and "m_index al' = m_index al + length R" and "al_total al = al_total al' + length R"
proof (cases "m_num_pages x \<le> r")
  case True
  have "block_ok x" using contiguous_bounds(1) [OF assms(1), of x] by simp
  then have "\<not> mi_size (KMemoryBlock_GetMemoryInfo x) > r * PageSize"
    using True by (simp add: KMemoryBlock_GetMemoryInfo_def)
  with True assms(1,2,8) show ?thesis
    by (intro that [of x "[]" al]) (auto simp: cut_at_refl)
next
  case False
  let ?a = "m_address x + r * PageSize"
  have x: "block_ok x" using contiguous_bounds(1) [OF assms(1), of x] by simp
  have cov: "covers x ?a" "?a \<noteq> m_address x" and a: "PageSize dvd ?a"
    using False assms(3,4) by (simp_all add: covers_def)
  have "e < 2 ^ 64" using contiguous_less [OF assms(1)] by simp
  then have add: "add64 (m_address x) (r * PageSize) = ?a"
    using assms(5,6) by (intro add64_eq) linarith
  have size: "mi_size (KMemoryBlock_GetMemoryInfo x) > r * PageSize"
    using False x by (simp add: KMemoryBlock_GetMemoryInfo_def)
  obtain al' where al': "UpdateAllocator_Allocate al = Some al'" "al_ok al'"
    "m_index al' = Suc (m_index al)" "Suc (al_total al') = al_total al"
    using Allocate_ok [OF assms(8,9)] by blast
  note range = Split_in_range [OF assms(1) cov]
  have "m_num_pages (fst (KMemoryBlock_Split x ?a)) = r"
    using Split_fields(1) [OF range(1-3) a] by simp
  moreover have "m_address (fst (KMemoryBlock_Split x ?a)) = m_address x"
    by (simp add: KMemoryBlock_Split_def Let_def)
  moreover have "cut_at s e lo hi (pre @ x # ys)
    (pre @ fst (KMemoryBlock_Split x ?a) # snd (KMemoryBlock_Split x ?a) # ys)"
    using assms(5,7) by (intro cut_at_Split assms cov a) simp_all
  ultimately show ?thesis
    using split_before_eq(2) [OF assms(1) cov al'(1)] size al'
    by (intro that [of "fst (KMemoryBlock_Split x ?a)" "[snd (KMemoryBlock_Split x ?a)]" al'])
      (simp_all add: add)
qed

lemma split_for_update_correct:
  assumes "contiguous s (pre @ x # ys) e" and "successively (separated lo hi) (pre @ x # ys)"
    and "covers x cur" and "PageSize dvd cur" and "0 < r" and "cur + r * PageSize \<le> hi" and "hi \<le> e"
    and "lo \<le> cur" and "al_ok al"
    and "m_index al + (if m_address x = cur then 0 else 1) < MaxBlocks"
  obtains L m R al' where
    "split_for_update (pre @ x # ys) (length pre) cur (r * PageSize) al =
      Some (pre @ L @ m # R @ ys, length (pre @ L), cur, al')"
    and "cut_at s e lo hi (pre @ x # ys) (pre @ L @ m # R @ ys)"
    and "m_address m = cur" and "m_num_pages m \<le> r" and "page_of m = page_of x"
    and "m_num_pages m < r \<longrightarrow> R = [] \<and> m_index al' < MaxBlocks" and "al_ok al'"
    and "al_total al = al_total al' + length L + length R"
proof (cases "m_address x = cur")
  case True
  obtain m R al' where
    "(if mi_size (KMemoryBlock_GetMemoryInfo x) > r * PageSize
      then split_after (pre @ x # ys) (length pre) (add64 (m_address x) (r * PageSize)) al
      else Some (pre @ x # ys, length pre, al)) = Some (pre @ m # R @ ys, length pre, al')"
    "cut_at s e lo hi (pre @ x # ys) (pre @ m # R @ ys)"
    "m_address m = m_address x" "m_num_pages m \<le> r" "page_of m = page_of x"
    "m_num_pages m < r \<longrightarrow> R = []" "al_ok al'"
    "m_index al' = m_index al + length R" "al_total al = al_total al' + length R"
    by (rule split_after_correct [OF assms(1,2) _ assms(5) _ assms(7) _ assms(9)])
      (use assms(4,6,8,10) True in simp_all)
  with True assms(10) show ?thesis
    by (intro that [of "[]" m R al'])
      (auto simp: split_for_update_def KMemoryBlock_GetMemoryInfo_def split: if_splits)
next
  case False
  let ?l = "fst (KMemoryBlock_Split x cur)" and ?r = "snd (KMemoryBlock_Split x cur)"
  have ne: "cur \<noteq> m_address x" using False by simp
  obtain al1 where al1: "UpdateAllocator_Allocate al = Some al1" "al_ok al1"
    "m_index al1 = Suc (m_index al)" "Suc (al_total al1) = al_total al"
    using Allocate_ok [OF assms(9)] assms(10) False by auto
  have r: "m_address ?r = cur" by (simp add: KMemoryBlock_Split_def Let_def)
  have cut1: "cut_at s e lo hi (pre @ x # ys) (pre @ ?l # ?r # ys)"
    using assms(6) by (intro cut_at_Split assms ne) simp_all
  obtain m R al' where
    m: "(if mi_size (KMemoryBlock_GetMemoryInfo ?r) > r * PageSize
      then split_after ((pre @ [?l]) @ ?r # ys) (length (pre @ [?l]))
        (add64 (m_address ?r) (r * PageSize)) al1
      else Some ((pre @ [?l]) @ ?r # ys, length (pre @ [?l]), al1)) =
        Some ((pre @ [?l]) @ m # R @ ys, length (pre @ [?l]), al')"
    "cut_at s e lo hi ((pre @ [?l]) @ ?r # ys) ((pre @ [?l]) @ m # R @ ys)"
    "m_address m = m_address ?r" "m_num_pages m \<le> r" "page_of m = page_of ?r"
    "m_num_pages m < r \<longrightarrow> R = []" "al_ok al'"
    "m_index al' = m_index al1 + length R" "al_total al1 = al_total al' + length R"
    by (rule split_after_correct [of s "pre @ [?l]" ?r ys e lo hi r al1])
      (use assms(4-10) r al1 False cut1 in \<open>simp_all add: cut_at_def\<close>)
  have "split_for_update (pre @ x # ys) (length pre) cur (r * PageSize) al =
      Some (pre @ [?l] @ m # R @ ys, length (pre @ [?l]), cur, al')"
    using m(1) split_before_eq(1) [OF assms(1,3) ne al1(1)] ne r
    by (auto simp: split_for_update_def KMemoryBlock_GetMemoryInfo_def nth_append split: if_splits)
  moreover have "cut_at s e lo hi (pre @ x # ys) (pre @ [?l] @ m # R @ ys)"
    using cut1 m(2) by (simp add: cut_at_def)
  ultimately show ?thesis
    using m(3-) r al1 assms(10) False by (intro that [of "[?l]" m R al']) auto
qed

end
