(* ===== verification/Memory_Block_Update.thy ===== *)
theory Memory_Block_Update
  imports Memory_Block_Manager
begin

text \<open>
  Correctness of the update operations of \<^verbatim>\<open>KMemoryBlockManager\<close>.  The locale \<open>page_update\<close> is the
  contract between the shared loop and the block method it calls; inside it, one round, the whole
  loop, the coalescing that follows and the complete operation are verified.  The interpretations
  below instantiate it for the attribute update and, through \<open>lock_function\<close>, for the five lock
  methods; \<open>Update\<close> and \<open>UpdateIfMatch\<close> satisfy it for the attributes the code allows.

  On a well-formed manager every update returns, needs at most the two blocks the allocator holds,
  loses no block, keeps the address space covered without gaps or overlaps, changes exactly the
  pages of the given range in exactly the given way, and leaves no neighbours that could be merged.
\<close>

section \<open>The update loop\<close>

text \<open>
  The state of the loop at a round: \<open>pre\<close> are the blocks the iterator has passed and \<open>xs\<close> those
  from the iterator on; the allocator still has a block for each split that may be needed.
\<close>

definition loop_state ::
    "addr \<Rightarrow> addr \<Rightarrow> addr \<Rightarrow> addr \<Rightarrow> KMemoryBlock list \<Rightarrow> KMemoryBlock list \<Rightarrow> addr \<Rightarrow> nat \<Rightarrow>
     UpdateAllocator \<Rightarrow> bool" where
  "loop_state s e lo hi pre xs cur r al \<longleftrightarrow>
     contiguous s (pre @ xs) e \<and> successively (separated lo hi) (pre @ xs) \<and> al_ok al \<and>
     PageSize dvd cur \<and> lo \<le> cur \<and> cur + r * PageSize = hi \<and> hi \<le> e \<and>
     (0 < r \<longrightarrow> xs \<noteq> [] \<and> covers (hd xs) cur \<and>
        m_index al + (if m_address (hd xs) = cur then 0 else 1) < MaxBlocks)"

text \<open>
  What one round achieves: the iterator passes the blocks \<open>zs\<close>, the pages it has passed are
  changed by \<open>f\<close>, where a page satisfies \<open>N\<close> the merge flags of a block starting there are related
  by \<open>h\<close> and elsewhere they are as before, and no block is lost.
\<close>

definition flags_related ::
    "(page \<Rightarrow> bool) \<Rightarrow> (addr \<Rightarrow> u8 \<Rightarrow> u8 \<Rightarrow> bool) \<Rightarrow> addr \<Rightarrow> addr \<Rightarrow>
     KMemoryBlock list \<Rightarrow> KMemoryBlock list \<Rightarrow> bool" where
  "flags_related N h lo hi bs bs' \<longleftrightarrow>
     (\<forall>a. if lo \<le> a \<and> a < hi \<and> (case page_at bs a of Some g \<Rightarrow> N g | None \<Rightarrow> False)
          then h a (left_at bs a) (left_at bs' a) else left_at bs' a = left_at bs a)"

definition round_ok ::
    "(page \<Rightarrow> page) \<Rightarrow> (page \<Rightarrow> bool) \<Rightarrow> (addr \<Rightarrow> u8 \<Rightarrow> u8 \<Rightarrow> bool) \<Rightarrow>
     KMemoryBlock list \<Rightarrow> KMemoryBlock list \<Rightarrow> addr \<Rightarrow> UpdateAllocator \<Rightarrow>
     KMemoryBlock list \<Rightarrow> addr \<Rightarrow> UpdateAllocator \<Rightarrow> bool" where
  "round_ok f N h pre xs cur al zs cur' al' \<longleftrightarrow>
     cur \<le> cur' \<and>
     (\<forall>a. page_at (pre @ zs) a = (if cur \<le> a \<and> a < cur'
        then map_option f (page_at (pre @ xs) a) else page_at (pre @ xs) a)) \<and>
     flags_related N h cur cur' (pre @ xs) (pre @ zs) \<and>
     al_total al' + length zs = al_total al + length xs"

lemma flags_related_trans:
  assumes "flags_related N h lo mid bs bs1" and "flags_related N h mid hi bs1 bs2" and "lo \<le> mid" and "mid \<le> hi"
    and "\<forall>a. page_at bs1 a = (if lo \<le> a \<and> a < mid then map_option f (page_at bs a) else page_at bs a)"
  shows "flags_related N h lo hi bs bs2"
  unfolding flags_related_def
proof
  fix a
  let ?n = "case page_at bs a of Some g \<Rightarrow> N g | None \<Rightarrow> False"
  note one = assms(1) [unfolded flags_related_def, rule_format, of a]
    and two = assms(2) [unfolded flags_related_def, rule_format, of a]
  show "if lo \<le> a \<and> a < hi \<and> ?n then h a (left_at bs a) (left_at bs2 a) else left_at bs2 a = left_at bs a"
  proof (cases "mid \<le> a")
    case True
    then have "page_at bs1 a = page_at bs a" using assms(5) by simp
    then show ?thesis using one two True assms(3) by auto
  next
    case False
    then have "left_at bs2 a = left_at bs1 a" using two by simp
    then show ?thesis using one False assms(4) by auto
  qed
qed
lemma loop_state_next:
  assumes "contiguous s (pre @ x # ys) e" and "successively (separated lo hi) (pre @ x # ys)"
    and "al_ok al" and "m_address x + m_num_pages x * PageSize + r * PageSize = hi" and "hi \<le> e"
    and "lo \<le> m_address x + m_num_pages x * PageSize" and "0 < r \<longrightarrow> m_index al < MaxBlocks"
  shows "loop_state s e lo hi (pre @ [x]) ys (m_address x + m_num_pages x * PageSize) r al"
proof -
  let ?n = "m_address x + m_num_pages x * PageSize"
  have x: "block_ok x" and ys: "contiguous ?n ys e" using assms(1) by (auto simp: contiguous_append)
  have "ys \<noteq> [] \<and> covers (hd ys) ?n \<and> m_address (hd ys) = ?n" if "0 < r"
  proof -
    have "?n < e" using that assms(4,5) PageSize_pos(1) by (metis add_less_cancel_left add.right_neutral less_le_trans nat_0_less_mult_iff)
    then have "ys \<noteq> []" using ys by auto
    then obtain y zs where "ys = y # zs" by (cases ys) auto
    then show ?thesis using ys block_ok_pos [of y] by (auto simp: covers_def)
  qed
  moreover have "PageSize dvd ?n" using x by (simp add: block_ok_def)
  ultimately show ?thesis using assms by (auto simp: loop_state_def)
qed

text \<open>
  The contract between the loop and the method it calls on blocks: the method keeps the extent of
  the block and acts on the page properties as the function \<open>f\<close> and on its merge flags as \<open>h\<close>;
  the blocks that are changed are those whose pages satisfy \<open>N\<close>, and \<open>f\<close> does not change the others.
\<close>

locale page_update =
  fixes needs :: "KMemoryBlock \<Rightarrow> bool" and change :: "KMemoryBlock \<Rightarrow> KMemoryBlock"
    and f :: "page \<Rightarrow> page" and N :: "page \<Rightarrow> bool" and h :: "addr \<Rightarrow> u8 \<Rightarrow> u8 \<Rightarrow> bool" and lo :: addr
  assumes change_extent: "m_address (change b) = m_address b" "m_num_pages (change b) = m_num_pages b"
    and change_page: "needs c \<Longrightarrow> page_of c = page_of b \<Longrightarrow> page_of (change b) = f (page_of b)"
    and skip_page: "\<not> needs b \<Longrightarrow> f (page_of b) = page_of b"
    and needs_page: "needs b \<longleftrightarrow> N (page_of b)"
    and change_flags: "h (m_address b) (m_disable_merge_attribute b AND DisableMergeAttribute_AllLeft)
      (m_disable_merge_attribute (change b) AND DisableMergeAttribute_AllLeft)"
    and no_flags: "a \<noteq> lo \<Longrightarrow> h a 0 0"
begin

lemma block_ok_change [simp]: "block_ok (change b) = block_ok b"
  by (simp add: block_ok_def change_extent)

lemma covers_change [simp]: "covers (change b) a = covers b a"
  by (simp add: covers_def change_extent)

lemma contiguous_change:
  "contiguous s (xs @ change b # ys) e = contiguous s (xs @ b # ys) e"
  by (simp add: contiguous_append change_extent)

lemma separated_change:
  assumes "successively (separated lo hi) (xs @ b # ys)" and "contiguous s (xs @ b # ys) e"
    and "lo \<le> m_address b" and "m_address b + m_num_pages b * PageSize \<le> hi"
  shows "successively (separated lo hi) (xs @ change b # ys)"
proof -
  have "ys \<noteq> [] \<Longrightarrow> m_address (hd ys) = m_address b + m_num_pages b * PageSize"
    using assms(2) by (cases ys) (auto simp: contiguous_append)
  moreover have "m_address b \<le> hi" using assms(4) by linarith
  ultimately show ?thesis using assms(1,3,4)
    by (auto simp: successively_append_iff successively_Cons separated_def change_extent)
qed

lemma page_at_change:
  assumes "contiguous s (xs @ b # ys) e" and "needs c" and "page_of c = page_of b"
  shows "page_at (xs @ change b # ys) a =
    (if covers b a then map_option f (page_at (xs @ b # ys) a) else page_at (xs @ b # ys) a)"
proof (cases "covers b a")
  case True
  have "page_at xs a = None"
    using contiguous_not_covers_before [OF assms(1) True]
    by (fastforce simp: page_at_def block_at_def find_None_iff covers_def)
  with True change_page [OF assms(2,3)] show ?thesis by (simp add: page_at_append page_at_Cons)
qed (simp add: page_at_append page_at_Cons split: option.split)

lemma page_at_skip:
  assumes "contiguous s (xs @ b # ys) e" and "\<not> needs b" and "covers b a"
  shows "map_option f (page_at (xs @ b # ys) a) = page_at (xs @ b # ys) a"
  using block_at_covers [OF assms(1,3)] skip_page [OF assms(2)] by (simp add: page_at_def)

lemma flags_change:
  assumes c: "contiguous s (xs @ b # ys) e" and n: "N (page_of b)" and lo: "lo \<le> m_address b"
  shows "flags_related N h (m_address b) (m_address b + m_num_pages b * PageSize) (xs @ b # ys) (xs @ change b # ys)"
  unfolding flags_related_def
proof
  fix a
  have first: "m_address b \<notin> m_address ` set xs" using contiguous_address_before [OF c] by force
  show "if m_address b \<le> a \<and> a < m_address b + m_num_pages b * PageSize \<and>
      (case page_at (xs @ b # ys) a of Some g \<Rightarrow> N g | None \<Rightarrow> False)
    then h a (left_at (xs @ b # ys) a) (left_at (xs @ change b # ys) a)
    else left_at (xs @ change b # ys) a = left_at (xs @ b # ys) a"
  proof (cases "covers b a")
    case cov: True
    then have p: "page_at (xs @ b # ys) a = Some (page_of b)" using block_at_covers [OF c] by (simp add: page_at_def)
    show ?thesis
    proof (cases "a = m_address b")
      case True
      then show ?thesis using p n cov change_flags [of b] first by (simp add: left_at_append change_extent covers_def)
    next
      case False
      then have "a \<notin> m_address ` set (xs @ b # ys)" using inside_no_block [OF c cov] by simp
      then have "left_at (xs @ b # ys) a = 0" "left_at (xs @ change b # ys) a = 0"
        using left_at_none [of a "xs @ b # ys"] left_at_none [of a "xs @ change b # ys"] by (simp_all add: change_extent)
      moreover have "a \<noteq> lo" using False cov lo by (simp add: covers_def)
      ultimately show ?thesis using no_flags [of a] by simp
    qed
  next
    case False
    have "0 < m_num_pages b" using contiguous_bounds(1) [OF c, of b] by (simp add: block_ok_def)
    then have "a \<noteq> m_address b" using False PageSize_pos(1) by (auto simp: covers_def)
    then show ?thesis using False by (auto simp: left_at_append change_extent covers_def)
  qed
qed

lemma flags_cut:
  assumes "flags_related N h u v bs1 bs2" and "\<forall>a. page_at bs1 a = page_at bs a \<and> left_at bs1 a = left_at bs a"
  shows "flags_related N h u v bs bs2"
proof -
  have same: "page_at bs1 = page_at bs" "left_at bs1 = left_at bs" using assms(2) by (simp_all add: fun_eq_iff)
  show ?thesis using assms(1) unfolding flags_related_def same .
qed

lemma flags_skip:
  assumes "contiguous s (xs @ b # ys) e" and "\<not> needs b" and "covers b u" and "v \<le> m_address b + m_num_pages b * PageSize"
  shows "flags_related N h u v (xs @ b # ys) (xs @ b # ys)"
  unfolding flags_related_def
proof
  fix a
  have "page_at (xs @ b # ys) a = Some (page_of b)" if "u \<le> a" "a < v"
    using block_at_covers [OF assms(1), of a] that assms(3,4) by (simp add: page_at_def covers_def)
  then show "if u \<le> a \<and> a < v \<and> (case page_at (xs @ b # ys) a of Some g \<Rightarrow> N g | None \<Rightarrow> False)
    then h a (left_at (xs @ b # ys) a) (left_at (xs @ b # ys) a) else left_at (xs @ b # ys) a = left_at (xs @ b # ys) a"
    using assms(2) needs_page [of b] by auto
qed

lemma update_round_change:
  assumes c: "contiguous s (pre @ x # ys) e" "successively (separated lo hi) (pre @ x # ys)"
    "covers x cur" "PageSize dvd cur" "0 < r" "cur + r * PageSize \<le> hi" "hi \<le> e" "lo \<le> cur"
    "al_ok al" "m_index al + (if m_address x = cur then 0 else 1) < MaxBlocks"
    and hi: "cur + r * PageSize = hi" and needs: "needs x"
  obtains zs xs' cur' r' al' where
    "update_loop needs change (pre @ x # ys) (length pre) cur r al =
      update_loop needs change ((pre @ zs) @ xs') (length (pre @ zs)) cur' r' al'"
    and "loop_state s e lo hi (pre @ zs) xs' cur' r' al'" and "r' < r"
    and "round_ok f N h pre (x # ys) cur al (zs @ xs') cur' al'" and "cur \<in> m_address ` set zs"
proof -
  obtain L m R al' where
    m: "split_for_update (pre @ x # ys) (length pre) cur (r * PageSize) al =
      Some (pre @ L @ m # R @ ys, length (pre @ L), cur, al')"
    "cut_at s e lo hi (pre @ x # ys) (pre @ L @ m # R @ ys)"
    "m_address m = cur" "m_num_pages m \<le> r" "page_of m = page_of x"
    "m_num_pages m < r \<longrightarrow> R = [] \<and> m_index al' < MaxBlocks" "al_ok al'"
    "al_total al = al_total al' + length L + length R"
    by (rule split_for_update_correct [OF c])
  let ?n = "m_num_pages m" and ?i = "KMemoryBlock_GetMemoryInfo m"
  have cut: "contiguous s ((pre @ L) @ m # R @ ys) e"
    "successively (separated lo hi) ((pre @ L) @ m # R @ ys)"
    "\<forall>a. page_at ((pre @ L) @ m # R @ ys) a = page_at (pre @ x # ys) a \<and>
      left_at ((pre @ L) @ m # R @ ys) a = left_at (pre @ x # ys) a"
    using m(2) by (simp_all add: cut_at_def)
  have ok: "block_ok m" and n: "0 < ?n" using cut(1) by (auto simp: contiguous_append block_ok_def)
  have hi': "cur + ?n * PageSize + (r - ?n) * PageSize = hi"
    using m(4) hi by (metis add.assoc distrib_right le_add_diff_inverse)
  have e64: "e < 2 ^ 64" "r < 2 ^ 64"
    using contiguous_less [OF c(1)] hi c(7) by (simp_all add: PageSize_def)
  have arith: "mul64 r PageSize = r * PageSize" "add64 cur (mi_size ?i) = cur + ?n * PageSize"
    "sub64 r (KMemoryInfo_GetNumPages ?i) = r - ?n"
    using ok hi' e64 hi c(7) m(4)
    by (simp_all add: KMemoryInfo_GetNumPages_def KMemoryBlock_GetMemoryInfo_def wrap_simps)
  have "update_loop needs change (pre @ x # ys) (length pre) cur r al =
    update_loop needs change ((pre @ L @ [change m]) @ R @ ys) (length (pre @ L @ [change m]))
      (cur + ?n * PageSize) (r - ?n) al'"
    by (subst update_loop.simps)
      (use needs c(5) m(1) in \<open>simp add: arith nth_append list_update_append\<close>)
  moreover have "loop_state s e lo hi ((pre @ L) @ [change m]) (R @ ys)
      (m_address (change m) + m_num_pages (change m) * PageSize) (r - ?n) al'"
    by (rule loop_state_next)
      (use cut m hi' c(7,8) separated_change [OF cut(2,1)] in
        \<open>simp_all add: change_extent contiguous_change [of s "pre @ L", simplified]\<close>)
  moreover have "\<forall>a. page_at (pre @ (L @ [change m]) @ R @ ys) a =
    (if cur \<le> a \<and> a < cur + ?n * PageSize
     then map_option f (page_at (pre @ x # ys) a) else page_at (pre @ x # ys) a)"
    using page_at_change [OF cut(1) needs m(5) [symmetric]] cut(3) m(3) by (simp add: covers_def)
  moreover have "flags_related N h cur (cur + ?n * PageSize) (pre @ x # ys) (pre @ (L @ [change m]) @ R @ ys)"
    using flags_cut [OF flags_change [OF cut(1)] cut(3)] needs_page [of x] needs m(3,5) c(8) by simp
  ultimately show ?thesis using m(3,8) n c(5)
    by (intro that [of "L @ [change m]" "R @ ys" "cur + ?n * PageSize" "r - ?n" al'])
      (simp_all add: change_extent round_ok_def)
qed

lemma update_round_skip:
  assumes c: "contiguous s (pre @ x # ys) e" "successively (separated lo hi) (pre @ x # ys)"
    "covers x cur" "PageSize dvd cur" "0 < r" "hi \<le> e" "lo \<le> cur"
    "al_ok al" "m_index al < MaxBlocks"
    and hi: "cur + r * PageSize = hi" and skip: "\<not> needs x"
  obtains cur' r' where
    "update_loop needs change (pre @ x # ys) (length pre) cur r al =
      update_loop needs change ((pre @ [x]) @ ys) (length (pre @ [x])) cur' r' al"
    and "loop_state s e lo hi (pre @ [x]) ys cur' r' al" and "r' < r"
    and "round_ok f N h pre (x # ys) cur al (x # ys) cur' al"
proof -
  let ?e = "m_address x + m_num_pages x * PageSize" and ?i = "KMemoryBlock_GetMemoryInfo x"
  have x: "block_ok x" using c(1) by (simp add: contiguous_append)
  have e64: "e < 2 ^ 64" using contiguous_less [OF c(1)] by simp
  note end_x = info_end [OF x]
  have arith: "mul64 r PageSize = r * PageSize" "add64 cur (r * PageSize) = hi"
    using e64 hi c(6) by (simp_all add: wrap_simps)
  have step: "update_loop needs change (pre @ x # ys) (length pre) cur r al =
    (let (cur', r') = update_advance cur (r * PageSize) ?i
     in update_loop needs change ((pre @ [x]) @ ys) (length (pre @ [x])) cur' r' al)"
    by (subst update_loop.simps) (use skip c(5) in \<open>simp add: arith(1)\<close>)
  have same: "\<forall>a. page_at (pre @ x # ys) a = (if cur \<le> a \<and> a < b
      then map_option f (page_at (pre @ x # ys) a) else page_at (pre @ x # ys) a)" if "b \<le> ?e" for b
    using page_at_skip [OF c(1) skip] c(3) that by (simp add: covers_def)
  show ?thesis
  proof (cases "hi < ?e")
    case True
    then have "update_advance cur (r * PageSize) ?i = (hi, 0)"
      by (simp add: update_advance_def arith end_x)
    then show ?thesis using step c hi same [of hi] flags_skip [OF c(1) skip c(3), of hi] True
      by (intro that [of hi 0]) (auto simp: loop_state_def round_ok_def)
  next
    case False
    obtain k j where k: "cur = PageSize * k" and j: "?e = PageSize * j"
      using c(4) x by (metis block_ok_def dvdE dvd_add dvd_triv_right)
    have kj: "k < j" "j \<le> k + r"
      using c(3) False hi unfolding covers_def k [symmetric] j [symmetric]
      by (simp_all add: k j flip: distrib_left)
        (use PageSize_pos in \<open>metis add.commute distrib_left mult.commute mult_le_cancel1 not_less\<close>)+
    have "sub64 hi ?e = hi - ?e" using False e64 c(6) by (intro sub64_eq) simp_all
    moreover have d: "hi - ?e = (k + r - j) * PageSize"
      using kj unfolding hi [symmetric] j by (simp add: k algebra_simps diff_mult_distrib)
    ultimately have "update_advance cur (r * PageSize) ?i = (?e, k + r - j)"
      using False by (simp add: update_advance_def arith end_x)
    moreover have "?e + (k + r - j) * PageSize = hi" using d False by linarith
    moreover have "lo \<le> ?e" using c(3,7) by (simp add: covers_def)
    ultimately show ?thesis using step c kj same [of ?e] flags_skip [OF c(1) skip c(3), of ?e]
      by (intro that [of ?e "k + r - j"]) (auto simp: round_ok_def covers_def intro: loop_state_next)
  qed
qed

lemma update_loop_correct:
  assumes "loop_state s e lo hi pre xs cur r al"
  shows "\<exists>zs al'. update_loop needs change (pre @ xs) (length pre) cur r al = Some (pre @ zs, al') \<and>
    contiguous s (pre @ zs) e \<and> successively (separated lo hi) (pre @ zs) \<and> al_ok al' \<and>
    round_ok f N h pre xs cur al zs hi al' \<and>
    (0 < r \<and> needs (hd xs) \<longrightarrow> cur \<in> m_address ` set zs)"
  using assms
proof (induction r arbitrary: pre xs cur al rule: less_induct)
  case (less r)
  show ?case
  proof (cases "r = 0")
    case True
    with less.prems show ?thesis
      by (subst update_loop.simps) (auto simp: loop_state_def round_ok_def flags_related_def)
  next
    case False
    then obtain x ys where xs: "xs = x # ys"
      using less.prems by (cases xs) (auto simp: loop_state_def)
    obtain zs xs' cur' r' al' where r:
      "update_loop needs change (pre @ xs) (length pre) cur r al =
        update_loop needs change ((pre @ zs) @ xs') (length (pre @ zs)) cur' r' al'"
      "loop_state s e lo hi (pre @ zs) xs' cur' r' al'" "r' < r"
      "round_ok f N h pre xs cur al (zs @ xs') cur' al'" "needs x \<longrightarrow> cur \<in> m_address ` set zs"
    proof (cases "needs x")
      case True
      show ?thesis
        by (rule update_round_change [of s pre x ys e hi cur r al])
          (use less.prems False True that xs in \<open>simp_all add: loop_state_def\<close>)
    next
      case skip: False
      show ?thesis
        by (rule update_round_skip [of s pre x ys e hi cur r al])
          (use less.prems False skip that [of "[x]" ys] xs in \<open>simp_all add: loop_state_def\<close>)
    qed
    obtain zs' al'' where IH:
      "update_loop needs change ((pre @ zs) @ xs') (length (pre @ zs)) cur' r' al' =
        Some ((pre @ zs) @ zs', al'')"
      "contiguous s ((pre @ zs) @ zs') e" "successively (separated lo hi) ((pre @ zs) @ zs')"
      "al_ok al''" "round_ok f N h (pre @ zs) xs' cur' al' zs' hi al''"
      using less.IH [OF r(3,2)] by blast
    have "cur' \<le> hi" using r(2) by (auto simp: loop_state_def)
    then have "round_ok f N h pre xs cur al (zs @ zs') hi al''"
      using r(4) IH(5) flags_related_trans [of N h cur cur' "pre @ xs" "pre @ zs @ xs'" hi "pre @ zs @ zs'" f]
      by (auto simp: round_ok_def)
    then show ?thesis using r(1,5) IH by (intro exI [of _ "zs @ zs'"] exI [of _ al'']) (auto simp: xs)
  qed
qed

end

section \<open>Coalescing\<close>

lemma tree_erase_append [simp]: "tree_erase (pre @ x # y # ys) (Suc (length pre)) = pre @ x # ys"
  by (simp add: tree_erase_def)

lemma page_at_Add:
  assumes "contiguous s (x # y # ys) e" and "KMemoryBlock_CanMergeWith x y"
  shows "page_at (KMemoryBlock_Add x y # ys) a = page_at (x # y # ys) a"
    and "contiguous s (KMemoryBlock_Add x y # ys) e"
proof -
  have ok: "block_ok x" "block_ok y" "m_address y = m_address x + m_num_pages x * PageSize"
    using assms(1) by auto
  note add = Add_fields [OF ok]
  have "page_of y = page_of x"
    using assms(2) by (simp add: KMemoryBlock_CanMergeWith_def HasSameProperties_iff)
  moreover have "covers (KMemoryBlock_Add x y) a \<longleftrightarrow> covers x a \<or> covers y a"
    using ok(3) by (auto simp: covers_def add algebra_simps)
  ultimately show "page_at (KMemoryBlock_Add x y # ys) a = page_at (x # y # ys) a"
    by (auto simp: page_at_Cons)
  show "contiguous s (KMemoryBlock_Add x y # ys) e"
    using assms(1) by (simp add: add algebra_simps)
qed

lemma left_at_Add:
  assumes "contiguous s (x # y # ys) e" and "KMemoryBlock_CanMergeWith x y"
  shows "left_at (KMemoryBlock_Add x y # ys) a = left_at (x # y # ys) a"
proof -
  have y: "m_disable_merge_attribute y AND DisableMergeAttribute_AllLeft = 0"
    using assms(2) by (simp add: KMemoryBlock_CanMergeWith_def DisableMergeAttribute_values(1))
  have "left_at ys (m_address y) = 0"
  proof (rule left_at_none)
    have "contiguous (m_address y + m_num_pages y * PageSize) ys e" "block_ok y" using assms(1) by auto
    then show "m_address y \<notin> m_address ` set ys" using contiguous_bounds(2) block_ok_pos [of y] by fastforce
  qed
  then show ?thesis using y assms(1) by (auto simp: KMemoryBlock_Add_def bit.conj_disj_distrib2)
qed

lemma separated_all:
  assumes "successively (separated lo hi) bs" and "contiguous s bs e" and "hi < s"
  shows "successively (\<lambda>x y. \<not> KMemoryBlock_CanMergeWith x y) bs"
  using assms
proof (induction bs arbitrary: s rule: induct_list012)
  case (3 x y zs)
  from "3.prems" have "\<not> KMemoryBlock_CanMergeWith x y" by (auto simp: separated_def)
  with "3.prems" "3.IH"(2) [of "m_address y"] show ?case by auto
qed simp_all

lemma separated_tail:
  assumes "successively (separated lo hi) (x # xs)" and "contiguous s (x # xs) e"
    and "hi < m_address x + m_num_pages x * PageSize"
  shows "successively (\<lambda>x y. \<not> KMemoryBlock_CanMergeWith x y) (x # xs)"
proof -
  have "successively (\<lambda>x y. \<not> KMemoryBlock_CanMergeWith x y) xs"
    using assms by (intro separated_all [of lo hi xs "s + m_num_pages x * PageSize" e])
      (auto simp: successively_Cons)
  moreover have "xs \<noteq> [] \<Longrightarrow> m_address (hd xs) = m_address x + m_num_pages x * PageSize"
    using assms(2) by (cases xs) auto
  ultimately show ?thesis using assms by (auto simp: successively_Cons separated_def)
qed

lemma successively_join:
  "successively P (xs @ [y]) \<Longrightarrow> successively P (y # ys) \<Longrightarrow> successively P (xs @ y # ys)"
  by (auto simp: successively_append_iff)

lemma CoalesceForUpdate_loop_correct:
  assumes "contiguous s (pre @ x # xs) e" and "al_ok al"
    and "successively (\<lambda>x y. \<not> KMemoryBlock_CanMergeWith x y) (pre @ [x])"
    and "successively (separated lo hi) (x # xs)"
  shows "\<exists>zs al'. CoalesceForUpdate_loop (pre @ x # xs) (length pre) hi al = Some (pre @ zs, al') \<and>
    contiguous s (pre @ zs) e \<and> al_ok al' \<and>
    successively (\<lambda>x y. \<not> KMemoryBlock_CanMergeWith x y) (pre @ zs) \<and>
    (\<forall>a. page_at (pre @ zs) a = page_at (pre @ x # xs) a \<and> left_at (pre @ zs) a = left_at (pre @ x # xs) a) \<and>
    al_total al' + length zs = al_total al + length (x # xs)"
  using assms
proof (induction xs arbitrary: pre x al)
  case Nil
  then show ?case by (subst CoalesceForUpdate_loop.simps) auto
next
  case (Cons y ys)
  let ?nm = "\<lambda>x y. \<not> KMemoryBlock_CanMergeWith x y"
  show ?case
  proof (cases "KMemoryBlock_CanMergeWith x y")
    case True
    let ?z = "KMemoryBlock_Add x y"
    obtain m where m: "contiguous s pre m" "contiguous m (x # y # ys) e"
      using Cons.prems(1) by (auto simp: contiguous_append)
    note z = page_at_Add [OF m(2) True]
    have c: "contiguous s (pre @ ?z # ys) e" using m(1) z(2) by (auto simp: contiguous_append)
    have page: "page_at (pre @ ?z # ys) a = page_at (pre @ x # y # ys) a \<and>
        left_at (pre @ ?z # ys) a = left_at (pre @ x # y # ys) a" for a
      unfolding page_at_append left_at_append z(1) left_at_Add [OF m(2) True] by simp
    have nm: "successively ?nm (pre @ [?z])"
      using Cons.prems(3) by (auto simp: successively_append_iff CanMergeWith_Add(1) [OF True])
    have sep: "successively (separated lo hi) (?z # ys)"
      using Cons.prems(4)
      by (auto simp: successively_Cons separated_def CanMergeWith_Add(2) [OF True])
    have ok: "block_ok ?z" using z(2) by simp
    let ?stop = "m_address ?z + m_num_pages ?z * PageSize"
    have step: "CoalesceForUpdate_loop (pre @ x # y # ys) (length pre) hi al =
      (if hi < ?stop then Some (pre @ ?z # ys, UpdateAllocator_Free al)
       else CoalesceForUpdate_loop (pre @ ?z # ys) (length pre) hi (UpdateAllocator_Free al))"
      by (subst CoalesceForUpdate_loop.simps)
        (simp add: True nth_append list_update_append info_end [OF ok] del: KMemoryBlock.select_convs)
    show ?thesis
    proof (cases "hi < ?stop")
      case True
      then have "successively ?nm (?z # ys)" using separated_tail [OF sep z(2)] by simp
      with nm have "successively ?nm (pre @ ?z # ys)" by (rule successively_join)
      with True step c page Free_ok [OF Cons.prems(2)] show ?thesis
        by (intro exI [of _ "?z # ys"] exI [of _ "UpdateAllocator_Free al"]) simp
    next
      case False
      obtain zs al' where
        "CoalesceForUpdate_loop (pre @ ?z # ys) (length pre) hi (UpdateAllocator_Free al) =
          Some (pre @ zs, al')" "contiguous s (pre @ zs) e" "al_ok al'" "successively ?nm (pre @ zs)"
        "\<forall>a. page_at (pre @ zs) a = page_at (pre @ ?z # ys) a \<and> left_at (pre @ zs) a = left_at (pre @ ?z # ys) a"
        "al_total al' + length zs = al_total (UpdateAllocator_Free al) + length (?z # ys)"
        using Cons.IH [OF c Free_ok(1) [OF Cons.prems(2)] nm sep] by blast
      with False step page Free_ok(2) [OF Cons.prems(2)] show ?thesis
        by (intro exI [of _ zs] exI [of _ al']) simp
    qed
  next
    case False
    have c: "contiguous s ((pre @ [x]) @ y # ys) e" using Cons.prems(1) by simp
    then obtain m where m: "contiguous m (y # ys) e" by (auto simp: contiguous_append)
    then have ok: "block_ok y" by simp
    have nm: "successively ?nm ((pre @ [x]) @ [y])"
      using Cons.prems(3) False by (auto simp: successively_append_iff)
    have sep: "successively (separated lo hi) (y # ys)" using Cons.prems(4) by simp
    let ?stop = "m_address y + m_num_pages y * PageSize"
    have step: "CoalesceForUpdate_loop (pre @ x # y # ys) (length pre) hi al =
      (if hi < ?stop then Some (pre @ x # y # ys, al)
       else CoalesceForUpdate_loop ((pre @ [x]) @ y # ys) (length (pre @ [x])) hi al)"
      by (subst CoalesceForUpdate_loop.simps) (simp add: False nth_append info_end [OF ok])
    show ?thesis
    proof (cases "hi < ?stop")
      case True
      then have "successively ?nm (y # ys)" using separated_tail [OF sep m] by simp
      with nm have "successively ?nm ((pre @ [x]) @ y # ys)" by (rule successively_join)
      with True step Cons.prems show ?thesis
        by (intro exI [of _ "x # y # ys"] exI [of _ al]) simp
    next
      case False
      obtain zs al' where
        "CoalesceForUpdate_loop ((pre @ [x]) @ y # ys) (length (pre @ [x])) hi al =
          Some ((pre @ [x]) @ zs, al')" "contiguous s ((pre @ [x]) @ zs) e" "al_ok al'"
        "successively ?nm ((pre @ [x]) @ zs)"
        "\<forall>a. page_at ((pre @ [x]) @ zs) a = page_at ((pre @ [x]) @ y # ys) a \<and>
          left_at ((pre @ [x]) @ zs) a = left_at ((pre @ [x]) @ y # ys) a"
        "al_total al' + length zs = al_total al + length (y # ys)"
        using Cons.IH [OF c Cons.prems(2) nm sep] by blast
      with False step show ?thesis by (intro exI [of _ "x # zs"] exI [of _ al']) simp
    qed
  qed
qed

section \<open>The operations\<close>

text \<open>
  A manager is well formed when its blocks cover the address space, and coalesced when no
  neighbours can be merged.  \<open>GetPage\<close> is what a lookup of a page sees.
\<close>

definition mgr_ok :: "KMemoryBlockManager \<Rightarrow> bool" where
  "mgr_ok mgr \<longleftrightarrow> contiguous (m_start_address mgr) (m_memory_block_tree mgr) (m_end_address mgr)"

definition coalesced :: "KMemoryBlockManager \<Rightarrow> bool" where
  "coalesced mgr \<longleftrightarrow>
     successively (\<lambda>x y. \<not> KMemoryBlock_CanMergeWith x y) (m_memory_block_tree mgr)"

definition GetPage ::
    "KMemoryBlockManager \<Rightarrow> addr \<Rightarrow> page option" where
  "GetPage mgr a = map_option page_of (KMemoryBlockManager_FindBlock mgr a)"

lemma GetPage_eq: "mgr_ok mgr \<Longrightarrow> GetPage mgr a = page_at (m_memory_block_tree mgr) a"
  by (simp add: GetPage_def mgr_ok_def FindBlock_eq page_at_def)

text \<open>
  A range to be updated: page aligned, not empty and inside the address space, with an allocator
  that holds both its blocks.
\<close>

definition update_range :: "KMemoryBlockManager \<Rightarrow> UpdateAllocator \<Rightarrow> addr \<Rightarrow> nat \<Rightarrow> bool" where
  "update_range mgr al address num_pages \<longleftrightarrow>
     mgr_ok mgr \<and> coalesced mgr \<and> al_ok al \<and> m_index al = 0 \<and> PageSize dvd address \<and>
     m_start_address mgr \<le> address \<and> 0 < num_pages \<and>
     address + num_pages * PageSize \<le> m_end_address mgr"

text \<open>
  \<open>CoalesceForUpdate\<close> steps back from the block that contains the address unless the address is
  the start of the address space.  The step is defined when the range does not begin inside a
  first block that is left unchanged.
\<close>

definition has_previous :: "(KMemoryBlock \<Rightarrow> bool) \<Rightarrow> KMemoryBlockManager \<Rightarrow> addr \<Rightarrow> bool" where
  "has_previous needs mgr address \<longleftrightarrow>
     address = m_start_address mgr \<or> needs (hd (m_memory_block_tree mgr)) \<or>
     \<not> covers (hd (m_memory_block_tree mgr)) address"

lemma separated_init:
  assumes "successively (separated lo hi) bs" and "\<forall>b\<in>set bs. m_address b < lo"
  shows "successively (\<lambda>x y. \<not> KMemoryBlock_CanMergeWith x y) bs"
  by (rule successively_mono [OF assms(1)]) (use assms(2) in \<open>auto simp: separated_def\<close>)

lemma CoalesceForUpdate_correct:
  assumes "mgr_ok mgr" and "al_ok al" and "m_memory_block_tree mgr = pre @ x # ys"
    and "covers x address" and "address \<noteq> m_start_address mgr \<Longrightarrow> pre \<noteq> []"
    and "add64 address (mul64 num_pages PageSize) = hi"
    and "successively (separated address hi) (m_memory_block_tree mgr)"
  shows "\<exists>bs al'. KMemoryBlockManager_CoalesceForUpdate mgr al address num_pages =
      Some (mgr\<lparr>m_memory_block_tree := bs\<rparr>, al') \<and>
    mgr_ok (mgr\<lparr>m_memory_block_tree := bs\<rparr>) \<and> coalesced (mgr\<lparr>m_memory_block_tree := bs\<rparr>) \<and> al_ok al' \<and>
    (\<forall>a. page_at bs a = page_at (m_memory_block_tree mgr) a \<and> left_at bs a = left_at (m_memory_block_tree mgr) a) \<and>
    al_total al' + length bs = al_total al + length (m_memory_block_tree mgr)"
proof -
  let ?s = "m_start_address mgr" and ?e = "m_end_address mgr"
  have c: "contiguous ?s (pre @ x # ys) ?e" using assms(1,3) by (simp add: mgr_ok_def)
  have find: "KMemoryBlockManager_FindIterator mgr address = length pre"
    using tree_find_eq [OF c assms(4)] assms(3) by (simp add: KMemoryBlockManager_FindIterator_def)
  obtain pre' b rest where split: "pre @ x # ys = pre' @ b # rest"
    and it: "(if address \<noteq> ?s then (if length pre = 0 then None else Some (length pre - 1))
      else Some (length pre)) = Some (length pre')"
    and before: "pre' = [] \<or> m_address b < address"
  proof (cases "address = ?s")
    case True
    have "pre = []"
    proof (rule ccontr)
      assume "pre \<noteq> []"
      then have "hd pre \<in> set pre" by simp
      then have "m_address (hd pre) < m_address x" "?s \<le> m_address (hd pre)"
        using contiguous_address_before [OF c] contiguous_bounds(2) [OF c] by auto
      with True assms(4) show False by (simp add: covers_def)
    qed
    with True show ?thesis by (intro that [of "[]" x ys]) simp_all
  next
    case False
    then obtain us p where "pre = us @ [p]" using assms(5) by (cases pre rule: rev_cases) auto
    moreover from this have "m_address p < address"
      using contiguous_address_before [OF c, of p] assms(4) by (simp add: covers_def)
    ultimately show ?thesis using False by (intro that [of us p "x # ys"]) simp_all
  qed
  have sep: "successively (separated address hi) (pre' @ b # rest)"
    using assms(3,7) split by simp
  have "successively (\<lambda>x y. \<not> KMemoryBlock_CanMergeWith x y) (pre' @ [b])"
  proof (cases "pre' = []")
    case False
    then have "\<forall>d\<in>set (pre' @ [b]). m_address d < address"
      using before contiguous_address_before [OF c [unfolded split]] by force
    moreover have "successively (separated address hi) (pre' @ [b])"
      using sep by (auto simp: successively_append_iff)
    ultimately show ?thesis by (intro separated_init)
  qed simp
  moreover have "successively (separated address hi) (b # rest)"
    using sep by (auto simp: successively_append_iff)
  ultimately obtain zs al' where
    "CoalesceForUpdate_loop (pre' @ b # rest) (length pre') hi al = Some (pre' @ zs, al')"
    "contiguous ?s (pre' @ zs) ?e" "al_ok al'"
    "successively (\<lambda>x y. \<not> KMemoryBlock_CanMergeWith x y) (pre' @ zs)"
    "\<forall>a. page_at (pre' @ zs) a = page_at (pre' @ b # rest) a \<and> left_at (pre' @ zs) a = left_at (pre' @ b # rest) a"
    "al_total al' + length zs = al_total al + length (b # rest)"
    using CoalesceForUpdate_loop_correct [OF c [unfolded split] assms(2)] by blast
  with find it show ?thesis
    by (intro exI [of _ "pre' @ zs"] exI [of _ al'])
      (simp add: KMemoryBlockManager_CoalesceForUpdate_def assms(3,6) split mgr_ok_def coalesced_def)
qed

lemma previous_block:
  assumes c: "contiguous s (pre @ x # ys) e" and x: "covers x address"
    and c': "contiguous s (pre @ zs) e" and split: "pre @ zs = pre' @ b # rest"
    and b: "covers b address" and found: "pre = [] \<Longrightarrow> address \<in> m_address ` set zs"
    and start: "address \<noteq> s"
  shows "pre' \<noteq> []"
proof (cases "pre = []")
  case False
  then have "hd pre \<in> set pre" by simp
  then have "\<not> covers (hd pre) address"
    using contiguous_not_covers_before [OF c x, of "hd pre"] by (simp add: covers_def)
  then show ?thesis using b split False by (cases pre; cases pre') auto
next
  case True
  with found obtain d where "d \<in> set (pre @ zs)" and d: "m_address d = address" by auto
  then obtain us vs where dec: "pre @ zs = us @ d # vs" by (meson split_list)
  note cd = c' [unfolded dec] and cb = c' [unfolded split]
  have "covers d address"
    using d block_ok_pos [of d] contiguous_bounds(1) [OF cd, of d] by (simp add: covers_def)
  then have "length us = length pre'"
    using tree_find_eq [OF cd] tree_find_eq [OF cb b] unfolding dec [symmetric] split [symmetric]
    by simp
  moreover have "us \<noteq> []" using cd d start by auto
  ultimately show ?thesis by auto
qed

context page_update
begin

lemma update_correct:
  assumes "update_range mgr al lo num_pages" and "has_previous needs mgr lo"
  shows "\<exists>bs al'. KMemoryBlockManager_update needs change mgr al lo num_pages =
      Some (mgr\<lparr>m_memory_block_tree := bs\<rparr>, al') \<and>
    mgr_ok (mgr\<lparr>m_memory_block_tree := bs\<rparr>) \<and> coalesced (mgr\<lparr>m_memory_block_tree := bs\<rparr>) \<and> al_ok al' \<and>
    (\<forall>a. GetPage (mgr\<lparr>m_memory_block_tree := bs\<rparr>) a =
      (if lo \<le> a \<and> a < lo + num_pages * PageSize
       then map_option f (GetPage mgr a) else GetPage mgr a)) \<and>
    flags_related N h lo (lo + num_pages * PageSize) (m_memory_block_tree mgr) bs \<and>
    al_total al' + length bs = al_total al + length (m_memory_block_tree mgr)"
proof -
  let ?s = "m_start_address mgr" and ?e = "m_end_address mgr"
  let ?hi = "lo + num_pages * PageSize" and ?bs = "m_memory_block_tree mgr"
  have u: "contiguous ?s ?bs ?e" "coalesced mgr" "al_ok al" "m_index al = 0" "PageSize dvd lo"
    "?s \<le> lo" "0 < num_pages" "?hi \<le> ?e"
    using assms(1) by (simp_all add: update_range_def mgr_ok_def)
  have "lo < ?e" using u(7,8) PageSize_pos(1) by (metis add_lessD1 le_neq_implies_less less_add_same_cancel1 less_le_trans nat_0_less_mult_iff)
  then obtain pre x ys where bs: "?bs = pre @ x # ys" and x: "covers x lo"
    using contiguous_covers [OF u(1,6)] by blast
  have c: "contiguous ?s (pre @ x # ys) ?e" using u(1) bs by simp
  have find: "KMemoryBlockManager_FindIterator mgr lo = length pre"
    using tree_find_eq [OF c x] bs by (simp add: KMemoryBlockManager_FindIterator_def)
  have "successively (separated lo ?hi) (pre @ x # ys)"
    using u(2) by (auto simp: coalesced_def bs separated_def elim: successively_mono)
  then have "loop_state ?s ?e lo ?hi pre (x # ys) lo num_pages al"
    using u c x by (auto simp: loop_state_def MaxBlocks_def)
  from update_loop_correct [OF this] obtain zs al1 where
    l: "update_loop needs change (pre @ x # ys) (length pre) lo num_pages al = Some (pre @ zs, al1)"
    "contiguous ?s (pre @ zs) ?e" "successively (separated lo ?hi) (pre @ zs)" "al_ok al1"
    "round_ok f N h pre (x # ys) lo al zs ?hi al1" "needs x \<longrightarrow> lo \<in> m_address ` set zs"
    using u(7) by auto
  let ?mgr = "mgr\<lparr>m_memory_block_tree := pre @ zs\<rparr>"
  obtain pre' b rest where s': "pre @ zs = pre' @ b # rest" and b: "covers b lo"
    using contiguous_covers [OF l(2) u(6) \<open>lo < ?e\<close>] by blast
  have "pre' \<noteq> []" if "lo \<noteq> ?s"
  proof (rule previous_block [OF c x l(2) s' b _ that])
    assume "pre = []"
    then have "needs x" using assms(2) that x by (simp add: has_previous_def bs)
    then show "lo \<in> m_address ` set zs" using l(6) by simp
  qed
  moreover have "add64 lo (mul64 num_pages PageSize) = ?hi"
    using contiguous_less [OF c] u(8) by (simp add: wrap_simps)
  moreover have "mgr_ok ?mgr" using l(2) by (simp add: mgr_ok_def)
  moreover have "successively (separated lo ?hi) (pre' @ b # rest)" using l(3) unfolding s' .
  ultimately have "\<exists>bs al'. KMemoryBlockManager_CoalesceForUpdate ?mgr al1 lo num_pages =
      Some (?mgr\<lparr>m_memory_block_tree := bs\<rparr>, al') \<and>
    mgr_ok (?mgr\<lparr>m_memory_block_tree := bs\<rparr>) \<and> coalesced (?mgr\<lparr>m_memory_block_tree := bs\<rparr>) \<and> al_ok al' \<and>
    (\<forall>a. page_at bs a = page_at (m_memory_block_tree ?mgr) a \<and> left_at bs a = left_at (m_memory_block_tree ?mgr) a) \<and>
    al_total al' + length bs = al_total al1 + length (m_memory_block_tree ?mgr)"
    by (intro CoalesceForUpdate_correct [OF _ l(4) _ b]) (simp_all add: s')
  then obtain bs al' where r:
    "KMemoryBlockManager_CoalesceForUpdate ?mgr al1 lo num_pages =
      Some (mgr\<lparr>m_memory_block_tree := bs\<rparr>, al')"
    "mgr_ok (mgr\<lparr>m_memory_block_tree := bs\<rparr>)" "coalesced (mgr\<lparr>m_memory_block_tree := bs\<rparr>)" "al_ok al'"
    "\<forall>a. page_at bs a = page_at (pre @ zs) a \<and> left_at bs a = left_at (pre @ zs) a"
    "al_total al' + length bs = al_total al1 + length (pre @ zs)"
    by auto
  have "KMemoryBlockManager_update needs change mgr al lo num_pages =
      Some (mgr\<lparr>m_memory_block_tree := bs\<rparr>, al')"
    using l(1) r(1) by (simp add: KMemoryBlockManager_update_def find bs)
  moreover have "GetPage (mgr\<lparr>m_memory_block_tree := bs\<rparr>) a =
      (if lo \<le> a \<and> a < ?hi then map_option f (GetPage mgr a) else GetPage mgr a)" for a
    using l(5) r(2,5) u(1) by (simp add: GetPage_eq mgr_ok_def bs round_ok_def)
  moreover have "flags_related N h lo ?hi ?bs bs" using l(5) r(5) by (simp add: bs round_ok_def flags_related_def)
  moreover have "al_total al' + length bs = al_total al + length ?bs"
    using l(5) r(6) by (simp add: bs round_ok_def)
  ultimately show ?thesis using r(2-4) by blast
qed

end

section \<open>The block methods as page functions\<close>

text \<open>What the methods do to the six properties of a page.\<close>

fun set_page :: "u32 \<Rightarrow> u8 \<Rightarrow> u8 \<Rightarrow> page \<Rightarrow> page" where
  "set_page s p a (s0, p0, o0, a0, i, d) =
     (s, p, o0, a OR (a0 AND (KMemoryAttribute_IpcLocked OR KMemoryAttribute_DeviceShared)), i, d)"

fun page_matches :: "u32 \<Rightarrow> u8 \<Rightarrow> u8 \<Rightarrow> page \<Rightarrow> bool" where
  "page_matches s p a (s0, p0, o0, a0, i, d) \<longleftrightarrow>
     s0 = s \<and> p0 = p \<and> (a0 OR AttributeIgnoreMask) = (a OR AttributeIgnoreMask)"

fun attribute_page :: "u8 \<Rightarrow> u8 \<Rightarrow> page \<Rightarrow> page" where
  "attribute_page m a (s0, p0, o0, a0, i, d) = (s0, p0, o0, (a0 AND NOT m) OR a, i, d)"

fun lock_page :: "u8 \<Rightarrow> page \<Rightarrow> page" where
  "lock_page perm (s0, p0, o0, a0, i, d) =
     (if i = 0
      then (s0, (perm AND KMemoryPermission_IpcLockChangeMask) OR
                (p0 AND NOT KMemoryPermission_IpcLockChangeMask), p0,
            a0 OR KMemoryAttribute_IpcLocked, 1, d)
      else (s0, p0, o0, a0 OR KMemoryAttribute_IpcLocked, i + 1, d))"

fun unlock_page :: "u8 \<Rightarrow> page \<Rightarrow> page" where
  "unlock_page perm (s0, p0, o0, a0, i, d) =
     (if i = 1
      then (s0, o0, KMemoryPermission_None, a0 AND NOT KMemoryAttribute_IpcLocked, 0, d)
      else (s0, p0, o0, a0, i - 1, d))"

fun share_page :: "u8 \<Rightarrow> page \<Rightarrow> page" where
  "share_page perm (s0, p0, o0, a0, i, d) =
     (s0, p0, o0, a0 OR KMemoryAttribute_DeviceShared, i, d + 1)"

fun unshare_page :: "u8 \<Rightarrow> page \<Rightarrow> page" where
  "unshare_page perm (s0, p0, o0, a0, i, d) =
     (if d = 1 then (s0, p0, o0, a0 AND NOT KMemoryAttribute_DeviceShared, i, 0)
      else (s0, p0, o0, a0, i, d - 1))"

lemma page_of_Update: "page_of (KMemoryBlock_Update b s p a x m c) = set_page s p a (page_of b)"
  by (simp add: page_of_def Update_fields)

lemma HasProperties_page:
  "KMemoryBlock_HasProperties b s p a \<longleftrightarrow> page_matches s p a (page_of b)"
  by (simp add: KMemoryBlock_HasProperties_def page_of_def)

lemma attribute_kept:
  assumes "(a0 OR AttributeIgnoreMask) = (a OR AttributeIgnoreMask)" and "a AND AttributeIgnoreMask = 0"
  shows "a OR (a0 AND (KMemoryAttribute_IpcLocked OR KMemoryAttribute_DeviceShared)) = a0"
proof (rule bit_word_eqI)
  fix n assume "n < LENGTH(8)"
  have "bit (a0 OR AttributeIgnoreMask) n = bit (a OR AttributeIgnoreMask) n" using assms(1) by simp
  with and_eq_0_bits [OF assms(2), of n]
  show "bit (a OR (a0 AND (KMemoryAttribute_IpcLocked OR KMemoryAttribute_DeviceShared))) n = bit a0 n"
    by (auto simp: AttributeIgnoreMask_def [symmetric] bit_or_iff bit_and_iff)
qed

lemma set_page_id:
  assumes "page_matches s p a g" and "a AND AttributeIgnoreMask = 0"
  shows "set_page s p a g = g"
  using assms by (cases g) (auto intro: attribute_kept)

definition update_flags :: "bool \<Rightarrow> u8 \<Rightarrow> u8 \<Rightarrow> u8 \<Rightarrow> u8" where
  "update_flags set_flags set_mask clear_mask w =
     (if set_flags then w OR (set_mask AND DisableMergeAttribute_AllLeft) else w) AND NOT clear_mask"

lemma Update_flags:
  "m_disable_merge_attribute (KMemoryBlock_Update b s p a x m c) AND DisableMergeAttribute_AllLeft =
     update_flags x m c (m_disable_merge_attribute b AND DisableMergeAttribute_AllLeft)"
  by (rule bit_word_eqI) (auto simp: KMemoryBlock_Update_def update_flags_def Let_def bit_simps)

lemma update_flags_zero: "update_flags False m c 0 = 0"
  by (simp add: update_flags_def)

lemma page_update_Update:
  assumes "attr AND AttributeIgnoreMask = 0"
  shows "page_update (\<lambda>b. \<not> KMemoryBlock_HasProperties b s perm attr)
    (\<lambda>b. KMemoryBlock_Update b s perm attr (m_address b = address) m c) (set_page s perm attr)
    (\<lambda>g. \<not> page_matches s perm attr g) (\<lambda>a w w'. w' = update_flags (a = address) m c w) address"
  using assms
  by unfold_locales
    (simp_all add: Update_flags update_flags_zero Update_fields(7,8) page_of_Update HasProperties_page set_page_id)

lemma page_update_UpdateIfMatch:
  assumes "attr AND AttributeIgnoreMask = 0"
  shows "page_update (\<lambda>b. KMemoryBlock_HasProperties b ts tp ta \<and> \<not> KMemoryBlock_HasProperties b s perm attr)
    (\<lambda>b. KMemoryBlock_Update b s perm attr False m c)
    (\<lambda>g. if page_matches ts tp ta g then set_page s perm attr g else g)
    (\<lambda>g. page_matches ts tp ta g \<and> \<not> page_matches s perm attr g) (\<lambda>a w w'. w' = update_flags False m c w) address"
  using assms
  by unfold_locales
    (simp_all add: Update_flags update_flags_zero Update_fields(7,8) page_of_Update HasProperties_page set_page_id)

interpretation attribute_update: page_update
  "\<lambda>b. (m_attribute b AND attr_mask) \<noteq> attr" "\<lambda>b. KMemoryBlock_UpdateAttribute b attr_mask attr"
  "attribute_page attr_mask attr" "\<lambda>(_, _, _, a, _). (a AND attr_mask) \<noteq> attr" "\<lambda>_ w w'. w' = w" lo for attr_mask attr lo
proof unfold_locales
  fix b :: KMemoryBlock assume "\<not> m_attribute b AND attr_mask \<noteq> attr"
  then have "attr = m_attribute b AND attr_mask" by simp
  then have "(m_attribute b AND NOT attr_mask) OR attr = m_attribute b"
    by (intro bit_word_eqI) (auto simp: bit_or_iff bit_and_iff bit_not_iff)
  then show "attribute_page attr_mask attr (page_of b) = page_of b" by (simp add: page_of_def)
qed (simp_all add: KMemoryBlock_UpdateAttribute_def page_of_def)

text \<open>The contract of the methods passed to \<^verbatim>\<open>UpdateLock\<close>.\<close>

locale lock_function =
  fixes lock_func :: "KMemoryBlock \<Rightarrow> u8 \<Rightarrow> bool \<Rightarrow> bool \<Rightarrow> KMemoryBlock"
    and g :: "u8 \<Rightarrow> page \<Rightarrow> page"
  assumes lock_extent: "m_address (lock_func b p l r) = m_address b"
      "m_num_pages (lock_func b p l r) = m_num_pages b"
    and lock_page: "page_of (lock_func b p l r) = g p (page_of b)"

sublocale lock_function \<subseteq> page_update "\<lambda>_. True"
  "\<lambda>b. lock_func b p (m_address b = lo) (KMemoryBlock_GetEndAddress b = hi)" "g p" "\<lambda>_. True" "\<lambda>_ _ _. True" lo for p lo hi
  by unfold_locales (simp_all add: lock_extent lock_page)

context lock_function
begin

lemma UpdateLock_correct:
  assumes "update_range mgr al address num_pages"
  shows "\<exists>bs al'. KMemoryBlockManager_UpdateLock mgr al address num_pages lock_func p =
      Some (mgr\<lparr>m_memory_block_tree := bs\<rparr>, al') \<and>
    mgr_ok (mgr\<lparr>m_memory_block_tree := bs\<rparr>) \<and> coalesced (mgr\<lparr>m_memory_block_tree := bs\<rparr>) \<and> al_ok al' \<and>
    (\<forall>a. GetPage (mgr\<lparr>m_memory_block_tree := bs\<rparr>) a =
      (if address \<le> a \<and> a < address + num_pages * PageSize
       then map_option (g p) (GetPage mgr a) else GetPage mgr a)) \<and>
    al_total al' + length bs = al_total al + length (m_memory_block_tree mgr)"
proof -
  have "has_previous (\<lambda>_. True) mgr address" by (simp add: has_previous_def)
  from update_correct [OF assms this, of p "add64 address (mul64 num_pages PageSize)"] show ?thesis
    unfolding KMemoryBlockManager_UpdateLock_def Let_def by blast
qed

end

lemma u16_Suc_eq_1: "c + 1 = (1 :: u16) \<longleftrightarrow> c = 0"
  by (metis add_0 add_right_cancel)

interpretation ipc_lock: lock_function KMemoryBlock_LockForIpc lock_page
  by unfold_locales
    (simp_all add: KMemoryBlock_LockForIpc_def Let_def page_of_def u16_Suc_eq_1)

interpretation ipc_unlock: lock_function KMemoryBlock_UnlockForIpc unlock_page
  by unfold_locales
    (simp_all add: KMemoryBlock_UnlockForIpc_def Let_def page_of_def)

interpretation device_share: lock_function KMemoryBlock_ShareToDevice share_page
  by unfold_locales (simp_all add: ShareToDevice_eq page_of_def)

interpretation device_unshare: lock_function KMemoryBlock_UnshareToDevice unshare_page
  by unfold_locales (simp_all add: unshare_defs Let_def page_of_def)

interpretation device_unshare_right: lock_function KMemoryBlock_UnshareToDeviceRight unshare_page
  by unfold_locales
    (simp_all add: KMemoryBlock_UnshareToDeviceRight_def UpdateDeviceDisableMergeStateForUnshareRight_def Let_def page_of_def)

section \<open>The state check\<close>

lemma CheckState_loop_iff:
  "CheckState_loop prev bs \<longleftrightarrow>
     successively (\<lambda>x y. \<not> KMemoryBlock_CanMergeWith x y) (prev # bs) \<and>
     successively (\<lambda>x y. KMemoryBlock_GetEndAddress x = m_address y) (prev # bs) \<and>
     (\<forall>b\<in>set (if bs = [] then [prev] else bs). counts_present b)"
  by (induction bs arbitrary: prev) auto

lemma contiguous_adjacent:
  "contiguous s bs e \<Longrightarrow> successively (\<lambda>x y. KMemoryBlock_GetEndAddress x = m_address y) bs"
proof (induction bs arbitrary: s rule: induct_list012)
  case (3 x y zs)
  then show ?case by auto
qed simp_all

fun counted_page :: "page \<Rightarrow> bool" where
  "counted_page (s, p, o0, a, i, d) \<longleftrightarrow>
     (a AND KMemoryAttribute_IpcLocked \<noteq> 0 \<longrightarrow> i \<noteq> 0) \<and>
     (a AND KMemoryAttribute_DeviceShared \<noteq> 0 \<longrightarrow> d \<noteq> 0)"

lemma counts_present_page: "counts_present b \<longleftrightarrow> counted_page (page_of b)"
  by (auto simp: counts_present_def page_of_def KMemoryAttribute_values(1))

text \<open>What the auditor expects of a manager.\<close>

definition audit_ok :: "KMemoryBlockManager \<Rightarrow> bool" where
  "audit_ok mgr \<longleftrightarrow>
     mgr_ok mgr \<and> coalesced mgr \<and> m_memory_block_tree mgr \<noteq> [] \<and>
     (\<forall>b\<in>set (m_memory_block_tree mgr). counts_present b)"

lemma audit_ok_CheckState: "audit_ok mgr \<Longrightarrow> KMemoryBlockManager_CheckState mgr = Some True"
  using contiguous_adjacent [of "m_start_address mgr" "m_memory_block_tree mgr" "m_end_address mgr"]
  by (cases "m_memory_block_tree mgr")
    (auto simp: audit_ok_def KMemoryBlockManager_CheckState_def CheckState_loop_iff coalesced_def
      mgr_ok_def)

lemma audit_ok_pages:
  assumes "mgr_ok mgr" and "coalesced mgr" and "m_start_address mgr < m_end_address mgr"
    and "\<And>a g. GetPage mgr a = Some g \<Longrightarrow> counted_page g"
  shows "audit_ok mgr"
proof -
  let ?bs = "m_memory_block_tree mgr"
  have c: "contiguous (m_start_address mgr) ?bs (m_end_address mgr)"
    using assms(1) by (simp add: mgr_ok_def)
  have "counts_present b" if b: "b \<in> set ?bs" for b
  proof -
    obtain pre ys where bs: "?bs = pre @ b # ys" using b by (meson split_list)
    note c' = c [unfolded bs]
    have "covers b (m_address b)"
      using block_ok_pos [of b] contiguous_bounds(1) [OF c b] by (simp add: covers_def)
    then have "GetPage mgr (m_address b) = Some (page_of b)"
      using block_at_covers [OF c'] assms(1) by (simp add: GetPage_eq page_at_def bs)
    then show ?thesis using assms(4) by (simp add: counts_present_page)
  qed
  moreover have "?bs \<noteq> []" using c assms(3) by auto
  ultimately show ?thesis using assms by (simp add: audit_ok_def)
qed

lemma audit_ok_GetPage:
  assumes "audit_ok mgr" and "GetPage mgr a = Some g"
  shows "counted_page g"
  using assms unfolding audit_ok_def
  by (auto simp: GetPage_eq page_at_def block_at_def counts_present_page find_Some_iff)

lemma update_range_nonempty:
  assumes "update_range mgr al address num_pages"
  shows "m_start_address mgr < m_end_address mgr"
proof -
  have "m_start_address mgr \<le> address" "address + num_pages * PageSize \<le> m_end_address mgr"
    "0 < num_pages * PageSize"
    using assms by (simp_all add: update_range_def)
  then show ?thesis by linarith
qed

lemma counted_set_page:
  assumes "counted_page g" and "a AND AttributeIgnoreMask = 0"
  shows "counted_page (set_page s p a g)"
proof -
  have "\<not> bit a 1" "\<not> bit a 2"
    using and_eq_0_bits [OF assms(2), of 1] and_eq_0_bits [OF assms(2), of 2]
    by (simp_all add: AttributeIgnoreMask_def bit_or_iff flag_word_bits)
  then show ?thesis using assms(1)
    by (cases g) (simp add: named_flag_bits bit_or_iff bit_and_iff flag_word_bits)
qed

lemma destroy_total: "al_ok al \<Longrightarrow> UpdateAllocator_destroy al = al_total al"
  by (auto simp: al_ok_def al_total_def UpdateAllocator_destroy_def slab_Free_def MaxBlocks_def)

fun ipc_page_ok :: "page \<Rightarrow> bool" where
  "ipc_page_ok (s, p, o0, a, i, d) \<longleftrightarrow>
     i \<noteq> -1 \<and> (i = 0 \<longleftrightarrow> a AND KMemoryAttribute_IpcLocked = 0) \<and>
     (i = 0 \<longrightarrow> o0 = KMemoryPermission_None)"

lemma unlock_lock_page: "ipc_page_ok g \<Longrightarrow> unlock_page p' (lock_page p g) = g"
  by (cases g) (auto simp: flag_clear_set named_flag_or u16_Suc_eq_1)

section \<open>Properties\<close>

text \<open>Three regions of sixteen pages: unused, heap, unused.\<close>

definition example_mgr :: KMemoryBlockManager where
  "example_mgr =
     \<lparr>m_memory_block_tree =
        [KMemoryBlock_new 0 16 KMemoryState_Free KMemoryPermission_None KMemoryAttribute_None,
         KMemoryBlock_new 65536 16 KMemoryState_Normal KMemoryPermission_UserReadWrite
           KMemoryAttribute_None,
         KMemoryBlock_new 131072 16 KMemoryState_Free KMemoryPermission_None
           KMemoryAttribute_None],
      m_start_address = 0, m_end_address = 196608\<rparr>"

definition example_al :: UpdateAllocator where
  "example_al = \<lparr>m_blocks = [True, True], m_index = 0, m_slab_manager = 0\<rparr>"

lemma example_range:
  "update_range example_mgr example_al 73728 4"
  by (simp add: update_range_def example_mgr_def example_al_def mgr_ok_def coalesced_def al_ok_def
      block_ok_def KMemoryBlock_new_def PageSize_def MaxBlocks_def
      KMemoryBlock_CanMergeWith_def KMemoryBlock_HasSameProperties_def KMemoryState_values)

lemma example_audit: "audit_ok example_mgr"
  by (simp add: audit_ok_def example_mgr_def mgr_ok_def coalesced_def counts_present_def
      block_ok_def KMemoryBlock_new_def PageSize_def
      KMemoryBlock_CanMergeWith_def KMemoryBlock_HasSameProperties_def KMemoryState_values flag_simps)

lemma example_not_first: "\<not> covers (hd (m_memory_block_tree example_mgr)) 73728"
  by (simp add: example_mgr_def covers_def KMemoryBlock_new_def PageSize_def)

text \<open>
  C2: \<^verbatim>\<open>Update\<close> on a page-aligned range inside a well-formed, coalesced address space, with an
  attribute that carries no lock flag (as the code asserts), unless the range begins inside a first block that
  already has the new properties.  It returns, with the two blocks its allocator holds.  Afterwards the blocks
  again cover the address space without gaps or overlaps and no two neighbours can be merged; every page of the
  range has the new state, permission and attribute and keeps its lock flags, lock counts and saved permission;
  every other page is as before.  The flags that forbid merging with the block before are set at the start of the
  range and cleared at every block start of the range, where the page did not have the new properties already,
  and are as before everywhere else.
\<close>

theorem Update_correct:
  assumes "update_range mgr al address num_pages" and "attr AND AttributeIgnoreMask = 0"
    and "has_previous (\<lambda>b. \<not> KMemoryBlock_HasProperties b s perm attr) mgr address"
  shows "\<exists>mgr' al'. KMemoryBlockManager_Update mgr al address num_pages s perm attr sd cd =
      Some (mgr', al') \<and>
    mgr_ok mgr' \<and> coalesced mgr' \<and>
    (\<forall>a. GetPage mgr' a =
      (if address \<le> a \<and> a < address + num_pages * PageSize
       then map_option (set_page s perm attr) (GetPage mgr a) else GetPage mgr a)) \<and>
    (\<forall>a g. GetPage mgr a = Some g \<longrightarrow>
      left_at (m_memory_block_tree mgr') a =
        (if address \<le> a \<and> a < address + num_pages * PageSize \<and> \<not> page_matches s perm attr g
         then update_flags (a = address) sd cd (left_at (m_memory_block_tree mgr) a)
         else left_at (m_memory_block_tree mgr) a))"
proof -
  have ok: "mgr_ok mgr" using assms(1) by (simp add: update_range_def)
  show ?thesis
    using page_update.update_correct [OF page_update_Update [OF assms(2)] assms(1,3), of sd cd]
    by (fastforce simp: KMemoryBlockManager_Update_def flags_related_def GetPage_eq [OF ok])
qed

theorem Update_correct_witness:
  "\<exists>mgr' al'. KMemoryBlockManager_Update example_mgr example_al 73728 4 KMemoryState_Free
      KMemoryPermission_None KMemoryAttribute_None 0 0 = Some (mgr', al') \<and>
    mgr_ok mgr' \<and> coalesced mgr' \<and>
    (\<forall>a. GetPage mgr' a =
      (if 73728 \<le> a \<and> a < 73728 + 4 * PageSize
       then map_option (set_page KMemoryState_Free KMemoryPermission_None KMemoryAttribute_None)
         (GetPage example_mgr a)
       else GetPage example_mgr a))"
proof -
  have "KMemoryAttribute_None AND AttributeIgnoreMask = 0"
    "has_previous (\<lambda>b. \<not> KMemoryBlock_HasProperties b KMemoryState_Free KMemoryPermission_None KMemoryAttribute_None) example_mgr 73728"
    by (simp_all add: flag_simps has_previous_def example_not_first)
  from Update_correct [OF example_range this, of 0 0] show ?thesis by blast
qed

text \<open>
  C13: \<^verbatim>\<open>UpdateIfMatch\<close> under the same conditions returns, keeps the address space covered and
  coalesced, and changes exactly the pages of the range that match the tested state, permission and
  attribute.
\<close>

theorem UpdateIfMatch_correct:
  assumes "update_range mgr al address num_pages" and "attr AND AttributeIgnoreMask = 0"
    and "has_previous (\<lambda>b. KMemoryBlock_HasProperties b ts tp ta \<and>
      \<not> KMemoryBlock_HasProperties b s perm attr) mgr address"
  shows "\<exists>mgr' al'. KMemoryBlockManager_UpdateIfMatch mgr al address num_pages ts tp ta s perm attr
      sd cd = Some (mgr', al') \<and>
    mgr_ok mgr' \<and> coalesced mgr' \<and>
    (\<forall>a. GetPage mgr' a =
      (if address \<le> a \<and> a < address + num_pages * PageSize
       then map_option (\<lambda>g. if page_matches ts tp ta g then set_page s perm attr g else g)
         (GetPage mgr a)
       else GetPage mgr a))"
  using page_update.update_correct [OF page_update_UpdateIfMatch [OF assms(2)] assms(1,3)]
  by (fastforce simp: KMemoryBlockManager_UpdateIfMatch_def)

theorem UpdateIfMatch_correct_witness:
  "\<exists>mgr' al'. KMemoryBlockManager_UpdateIfMatch example_mgr example_al 73728 4
      KMemoryState_Normal KMemoryPermission_UserReadWrite KMemoryAttribute_None
      KMemoryState_Normal KMemoryPermission_UserRead KMemoryAttribute_None 0 0 = Some (mgr', al') \<and>
    mgr_ok mgr' \<and> coalesced mgr' \<and>
    (\<forall>a. GetPage mgr' a =
      (if 73728 \<le> a \<and> a < 73728 + 4 * PageSize
       then map_option (\<lambda>g. if page_matches KMemoryState_Normal KMemoryPermission_UserReadWrite
           KMemoryAttribute_None g
         then set_page KMemoryState_Normal KMemoryPermission_UserRead KMemoryAttribute_None g else g)
         (GetPage example_mgr a)
       else GetPage example_mgr a))"
  by (rule UpdateIfMatch_correct [OF example_range])
    (simp_all add: flag_simps has_previous_def example_not_first)

text \<open>
  \<^verbatim>\<open>UpdateAttribute\<close> under the same conditions returns, keeps the address space covered and
  coalesced, and replaces the masked attribute bits of exactly the pages of the range.
\<close>

theorem UpdateAttribute_correct:
  assumes "update_range mgr al address num_pages"
    and "has_previous (\<lambda>b. (m_attribute b AND attr_mask) \<noteq> attr) mgr address"
  shows "\<exists>mgr' al'. KMemoryBlockManager_UpdateAttribute mgr al address num_pages attr_mask attr =
      Some (mgr', al') \<and>
    mgr_ok mgr' \<and> coalesced mgr' \<and>
    (\<forall>a. GetPage mgr' a =
      (if address \<le> a \<and> a < address + num_pages * PageSize
       then map_option (attribute_page attr_mask attr) (GetPage mgr a) else GetPage mgr a))"
  using attribute_update.update_correct [OF assms]
  by (fastforce simp: KMemoryBlockManager_UpdateAttribute_def)

theorem UpdateAttribute_correct_witness:
  "\<exists>mgr' al'. KMemoryBlockManager_UpdateAttribute example_mgr example_al 73728 4
      KMemoryAttribute_Uncached KMemoryAttribute_Uncached = Some (mgr', al') \<and>
    mgr_ok mgr' \<and> coalesced mgr' \<and>
    (\<forall>a. GetPage mgr' a =
      (if 73728 \<le> a \<and> a < 73728 + 4 * PageSize
       then map_option (attribute_page KMemoryAttribute_Uncached KMemoryAttribute_Uncached)
         (GetPage example_mgr a)
       else GetPage example_mgr a))"
  by (rule UpdateAttribute_correct [OF example_range]) (simp add: has_previous_def example_not_first)

text \<open>
  C21: Locking a range of an address space for IPC and unlocking it again gives every page its
  former state, permission, attribute and counts, inside and outside the range, when the counts and
  flags of the pages agree and no lock count is at its maximum.
\<close>

theorem UpdateLock_ipc_roundtrip:
  assumes "update_range mgr al address num_pages" and "al_ok al2" and "m_index al2 = 0"
    and "\<And>a g. GetPage mgr a = Some g \<Longrightarrow> ipc_page_ok g"
  shows "\<exists>mgr1 al1 mgr2 al3.
    KMemoryBlockManager_UpdateLock mgr al address num_pages KMemoryBlock_LockForIpc p =
      Some (mgr1, al1) \<and>
    KMemoryBlockManager_UpdateLock mgr1 al2 address num_pages KMemoryBlock_UnlockForIpc p' =
      Some (mgr2, al3) \<and>
    (\<forall>a. GetPage mgr2 a = GetPage mgr a)"
proof -
  obtain mgr1 al1 where l:
    "KMemoryBlockManager_UpdateLock mgr al address num_pages KMemoryBlock_LockForIpc p =
      Some (mgr1, al1)" "mgr_ok mgr1" "coalesced mgr1"
    "m_start_address mgr1 = m_start_address mgr" "m_end_address mgr1 = m_end_address mgr"
    "\<forall>a. GetPage mgr1 a = (if address \<le> a \<and> a < address + num_pages * PageSize
       then map_option (lock_page p) (GetPage mgr a) else GetPage mgr a)"
    using ipc_lock.UpdateLock_correct [OF assms(1), of p] by fastforce
  have "update_range mgr1 al2 address num_pages"
    using assms(1-3) l by (simp add: update_range_def)
  from ipc_unlock.UpdateLock_correct [OF this, of p'] obtain mgr2 al3 where u:
    "KMemoryBlockManager_UpdateLock mgr1 al2 address num_pages KMemoryBlock_UnlockForIpc p' =
      Some (mgr2, al3)"
    "\<forall>a. GetPage mgr2 a = (if address \<le> a \<and> a < address + num_pages * PageSize
       then map_option (unlock_page p') (GetPage mgr1 a) else GetPage mgr1 a)"
    by fastforce
  have "GetPage mgr2 a = GetPage mgr a" for a
    using l(6) u(2) unlock_lock_page [OF assms(4) [of a]]
    by (cases "GetPage mgr a") auto
  with l(1) u(1) show ?thesis by blast
qed

lemma example_ipc_pages: "GetPage example_mgr a = Some g \<Longrightarrow> ipc_page_ok g"
  using example_range
  by (auto simp: update_range_def GetPage_eq page_at_def block_at_def find_Some_iff)
    (auto simp: example_mgr_def page_of_def KMemoryBlock_new_def flag_simps less_Suc_eq nth_Cons' split: if_splits)

theorem UpdateLock_ipc_roundtrip_witness:
  "\<exists>mgr1 al1 mgr2 al3.
    KMemoryBlockManager_UpdateLock example_mgr example_al 73728 4 KMemoryBlock_LockForIpc
      KMemoryPermission_UserRead = Some (mgr1, al1) \<and>
    KMemoryBlockManager_UpdateLock mgr1 example_al 73728 4 KMemoryBlock_UnlockForIpc
      KMemoryPermission_None = Some (mgr2, al3) \<and>
    (\<forall>a. GetPage mgr2 a = GetPage example_mgr a)"
  by (rule UpdateLock_ipc_roundtrip [OF example_range])
    (simp_all add: example_al_def al_ok_def MaxBlocks_def example_ipc_pages)

text \<open>
  C18: \<^verbatim>\<open>Update\<close> keeps what the auditor checks: if the address space is well formed, coalesced
  and every locked or shared block has a count, then the same holds afterwards and
  \<^verbatim>\<open>CheckState\<close> returns true.
\<close>

theorem Update_CheckState:
  assumes "update_range mgr al address num_pages" and "attr AND AttributeIgnoreMask = 0"
    and "has_previous (\<lambda>b. \<not> KMemoryBlock_HasProperties b s perm attr) mgr address"
    and "audit_ok mgr"
  shows "\<exists>mgr' al'. KMemoryBlockManager_Update mgr al address num_pages s perm attr sd cd =
      Some (mgr', al') \<and> audit_ok mgr' \<and> KMemoryBlockManager_CheckState mgr' = Some True"
proof -
  obtain mgr' al' where u:
    "KMemoryBlockManager_Update mgr al address num_pages s perm attr sd cd = Some (mgr', al')"
    "mgr_ok mgr'" "coalesced mgr'"
    "m_start_address mgr' = m_start_address mgr" "m_end_address mgr' = m_end_address mgr"
    "\<forall>a. GetPage mgr' a = (if address \<le> a \<and> a < address + num_pages * PageSize
       then map_option (set_page s perm attr) (GetPage mgr a) else GetPage mgr a)"
    using page_update.update_correct [OF page_update_Update [OF assms(2)] assms(1,3)]
    by (fastforce simp: KMemoryBlockManager_Update_def)
  have "counted_page g" if g: "GetPage mgr' a = Some g" for a g
  proof -
    obtain h where "GetPage mgr a = Some h" "g = h \<or> g = set_page s perm attr h"
      using g u(6) by (cases "GetPage mgr a") (auto split: if_splits simp del: set_page.simps)
    then show ?thesis
      using audit_ok_GetPage [OF assms(4)] counted_set_page [OF _ assms(2)] by blast
  qed
  moreover have "m_start_address mgr' < m_end_address mgr'"
    using update_range_nonempty [OF assms(1)] u(4,5) by simp
  ultimately have "audit_ok mgr'" using u(2,3) by (intro audit_ok_pages)
  with u(1) audit_ok_CheckState show ?thesis by blast
qed

theorem Update_CheckState_witness:
  "\<exists>mgr' al'. KMemoryBlockManager_Update example_mgr example_al 73728 4 KMemoryState_Free
      KMemoryPermission_None KMemoryAttribute_None 0 0 = Some (mgr', al') \<and>
    audit_ok mgr' \<and> KMemoryBlockManager_CheckState mgr' = Some True"
  by (rule Update_CheckState [OF example_range])
    (simp_all add: flag_simps has_previous_def example_not_first example_audit)

text \<open>
  C33: An update neither leaks nor invents blocks: when the allocator is created, the update runs
  and the allocator is destroyed, the blocks in the slab manager and in the tree together are as
  many as before.
\<close>

theorem Update_no_leak:
  assumes "UpdateAllocator_new slab MaxBlocks = (ResultSuccess, al)"
    and "update_range mgr al address num_pages" and "attr AND AttributeIgnoreMask = 0"
    and "has_previous (\<lambda>b. \<not> KMemoryBlock_HasProperties b s perm attr) mgr address"
  shows "\<exists>mgr' al'. KMemoryBlockManager_Update mgr al address num_pages s perm attr sd cd =
      Some (mgr', al') \<and>
    UpdateAllocator_destroy al' + length (m_memory_block_tree mgr') =
      slab + length (m_memory_block_tree mgr)"
  using page_update.update_correct [OF page_update_Update [OF assms(3)] assms(2,4)]
    new_ok(3) [OF assms(1)]
  by (fastforce simp: KMemoryBlockManager_Update_def destroy_total)

lemma example_new: "UpdateAllocator_new 2 MaxBlocks = (ResultSuccess, example_al)"
proof -
  have "sub64 MaxBlocks MaxBlocks = 0" by (simp add: MaxBlocks_def sub64_eq)
  then show ?thesis
    by (simp add: UpdateAllocator_new_def UpdateAllocator_Initialize_def slab_Allocate_def
        example_al_def MaxBlocks_def upt_rec numeral_2_eq_2)
qed

theorem Update_no_leak_witness:
  "\<exists>mgr' al'. KMemoryBlockManager_Update example_mgr example_al 73728 4 KMemoryState_Free
      KMemoryPermission_None KMemoryAttribute_None 0 0 = Some (mgr', al') \<and>
    UpdateAllocator_destroy al' + length (m_memory_block_tree mgr') =
      2 + length (m_memory_block_tree example_mgr)"
  by (rule Update_no_leak [OF example_new example_range])
    (simp_all add: flag_simps has_previous_def example_not_first)

text \<open>
  C39: \<^verbatim>\<open>CoalesceForUpdate\<close> steps back from the block that contains the address whenever the
  address is not the start of the address space.  If the range lies inside the first block, after
  its start, and that block already has the requested properties, there is no previous block and
  \<^verbatim>\<open>Update\<close> has no defined result.
\<close>

theorem Update_inside_unchanged_first_block:
  assumes "mgr_ok mgr" and "m_memory_block_tree mgr = b # bs"
    and "m_start_address mgr < address" and "0 < num_pages"
    and "address + num_pages * PageSize \<le> m_address b + m_num_pages b * PageSize"
    and "KMemoryBlock_HasProperties b s perm attr"
  shows "KMemoryBlockManager_Update mgr al address num_pages s perm attr sd cd = None"
proof -
  have c: "contiguous (m_start_address mgr) ([] @ b # bs) (m_end_address mgr)"
    using assms(1,2) by (simp add: mgr_ok_def)
  then have b: "block_ok b" "m_address b = m_start_address mgr" by simp_all
  let ?e = "m_address b + m_num_pages b * PageSize"
  have pos: "0 < num_pages * PageSize" using assms(4) by simp
  have cov: "covers b address" using b(2) assms(3,5) pos unfolding covers_def by linarith
  have find: "KMemoryBlockManager_FindIterator mgr address = 0"
    using tree_find_eq [OF c cov] assms(2) by (simp add: KMemoryBlockManager_FindIterator_def)
  have e64: "?e < 2 ^ 64" using b(1) by (simp add: block_ok_def)
  have arith: "mul64 num_pages PageSize = num_pages * PageSize"
    "add64 address (num_pages * PageSize) = address + num_pages * PageSize"
    using e64 assms(5) by (simp_all add: wrap_simps)
  have "update_advance address (num_pages * PageSize) (KMemoryBlock_GetMemoryInfo b) =
      (address + num_pages * PageSize, 0)"
    using assms(5) e64 by (auto simp: update_advance_def arith info_end [OF b(1)] sub64_eq)
  then have "update_loop (\<lambda>b. \<not> KMemoryBlock_HasProperties b s perm attr) change (b # bs) 0 address
      num_pages al = Some (b # bs, al)" for change
    by (subst update_loop.simps) (use assms(4,6) in \<open>simp add: arith update_loop.simps [of _ _ _ _ _ 0]\<close>)
  then have "KMemoryBlockManager_Update mgr al address num_pages s perm attr sd cd =
      KMemoryBlockManager_CoalesceForUpdate mgr al address num_pages"
    using find assms(2)
    by (cases mgr) (simp add: KMemoryBlockManager_Update_def KMemoryBlockManager_update_def)
  then show ?thesis using find assms(3) by (simp add: KMemoryBlockManager_CoalesceForUpdate_def)
qed

theorem Update_inside_unchanged_first_block_witness:
  "KMemoryBlockManager_Update example_mgr example_al 8192 4 KMemoryState_Free
     KMemoryPermission_None KMemoryAttribute_None 0 0 = None"
  by (rule Update_inside_unchanged_first_block
      [of _ "KMemoryBlock_new 0 16 KMemoryState_Free KMemoryPermission_None KMemoryAttribute_None"])
    (use example_range in \<open>simp_all add: update_range_def\<close>,
     simp_all add: example_mgr_def KMemoryBlock_new_def PageSize_def KMemoryBlock_HasProperties_def)

text \<open>
  C32: What \<^verbatim>\<open>CheckState\<close> checks of a tree that is not empty.  It returns true exactly when neighbours are
  adjacent and not mergeable and the counts that belong to lock flags are present: of the block when it is the only
  one, and otherwise of every block but the first, which is never looked at.
\<close>

theorem CheckState_iff:
  assumes "m_memory_block_tree mgr = b # bs"
  shows "KMemoryBlockManager_CheckState mgr = Some True \<longleftrightarrow>
    coalesced mgr \<and>
    successively (\<lambda>x y. KMemoryBlock_GetEndAddress x = m_address y) (m_memory_block_tree mgr) \<and>
    (\<forall>c\<in>set (if bs = [] then [b] else bs). counts_present c)"
  using assms
  by (simp add: KMemoryBlockManager_CheckState_def CheckState_loop_iff coalesced_def)

definition example_unchecked :: KMemoryBlockManager where
  "example_unchecked = example_mgr\<lparr>m_memory_block_tree :=
     (hd (m_memory_block_tree example_mgr))\<lparr>m_attribute := KMemoryAttribute_IpcLocked\<rparr> #
     tl (m_memory_block_tree example_mgr)\<rparr>"

theorem CheckState_iff_witness:
  "KMemoryBlockManager_CheckState example_unchecked = Some True \<and>
   \<not> counts_present (hd (m_memory_block_tree example_unchecked))"
proof
  have "m_memory_block_tree example_unchecked = hd (m_memory_block_tree example_unchecked) #
      tl (m_memory_block_tree example_unchecked)"
    by (simp add: example_unchecked_def)
  from CheckState_iff [OF this] show "KMemoryBlockManager_CheckState example_unchecked = Some True"
    by (simp add: example_unchecked_def example_mgr_def coalesced_def counts_present_def
        KMemoryBlock_CanMergeWith_def KMemoryBlock_HasSameProperties_def KMemoryBlock_new_def
        KMemoryBlock_GetEndAddress_def KMemoryBlock_GetSize_def PageSize_def wrap_simps
        KMemoryState_values flag_simps)
  show "\<not> counts_present (hd (m_memory_block_tree example_unchecked))"
    by (simp add: example_unchecked_def example_mgr_def counts_present_def KMemoryBlock_new_def
        flag_simps)
qed

end
