(* ===== verification/Free_Area.thy ===== *)
theory Free_Area
  imports Memory_Block_Update
begin

text \<open>
  The searches that start an address space off: \<^verbatim>\<open>KMemoryBlockManager::Initialize\<close> gives a
  well-formed manager, and \<^verbatim>\<open>FindFreeArea\<close> finds the lowest suitable address in a region, or 0
  exactly when there is none.
\<close>

section \<open>The candidate of a block\<close>

text \<open>
  The least address not below \<open>base\<close> that is congruent to the offset modulo the alignment.
\<close>

lemma candidate_least:
  assumes "0 < alignment" and "offset < alignment"
    and "base = max region_start info_address + guard_pages * PageSize"
    and "base + 2 * alignment < 2 ^ 64"
  defines "c \<equiv> FindFreeArea_candidate region_start alignment offset guard_pages info_address"
  shows "base \<le> c" "c mod alignment = offset" "c < base + alignment"
    and "base \<le> r \<Longrightarrow> r mod alignment = offset \<Longrightarrow> c \<le> r"
proof -
  let ?d = "AlignDown base alignment"
  have d: "?d \<le> base" "base < ?d + alignment" "alignment dvd ?d"
    using assms(1) by (simp_all add: AlignDown_le AlignDown_gt AlignDown_dvd)
  have area: "add64 (if info_address \<le> region_start then region_start else info_address)
      (mul64 guard_pages PageSize) = base"
    using assms(3,4) by (auto simp: wrap_simps max_def)
  have c: "c = (if base \<le> ?d + offset then ?d + offset else ?d + offset + alignment)"
    unfolding c_def FindFreeArea_candidate_def area Let_def
    using assms(2,4) d by (simp add: wrap_simps)
  obtain k where k: "?d = alignment * k" using d(3) by (elim dvdE)
  show "base \<le> c" "c < base + alignment" using c d assms(2) by auto
  show "c mod alignment = offset" using assms(2) by (simp add: c k)
  show "c \<le> r" if r: "base \<le> r" "r mod alignment = offset"
  proof -
    define q where "q = r div alignment"
    have rq: "r = alignment * q + offset" using r(2) q_def by (metis mult_div_mod_eq)
    have "k \<le> q"
    proof (rule ccontr)
      assume "\<not> k \<le> q"
      then have "alignment * (q + 1) \<le> ?d" unfolding k by (intro mult_le_mono2) simp
      then have "r < ?d" using rq assms(2) by simp
      with r(1) d(1) show False by simp
    qed
    show ?thesis
    proof (cases "base \<le> ?d + offset")
      case True
      with \<open>k \<le> q\<close> show ?thesis by (simp add: c rq k)
    next
      case False
      then have "k \<noteq> q" using r(1) rq k by auto
      with \<open>k \<le> q\<close> have "k + 1 \<le> q" by simp
      then have "alignment * (k + 1) \<le> alignment * q" by (rule mult_le_mono2)
      with False show ?thesis by (simp add: c rq k)
    qed
  qed
qed

section \<open>Suitable areas\<close>

text \<open>
  An area of \<open>num_pages\<close> pages at \<open>r\<close> with its guard pages on both sides, inside the free block
  \<open>b\<close> and the region.
\<close>

definition suitable ::
    "addr \<Rightarrow> addr \<Rightarrow> nat \<Rightarrow> nat \<Rightarrow> nat \<Rightarrow> nat \<Rightarrow> KMemoryBlock \<Rightarrow> addr \<Rightarrow> bool" where
  "suitable region_start region_end num_pages alignment offset guard_pages b r \<longleftrightarrow>
     m_memory_state b = KMemoryState_Free \<and>
     region_start + guard_pages * PageSize \<le> r \<and> m_address b + guard_pages * PageSize \<le> r \<and>
     r + num_pages * PageSize + guard_pages * PageSize \<le> region_end \<and>
     r + num_pages * PageSize + guard_pages * PageSize \<le> m_address b + m_num_pages b * PageSize \<and>
     r mod alignment = offset"

definition least_suitable ::
    "KMemoryBlock list \<Rightarrow> addr \<Rightarrow> addr \<Rightarrow> nat \<Rightarrow> nat \<Rightarrow> nat \<Rightarrow> nat \<Rightarrow> addr \<Rightarrow> bool" where
  "least_suitable bs region_start region_end num_pages alignment offset guard_pages r \<longleftrightarrow>
     (if r = 0
      then \<forall>b\<in>set bs. \<forall>r'. \<not> suitable region_start region_end num_pages alignment offset guard_pages b r'
      else (\<exists>b\<in>set bs. suitable region_start region_end num_pages alignment offset guard_pages b r) \<and>
        (\<forall>b\<in>set bs. \<forall>r'. suitable region_start region_end num_pages alignment offset guard_pages b r'
           \<longrightarrow> r \<le> r'))"

lemma info_last:
  assumes "block_ok b"
  shows "KMemoryInfo_GetLastAddress (KMemoryBlock_GetMemoryInfo b) =
    m_address b + m_num_pages b * PageSize - 1"
  using block_ok_last [OF assms]
  by (simp add: KMemoryInfo_GetLastAddress_def KMemoryInfo_GetEndAddress_def
      KMemoryBlock_GetLastAddress_def KMemoryBlock_GetEndAddress_def KMemoryBlock_GetMemoryInfo_def)

text \<open>One round of the search on a free block that the region reaches.\<close>

lemma free_block_round:
  assumes "block_ok b" and "m_memory_state b = KMemoryState_Free" and "m_address b < region_end"
    and "0 < alignment" and "offset < alignment" and "0 < num_pages" and "0 < region_start"
    and "max region_start (m_address b) + guard_pages * PageSize + num_pages * PageSize +
      guard_pages * PageSize + 2 * alignment < 2 ^ 64"
  defines "c \<equiv> FindFreeArea_candidate region_start alignment offset guard_pages (m_address b)"
    and "S \<equiv> suitable region_start region_end num_pages alignment offset guard_pages"
    and "F \<equiv> \<lambda>bs. FindFreeArea_loop bs region_start (region_end - 1) num_pages alignment offset guard_pages"
  shows "F (b # bs) = (if S b c then c else F bs)" and "S b r \<Longrightarrow> S b c \<and> c \<le> r" and "c \<noteq> 0"
    and "S b c \<Longrightarrow> c \<le> m_address b + m_num_pages b * PageSize"
proof -
  let ?g = "guard_pages * PageSize" and ?n = "num_pages * PageSize"
  let ?stop = "m_address b + m_num_pages b * PageSize"
  let ?base = "max region_start (m_address b) + ?g"
  have "?base + 2 * alignment < 2 ^ 64" using assms(8) by linarith
  note cand = candidate_least [OF assms(4,5) refl this, folded c_def]
  have le: "region_start + ?g \<le> c" "m_address b + ?g \<le> c"
    using cand(1) by (simp_all add: max_def split: if_splits)
  have fits: "S b c \<longleftrightarrow> c + ?n + ?g \<le> region_end \<and> c + ?n + ?g \<le> ?stop"
    using cand(2) le assms(2) by (simp add: S_def suitable_def)
  have n: "1 < ?n" using assms(6) by (simp add: PageSize_def)
  have bound: "c + ?n + ?g < 2 ^ 64" using assms(8) cand(3) by linarith
  then have "mul64 num_pages PageSize = ?n" "mul64 guard_pages PageSize = ?g" "add64 c ?n = c + ?n"
    by (intro mul64_eq add64_eq; linarith)+
  then have arith: "sub64 (add64 (add64 c (mul64 num_pages PageSize)) (mul64 guard_pages PageSize)) 1
      = c + ?n + ?g - 1"
    using bound n by (simp only: add64_eq) (intro sub64_eq; linarith)
  have cond: "(m_address b \<le> c \<and> c < c + ?n + ?g - 1 \<and>
      c + ?n + ?g - 1 \<le> region_end - 1 \<and> c + ?n + ?g - 1 \<le> ?stop - 1) \<longleftrightarrow> S b c"
    unfolding fits using block_ok_pos [OF assms(1)] assms(3) n le by linarith
  have info: "mi_address (KMemoryBlock_GetMemoryInfo b) = m_address b"
    "mi_state (KMemoryBlock_GetMemoryInfo b) = KMemoryState_Free"
    using assms(2) by (simp_all add: KMemoryBlock_GetMemoryInfo_def)
  have "\<not> region_end - 1 < m_address b" using assms(3) by linarith
  then show "F (b # bs) = (if S b c then c else F bs)"
    unfolding F_def FindFreeArea_loop.simps Let_def info info_last [OF assms(1)] c_def [symmetric]
      arith cond by simp
  show "S b c \<and> c \<le> r" if r: "S b r"
  proof -
    have "?base \<le> r" "r mod alignment = offset"
      using r by (simp_all add: S_def suitable_def max_def)
    then have "c \<le> r" by (rule cand(4))
    with r show ?thesis unfolding fits by (simp add: S_def suitable_def)
  qed
  show "c \<noteq> 0" using le(1) assms(7) by simp
  show "S b c \<Longrightarrow> c \<le> ?stop" unfolding fits by linarith
qed

lemma FindFreeArea_loop_least:
  assumes "contiguous s bs e" and "0 < alignment" and "offset < alignment" and "0 < num_pages"
    and "0 < region_start" and "region_start < region_end" and "region_end \<le> e"
    and "e + (num_pages + 2 * guard_pages) * PageSize + 2 * alignment < 2 ^ 64"
  shows "least_suitable bs region_start region_end num_pages alignment offset guard_pages
    (FindFreeArea_loop bs region_start (region_end - 1) num_pages alignment offset guard_pages)"
  using assms(1)
proof (induction bs arbitrary: s)
  case Nil
  then show ?case by (simp add: least_suitable_def)
next
  case (Cons b bs)
  let ?S = "suitable region_start region_end num_pages alignment offset guard_pages"
  let ?F = "\<lambda>bs. FindFreeArea_loop bs region_start (region_end - 1) num_pages alignment offset guard_pages"
  let ?stop = "m_address b + m_num_pages b * PageSize"
  have b: "block_ok b" "m_address b = s" and bs: "contiguous ?stop bs e" using Cons.prems by auto
  have later: "?stop \<le> r" if "d \<in> set bs" "?S d r" for d r
    using contiguous_bounds(2) [OF bs that(1)] that(2) by (simp add: suitable_def)
  note IH = Cons.IH [OF bs]
  consider "region_end - 1 < m_address b" | "\<not> region_end - 1 < m_address b" "m_memory_state b \<noteq> KMemoryState_Free"
    | "m_address b < region_end" "m_memory_state b = KMemoryState_Free"
    using assms(6) by linarith
  then show ?case
  proof cases
    case 1
    have "\<not> ?S d r" if "d \<in> set (b # bs)" for d r
    proof
      assume "?S d r"
      moreover have "m_address b \<le> m_address d"
        using that contiguous_bounds(2) [OF bs, of d] by auto
      moreover have "0 < num_pages * PageSize" using assms(4) by simp
      ultimately show False using 1 unfolding suitable_def by linarith
    qed
    with 1 show ?thesis by (simp add: least_suitable_def KMemoryBlock_GetMemoryInfo_def)
  next
    case 2
    then have "?F (b # bs) = ?F bs" by (simp add: KMemoryBlock_GetMemoryInfo_def)
    moreover have "\<not> ?S b r" for r using 2 by (simp add: suitable_def)
    ultimately show ?thesis using IH by (simp add: least_suitable_def)
  next
    case 3
    have "m_address b \<le> e" "region_start \<le> e"
      using contiguous_le [OF Cons.prems] b(2) assms(6,7) by simp_all
    then have "max region_start (m_address b) + guard_pages * PageSize + num_pages * PageSize +
        guard_pages * PageSize + 2 * alignment < 2 ^ 64"
      using assms(8) by (simp add: algebra_simps)
    note round = free_block_round [OF b(1) 3(2,1) assms(2-5) this]
    let ?c = "FindFreeArea_candidate region_start alignment offset guard_pages (m_address b)"
    show ?thesis
    proof (cases "?S b ?c")
      case True
      have "?c \<le> r" if "d \<in> set (b # bs)" "?S d r" for d r
        using that round(2) [of r] order_trans [OF round(4) [OF True] later [of d r]] by auto
      with True round(1,3) show ?thesis
        by (auto simp: least_suitable_def simp del: FindFreeArea_loop.simps)
    next
      case False
      with round(1,2) IH show ?thesis
        by (auto simp: least_suitable_def simp del: FindFreeArea_loop.simps)
    qed
  qed
qed

section \<open>Properties\<close>

text \<open>
  C14: \<^verbatim>\<open>FindFreeArea\<close> finds the lowest suitable address: the area with its guard pages on both
  sides lies in one free block and in the region, and the address has the given offset modulo the
  alignment.  It returns 0 only when no block has such an area.  The address space is small enough
  that the candidate computation does not wrap around.
\<close>

theorem FindFreeArea_least:
  assumes "mgr_ok mgr" and "0 < alignment" and "offset < alignment" and "0 < num_pages"
    and "0 < region_start" and "m_start_address mgr \<le> region_start" and "0 < region_num_pages"
    and "region_start + region_num_pages * PageSize \<le> m_end_address mgr"
    and "m_end_address mgr + (num_pages + 2 * guard_pages) * PageSize + 2 * alignment < 2 ^ 64"
  shows "least_suitable (m_memory_block_tree mgr) region_start
    (region_start + region_num_pages * PageSize) num_pages alignment offset guard_pages
    (KMemoryBlockManager_FindFreeArea mgr region_start region_num_pages num_pages alignment offset
      guard_pages)"
proof -
  let ?stop = "region_start + region_num_pages * PageSize" and ?e = "m_end_address mgr"
  have lt: "region_start < ?stop" using assms(7) by simp
  then obtain pre x ys where bs: "m_memory_block_tree mgr = pre @ x # ys" and x: "covers x region_start"
    using contiguous_covers [of "m_start_address mgr" "m_memory_block_tree mgr" ?e region_start]
      assms(1,6,8) by (metis less_le_trans mgr_ok_def)
  have c: "contiguous (m_start_address mgr) (pre @ x # ys) ?e"
    using assms(1) by (simp add: mgr_ok_def bs)
  have find: "KMemoryBlockManager_FindIterator mgr region_start = length pre"
    using tree_find_eq [OF c x] by (simp add: KMemoryBlockManager_FindIterator_def bs)
  have xs: "contiguous (m_address x) (x # ys) ?e" using c by (auto simp: contiguous_append)
  have "?e < 2 ^ 64" using assms(9) by linarith
  then have "sub64 (add64 region_start (mul64 region_num_pages PageSize)) 1 = ?stop - 1"
    using assms(8) lt by (simp add: wrap_simps Suc_le_eq)
  then have eq: "KMemoryBlockManager_FindFreeArea mgr region_start region_num_pages num_pages
      alignment offset guard_pages =
    FindFreeArea_loop (x # ys) region_start (?stop - 1) num_pages alignment offset guard_pages"
    using assms(4) by (simp add: KMemoryBlockManager_FindFreeArea_def find bs del: FindFreeArea_loop.simps)
  have "\<not> suitable region_start ?stop num_pages alignment offset guard_pages d r" if "d \<in> set pre" for d r
  proof
    assume "suitable region_start ?stop num_pages alignment offset guard_pages d r"
    moreover have "m_address d + m_num_pages d * PageSize \<le> region_start"
      using contiguous_not_covers_before [OF c x that] .
    moreover have "0 < num_pages * PageSize" using assms(4) by simp
    ultimately show False unfolding suitable_def by linarith
  qed
  with FindFreeArea_loop_least [OF xs assms(2-5) lt assms(8,9)] show ?thesis
    unfolding eq bs by (auto simp: least_suitable_def simp del: FindFreeArea_loop.simps)
qed

theorem FindFreeArea_least_witness:
  "least_suitable (m_memory_block_tree example_mgr) 4096 (4096 + 40 * PageSize) 3 8192 4096 1
    (KMemoryBlockManager_FindFreeArea example_mgr 4096 40 3 8192 4096 1) \<and>
   KMemoryBlockManager_FindFreeArea example_mgr 4096 40 3 8192 4096 1 = 12288"
proof
  show "least_suitable (m_memory_block_tree example_mgr) 4096 (4096 + 40 * PageSize) 3 8192 4096 1
    (KMemoryBlockManager_FindFreeArea example_mgr 4096 40 3 8192 4096 1)"
    by (rule FindFreeArea_least) (use example_range in \<open>simp_all add: update_range_def\<close>,
      simp_all add: example_mgr_def PageSize_def)
  show "KMemoryBlockManager_FindFreeArea example_mgr 4096 40 3 8192 4096 1 = 12288"
    by (simp add: KMemoryBlockManager_FindFreeArea_def KMemoryBlockManager_FindIterator_def
        example_mgr_def find_key_def KMemoryBlock_new_def KMemoryBlock_Compare_def PageSize_def
        KMemoryBlock_GetLastAddress_def KMemoryBlock_GetEndAddress_def KMemoryBlock_GetSize_def
        KMemoryBlock_GetMemoryInfo_def KMemoryInfo_GetLastAddress_def KMemoryInfo_GetEndAddress_def
        FindFreeArea_candidate_def AlignDown_def KMemoryState_values add64_def sub64_def mul64_def)
qed

text \<open>
  A manager initialised on a page-aligned address space is well formed and coalesced, its single
  block is free, and the slab manager has one block less; without a block in the slab manager it
  fails with the out-of-resource result and nothing changes.
\<close>

theorem Initialize_ok:
  assumes "PageSize dvd st" and "PageSize dvd nd" and "st < nd" and "nd < 2 ^ 64"
    and "m_memory_block_tree mgr = []"
  shows "KMemoryBlockManager_Initialize mgr raw st nd 0 = (ResultOutOfResource, mgr, 0) \<and>
    (\<exists>mgr'. KMemoryBlockManager_Initialize mgr raw st nd (Suc n) = (ResultSuccess, mgr', n) \<and>
      mgr_ok mgr' \<and> coalesced mgr' \<and> m_start_address mgr' = st \<and> m_end_address mgr' = nd \<and>
      (\<forall>a. st \<le> a \<and> a < nd \<longrightarrow> GetPage mgr' a =
        Some (KMemoryState_Free, KMemoryPermission_None, KMemoryPermission_None,
          KMemoryAttribute_None, 0, 0)))"
proof -
  let ?b = "KMemoryBlock_Initialize raw st (sub64 nd st div PageSize) KMemoryState_Free
    KMemoryPermission_None KMemoryAttribute_None"
  let ?mgr = "mgr\<lparr>m_start_address := st, m_end_address := nd, m_memory_block_tree := [?b]\<rparr>"
  have n: "(nd - st) div PageSize * PageSize = nd - st"
    using assms(1,2) by (simp add: dvd_diff_nat)
  have sub: "sub64 nd st = nd - st" using assms(3,4) by (intro sub64_eq) simp_all
  have "0 < (nd - st) div PageSize"
    using n assms(3) by (metis mult_is_0 neq0_conv zero_less_diff)
  then have ok: "block_ok ?b" using assms n
    by (simp add: block_ok_def KMemoryBlock_Initialize_def sub)
  then have m: "mgr_ok ?mgr"
    using n assms(3) by (simp add: mgr_ok_def KMemoryBlock_Initialize_def sub)
  have "GetPage ?mgr a = Some (KMemoryState_Free, KMemoryPermission_None, KMemoryPermission_None,
          KMemoryAttribute_None, 0, 0)" if "st \<le> a" "a < nd" for a
    using that n unfolding GetPage_eq [OF m]
    by (simp add: page_at_Cons covers_def page_of_def KMemoryBlock_Initialize_def sub)
  moreover have "KMemoryBlockManager_Initialize mgr raw st nd (Suc n) = (ResultSuccess, ?mgr, n)" for n
    using assms(5) by (cases mgr) (simp add: KMemoryBlockManager_Initialize_def slab_Allocate_def)
  moreover have "KMemoryBlockManager_Initialize mgr raw st nd 0 = (ResultOutOfResource, mgr, 0)"
    by (simp add: KMemoryBlockManager_Initialize_def slab_Allocate_def)
  ultimately show ?thesis using m by (auto simp: coalesced_def)
qed

theorem Initialize_ok_witness:
  "\<exists>mgr'. KMemoryBlockManager_Initialize
      \<lparr>m_memory_block_tree = [], m_start_address = 0, m_end_address = 0\<rparr> example_block 0 4194304 1 =
      (ResultSuccess, mgr', 0) \<and> mgr_ok mgr'"
proof -
  have "PageSize dvd 0" "PageSize dvd 4194304" "(0 :: nat) < 4194304" "(4194304 :: nat) < 2 ^ 64"
    by (simp_all add: PageSize_def)
  from Initialize_ok [OF this, of "\<lparr>m_memory_block_tree = [], m_start_address = 0, m_end_address = 0\<rparr>"
      example_block 0]
  show ?thesis by auto
qed

end
