(* ===== verification/Bit_Field.thy ===== *)
theory Bit_Field
  imports Kernel_Prelude
begin

text \<open>
  \<^verbatim>\<open>BitField\<close> of \<^verbatim>\<open>common/bit_field.h\<close> for unsigned storage of any width: a field is given by its
  position and its number of bits.  Reading back a field that was assigned gives the low bits of the
  value, and assigning a field does not touch a disjoint one.
\<close>

definition BitField_mask :: "nat \<Rightarrow> nat \<Rightarrow> 'a::len word" where
  "BitField_mask position bits = push_bit position (drop_bit (LENGTH('a) - bits) (NOT 0))"

definition BitField_FormatValue :: "nat \<Rightarrow> nat \<Rightarrow> 'a::len word \<Rightarrow> 'a word" where
  "BitField_FormatValue position bits val = push_bit position val AND BitField_mask position bits"

definition BitField_ExtractValue :: "nat \<Rightarrow> nat \<Rightarrow> 'a::len word \<Rightarrow> 'a word" where
  "BitField_ExtractValue position bits storage =
     drop_bit position (storage AND BitField_mask position bits)"

definition BitField_Assign :: "nat \<Rightarrow> nat \<Rightarrow> 'a::len word \<Rightarrow> 'a word \<Rightarrow> 'a word" where
  "BitField_Assign position bits storage val =
     (storage AND NOT (BitField_mask position bits)) OR BitField_FormatValue position bits val"

text \<open>The conditions the \<^verbatim>\<open>static_assert\<close>s of the template impose.\<close>

definition BitField_ok :: "'a::len itself \<Rightarrow> nat \<Rightarrow> nat \<Rightarrow> bool" where
  "BitField_ok _ position bits \<longleftrightarrow> 0 < bits \<and> bits + position \<le> LENGTH('a)"

lemma bit_BitField_mask:
  assumes "BitField_ok TYPE('a::len) position bits"
  shows "bit (BitField_mask position bits :: 'a word) n \<longleftrightarrow> position \<le> n \<and> n < position + bits"
  using assms by (auto simp: BitField_mask_def BitField_ok_def bit_simps)

lemma bit_BitField_FormatValue:
  fixes val :: "'a::len word"
  assumes "BitField_ok TYPE('a) position bits"
  shows "bit (BitField_FormatValue position bits val) n \<longleftrightarrow>
    position \<le> n \<and> n < position + bits \<and> bit val (n - position)"
  using assms
  by (auto simp: BitField_FormatValue_def bit_BitField_mask bit_and_iff bit_push_bit_iff)
    (auto simp: BitField_ok_def)

lemma bit_BitField_Assign:
  fixes storage :: "'a::len word"
  assumes "BitField_ok TYPE('a) position bits" and "n < LENGTH('a)"
  shows "bit (BitField_Assign position bits storage val) n \<longleftrightarrow>
    (if position \<le> n \<and> n < position + bits then bit val (n - position) else bit storage n)"
  using assms
  by (auto simp: BitField_Assign_def bit_BitField_FormatValue bit_BitField_mask bit_or_iff bit_and_iff
      bit_not_iff)

lemma BitField_ExtractValue_eq:
  fixes storage :: "'a::len word"
  assumes "BitField_ok TYPE('a) position bits"
  shows "BitField_ExtractValue position bits storage = take_bit bits (drop_bit position storage)"
  by (rule bit_word_eqI)
    (auto simp: BitField_ExtractValue_def bit_BitField_mask [OF assms] bit_simps)

lemma BitField_Extract_Assign:
  fixes storage :: "'a::len word"
  assumes "BitField_ok TYPE('a) position bits"
  shows "BitField_ExtractValue position bits (BitField_Assign position bits storage val) =
    take_bit bits val"
proof (rule bit_word_eqI)
  fix n assume n: "n < LENGTH('a)"
  have "bits + position \<le> LENGTH('a)" using assms by (simp add: BitField_ok_def)
  with n show "bit (BitField_ExtractValue position bits (BitField_Assign position bits storage val)) n =
      bit (take_bit bits val) n"
    by (cases "n < bits")
      (auto simp: BitField_ExtractValue_eq [OF assms] bit_take_bit_iff bit_drop_bit_eq
        bit_BitField_Assign [OF assms])
qed

lemma BitField_Extract_Assign_other:
  fixes storage :: "'a::len word"
  assumes "BitField_ok TYPE('a) p b" and "BitField_ok TYPE('a) q c"
    and "p + b \<le> q \<or> q + c \<le> p"
  shows "BitField_ExtractValue p b (BitField_Assign q c storage val) =
    BitField_ExtractValue p b storage"
proof (rule bit_word_eqI)
  fix n assume n: "n < LENGTH('a)"
  have "b + p \<le> LENGTH('a)" using assms(1) by (simp add: BitField_ok_def)
  with n assms(3) show "bit (BitField_ExtractValue p b (BitField_Assign q c storage val)) n =
      bit (BitField_ExtractValue p b storage) n"
    by (cases "n < b")
      (auto simp: BitField_ExtractValue_eq [OF assms(1)] bit_take_bit_iff bit_drop_bit_eq
        bit_BitField_Assign [OF assms(2)])
qed

end
