(* ===== verification/Auto_Object.thy ===== *)
theory Auto_Object
  imports Kernel_Prelude
begin

text \<open>
  Kernel objects (\<^verbatim>\<open>k_auto_object.h\<close>) and their class tokens (\<^verbatim>\<open>k_class_token.h\<close>).  Every kernel
  object has an atomic reference count and a 16-bit class token; \<^verbatim>\<open>DynamicCast\<close> decides by the tokens
  alone whether a cast is allowed.

  Shown here: the tokens reflect the class hierarchy exactly, for every pair of kernel classes, and
  opening and closing a reference are inverse while the object is alive.
\<close>

section \<open>Class tokens\<close>

text \<open>The classes declared with \<^verbatim>\<open>KERNEL_AUTOOBJECT_TRAITS\<close>.\<close>

datatype ObjectType =
    KAutoObject
  | KSynchronizationObject | KReadableEvent
  | KDebug | KThread | KServerPort | KServerSession | KClientPort | KClientSession | KProcess
  | KResourceLimit | KLightSession | KPort | KSession | KSharedMemory | KEvent
  | KLightClientSession | KLightServerSession | KTransferMemory | KDeviceAddressSpace
  | KSessionRequest | KCodeMemory | KSystemResource

fun BaseClass :: "ObjectType \<Rightarrow> ObjectType option" where
  "BaseClass KAutoObject = None"
| "BaseClass KReadableEvent = Some KSynchronizationObject"
| "BaseClass KThread = Some KSynchronizationObject"
| "BaseClass KServerPort = Some KSynchronizationObject"
| "BaseClass KServerSession = Some KSynchronizationObject"
| "BaseClass KClientPort = Some KSynchronizationObject"
| "BaseClass KProcess = Some KSynchronizationObject"
| "BaseClass _ = Some KAutoObject"

text \<open>
  The index of a class among the base classes, or among the final classes, in the order of the
  enumeration \<^verbatim>\<open>ObjectType\<close>; enumerators without a class of their own leave gaps.
\<close>

fun ClassIndex :: "ObjectType \<Rightarrow> nat" where
  "ClassIndex KAutoObject = 0"
| "ClassIndex KSynchronizationObject = 0"
| "ClassIndex KReadableEvent = 1"
| "ClassIndex KDebug = 1"
| "ClassIndex KThread = 2"
| "ClassIndex KServerPort = 3"
| "ClassIndex KServerSession = 4"
| "ClassIndex KClientPort = 5"
| "ClassIndex KClientSession = 6"
| "ClassIndex KProcess = 7"
| "ClassIndex KResourceLimit = 8"
| "ClassIndex KLightSession = 9"
| "ClassIndex KPort = 10"
| "ClassIndex KSession = 11"
| "ClassIndex KSharedMemory = 12"
| "ClassIndex KEvent = 13"
| "ClassIndex KLightClientSession = 14"
| "ClassIndex KLightServerSession = 15"
| "ClassIndex KTransferMemory = 16"
| "ClassIndex KDeviceAddressSpace = 17"
| "ClassIndex KSessionRequest = 18"
| "ClassIndex KCodeMemory = 19"
| "ClassIndex KSystemResource = 20"

fun is_final :: "ObjectType \<Rightarrow> bool" where
  "is_final KAutoObject = False"
| "is_final KSynchronizationObject = False"
| "is_final KReadableEvent = False"
| "is_final KSystemResource = False"
| "is_final _ = True"

definition BaseClassBits :: nat where "BaseClassBits = 8"

definition FinalClassBits :: nat where "FinalClassBits = 16 - BaseClassBits"

text \<open>The three nested loops, in the order they visit the bit triples.\<close>

definition final_triples :: "(nat \<times> nat \<times> nat) list" where
  "final_triples =
     concat (map (\<lambda>i. concat (map (\<lambda>j. map (\<lambda>k. (i, j, k)) [j + 1..<FinalClassBits])
       [i + 1..<FinalClassBits])) [0..<FinalClassBits])"

definition NumFinalClasses :: nat where
  "NumFinalClasses = length final_triples"

definition BaseClassToken :: "nat \<Rightarrow> u16" where
  "BaseClassToken index = push_bit index 1"

definition FinalClassToken :: "nat \<Rightarrow> u16" where
  "FinalClassToken index =
     (case final_triples ! index of
        (i, j, k) \<Rightarrow> push_bit BaseClassBits (push_bit i 1 OR push_bit j 1 OR push_bit k 1))"

fun class_depth :: "ObjectType \<Rightarrow> nat" where
  "class_depth KAutoObject = 0"
| "class_depth KSynchronizationObject = 1"
| "class_depth _ = 2"

lemma BaseClass_depth: "BaseClass t = Some b \<Longrightarrow> class_depth b < class_depth t"
  by (cases t) auto

function GetClassToken :: "ObjectType \<Rightarrow> u16" where
  "GetClassToken t =
     (case BaseClass t of
        None \<Rightarrow> 0
      | Some b \<Rightarrow>
          (if \<not> is_final t \<and> t \<noteq> KSystemResource then BaseClassToken (ClassIndex t)
           else FinalClassToken (ClassIndex t)) OR GetClassToken b)"
  by pat_completeness auto
termination
  by (relation "measure class_depth") (auto intro: BaseClass_depth)

definition IsClassTokenDerivedFrom :: "u16 \<Rightarrow> u16 \<Rightarrow> bool" where
  "IsClassTokenDerivedFrom self base \<longleftrightarrow> (self OR base) = self"

section \<open>Reference counts\<close>

text \<open>
  The kernel objects of the system: an object is named by a number, \<open>destroyed\<close> logs the calls of
  \<^verbatim>\<open>Destroy\<close>, and \<open>registered_in_use_objects\<close> is the set the kernel keeps.  Each operation runs under
  the lock its caller holds, so the compare-and-exchange loops take one round.
\<close>

record KAutoObjects =
  m_ref_count :: "nat \<Rightarrow> u32"
  m_class_token :: "nat \<Rightarrow> u16"
  destroyed :: "nat list"
  registered_in_use_objects :: "nat set"

definition KAutoObject_Create :: "KAutoObjects \<Rightarrow> nat \<Rightarrow> ObjectType \<Rightarrow> KAutoObjects" where
  "KAutoObject_Create objs obj t =
     objs\<lparr>m_ref_count := (m_ref_count objs)(obj := 1),
          m_class_token := (m_class_token objs)(obj := GetClassToken t)\<rparr>"

definition KAutoObject_IsDerivedFrom :: "KAutoObjects \<Rightarrow> nat \<Rightarrow> ObjectType \<Rightarrow> bool" where
  "KAutoObject_IsDerivedFrom objs obj t =
     IsClassTokenDerivedFrom (m_class_token objs obj) (GetClassToken t)"

definition KAutoObject_DynamicCast :: "KAutoObjects \<Rightarrow> nat \<Rightarrow> ObjectType \<Rightarrow> nat option" where
  "KAutoObject_DynamicCast objs obj t =
     (if KAutoObject_IsDerivedFrom objs obj t then Some obj else None)"

definition KAutoObject_Open :: "KAutoObjects \<Rightarrow> nat \<Rightarrow> bool \<times> KAutoObjects" where
  "KAutoObject_Open objs obj =
     (let cur_ref_count = m_ref_count objs obj
      in if cur_ref_count = 0 then (False, objs)
         else (True, objs\<lparr>m_ref_count := (m_ref_count objs)(obj := cur_ref_count + 1)\<rparr>))"

definition KAutoObject_Close :: "KAutoObjects \<Rightarrow> nat \<Rightarrow> KAutoObjects" where
  "KAutoObject_Close objs obj =
     (let cur_ref_count = m_ref_count objs obj
      in if cur_ref_count = 0 then objs
         else
           let objs1 = objs\<lparr>m_ref_count := (m_ref_count objs)(obj := cur_ref_count - 1)\<rparr>
           in if cur_ref_count = 1 then objs1\<lparr>destroyed := destroyed objs1 @ [obj]\<rparr>
              else objs1)"

definition UnregisterInUseObject :: "KAutoObjects \<Rightarrow> nat \<Rightarrow> KAutoObjects" where
  "UnregisterInUseObject objs obj =
     objs\<lparr>registered_in_use_objects := registered_in_use_objects objs - {obj}\<rparr>"

definition RegisterInUseObject :: "KAutoObjects \<Rightarrow> nat \<Rightarrow> KAutoObjects" where
  "RegisterInUseObject objs obj =
     objs\<lparr>registered_in_use_objects := insert obj (registered_in_use_objects objs)\<rparr>"

section \<open>The hierarchy of the tokens\<close>

definition all_classes :: "ObjectType list" where
  "all_classes =
     [KAutoObject, KSynchronizationObject, KReadableEvent, KDebug, KThread, KServerPort,
      KServerSession, KClientPort, KClientSession, KProcess, KResourceLimit, KLightSession, KPort,
      KSession, KSharedMemory, KEvent, KLightClientSession, KLightServerSession, KTransferMemory,
      KDeviceAddressSpace, KSessionRequest, KCodeMemory, KSystemResource]"

text \<open>A class derives from its base class and from what that derives from.\<close>

inductive derives :: "ObjectType \<Rightarrow> ObjectType \<Rightarrow> bool" where
  derives_refl: "derives t t"
| derives_base: "BaseClass t = Some b \<Longrightarrow> derives b u \<Longrightarrow> derives t u"

inductive_cases derivesE: "derives t u"

code_pred derives .

lemma all_classes_complete: "t \<in> set all_classes"
  by (cases t) (simp_all add: all_classes_def)

function derives_fun :: "ObjectType \<Rightarrow> ObjectType \<Rightarrow> bool" where
  "derives_fun t u = (t = u \<or> (case BaseClass t of None \<Rightarrow> False | Some b \<Rightarrow> derives_fun b u))"
  by pat_completeness auto
termination
  by (relation "measure (\<lambda>(t, _). class_depth t)") (auto intro: BaseClass_depth)

declare GetClassToken.simps [simp del] derives_fun.simps [simp del]

lemma derives_fun_iff: "derives t u \<longleftrightarrow> derives_fun t u"
proof
  show "derives t u \<Longrightarrow> derives_fun t u"
    by (induction rule: derives.induct) (subst derives_fun.simps, simp)+
  show "derives_fun t u \<Longrightarrow> derives t u"
  proof (induction t u rule: derives_fun.induct)
    case (1 t u)
    then show ?case
      by (subst (asm) (2) derives_fun.simps) (auto intro: derives.intros split: option.splits)
  qed
qed

lemma tokens_reflect_hierarchy:
  "list_all (\<lambda>t. list_all (\<lambda>u. IsClassTokenDerivedFrom (GetClassToken t) (GetClassToken u) =
     derives_fun t u) all_classes) all_classes"
  by code_simp

text \<open>The absolute values fixed in \<^verbatim>\<open>k_class_token.cpp\<close>.\<close>

lemma class_token_values:
  "GetClassToken KAutoObject = 0" "GetClassToken KSynchronizationObject = 1"
  "GetClassToken KReadableEvent = 3" "GetClassToken KThread = 4865"
  "GetClassToken KServerPort = 8961" "GetClassToken KServerSession = 17153"
  "GetClassToken KClientPort = 33537" "GetClassToken KClientSession = 3328"
  "GetClassToken KProcess = 5377" "GetClassToken KResourceLimit = 9472"
  "GetClassToken KPort = 34048" "GetClassToken KSession = 6400"
  "GetClassToken KSharedMemory = 10496" "GetClassToken KEvent = 18688"
  "GetClassToken KTransferMemory = 20736" "GetClassToken KCodeMemory = 41216"
  by code_simp+

text \<open>
  C38: The class tokens reflect the class hierarchy: for every two kernel classes, the token test
  that \<^verbatim>\<open>DynamicCast\<close> uses succeeds exactly when the first class is the second one or derives
  from it.
\<close>

theorem IsDerivedFrom_iff_derives:
  "IsClassTokenDerivedFrom (GetClassToken t) (GetClassToken u) \<longleftrightarrow> derives t u"
  using tokens_reflect_hierarchy all_classes_complete [of t] all_classes_complete [of u]
  by (simp add: derives_fun_iff list_all_iff)

section \<open>Opening and closing\<close>

lemma Open_Close:
  assumes "m_ref_count objs obj \<noteq> 0" and "m_ref_count objs obj \<noteq> -1"
  shows "KAutoObject_Close (snd (KAutoObject_Open objs obj)) obj = objs"
proof -
  have "m_ref_count objs obj + 1 \<noteq> 0" using assms(2) by (metis add.commute add_eq_0_iff)
  with assms(1) show ?thesis
    by (simp add: KAutoObject_Open_def KAutoObject_Close_def Let_def)
qed

end
