(* ===== verification/Handle_Table.thy ===== *)
theory Handle_Table
  imports Bit_Field Auto_Object
begin

text \<open>
  \<^verbatim>\<open>KHandleTable\<close> (\<^verbatim>\<open>k_handle_table.h\<close>, \<^verbatim>\<open>k_handle_table.cpp\<close>): the table from handles to kernel
  objects of a process.  A handle packs an index and a linear id; free entries form a linked list
  through the entry infos, which hold the linear id of a used entry and the next free index of a
  free one.

  Counters and ids are natural numbers with the 16-bit wrap-around written out; an entry info is the
  16-bit pattern both members of the C++ union share.  Indexing an array outside its bounds is the
  result \<open>None\<close>.  The scoped locks and the disabling of dispatch make each operation atomic.

  Shown here: the table behaves as a finite map from handles to objects; adding, reserving,
  registering and removing keep the free list consistent; a stale handle is not reissued for the
  next 32766 allocations; and a failed multiple lookup leaves all reference counts as they were.
\<close>

section \<open>Handles\<close>

type_synonym Handle = u32

definition HandlePack_index :: "Handle \<Rightarrow> u32" where
  "HandlePack_index handle = BitField_ExtractValue 0 15 handle"

definition HandlePack_linear_id :: "Handle \<Rightarrow> u32" where
  "HandlePack_linear_id handle = BitField_ExtractValue 15 15 handle"

definition HandlePack_reserved :: "Handle \<Rightarrow> u32" where
  "HandlePack_reserved handle = BitField_ExtractValue 30 2 handle"

definition EncodeHandle :: "nat \<Rightarrow> nat \<Rightarrow> Handle" where
  "EncodeHandle index linear_id =
     BitField_Assign 30 2
       (BitField_Assign 15 15 (BitField_Assign 0 15 0 (of_nat index)) (of_nat linear_id)) 0"

definition PseudoHandle_CurrentThread :: Handle where "PseudoHandle_CurrentThread = 0xFFFF8000"

definition PseudoHandle_CurrentProcess :: Handle where "PseudoHandle_CurrentProcess = 0xFFFF8001"

definition IsPseudoHandle :: "Handle \<Rightarrow> bool" where
  "IsPseudoHandle handle \<longleftrightarrow>
     handle = PseudoHandle_CurrentProcess \<or> handle = PseudoHandle_CurrentThread"

section \<open>The table\<close>

definition MaxTableSize :: nat where "MaxTableSize = 1024"

definition MinLinearId :: nat where "MinLinearId = 1"

definition MaxLinearId :: nat where "MaxLinearId = 0x7FFF"

record KHandleTable =
  m_entry_infos :: "nat list"
  m_objects :: "nat option list"
  m_free_head_index :: int
  m_table_size :: nat
  m_max_count :: nat
  m_next_linear_id :: nat
  m_count :: nat

text \<open>Reading the 16-bit pattern of an entry info as a signed number, and writing one.\<close>

definition s16_of :: "nat \<Rightarrow> int" where
  "s16_of x = (if x < 32768 then int x else int x - 65536)"

definition u16_of :: "int \<Rightarrow> nat" where
  "u16_of i = nat (i mod 65536)"

definition inc16 :: "nat \<Rightarrow> nat" where
  "inc16 n = (n + 1) mod 65536"

definition dec16 :: "nat \<Rightarrow> nat" where
  "dec16 n = (n + 65535) mod 65536"

definition KHandleTable_Initialize_step :: "KHandleTable \<Rightarrow> nat \<Rightarrow> KHandleTable" where
  "KHandleTable_Initialize_step t i =
     t\<lparr>m_objects := (m_objects t)[i := None],
       m_entry_infos := (m_entry_infos t)[i := u16_of (int i - 1)],
       m_free_head_index := int i\<rparr>"

definition KHandleTable_Initialize :: "KHandleTable \<Rightarrow> int \<Rightarrow> Result \<times> KHandleTable" where
  "KHandleTable_Initialize t sz =
     (if \<not> sz \<le> int MaxTableSize then (ResultOutOfMemory, t)
      else
        let t1 = t\<lparr>m_max_count := 0,
                   m_table_size := (if sz \<le> 0 then MaxTableSize else nat sz),
                   m_next_linear_id := MinLinearId,
                   m_count := 0,
                   m_free_head_index := -1\<rparr>
        in (ResultSuccess, foldl KHandleTable_Initialize_step t1 [0..<m_table_size t1]))"

definition KHandleTable_AllocateEntry :: "KHandleTable \<Rightarrow> (int \<times> KHandleTable) option" where
  "KHandleTable_AllocateEntry t =
     (let index = m_free_head_index t
      in if 0 \<le> index \<and> nat index < length (m_entry_infos t)
         then
           let t1 = t\<lparr>m_free_head_index := s16_of (m_entry_infos t ! nat index),
                      m_count := inc16 (m_count t)\<rparr>
           in Some (index, t1\<lparr>m_max_count := max (m_max_count t1) (m_count t1)\<rparr>)
         else None)"

definition KHandleTable_FreeEntry :: "KHandleTable \<Rightarrow> nat \<Rightarrow> KHandleTable" where
  "KHandleTable_FreeEntry t index =
     t\<lparr>m_objects := (m_objects t)[index := None],
       m_entry_infos := (m_entry_infos t)[index := u16_of (m_free_head_index t)],
       m_free_head_index := int index,
       m_count := dec16 (m_count t)\<rparr>"

definition KHandleTable_AllocateLinearId :: "KHandleTable \<Rightarrow> nat \<times> KHandleTable" where
  "KHandleTable_AllocateLinearId t =
     (let id = m_next_linear_id t;
          next = inc16 (m_next_linear_id t)
      in (id, t\<lparr>m_next_linear_id := (if next > MaxLinearId then MinLinearId else next)\<rparr>))"

definition KHandleTable_IsValidHandle :: "KHandleTable \<Rightarrow> Handle \<Rightarrow> bool" where
  "KHandleTable_IsValidHandle t handle =
     (let index = unat (HandlePack_index handle);
          linear_id = unat (HandlePack_linear_id handle)
      in if handle = 0 then False
         else if linear_id = 0 then False
         else if index \<ge> m_table_size t then False
         else if m_objects t ! index = None then False
         else if m_entry_infos t ! index \<noteq> linear_id then False
         else True)"

definition KHandleTable_GetObjectImpl :: "KHandleTable \<Rightarrow> Handle \<Rightarrow> nat option" where
  "KHandleTable_GetObjectImpl t handle =
     (if HandlePack_reserved handle \<noteq> 0 then None
      else if KHandleTable_IsValidHandle t handle
      then m_objects t ! unat (HandlePack_index handle)
      else None)"

definition KHandleTable_GetObjectByIndexImpl :: "KHandleTable \<Rightarrow> nat \<Rightarrow> (Handle \<times> nat) option" where
  "KHandleTable_GetObjectByIndexImpl t index =
     (if index \<ge> m_table_size t then None
      else
        case m_objects t ! index of
          None \<Rightarrow> None
        | Some obj \<Rightarrow> Some (EncodeHandle (index mod 65536) (m_entry_infos t ! index), obj))"

text \<open>
  The scoped object a lookup returns holds a reference: the object is opened on construction.
  The casting variants first look the object up and cast it.
\<close>

definition KHandleTable_GetObjectWithoutPseudoHandle ::
    "KHandleTable \<Rightarrow> KAutoObjects \<Rightarrow> Handle \<Rightarrow> ObjectType \<Rightarrow> nat option \<times> KAutoObjects" where
  "KHandleTable_GetObjectWithoutPseudoHandle t objs handle ty =
     (let found =
        (if ty = KAutoObject then KHandleTable_GetObjectImpl t handle
         else
           case KHandleTable_GetObjectImpl t handle of
             None \<Rightarrow> None
           | Some obj \<Rightarrow> KAutoObject_DynamicCast objs obj ty)
      in case found of
           None \<Rightarrow> (None, objs)
         | Some obj \<Rightarrow> (Some obj, snd (KAutoObject_Open objs obj)))"

text \<open>
  \<^verbatim>\<open>GetObject<T>\<close>: the pseudo-handle of the current process is tried when a process can be viewed
  as a \<^verbatim>\<open>T\<close>, otherwise that of the current thread when a thread can.
\<close>

definition KHandleTable_GetObject ::
    "KHandleTable \<Rightarrow> KAutoObjects \<Rightarrow> nat \<Rightarrow> nat \<Rightarrow> Handle \<Rightarrow> ObjectType \<Rightarrow> nat option \<times> KAutoObjects" where
  "KHandleTable_GetObject t objs cur_process cur_thread handle ty =
     (if derives_fun KProcess ty \<and> handle = PseudoHandle_CurrentProcess
      then (Some cur_process, snd (KAutoObject_Open objs cur_process))
      else if \<not> derives_fun KProcess ty \<and> derives_fun KThread ty \<and>
              handle = PseudoHandle_CurrentThread
      then (Some cur_thread, snd (KAutoObject_Open objs cur_thread))
      else KHandleTable_GetObjectWithoutPseudoHandle t objs handle ty)"

definition KHandleTable_GetObjectForIpc ::
    "KHandleTable \<Rightarrow> KAutoObjects \<Rightarrow> nat \<Rightarrow> nat \<Rightarrow> Handle \<Rightarrow> nat option \<times> KAutoObjects" where
  "KHandleTable_GetObjectForIpc t objs owner_process cur_thread handle =
     (if handle = PseudoHandle_CurrentProcess
      then (Some owner_process, snd (KAutoObject_Open objs owner_process))
      else if handle = PseudoHandle_CurrentThread
      then (Some cur_thread, snd (KAutoObject_Open objs cur_thread))
      else KHandleTable_GetObjectWithoutPseudoHandle t objs handle KAutoObject)"

section \<open>Operations\<close>

fun Finalize_objects :: "KAutoObjects \<Rightarrow> nat option list \<Rightarrow> KAutoObjects" where
  "Finalize_objects objs [] = objs"
| "Finalize_objects objs (None # os) = Finalize_objects objs os"
| "Finalize_objects objs (Some obj # os) = Finalize_objects (KAutoObject_Close objs obj) os"

definition KHandleTable_Finalize ::
    "KHandleTable \<Rightarrow> KAutoObjects \<Rightarrow> KHandleTable \<times> KAutoObjects" where
  "KHandleTable_Finalize t objs =
     (t\<lparr>m_table_size := 0\<rparr>, Finalize_objects objs (take (m_table_size t) (m_objects t)))"

definition KHandleTable_Remove ::
    "KHandleTable \<Rightarrow> KAutoObjects \<Rightarrow> Handle \<Rightarrow> bool \<times> KHandleTable \<times> KAutoObjects" where
  "KHandleTable_Remove t objs handle =
     (if IsPseudoHandle handle then (False, t, objs)
      else if HandlePack_reserved handle \<noteq> 0 then (False, t, objs)
      else if KHandleTable_IsValidHandle t handle
      then
        let index = unat (HandlePack_index handle);
            obj = the (m_objects t ! index)
        in (True, KHandleTable_FreeEntry t index,
            KAutoObject_Close (UnregisterInUseObject objs obj) obj)
      else (False, t, objs))"

definition KHandleTable_Add ::
    "KHandleTable \<Rightarrow> KAutoObjects \<Rightarrow> nat \<Rightarrow>
     (Result \<times> Handle option \<times> KHandleTable \<times> KAutoObjects) option" where
  "KHandleTable_Add t objs obj =
     (if \<not> m_count t < m_table_size t then Some (ResultOutOfHandles, None, t, objs)
      else
        let (linear_id, t1) = KHandleTable_AllocateLinearId t
        in case KHandleTable_AllocateEntry t1 of
             None \<Rightarrow> None
           | Some (index, t2) \<Rightarrow>
               let t3 = t2\<lparr>m_entry_infos := (m_entry_infos t2)[nat index := linear_id],
                           m_objects := (m_objects t2)[nat index := Some obj]\<rparr>
               in Some (ResultSuccess, Some (EncodeHandle (u16_of index) linear_id), t3,
                        snd (KAutoObject_Open objs obj)))"

definition KHandleTable_Reserve ::
    "KHandleTable \<Rightarrow> (Result \<times> Handle option \<times> KHandleTable) option" where
  "KHandleTable_Reserve t =
     (if \<not> m_count t < m_table_size t then Some (ResultOutOfHandles, None, t)
      else
        case KHandleTable_AllocateEntry t of
          None \<Rightarrow> None
        | Some (index, t1) \<Rightarrow>
            let (linear_id, t2) = KHandleTable_AllocateLinearId t1
            in Some (ResultSuccess, Some (EncodeHandle (u16_of index) linear_id), t2))"

definition KHandleTable_Unreserve :: "KHandleTable \<Rightarrow> Handle \<Rightarrow> KHandleTable" where
  "KHandleTable_Unreserve t handle =
     (let index = unat (HandlePack_index handle)
      in if index < m_table_size t then KHandleTable_FreeEntry t index else t)"

definition KHandleTable_Unreserve_asserts :: "KHandleTable \<Rightarrow> Handle \<Rightarrow> bool" where
  "KHandleTable_Unreserve_asserts t handle \<longleftrightarrow>
     HandlePack_reserved handle = 0 \<and> HandlePack_linear_id handle \<noteq> 0 \<and>
     (unat (HandlePack_index handle) < m_table_size t \<longrightarrow>
        m_objects t ! unat (HandlePack_index handle) = None)"

definition KHandleTable_Register ::
    "KHandleTable \<Rightarrow> KAutoObjects \<Rightarrow> Handle \<Rightarrow> nat \<Rightarrow> KHandleTable \<times> KAutoObjects" where
  "KHandleTable_Register t objs handle obj =
     (let index = unat (HandlePack_index handle);
          linear_id = unat (HandlePack_linear_id handle)
      in if index < m_table_size t
         then (t\<lparr>m_entry_infos := (m_entry_infos t)[index := linear_id mod 65536],
                 m_objects := (m_objects t)[index := Some obj]\<rparr>,
               snd (KAutoObject_Open objs obj))
         else (t, objs))"

text \<open>
  \<^verbatim>\<open>GetMultipleObjects\<close>: the loop opens the objects of the handles one by one until one fails and
  returns what it has opened; on failure these are closed again.
\<close>

fun GetMultipleObjects_loop ::
    "KHandleTable \<Rightarrow> KAutoObjects \<Rightarrow> ObjectType \<Rightarrow> Handle list \<Rightarrow> nat list \<times> KAutoObjects" where
  "GetMultipleObjects_loop t objs ty [] = ([], objs)"
| "GetMultipleObjects_loop t objs ty (cur_handle # handles) =
     (case KHandleTable_GetObjectImpl t cur_handle of
        None \<Rightarrow> ([], objs)
      | Some cur_object \<Rightarrow>
          (case KAutoObject_DynamicCast objs cur_object ty of
             None \<Rightarrow> ([], objs)
           | Some cur \<Rightarrow>
               let (out, objs') =
                 GetMultipleObjects_loop t (snd (KAutoObject_Open objs cur)) ty handles
               in (cur # out, objs')))"

definition KHandleTable_GetMultipleObjects ::
    "KHandleTable \<Rightarrow> KAutoObjects \<Rightarrow> ObjectType \<Rightarrow> Handle list \<Rightarrow> bool \<times> nat list \<times> KAutoObjects" where
  "KHandleTable_GetMultipleObjects t objs ty handles =
     (let (out, objs') = GetMultipleObjects_loop t objs ty handles
      in if length out = length handles then (True, out, objs')
         else (False, out, foldl KAutoObject_Close objs' out))"

section \<open>Packing and unpacking handles\<close>

lemma field_ok [simp]:
  "BitField_ok TYPE(32) 0 15" "BitField_ok TYPE(32) 15 15" "BitField_ok TYPE(32) 30 2"
  by (simp_all add: BitField_ok_def)

lemma take_bit_of_nat_id: "i < 2 ^ n \<Longrightarrow> n \<le> 32 \<Longrightarrow> take_bit n (of_nat i :: u32) = of_nat i"
  by (metis of_nat_take_bit take_bit_nat_eq_self)

lemma EncodeHandle_fields:
  assumes "i < 32768" and "l < 32768"
  shows "HandlePack_index (EncodeHandle i l) = of_nat i"
    and "HandlePack_linear_id (EncodeHandle i l) = of_nat l"
    and "HandlePack_reserved (EncodeHandle i l) = 0"
  using assms
  by (simp_all add: EncodeHandle_def HandlePack_index_def HandlePack_linear_id_def
      HandlePack_reserved_def BitField_Extract_Assign BitField_Extract_Assign_other
      take_bit_of_nat_id)

lemma unat_small: "i < 32768 \<Longrightarrow> unat (of_nat i :: u32) = i"
  by (simp add: unat_of_nat)

lemma HandlePack_less:
  "unat (HandlePack_index h) < 32768" "unat (HandlePack_linear_id h) < 32768"
proof -
  have "unat (take_bit 15 w) < 32768" for w :: u32
    using take_bit_nat_less_exp [of 15 "unat w"] by (simp add: unsigned_take_bit_eq)
  then show "unat (HandlePack_index h) < 32768" "unat (HandlePack_linear_id h) < 32768"
    by (simp_all add: HandlePack_index_def HandlePack_linear_id_def BitField_ExtractValue_eq)
qed

lemma Handle_eqI:
  assumes "HandlePack_index h = HandlePack_index h'"
    and "HandlePack_linear_id h = HandlePack_linear_id h'"
    and "HandlePack_reserved h = HandlePack_reserved h'"
  shows "h = h'"
proof (rule bit_word_eqI)
  fix n assume n: "n < LENGTH(32)"
  have "bit (HandlePack_index h) n = bit (HandlePack_index h') n"
    "bit (HandlePack_linear_id h) (n - 15) = bit (HandlePack_linear_id h') (n - 15)"
    "bit (HandlePack_reserved h) (n - 30) = bit (HandlePack_reserved h') (n - 30)"
    using assms by simp_all
  with n show "bit h n = bit h' n"
    by (cases "n < 15"; cases "n < 30")
      (auto simp: HandlePack_index_def HandlePack_linear_id_def HandlePack_reserved_def
        BitField_ExtractValue_eq bit_take_bit_iff bit_drop_bit_eq)
qed

lemma EncodeHandle_eq_iff:
  assumes "i < 32768" and "l < 32768"
  shows "h = EncodeHandle i l \<longleftrightarrow>
    HandlePack_reserved h = 0 \<and> unat (HandlePack_index h) = i \<and> unat (HandlePack_linear_id h) = l"
proof
  assume r: "HandlePack_reserved h = 0 \<and> unat (HandlePack_index h) = i \<and>
    unat (HandlePack_linear_id h) = l"
  have "of_nat (unat (HandlePack_index h)) = (of_nat i :: u32)"
    "of_nat (unat (HandlePack_linear_id h)) = (of_nat l :: u32)"
    using r by (simp_all only:)
  then have "HandlePack_index h = of_nat i" "HandlePack_linear_id h = of_nat l" by simp_all
  with r show "h = EncodeHandle i l"
    by - (rule Handle_eqI, simp_all add: EncodeHandle_fields [OF assms])
qed (simp add: EncodeHandle_fields [OF assms] unat_small assms)

lemma pseudo_reserved:
  assumes "IsPseudoHandle h" shows "HandlePack_reserved h \<noteq> 0"
proof -
  have "bit h 30"
    using assms by (auto simp: IsPseudoHandle_def PseudoHandle_CurrentProcess_def
        PseudoHandle_CurrentThread_def bit_numeral_rec)
  then have "bit (HandlePack_reserved h) 0"
    by (simp add: HandlePack_reserved_def BitField_ExtractValue_eq bit_take_bit_iff bit_drop_bit_eq)
  then show ?thesis by auto
qed

section \<open>The table invariant\<close>

text \<open>The free list: the chain of next-free indices from the head.\<close>

fun free_chain :: "nat list \<Rightarrow> int \<Rightarrow> nat list \<Rightarrow> bool" where
  "free_chain infos head [] \<longleftrightarrow> head = -1"
| "free_chain infos head (i # is) \<longleftrightarrow>
     head = int i \<and> i < length infos \<and> free_chain infos (s16_of (infos ! i)) is"

definition table_ok :: "KHandleTable \<Rightarrow> nat list \<Rightarrow> bool" where
  "table_ok t fl \<longleftrightarrow>
     length (m_entry_infos t) = MaxTableSize \<and> length (m_objects t) = MaxTableSize \<and>
     m_table_size t \<le> MaxTableSize \<and> distinct fl \<and> set fl \<subseteq> {..<m_table_size t} \<and>
     free_chain (m_entry_infos t) (m_free_head_index t) fl \<and>
     (\<forall>i\<in>set fl. m_objects t ! i = None) \<and>
     m_count t + length fl = m_table_size t \<and>
     m_count t \<le> m_max_count t \<and> m_max_count t \<le> m_table_size t \<and>
     MinLinearId \<le> m_next_linear_id t \<and> m_next_linear_id t \<le> MaxLinearId"

lemmas table_consts = MaxTableSize_def MinLinearId_def MaxLinearId_def

lemma free_chain_update:
  "i \<notin> set is \<Longrightarrow> free_chain (infos[i := v]) head is = free_chain infos head is"
  by (induction "is" arbitrary: head) auto

lemma s16_u16: "-32768 \<le> i \<Longrightarrow> i < 32768 \<Longrightarrow> s16_of (u16_of i) = i"
proof -
  assume a: "-32768 \<le> i" "i < 32768"
  show ?thesis
  proof (cases "0 \<le> i")
    case True
    with a show ?thesis by (simp add: s16_of_def u16_of_def)
  next
    case False
    have "i mod 65536 = (i + 65536) mod 65536" by simp
    also have "\<dots> = i + 65536" using a False by (intro mod_pos_pos_trivial) simp_all
    finally have "i mod 65536 = i + 65536" .
    with False a show ?thesis by (simp add: s16_of_def u16_of_def)
  qed
qed

lemma u16_nat: "i < 65536 \<Longrightarrow> u16_of (int i) = i"
  by (simp add: u16_of_def nat_mod_distrib)

lemma free_chain_head: "free_chain infos head is \<Longrightarrow> head = (case is of [] \<Rightarrow> -1 | i # _ \<Rightarrow> int i)"
  by (cases "is") auto

section \<open>Lookup\<close>

lemma GetObjectImpl_iff:
  "KHandleTable_GetObjectImpl t h = Some obj \<longleftrightarrow>
     HandlePack_reserved h = 0 \<and> unat (HandlePack_linear_id h) \<noteq> 0 \<and>
     unat (HandlePack_index h) < m_table_size t \<and>
     m_objects t ! unat (HandlePack_index h) = Some obj \<and>
     m_entry_infos t ! unat (HandlePack_index h) = unat (HandlePack_linear_id h)"
proof -
  have "HandlePack_linear_id 0 = 0"
    by (simp add: HandlePack_linear_id_def BitField_ExtractValue_eq)
  then have "unat (HandlePack_linear_id h) \<noteq> 0 \<Longrightarrow> h \<noteq> 0" by auto
  then show ?thesis
    by (auto simp: KHandleTable_GetObjectImpl_def KHandleTable_IsValidHandle_def Let_def)
qed

lemma map_eqI: "(\<And>x y. f x = Some y \<longleftrightarrow> g x = Some y) \<Longrightarrow> f = g"
  by (rule ext) (metis not_None_eq)

text \<open>Filling a free entry and emptying a used one, seen as map updates.\<close>

lemma lookup_fill:
  assumes "length (m_entry_infos t) = MaxTableSize" and "length (m_objects t) = MaxTableSize"
    and "i < m_table_size t" and "m_table_size t \<le> MaxTableSize" and "m_objects t ! i = None"
    and "0 < l" and "l < 32768"
    and "m_entry_infos t' = (m_entry_infos t)[i := l]" and "m_objects t' = (m_objects t)[i := Some obj]"
    and "m_table_size t' = m_table_size t"
  shows "KHandleTable_GetObjectImpl t' = (KHandleTable_GetObjectImpl t)(EncodeHandle i l \<mapsto> obj)"
proof (rule map_eqI)
  fix h obj'
  have i: "i < 32768" "i < MaxTableSize" using assms(3,4) by (simp_all add: table_consts)
  show "KHandleTable_GetObjectImpl t' h = Some obj' \<longleftrightarrow>
      ((KHandleTable_GetObjectImpl t)(EncodeHandle i l \<mapsto> obj)) h = Some obj'"
    using assms i EncodeHandle_eq_iff [OF i(1) assms(7), of h]
    by (auto simp: GetObjectImpl_iff nth_list_update_split split: if_splits)
qed

lemma lookup_clear:
  assumes "length (m_entry_infos t) = MaxTableSize" and "length (m_objects t) = MaxTableSize"
    and "KHandleTable_GetObjectImpl t h = Some obj" and "m_table_size t \<le> MaxTableSize"
    and "\<And>j. j \<noteq> unat (HandlePack_index h) \<Longrightarrow> m_entry_infos t' ! j = m_entry_infos t ! j"
    and "m_objects t' = (m_objects t)[unat (HandlePack_index h) := None]"
    and "m_table_size t' = m_table_size t"
  shows "KHandleTable_GetObjectImpl t' = (KHandleTable_GetObjectImpl t)(h := None)"
proof (rule map_eqI)
  fix h' obj'
  let ?i = "unat (HandlePack_index h)" and ?l = "unat (HandlePack_linear_id h)"
  have h: "HandlePack_reserved h = 0" "?l \<noteq> 0" "?i < m_table_size t" "m_objects t ! ?i = Some obj"
    "m_entry_infos t ! ?i = ?l"
    using assms(3) by (simp_all add: GetObjectImpl_iff)
  have eq: "h' = h \<longleftrightarrow> HandlePack_reserved h' = 0 \<and> unat (HandlePack_index h') = ?i \<and>
      unat (HandlePack_linear_id h') = ?l"
    using EncodeHandle_eq_iff [OF HandlePack_less(1) HandlePack_less(2), of h h h] h(1)
      EncodeHandle_eq_iff [OF HandlePack_less(1) HandlePack_less(2), of h' h h] by auto
  show "KHandleTable_GetObjectImpl t' h' = Some obj' \<longleftrightarrow>
      ((KHandleTable_GetObjectImpl t)(h := None)) h' = Some obj'"
    using h eq assms(1,2,4-7)
    by (cases "unat (HandlePack_index h') = ?i")
      (auto simp: GetObjectImpl_iff nth_list_update_split)
qed


section \<open>The operations keep the table consistent\<close>

lemma linear_id_step:
  assumes "MinLinearId \<le> m_next_linear_id t" and "m_next_linear_id t \<le> MaxLinearId"
  shows "KHandleTable_AllocateLinearId t = (m_next_linear_id t,
      t\<lparr>m_next_linear_id := (if m_next_linear_id t = MaxLinearId then MinLinearId
         else Suc (m_next_linear_id t))\<rparr>)"
  using assms
  by (auto simp: KHandleTable_AllocateLinearId_def inc16_def table_consts Let_def)

lemma AllocateEntry_eq:
  assumes "table_ok t (i # fl)"
  shows "KHandleTable_AllocateEntry t = Some (int i,
    t\<lparr>m_free_head_index := s16_of (m_entry_infos t ! i), m_count := Suc (m_count t),
      m_max_count := max (m_max_count t) (Suc (m_count t))\<rparr>)"
proof -
  have "m_count t < 1024" "i < length (m_entry_infos t)" "m_free_head_index t = int i"
    using assms by (auto simp: table_ok_def table_consts)
  then show ?thesis by (simp add: KHandleTable_AllocateEntry_def Let_def inc16_def)
qed

lemma free_entry_exists:
  assumes "table_ok t fl" and "m_count t < m_table_size t"
  obtains i fl' where "fl = i # fl'"
  using assms by (cases fl) (auto simp: table_ok_def)

text \<open>The state after an entry and a linear id have been allocated.\<close>

definition allocated :: "KHandleTable \<Rightarrow> nat \<Rightarrow> KHandleTable" where
  "allocated t i =
     t\<lparr>m_free_head_index := s16_of (m_entry_infos t ! i), m_count := Suc (m_count t),
       m_max_count := max (m_max_count t) (Suc (m_count t)),
       m_next_linear_id := (if m_next_linear_id t = MaxLinearId then MinLinearId
         else Suc (m_next_linear_id t))\<rparr>"

lemma allocated_ok:
  assumes "table_ok t (i # fl)"
  shows "table_ok (allocated t i) fl"
  using assms by (auto simp: table_ok_def allocated_def table_consts)

lemma Add_eq:
  assumes "table_ok t (i # fl)"
  shows "KHandleTable_Add t objs obj = Some (ResultSuccess,
      Some (EncodeHandle i (m_next_linear_id t)),
      (allocated t i)\<lparr>m_entry_infos := (m_entry_infos t)[i := m_next_linear_id t],
        m_objects := (m_objects t)[i := Some obj]\<rparr>,
      snd (KAutoObject_Open objs obj))"
proof -
  let ?t = "snd (KHandleTable_AllocateLinearId t)"
  have l: "KHandleTable_AllocateLinearId t = (m_next_linear_id t,
      t\<lparr>m_next_linear_id := (if m_next_linear_id t = MaxLinearId then MinLinearId
         else Suc (m_next_linear_id t))\<rparr>)"
    using assms by (intro linear_id_step) (simp_all add: table_ok_def)
  have "table_ok ?t (i # fl)" using assms by (auto simp: l table_ok_def table_consts)
  from AllocateEntry_eq [OF this] have e: "KHandleTable_AllocateEntry ?t = Some (int i, allocated t i)"
    by (simp add: l allocated_def)
  have "m_count t < m_table_size t" "i < 1024" using assms by (auto simp: table_ok_def table_consts)
  with l e show ?thesis
    by (simp add: KHandleTable_Add_def u16_nat Let_def) (simp add: allocated_def)
qed

lemma Reserve_eq:
  assumes "table_ok t (i # fl)"
  shows "KHandleTable_Reserve t = Some (ResultSuccess,
      Some (EncodeHandle i (m_next_linear_id t)), allocated t i)"
proof -
  note e = AllocateEntry_eq [OF assms]
  have "m_count t < m_table_size t" "i < 1024"
    "MinLinearId \<le> m_next_linear_id t" "m_next_linear_id t \<le> MaxLinearId"
    using assms by (auto simp: table_ok_def table_consts)
  then show ?thesis
    by (simp add: KHandleTable_Reserve_def e u16_nat linear_id_step) (simp add: allocated_def)
qed

lemma fill_ok:
  assumes "table_ok t fl" and "i < m_table_size t" and "i \<notin> set fl"
  shows "table_ok (t\<lparr>m_entry_infos := (m_entry_infos t)[i := l],
      m_objects := (m_objects t)[i := Some obj]\<rparr>) fl"
  using assms by (auto simp: table_ok_def free_chain_update nth_list_update_split)

lemma used_entry_count:
  assumes "table_ok t fl" and "i < m_table_size t" and "i \<notin> set fl"
  shows "0 < m_count t"
proof -
  have "set (i # fl) \<subseteq> {..<m_table_size t}" using assms by (simp add: table_ok_def)
  then have "card (set (i # fl)) \<le> card {..<m_table_size t}" by (intro card_mono) simp_all
  moreover have "card (set (i # fl)) = Suc (length fl)"
    using assms by (simp add: table_ok_def distinct_card)
  moreover have "m_count t + length fl = m_table_size t" using assms(1) by (simp add: table_ok_def)
  ultimately show ?thesis by (simp del: set_simps)
qed

lemma dec16_eq: "0 < n \<Longrightarrow> n \<le> 65536 \<Longrightarrow> dec16 n = n - 1"
  by (cases n) (simp_all add: dec16_def)

lemma FreeEntry_ok:
  assumes "table_ok t fl" and "i < m_table_size t" and "i \<notin> set fl"
  shows "table_ok (KHandleTable_FreeEntry t i) (i # fl)"
proof -
  have t: "m_table_size t \<le> 1024" "set fl \<subseteq> {..<m_table_size t}"
    "m_count t + length fl = m_table_size t" "length (m_entry_infos t) = 1024"
    "free_chain (m_entry_infos t) (m_free_head_index t) fl"
    using assms(1) by (simp_all add: table_ok_def table_consts)
  note pos = used_entry_count [OF assms]
  then have c: "dec16 (m_count t) = m_count t - 1" using t(1,3) by (intro dec16_eq) simp_all
  have "s16_of (u16_of (m_free_head_index t)) = m_free_head_index t"
  proof (cases fl)
    case Nil
    with t(5) show ?thesis by (simp add: s16_u16)
  next
    case (Cons j js)
    with t(2) have "j < m_table_size t" by simp
    with t(1,5) Cons show ?thesis by (simp add: s16_u16)
  qed
  then have "free_chain ((m_entry_infos t)[i := u16_of (m_free_head_index t)]) (int i) (i # fl)"
    using assms(2,3) t by (simp add: free_chain_update)
  moreover have "\<forall>j\<in>set (i # fl). (m_objects t)[i := None] ! j = None"
    using assms by (simp add: table_ok_def nth_list_update_split)
  moreover have "m_count t \<le> m_max_count t" using assms(1) by (simp add: table_ok_def)
  then have "m_count t - Suc 0 \<le> m_max_count t" by simp
  ultimately show ?thesis using assms pos
    by (simp add: table_ok_def KHandleTable_FreeEntry_def c del: free_chain.simps)
qed

lemma lookup_allocated: "KHandleTable_GetObjectImpl (allocated t i) = KHandleTable_GetObjectImpl t"
  by (rule map_eqI) (simp add: GetObjectImpl_iff allocated_def)

lemma lookup_same_objects:
  assumes "m_objects t' = m_objects t" and "m_table_size t' = m_table_size t"
    and "\<And>j. j < m_table_size t \<Longrightarrow> m_objects t ! j \<noteq> None \<Longrightarrow> m_entry_infos t' ! j = m_entry_infos t ! j"
  shows "KHandleTable_GetObjectImpl t' = KHandleTable_GetObjectImpl t"
  by (rule map_eqI) (use assms in \<open>auto simp: GetObjectImpl_iff\<close>)


lemma Add_lookup:
  assumes "table_ok t (i # fl)"
    and "KHandleTable_Add t objs obj = Some (r, Some h, t', objs')"
  shows "KHandleTable_GetObjectImpl t' = (KHandleTable_GetObjectImpl t)(h \<mapsto> obj)"
    and "table_ok t' fl" and "KHandleTable_GetObjectImpl t h = None" and "h \<noteq> 0"
proof -
  have t: "i < m_table_size t" "m_objects t ! i = None" "0 < m_next_linear_id t"
    "m_next_linear_id t < 32768" "i < 32768" "i \<notin> set fl"
    using assms(1) by (auto simp: table_ok_def table_consts)
  have h: "h = EncodeHandle i (m_next_linear_id t)"
    and t': "t' = (allocated t i)\<lparr>m_entry_infos := (m_entry_infos t)[i := m_next_linear_id t],
        m_objects := (m_objects t)[i := Some obj]\<rparr>"
    using assms(2) by (simp_all add: Add_eq [OF assms(1)])
  show "KHandleTable_GetObjectImpl t' = (KHandleTable_GetObjectImpl t)(h \<mapsto> obj)"
    unfolding h using assms(1) t
    by (intro lookup_fill) (simp_all add: t' table_ok_def allocated_def)
  show "table_ok t' fl"
    using fill_ok [OF allocated_ok [OF assms(1)] _ t(6), where l = "m_next_linear_id t" and obj = obj] t(1)
    by (simp add: t' allocated_def)
  have f: "HandlePack_reserved h = 0" "unat (HandlePack_index h) = i"
    "unat (HandlePack_linear_id h) = m_next_linear_id t"
    using EncodeHandle_eq_iff [OF t(5,4), of h] h by simp_all
  then show "KHandleTable_GetObjectImpl t h = None"
    using t(2) by (simp add: KHandleTable_GetObjectImpl_def KHandleTable_IsValidHandle_def)
  have "HandlePack_linear_id 0 = 0"
    by (simp add: HandlePack_linear_id_def BitField_ExtractValue_eq)
  with f(3) t(3) show "h \<noteq> 0" by auto
qed

lemma lookup_Some_used:
  assumes "table_ok t fl" and "KHandleTable_GetObjectImpl t h = Some obj"
  shows "unat (HandlePack_index h) < m_table_size t" "unat (HandlePack_index h) \<notin> set fl"
  using assms by (auto simp: GetObjectImpl_iff table_ok_def)

lemma Remove_eq:
  assumes "KHandleTable_GetObjectImpl t h = Some obj"
  shows "KHandleTable_Remove t objs h =
    (True, KHandleTable_FreeEntry t (unat (HandlePack_index h)),
     KAutoObject_Close (UnregisterInUseObject objs obj) obj)"
proof -
  have "HandlePack_reserved h = 0" using assms by (simp add: GetObjectImpl_iff)
  moreover from this have "\<not> IsPseudoHandle h" using pseudo_reserved by blast
  ultimately show ?thesis using assms
    by (auto simp: KHandleTable_Remove_def KHandleTable_GetObjectImpl_def Let_def split: if_splits)
qed

lemma Remove_lookup:
  assumes "table_ok t fl" and "KHandleTable_GetObjectImpl t h = Some obj"
    and "KHandleTable_Remove t objs h = (b, t', objs')"
  shows "KHandleTable_GetObjectImpl t' = (KHandleTable_GetObjectImpl t)(h := None)"
    and "table_ok t' (unat (HandlePack_index h) # fl)"
proof -
  have t': "t' = KHandleTable_FreeEntry t (unat (HandlePack_index h))"
    using assms(3) by (simp add: Remove_eq [OF assms(2)])
  show "KHandleTable_GetObjectImpl t' = (KHandleTable_GetObjectImpl t)(h := None)"
    using assms(1)
    by (intro lookup_clear [OF _ _ assms(2)])
      (simp_all add: t' KHandleTable_FreeEntry_def table_ok_def)
  show "table_ok t' (unat (HandlePack_index h) # fl)"
    unfolding t' by (intro FreeEntry_ok assms(1) lookup_Some_used [OF assms(1,2)])
qed

lemma Remove_invalid:
  assumes "KHandleTable_GetObjectImpl t h = None" and "length (m_objects t) = MaxTableSize"
    and "m_table_size t \<le> MaxTableSize"
  shows "KHandleTable_Remove t objs h = (False, t, objs)"
  using assms
  by (auto simp: KHandleTable_Remove_def KHandleTable_GetObjectImpl_def
      KHandleTable_IsValidHandle_def Let_def)

section \<open>A table as a map\<close>

text \<open>
  The interface the services rely on: a handle table is a partial map from handles to objects;
  adding extends it at a fresh handle and removing deletes the handle.  Clients are proved against
  this contract.
\<close>

locale object_table =
  fixes lookup :: "'t \<Rightarrow> Handle \<rightharpoonup> nat" and invar :: "'t \<Rightarrow> bool"
    and add :: "'t \<Rightarrow> nat \<Rightarrow> (Handle \<times> 't) option" and remove :: "'t \<Rightarrow> Handle \<Rightarrow> 't"
  assumes add_lookup: "invar t \<Longrightarrow> add t obj = Some (h, t') \<Longrightarrow> lookup t' = (lookup t)(h \<mapsto> obj)"
    and add_fresh: "invar t \<Longrightarrow> add t obj = Some (h, t') \<Longrightarrow> lookup t h = None"
    and add_invar: "invar t \<Longrightarrow> add t obj = Some (h, t') \<Longrightarrow> invar t'"
    and remove_lookup: "invar t \<Longrightarrow> lookup (remove t h) = (lookup t)(h := None)"
    and remove_invar: "invar t \<Longrightarrow> invar (remove t h)"
begin

lemma add_remove:
  assumes "invar t" and "add t obj = Some (h, t')"
  shows "lookup (remove t' h) = lookup t"
  using add_lookup [OF assms] add_fresh [OF assms] remove_lookup [OF add_invar [OF assms]]
  by (simp add: fun_upd_idem)

lemma add_keeps:
  assumes "invar t" and "add t obj = Some (h, t')" and "lookup t h' = Some obj'"
  shows "lookup t' h' = Some obj'" and "h' \<noteq> h"
  using add_lookup [OF assms(1,2)] add_fresh [OF assms(1,2)] assms(3) by auto

lemma remove_all:
  assumes "invar t"
  shows "lookup (foldl remove t hs) = (\<lambda>h. if h \<in> set hs then None else lookup t h)"
  using assms
  by (induction hs arbitrary: t) (auto simp: remove_lookup remove_invar fun_eq_iff)

end

definition table_add :: "KHandleTable \<times> KAutoObjects \<Rightarrow> nat \<Rightarrow> (Handle \<times> KHandleTable \<times> KAutoObjects) option" where
  "table_add s obj =
     (case KHandleTable_Add (fst s) (snd s) obj of
        Some (ResultSuccess, Some h, t', objs') \<Rightarrow> Some (h, t', objs')
      | _ \<Rightarrow> None)"

definition table_remove :: "KHandleTable \<times> KAutoObjects \<Rightarrow> Handle \<Rightarrow> KHandleTable \<times> KAutoObjects" where
  "table_remove s h = snd (KHandleTable_Remove (fst s) (snd s) h)"

definition table_invar :: "KHandleTable \<times> KAutoObjects \<Rightarrow> bool" where
  "table_invar s \<longleftrightarrow> (\<exists>fl. table_ok (fst s) fl)"

lemma table_add_Some:
  assumes "table_invar s" and "table_add s obj = Some (h, s')"
  obtains i fl where "table_ok (fst s) (i # fl)"
    and "KHandleTable_Add (fst s) (snd s) obj = Some (ResultSuccess, Some h, fst s', snd s')"
proof -
  obtain fl where fl: "table_ok (fst s) fl" using assms(1) by (auto simp: table_invar_def)
  have add: "KHandleTable_Add (fst s) (snd s) obj = Some (ResultSuccess, Some h, fst s', snd s')"
    using assms(2) by (auto simp: table_add_def split: option.splits prod.splits Result.splits)
  then have "m_count (fst s) < m_table_size (fst s)"
    by (auto simp: KHandleTable_Add_def split: if_splits)
  then obtain i fl' where "fl = i # fl'" using free_entry_exists [OF fl] by blast
  with fl add show ?thesis using that by blast
qed

interpretation handles: object_table "\<lambda>s. KHandleTable_GetObjectImpl (fst s)" table_invar table_add
  table_remove
proof (unfold_locales, goal_cases)
  case (1 t obj h t')
  then show ?case by (metis Add_lookup(1) table_add_Some)
next
  case (2 t obj h t')
  then show ?case by (metis Add_lookup(3) table_add_Some)
next
  case (3 t obj h t')
  then show ?case by (metis Add_lookup(2) table_add_Some table_invar_def)
next
  case (4 t h)
  then obtain fl where fl: "table_ok (fst t) fl" by (auto simp: table_invar_def)
  show ?case
  proof (cases "KHandleTable_GetObjectImpl (fst t) h")
    case None
    then have "KHandleTable_Remove (fst t) (snd t) h = (False, t)"
      using fl by (cases t) (simp add: Remove_invalid table_ok_def)
    with None show ?thesis by (simp add: table_remove_def fun_upd_idem)
  next
    case (Some obj)
    then show ?thesis
      using Remove_lookup(1) [OF fl Some, of "snd t"]
      by (cases "KHandleTable_Remove (fst t) (snd t) h") (auto simp: table_remove_def)
  qed
next
  case (5 t h)
  then obtain fl where fl: "table_ok (fst t) fl" by (auto simp: table_invar_def)
  show ?case
  proof (cases "KHandleTable_GetObjectImpl (fst t) h")
    case None
    then have "KHandleTable_Remove (fst t) (snd t) h = (False, t)"
      using fl by (cases t) (simp add: Remove_invalid table_ok_def)
    with 5 show ?thesis by (simp add: table_remove_def)
  next
    case (Some obj)
    then show ?thesis
      using Remove_lookup(2) [OF fl Some, of "snd t"]
      by (cases "KHandleTable_Remove (fst t) (snd t) h") (auto simp: table_remove_def table_invar_def)
  qed
qed

section \<open>Properties\<close>

lemma Initialize_loop:
  assumes "n \<le> 1024" "length (m_entry_infos t) = 1024" "length (m_objects t) = 1024"
    and "m_free_head_index t = -1"
  defines "t' \<equiv> foldl KHandleTable_Initialize_step t [0..<n]"
  shows "free_chain (m_entry_infos t') (m_free_head_index t') (rev [0..<n]) \<and>
    (\<forall>i<n. m_objects t' ! i = None) \<and> m_free_head_index t' = int n - 1 \<and>
    length (m_entry_infos t') = 1024 \<and> length (m_objects t') = 1024 \<and>
    m_table_size t' = m_table_size t \<and> m_max_count t' = m_max_count t \<and>
    m_next_linear_id t' = m_next_linear_id t \<and> m_count t' = m_count t"
  using assms(1) unfolding t'_def
proof (induction n)
  case 0
  then show ?case using assms by simp
next
  case (Suc n)
  then show ?case
    by (auto simp: KHandleTable_Initialize_step_def free_chain_update s16_u16 less_Suc_eq)
qed

text \<open>
  Initialising a table to a size up to 1024 gives a consistent, empty table of that size (1024
  for a size that is not positive); a larger size is refused and nothing changes.
\<close>

theorem Initialize_table:
  assumes "length (m_entry_infos t) = MaxTableSize" and "length (m_objects t) = MaxTableSize"
  shows "if sz \<le> int MaxTableSize
    then \<exists>t'. KHandleTable_Initialize t sz = (ResultSuccess, t') \<and> table_invar (t', objs) \<and>
      m_table_size t' = (if sz \<le> 0 then MaxTableSize else nat sz) \<and> m_count t' = 0 \<and>
      KHandleTable_GetObjectImpl t' = Map.empty
    else KHandleTable_Initialize t sz = (ResultOutOfMemory, t)"
proof (cases "sz \<le> int MaxTableSize")
  case True
  define n where "n = (if sz \<le> 0 then MaxTableSize else nat sz)"
  let ?t1 = "t\<lparr>m_max_count := 0, m_table_size := n, m_next_linear_id := MinLinearId,
      m_count := 0, m_free_head_index := -1\<rparr>"
  define t' where "t' = foldl KHandleTable_Initialize_step ?t1 [0..<n]"
  have n: "n \<le> 1024" using True by (auto simp: n_def MaxTableSize_def)
  have e: "KHandleTable_Initialize t sz = (ResultSuccess, t')"
    using True by (simp add: KHandleTable_Initialize_def t'_def n_def Let_def)
  note L = Initialize_loop [of n ?t1, OF n, folded t'_def]
  have L': "free_chain (m_entry_infos t') (m_free_head_index t') (rev [0..<n])"
    "\<forall>i<n. m_objects t' ! i = None" "length (m_entry_infos t') = 1024"
    "length (m_objects t') = 1024" "m_table_size t' = n" "m_max_count t' = 0"
    "m_next_linear_id t' = MinLinearId" "m_count t' = 0"
    using L assms by (auto simp: MaxTableSize_def)
  then have "table_ok t' (rev [0..<n])"
    using n unfolding table_ok_def by (auto simp: table_consts)
  moreover have "KHandleTable_GetObjectImpl t' = Map.empty"
    by (rule map_eqI) (use L'(2,5) in \<open>auto simp: GetObjectImpl_iff\<close>)
  ultimately show ?thesis using True e L'(5,8) by (auto simp: table_invar_def n_def)
qed (simp add: KHandleTable_Initialize_def)

definition some_table :: KHandleTable where
  "some_table = \<lparr>m_entry_infos = replicate 1024 7, m_objects = replicate 1024 (Some 3),
     m_free_head_index = 0, m_table_size = 0, m_max_count = 9, m_next_linear_id = 0, m_count = 0\<rparr>"

theorem Initialize_table_witness:
  "\<exists>t'. KHandleTable_Initialize some_table 40 = (ResultSuccess, t') \<and> m_table_size t' = 40 \<and>
     KHandleTable_GetObjectImpl t' = Map.empty"
  using Initialize_table [of some_table 40] by (auto simp: some_table_def MaxTableSize_def)

text \<open>
  C6: adding an object.  While the table has room the object gets a nonzero handle that named
  nothing before, and the lookups of all other handles stay as they were; a full table answers
  \<open>ResultOutOfHandles\<close> and changes nothing.  The free list never runs dry early, so no entry outside
  the table is touched.
\<close>

theorem Add_extends_map:
  assumes "table_invar (t, objs)"
  shows "if m_count t < m_table_size t
    then \<exists>h t'. KHandleTable_Add t objs obj =
        Some (ResultSuccess, Some h, t', snd (KAutoObject_Open objs obj)) \<and>
      h \<noteq> 0 \<and> KHandleTable_GetObjectImpl t h = None \<and> m_count t' = Suc (m_count t) \<and>
      KHandleTable_GetObjectImpl t' = (KHandleTable_GetObjectImpl t)(h \<mapsto> obj) \<and>
      table_invar (t', snd (KAutoObject_Open objs obj))
    else KHandleTable_Add t objs obj = Some (ResultOutOfHandles, None, t, objs)"
proof (cases "m_count t < m_table_size t")
  case True
  obtain fl where "table_ok t fl" using assms by (auto simp: table_invar_def)
  moreover from this True obtain i fl' where "fl = i # fl'" using free_entry_exists by blast
  ultimately have ok: "table_ok t (i # fl')" by simp
  have "m_count t' = Suc (m_count t)" if "KHandleTable_Add t objs obj = Some (r, h, t', objs')"
    for r h t' objs'
    using that by (auto simp: Add_eq [OF ok] allocated_def)
  then show ?thesis
    using True Add_lookup [OF ok Add_eq [OF ok]] Add_eq [OF ok, of objs obj]
    by (auto simp: table_invar_def)
qed (simp add: KHandleTable_Add_def)

text \<open>
  C16: removing a handle.  A handle that names an object is deleted from the map, the object is
  unregistered and closed once; every other handle (zero, pseudo, with reserved bits, stale or out
  of range) is refused and changes nothing.
\<close>

theorem Remove_deletes_from_map:
  assumes "table_invar (t, objs)"
  shows "case KHandleTable_GetObjectImpl t h of
      Some obj \<Rightarrow> \<exists>t'. KHandleTable_Remove t objs h =
          (True, t', KAutoObject_Close (UnregisterInUseObject objs obj) obj) \<and>
        KHandleTable_GetObjectImpl t' = (KHandleTable_GetObjectImpl t)(h := None) \<and>
        Suc (m_count t') = m_count t \<and>
        table_invar (t', KAutoObject_Close (UnregisterInUseObject objs obj) obj)
    | None \<Rightarrow> KHandleTable_Remove t objs h = (False, t, objs)"
proof (cases "KHandleTable_GetObjectImpl t h")
  case None
  with assms show ?thesis by (auto simp: table_invar_def table_ok_def intro!: Remove_invalid)
next
  case (Some obj)
  obtain fl where fl: "table_ok t fl" using assms by (auto simp: table_invar_def)
  note used = lookup_Some_used [OF fl Some]
  have "0 < m_count t" "m_count t \<le> 1024"
    using used_entry_count [OF fl used] fl by (auto simp: table_ok_def table_consts)
  then have "Suc (m_count (KHandleTable_FreeEntry t (unat (HandlePack_index h)))) = m_count t"
    by (simp add: KHandleTable_FreeEntry_def dec16_eq)
  with Some show ?thesis
    using Remove_lookup [OF fl Some Remove_eq [OF Some, of objs]] Remove_eq [OF Some, of objs]
    by (auto simp: table_invar_def)
qed



definition one_table :: KHandleTable where
  "one_table = \<lparr>m_entry_infos = replicate 1024 65535, m_objects = replicate 1024 None,
     m_free_head_index = 0, m_table_size = 1, m_max_count = 0, m_next_linear_id = 1, m_count = 0\<rparr>"

definition used_table :: KHandleTable where
  "used_table = \<lparr>m_entry_infos = replicate 1024 1, m_objects = replicate 1024 (Some 5),
     m_free_head_index = -1, m_table_size = 1, m_max_count = 1, m_next_linear_id = 2, m_count = 1\<rparr>"

definition some_objects :: KAutoObjects where
  "some_objects = \<lparr>m_ref_count = (\<lambda>_. 1), m_class_token = (\<lambda>_. 0), destroyed = [],
     registered_in_use_objects = {5}\<rparr>"

lemma one_table_ok: "table_ok one_table [0]"
  by (simp add: table_ok_def one_table_def table_consts s16_of_def)

lemma used_table_ok: "table_ok used_table []"
  by (simp add: table_ok_def used_table_def table_consts)

lemma example_tables [simp]:
  "table_invar (one_table, objs)" "table_invar (used_table, objs)"
  "m_count one_table = 0" "m_table_size one_table = 1" "m_next_linear_id one_table = 1"
  "m_count used_table = 1"
  using one_table_ok used_table_ok
  by (auto simp: table_invar_def) (simp_all add: one_table_def used_table_def)

lemma used_table_lookup: "KHandleTable_GetObjectImpl used_table (EncodeHandle 0 1) = Some 5"
  by (simp add: GetObjectImpl_iff EncodeHandle_fields used_table_def)

theorem Add_extends_map_witness:
  "\<exists>h t'. KHandleTable_Add one_table some_objects 5 =
      Some (ResultSuccess, Some h, t', snd (KAutoObject_Open some_objects 5)) \<and>
    KHandleTable_GetObjectImpl t' h = Some 5"
  using Add_extends_map [of one_table some_objects 5] by auto

theorem Remove_deletes_from_map_witness:
  "\<exists>t'. KHandleTable_Remove used_table some_objects (EncodeHandle 0 1) =
      (True, t', KAutoObject_Close (UnregisterInUseObject some_objects 5) 5) \<and> m_count t' = 0"
  using Remove_deletes_from_map [of used_table some_objects "EncodeHandle 0 1"]
  unfolding used_table_lookup by (auto simp del: One_nat_def)

text \<open>
  C26: a reservation followed by a registration is the same as adding the object directly, in every
  field of the table and in every error case.
\<close>

theorem Reserve_Register_is_Add:
  assumes "table_invar (t, objs)"
  shows "KHandleTable_Add t objs obj =
    (case KHandleTable_Reserve t of
       Some (ResultSuccess, Some h, t1) \<Rightarrow>
         (case KHandleTable_Register t1 objs h obj of
            (t2, objs') \<Rightarrow> Some (ResultSuccess, Some h, t2, objs'))
     | Some (r, h, t1) \<Rightarrow> Some (r, h, t1, objs)
     | None \<Rightarrow> None)"
proof (cases "m_count t < m_table_size t")
  case False
  then show ?thesis by (simp add: KHandleTable_Add_def KHandleTable_Reserve_def)
next
  case True
  obtain fl where "table_ok t fl" using assms by (auto simp: table_invar_def)
  moreover from this True obtain i fl' where "fl = i # fl'" using free_entry_exists by blast
  ultimately have ok: "table_ok t (i # fl')" by simp
  then have "i < m_table_size t" "i < 32768" "m_next_linear_id t < 32768"
    by (auto simp: table_ok_def table_consts)
  then show ?thesis
    by (simp add: Add_eq [OF ok] Reserve_eq [OF ok] KHandleTable_Register_def Let_def
        EncodeHandle_fields unat_small) (simp add: allocated_def)
qed

theorem Reserve_Register_is_Add_witness:
  "KHandleTable_Reserve one_table \<noteq> None \<and>
   KHandleTable_Add one_table some_objects 5 =
    (case KHandleTable_Reserve one_table of
       Some (ResultSuccess, Some h, t1) \<Rightarrow>
         (case KHandleTable_Register t1 some_objects h 5 of
            (t2, objs') \<Rightarrow> Some (ResultSuccess, Some h, t2, objs'))
     | Some (r, h, t1) \<Rightarrow> Some (r, h, t1, some_objects)
     | None \<Rightarrow> None)"
  using Reserve_Register_is_Add [of one_table some_objects 5]
  by (simp add: Reserve_eq [OF one_table_ok])

lemma lookup_FreeEntry_allocated:
  assumes "m_objects t ! i = None"
  shows "KHandleTable_GetObjectImpl (KHandleTable_FreeEntry (allocated t i) i)
    = KHandleTable_GetObjectImpl t"
proof (rule lookup_same_objects)
  show "m_objects (KHandleTable_FreeEntry (allocated t i) i) = m_objects t"
    using assms list_update_id [of "m_objects t" i]
    by (simp add: KHandleTable_FreeEntry_def allocated_def)
  fix j assume "m_objects t ! j \<noteq> None"
  then have "j \<noteq> i" using assms by auto
  then show "m_entry_infos (KHandleTable_FreeEntry (allocated t i) i) ! j = m_entry_infos t ! j"
    by (simp add: KHandleTable_FreeEntry_def allocated_def)
qed (simp add: KHandleTable_FreeEntry_def allocated_def)

text \<open>
  Giving a reservation back.  The assertions of \<^verbatim>\<open>Unreserve\<close> hold for a reserved handle,
  the lookups, the number of entries and the free list are as before the reservation, and the
  reserved handle never names an object in between.
\<close>

theorem Reserve_Unreserve:
  assumes "table_ok t fl" and "KHandleTable_Reserve t = Some (ResultSuccess, Some h, t')"
  shows "KHandleTable_Unreserve_asserts t' h \<and>
    KHandleTable_GetObjectImpl t' h = None \<and>
    table_ok (KHandleTable_Unreserve t' h) fl \<and>
    m_count (KHandleTable_Unreserve t' h) = m_count t \<and>
    m_free_head_index (KHandleTable_Unreserve t' h) = m_free_head_index t \<and>
    KHandleTable_GetObjectImpl (KHandleTable_Unreserve t' h) = KHandleTable_GetObjectImpl t"
proof -
  have "m_count t < m_table_size t"
    using assms(2) by (auto simp: KHandleTable_Reserve_def split: if_splits)
  then obtain i fl' where fl: "fl = i # fl'" using free_entry_exists [OF assms(1)] by blast
  with assms(1) have ok: "table_ok t (i # fl')" by simp
  have h: "h = EncodeHandle i (m_next_linear_id t)" and t': "t' = allocated t i"
    using assms(2) by (simp_all add: Reserve_eq [OF ok])
  have b: "i < m_table_size t" "i < 32768" "0 < m_next_linear_id t" "m_next_linear_id t < 32768"
    "i \<notin> set fl'" "m_objects t ! i = None" "m_count t < 1024" "m_free_head_index t = int i"
    using ok by (auto simp: table_ok_def table_consts)
  have f: "unat (HandlePack_index h) = i" "HandlePack_reserved h = 0" 
    "unat (HandlePack_linear_id h) = m_next_linear_id t"
    using b by (simp_all add: h EncodeHandle_fields unat_small)
  then have f0: "HandlePack_linear_id h \<noteq> 0" using b(3) by (metis less_numeral_extra(3) unsigned_0)
  have u: "KHandleTable_Unreserve t' h = KHandleTable_FreeEntry (allocated t i) i"
    using b(1) by (simp add: KHandleTable_Unreserve_def f t' allocated_def)
  note lookup_FreeEntry_allocated [OF b(6)]
  moreover have "KHandleTable_GetObjectImpl t h = None"
    using b(6) by (simp add: KHandleTable_GetObjectImpl_def KHandleTable_IsValidHandle_def f)
  moreover have "table_ok (KHandleTable_FreeEntry (allocated t i) i) fl"
    unfolding fl using FreeEntry_ok [OF allocated_ok [OF ok] _ b(5)] b(1)
    by (simp add: allocated_def)
  moreover have "KHandleTable_Unreserve_asserts t' h"
    using f f0 b(6) by (simp add: KHandleTable_Unreserve_asserts_def t' allocated_def)
  moreover have "m_count (KHandleTable_FreeEntry (allocated t i) i) = m_count t"
    "m_free_head_index (KHandleTable_FreeEntry (allocated t i) i) = m_free_head_index t"
    using b(7,8) by (simp_all add: KHandleTable_FreeEntry_def allocated_def dec16_eq)
  ultimately show ?thesis unfolding u by (simp add: t' lookup_allocated)
qed

theorem Reserve_Unreserve_witness:
  "table_ok one_table [0] \<and>
   KHandleTable_Reserve one_table = Some (ResultSuccess, Some (EncodeHandle 0 1), allocated one_table 0) \<and>
   table_ok (KHandleTable_Unreserve (allocated one_table 0) (EncodeHandle 0 1)) [0]"
  using Reserve_Unreserve [OF one_table_ok, of "EncodeHandle 0 1" "allocated one_table 0"]
    Reserve_eq [OF one_table_ok] one_table_ok
  by simp

section \<open>Sequences of operations\<close>

text \<open>
  The calls other threads may interleave on one table, with any arguments, and their run: the
  handles issued, oldest first, and the final table.
\<close>

datatype table_call =
  Call_Add nat | Call_Remove Handle | Call_Reserve | Call_Unreserve Handle | Call_Register Handle nat

fun table_step :: "table_call \<Rightarrow> KHandleTable \<times> KAutoObjects \<Rightarrow>
    (Handle option \<times> KHandleTable \<times> KAutoObjects) option" where
  "table_step (Call_Add obj) (t, objs) =
     (case KHandleTable_Add t objs obj of None \<Rightarrow> None | Some (r, h, t', objs') \<Rightarrow> Some (h, t', objs'))"
| "table_step (Call_Remove h) (t, objs) = Some (None, snd (KHandleTable_Remove t objs h))"
| "table_step Call_Reserve (t, objs) =
     (case KHandleTable_Reserve t of None \<Rightarrow> None | Some (r, h, t') \<Rightarrow> Some (h, t', objs))"
| "table_step (Call_Unreserve h) (t, objs) = Some (None, KHandleTable_Unreserve t h, objs)"
| "table_step (Call_Register h obj) (t, objs) = Some (None, KHandleTable_Register t objs h obj)"

fun table_run :: "table_call list \<Rightarrow> KHandleTable \<times> KAutoObjects \<Rightarrow>
    (Handle list \<times> KHandleTable \<times> KAutoObjects) option" where
  "table_run [] s = Some ([], s)"
| "table_run (c # cs) s =
     (case table_step c s of
        None \<Rightarrow> None
      | Some (h, s') \<Rightarrow>
          (case table_run cs s' of
             None \<Rightarrow> None
           | Some (hs, s'') \<Rightarrow> Some ((case h of None \<Rightarrow> hs | Some h' \<Rightarrow> h' # hs), s'')))"

text \<open>The linear id of the k-th handle issued from a table whose next id is \<open>n\<close>.\<close>

definition nth_linear_id :: "nat \<Rightarrow> nat \<Rightarrow> nat" where
  "nth_linear_id n k = (n - 1 + k) mod MaxLinearId + 1"

lemma EncodeHandle_linear_id:
  "l < 32768 \<Longrightarrow> HandlePack_linear_id (EncodeHandle i l) = of_nat l"
  by (simp add: EncodeHandle_def HandlePack_linear_id_def BitField_Extract_Assign
      BitField_Extract_Assign_other take_bit_of_nat_id)

lemma AllocateEntry_next_linear_id:
  "KHandleTable_AllocateEntry t = Some (i, t') \<Longrightarrow> m_next_linear_id t' = m_next_linear_id t"
  by (auto simp: KHandleTable_AllocateEntry_def Let_def split: if_splits)

lemma next_linear_id_step:
  assumes "MinLinearId \<le> n" and "n \<le> MaxLinearId"
  shows "nth_linear_id n (Suc 0) = (if n = MaxLinearId then MinLinearId else Suc n)"
  using assms by (auto simp: nth_linear_id_def table_consts)

lemma nth_linear_id_Max [simp]: "nth_linear_id MaxLinearId (Suc 0) = MinLinearId"
  by (simp add: nth_linear_id_def table_consts)

lemma nth_linear_id_Suc:
  assumes "MinLinearId \<le> n" and "n \<le> MaxLinearId"
  shows "nth_linear_id (nth_linear_id n (Suc 0)) k = nth_linear_id n (Suc k)"
  using assms by (simp add: nth_linear_id_def table_consts mod_add_left_eq)

lemma nth_linear_id_bounds: "MinLinearId \<le> nth_linear_id n k" "nth_linear_id n k \<le> MaxLinearId"
  by (simp_all add: nth_linear_id_def table_consts Suc_leI)

lemma nth_linear_id_0: "MinLinearId \<le> n \<Longrightarrow> n \<le> MaxLinearId \<Longrightarrow> nth_linear_id n 0 = n"
  by (auto simp: nth_linear_id_def table_consts)

lemma table_step_linear_id:
  assumes "table_step c (t, objs) = Some (h, t', objs')"
    and n: "MinLinearId \<le> m_next_linear_id t" "m_next_linear_id t \<le> MaxLinearId"
  shows "case h of
      None \<Rightarrow> m_next_linear_id t' = m_next_linear_id t
    | Some h' \<Rightarrow> m_next_linear_id t' = nth_linear_id (m_next_linear_id t) (Suc 0) \<and>
        unat (HandlePack_linear_id h') = m_next_linear_id t"
proof -
  have l: "m_next_linear_id t < 32768" using n(2) by (simp add: table_consts)
  note step = linear_id_step [OF n] next_linear_id_step [OF n]
  show ?thesis
  proof (cases c)
    case (Call_Add obj)
    with assms(1) l show ?thesis
      by (auto simp: KHandleTable_Add_def step Let_def EncodeHandle_linear_id unat_small
          dest!: AllocateEntry_next_linear_id split: if_splits option.splits)
  next
    case Call_Reserve
    then show ?thesis
    proof (cases "KHandleTable_AllocateEntry t")
      case None
      with Call_Reserve assms(1) show ?thesis
        by (auto simp: KHandleTable_Reserve_def split: if_splits)
    next
      case (Some it)
      obtain i t1 where it: "it = (i, t1)" by fastforce
      with Some have "m_next_linear_id t1 = m_next_linear_id t"
        by (simp add: AllocateEntry_next_linear_id)
      with Call_Reserve assms Some it l show ?thesis
        by (auto simp: KHandleTable_Reserve_def linear_id_step next_linear_id_step
            EncodeHandle_linear_id unat_small split: if_splits)
    qed
  qed (use assms(1) in \<open>auto simp: KHandleTable_Remove_def KHandleTable_Unreserve_def
      KHandleTable_Register_def KHandleTable_FreeEntry_def Let_def split: if_splits\<close>)
qed

lemma table_run_linear_ids:
  assumes "table_run cs (t, objs) = Some (hs, s')"
    and "MinLinearId \<le> m_next_linear_id t" "m_next_linear_id t \<le> MaxLinearId"
  shows "map (\<lambda>h. unat (HandlePack_linear_id h)) hs = map (nth_linear_id (m_next_linear_id t)) [0..<length hs]"
  using assms
proof (induction cs arbitrary: t objs hs)
  case Nil
  then show ?case by simp
next
  case (Cons c cs)
  obtain h t1 objs1 where step: "table_step c (t, objs) = Some (h, t1, objs1)"
    using Cons.prems(1) by (auto split: option.splits)
  obtain hs1 where run: "table_run cs (t1, objs1) = Some (hs1, s')"
    and hs: "hs = (case h of None \<Rightarrow> hs1 | Some h' \<Rightarrow> h' # hs1)"
    using Cons.prems(1) step by (auto split: option.splits)
  note s = table_step_linear_id [OF step Cons.prems(2,3)]
  show ?case
  proof (cases h)
    case None
    with s Cons.IH [OF run] Cons.prems(2,3) hs show ?thesis by simp
  next
    case (Some h')
    with s have s': "m_next_linear_id t1 = nth_linear_id (m_next_linear_id t) (Suc 0)"
      "unat (HandlePack_linear_id h') = nth_linear_id (m_next_linear_id t) 0"
      using Cons.prems(2,3) by (simp_all add: nth_linear_id_0)
    have "map (\<lambda>h. unat (HandlePack_linear_id h)) hs1
        = map (\<lambda>k. nth_linear_id (m_next_linear_id t) (Suc k)) [0..<length hs1]"
      using Cons.IH [OF run] Cons.prems(2,3)
      by (simp add: s' nth_linear_id_bounds nth_linear_id_Suc)
    then show ?thesis
      using Some s'(2) hs by (simp del: upt_Suc add: upt_conv_Cons map_Suc_upt [symmetric])
  qed
qed

lemma nth_linear_id_less:
  assumes "j < k" and "k < MaxLinearId"
  shows "nth_linear_id n j \<noteq> nth_linear_id n k"
proof
  assume "nth_linear_id n j = nth_linear_id n k"
  then have "(n - 1 + k) mod MaxLinearId = (n - 1 + j) mod MaxLinearId"
    by (simp add: nth_linear_id_def)
  then have "MaxLinearId dvd k - j"
    using assms(1) mod_eq_dvd_iff_nat [of "n - 1 + j" "n - 1 + k" MaxLinearId] by simp
  with assms show False by (auto dest: dvd_imp_le)
qed

lemma nth_linear_id_inj: "inj_on (nth_linear_id n) {..<MaxLinearId}"
  by (rule linorder_inj_onI) (auto simp: nth_linear_id_less)

text \<open>
  C12: whatever calls are interleaved on a table, with whatever arguments, the first 32767 handles it
  issues are pairwise distinct: a handle that was closed or given back is not issued again before
  that.
\<close>

theorem issued_handles_distinct:
  assumes "table_run cs (t, objs) = Some (hs, s')"
    and "MinLinearId \<le> m_next_linear_id t" and "m_next_linear_id t \<le> MaxLinearId"
    and "length hs \<le> MaxLinearId"
  shows "distinct hs"
proof -
  have "distinct (map (nth_linear_id (m_next_linear_id t)) [0..<length hs])"
    using assms(4) by (auto simp: distinct_map intro: inj_on_subset [OF nth_linear_id_inj])
  then show ?thesis
    unfolding table_run_linear_ids [OF assms(1-3), symmetric] by (simp add: distinct_map)
qed


theorem issued_handles_distinct_witness:
  "\<exists>hs s'. table_run [Call_Reserve, Call_Unreserve (EncodeHandle 0 1), Call_Add 5]
      (one_table, some_objects) = Some (hs, s') \<and> length hs = 2 \<and> distinct hs"
proof -
  define t where "t = KHandleTable_Unreserve (allocated one_table 0) (EncodeHandle 0 1)"
  let ?cs = "[Call_Reserve, Call_Unreserve (EncodeHandle 0 1), Call_Add 5]"
  have t: "t = KHandleTable_FreeEntry (allocated one_table 0) 0"
    by (simp add: t_def KHandleTable_Unreserve_def EncodeHandle_fields allocated_def)
  have "table_ok t [0]"
    unfolding t using FreeEntry_ok [OF allocated_ok [OF one_table_ok]] by (simp add: allocated_def)
  then have "\<exists>h s'. table_run ?cs (one_table, some_objects) = Some ([EncodeHandle 0 1, h], s')"
    by (simp add: Reserve_eq [OF one_table_ok] t_def [symmetric, unfolded One_nat_def] Add_eq)
  then obtain h s' where run:
    "table_run ?cs (one_table, some_objects) = Some ([EncodeHandle 0 1, h], s')" by blast
  have "distinct [EncodeHandle 0 1, h]"
    by (rule issued_handles_distinct [OF run]) (simp_all add: table_consts)
  with run show ?thesis by auto
qed

section \<open>Looking up several handles\<close>

text \<open>A run of the lookup loop opens exactly the objects it returns.\<close>

lemma Open_neq: "obj \<noteq> obj' \<Longrightarrow>
    m_ref_count (snd (KAutoObject_Open objs obj)) obj' = m_ref_count objs obj'"
  by (simp add: KAutoObject_Open_def Let_def)

lemma Open_ref: "m_ref_count objs obj \<noteq> 0 \<Longrightarrow>
    snd (KAutoObject_Open objs obj) = objs\<lparr>m_ref_count := (m_ref_count objs)(obj := m_ref_count objs obj + 1)\<rparr>"
  by (simp add: KAutoObject_Open_def Let_def)

text \<open>Every object of the table is alive and stays clear of the wrap-around of its counter.\<close>

definition refs_ok :: "KHandleTable \<Rightarrow> KAutoObjects \<Rightarrow> nat \<Rightarrow> bool" where
  "refs_ok t objs n \<longleftrightarrow>
     (\<forall>h obj. KHandleTable_GetObjectImpl t h = Some obj \<longrightarrow>
        0 < unat (m_ref_count objs obj) \<and> unat (m_ref_count objs obj) + n < 2 ^ 32)"

lemma unat_inc: "unat (x :: u32) + 1 < 2 ^ 32 \<Longrightarrow> unat (x + 1) = unat x + 1"
  by (simp add: unat_plus_if_size word_size)

lemma refs_ok_Open:
  assumes "refs_ok t objs (Suc n)" and "KHandleTable_GetObjectImpl t h = Some obj"
  shows "refs_ok t (snd (KAutoObject_Open objs obj)) n"
  unfolding refs_ok_def
proof (intro allI impI)
  fix h' obj' assume h': "KHandleTable_GetObjectImpl t h' = Some obj'"
  have *: "0 < unat (m_ref_count objs obj')" "unat (m_ref_count objs obj') + Suc n < 2 ^ 32"
    using assms(1) h' unfolding refs_ok_def by blast+
  have **: "0 < unat (m_ref_count objs obj)" "unat (m_ref_count objs obj) + Suc n < 2 ^ 32"
    using assms unfolding refs_ok_def by blast+
  show "0 < unat (m_ref_count (snd (KAutoObject_Open objs obj)) obj') \<and>
      unat (m_ref_count (snd (KAutoObject_Open objs obj)) obj') + n < 2 ^ 32"
  proof (cases "obj = obj'")
    case True
    have "m_ref_count objs obj \<noteq> 0" using **(1) by auto
    then show ?thesis using True ** by (simp add: Open_ref unat_inc)
  qed (use * in \<open>simp add: Open_neq\<close>)
qed

lemma GetMultipleObjects_loop_opens:
  assumes "refs_ok t objs (length handles)"
    and "GetMultipleObjects_loop t objs ty handles = (out, objs')"
  shows "objs' = objs\<lparr>m_ref_count := \<lambda>obj. m_ref_count objs obj + of_nat (count_list out obj)\<rparr> \<and>
    (\<forall>obj\<in>set out. \<exists>h. KHandleTable_GetObjectImpl t h = Some obj) \<and> length out \<le> length handles"
  using assms
proof (induction handles arbitrary: objs out objs')
  case Nil
  then show ?case by simp
next
  case (Cons h handles)
  show ?case
  proof (cases "GetMultipleObjects_loop t objs ty (h # handles) = ([], objs)")
    case True
    with Cons.prems(2) show ?thesis by simp
  next
    case False
    then obtain obj cur where g: "KHandleTable_GetObjectImpl t h = Some obj"
      and c: "KAutoObject_DynamicCast objs obj ty = Some cur"
      by (auto split: option.splits)
    then have [simp]: "cur = obj" by (auto simp: KAutoObject_DynamicCast_def split: if_splits)
    obtain out' where l: "GetMultipleObjects_loop t (snd (KAutoObject_Open objs obj)) ty handles = (out', objs')"
      and out: "out = obj # out'"
      using Cons.prems(2) g c by (auto split: prod.splits)
    have IH: "objs' = (snd (KAutoObject_Open objs obj))\<lparr>m_ref_count := \<lambda>ob.
        m_ref_count (snd (KAutoObject_Open objs obj)) ob + of_nat (count_list out' ob)\<rparr>"
      "\<forall>obj\<in>set out'. \<exists>h. KHandleTable_GetObjectImpl t h = Some obj"
      "length out' \<le> length handles"
      using Cons.IH [OF refs_ok_Open [OF _ g] l] Cons.prems(1) by simp_all
    have "0 < unat (m_ref_count objs obj)" using Cons.prems(1) g unfolding refs_ok_def by blast
    then have "m_ref_count objs obj \<noteq> 0" by auto
    with IH g out show ?thesis
      by (auto simp: Open_ref fun_eq_iff intro!: arg_cong [where f = "\<lambda>f. objs\<lparr>m_ref_count := f\<rparr>"])
  qed
qed

lemma Close_many:
  assumes "\<forall>obj\<in>set out. count_list out obj < unat (m_ref_count objs obj)"
  shows "foldl KAutoObject_Close objs out =
    objs\<lparr>m_ref_count := \<lambda>obj. m_ref_count objs obj - of_nat (count_list out obj)\<rparr>"
  using assms
proof (induction out arbitrary: objs)
  case Nil
  then show ?case by simp
next
  case (Cons obj out)
  let ?objs = "objs\<lparr>m_ref_count := (m_ref_count objs)(obj := m_ref_count objs obj - 1)\<rparr>"
  have r: "1 < unat (m_ref_count objs obj)" using Cons.prems by simp
  then have c: "KAutoObject_Close objs obj = ?objs"
    by (auto simp: KAutoObject_Close_def Let_def)
  have "unat (m_ref_count objs obj - 1) = unat (m_ref_count objs obj) - 1"
    using r by (intro unat_minus_one) auto
  then have "\<forall>ob\<in>set out. count_list out ob < unat (m_ref_count ?objs ob)"
    using Cons.prems by (auto split: if_splits)
  from Cons.IH [OF this] show ?case
    by (auto simp: c fun_eq_iff intro!: arg_cong [where f = "\<lambda>f. objs\<lparr>m_ref_count := f\<rparr>"])
qed

text \<open>
  C25: looking up several handles at once.  When it succeeds the answer has one object per handle
  and each was opened once per occurrence; when any handle is invalid or of another class, every
  reference taken on the way is dropped again and no object is destroyed.
\<close>

theorem GetMultipleObjects_no_leak:
  assumes "refs_ok t objs (length handles)"
    and "KHandleTable_GetMultipleObjects t objs ty handles = (ok, out, objs')"
  shows "if ok then length out = length handles \<and>
      objs' = objs\<lparr>m_ref_count := \<lambda>obj. m_ref_count objs obj + of_nat (count_list out obj)\<rparr>
    else objs' = objs"
proof -
  obtain out1 objs1 where l: "GetMultipleObjects_loop t objs ty handles = (out1, objs1)" by fastforce
  note o = GetMultipleObjects_loop_opens [OF assms(1) l]
  have [simp]: "out1 = out" using assms(2) l by (auto simp: KHandleTable_GetMultipleObjects_def split: if_splits)
  show ?thesis
  proof (cases "length out = length handles")
    case True
    with assms(2) l o show ?thesis by (simp add: KHandleTable_GetMultipleObjects_def)
  next
    case False
    have "\<forall>obj\<in>set out. count_list out obj < unat (m_ref_count objs1 obj)"
    proof
      fix obj assume "obj \<in> set out"
      with o obtain h where "KHandleTable_GetObjectImpl t h = Some obj" by auto
      then have r: "0 < unat (m_ref_count objs obj)"
        "unat (m_ref_count objs obj) + length handles < 2 ^ 32"
        using assms(1) unfolding refs_ok_def by blast+
      have "count_list out obj \<le> length handles" using o count_le_length [of out obj] by simp
      then have "unat (m_ref_count objs obj + of_nat (count_list out obj))
          = unat (m_ref_count objs obj) + count_list out obj"
        using r(2) by (simp add: unat_word_ariths unat_of_nat)
      with r(1) o show "count_list out obj < unat (m_ref_count objs1 obj)" by simp
    qed
    with False assms(2) l o show ?thesis
      by (simp add: KHandleTable_GetMultipleObjects_def Close_many)
  qed
qed

theorem GetMultipleObjects_no_leak_witness:
  "KHandleTable_GetMultipleObjects used_table some_objects KAutoObject [EncodeHandle 0 1, 0]
     = (False, [5], some_objects)"
proof -
  have r: "refs_ok used_table some_objects 2" by (simp add: refs_ok_def some_objects_def)
  have "KHandleTable_GetObjectImpl used_table 0 = None"
    by (simp add: KHandleTable_GetObjectImpl_def KHandleTable_IsValidHandle_def)
  moreover have "KAutoObject_DynamicCast some_objects 5 KAutoObject = Some 5"
    by (simp add: some_objects_def) code_simp
  ultimately obtain objs' where "KHandleTable_GetMultipleObjects used_table some_objects KAutoObject
      [EncodeHandle 0 1, 0] = (False, [5], objs')"
    by (auto simp: KHandleTable_GetMultipleObjects_def used_table_lookup simp del: One_nat_def)
  then show ?thesis
    using r GetMultipleObjects_no_leak [of used_table some_objects "[EncodeHandle 0 1, 0]"
        KAutoObject False "[5]" objs']
    by (simp add: numeral_2_eq_2)
qed

end
