(* ===== verification/Resource_Limit.thy ===== *)
theory Resource_Limit
  imports Kernel_Prelude
begin

text \<open>
  \<^verbatim>\<open>KResourceLimit\<close> (\<^verbatim>\<open>k_resource_limit.cpp\<close>) and the scoped reservation on top of it
  (\<^verbatim>\<open>k_scoped_resource_reservation.h\<close>).

  The four arrays of 64-bit signed values are lists of integers.  \<^verbatim>\<open>Reserve\<close> holds the lock except
  while it waits on the condition variable, so it is split at that point: entering the call, and
  resuming after a wait.  The threads that share one limit are a step relation over these parts.

  Shown here: under every interleaving the values in use are exactly the sum of what was granted and
  not yet returned, never above the limit; no waiting thread misses a release that would satisfy it;
  a thread that resumes after its deadline leaves the call; and an uncommitted scoped reservation
  leaves no trace.
\<close>

section \<open>The limit\<close>

datatype LimitableResource =
  PhysicalMemoryMax | ThreadCountMax | EventCountMax | TransferMemoryCountMax | SessionCountMax

definition LimitableResource_Count :: nat where "LimitableResource_Count = 5"

fun LimitableResource_index :: "LimitableResource \<Rightarrow> nat" where
  "LimitableResource_index PhysicalMemoryMax = 0"
| "LimitableResource_index ThreadCountMax = 1"
| "LimitableResource_index EventCountMax = 2"
| "LimitableResource_index TransferMemoryCountMax = 3"
| "LimitableResource_index SessionCountMax = 4"

definition IsValidResourceType :: "u32 \<Rightarrow> bool" where
  "IsValidResourceType type \<longleftrightarrow> type < of_nat LimitableResource_Count"

record KResourceLimit =
  m_limit_values :: "int list"
  m_current_values :: "int list"
  m_current_hints :: "int list"
  m_peak_values :: "int list"
  m_waiter_count :: int

definition KResourceLimit_new :: KResourceLimit where
  "KResourceLimit_new =
     \<lparr>m_limit_values = replicate LimitableResource_Count 0,
      m_current_values = replicate LimitableResource_Count 0,
      m_current_hints = replicate LimitableResource_Count 0,
      m_peak_values = replicate LimitableResource_Count 0, m_waiter_count = 0\<rparr>"

definition KResourceLimit_value_asserts :: "KResourceLimit \<Rightarrow> LimitableResource \<Rightarrow> int \<Rightarrow> bool" where
  "KResourceLimit_value_asserts r which value \<longleftrightarrow>
     (let index = LimitableResource_index which
      in 0 \<le> value \<and> m_current_values r ! index \<le> m_limit_values r ! index \<and>
         m_current_hints r ! index \<le> m_current_values r ! index)"

definition KResourceLimit_GetLimitValue :: "KResourceLimit \<Rightarrow> LimitableResource \<Rightarrow> int" where
  "KResourceLimit_GetLimitValue r which = m_limit_values r ! LimitableResource_index which"

definition KResourceLimit_GetCurrentValue :: "KResourceLimit \<Rightarrow> LimitableResource \<Rightarrow> int" where
  "KResourceLimit_GetCurrentValue r which = m_current_values r ! LimitableResource_index which"

definition KResourceLimit_GetPeakValue :: "KResourceLimit \<Rightarrow> LimitableResource \<Rightarrow> int" where
  "KResourceLimit_GetPeakValue r which = m_peak_values r ! LimitableResource_index which"

definition KResourceLimit_GetFreeValue :: "KResourceLimit \<Rightarrow> LimitableResource \<Rightarrow> int" where
  "KResourceLimit_GetFreeValue r which =
     m_limit_values r ! LimitableResource_index which -
     m_current_values r ! LimitableResource_index which"

definition KResourceLimit_SetLimitValue ::
    "KResourceLimit \<Rightarrow> LimitableResource \<Rightarrow> int \<Rightarrow> Result \<times> KResourceLimit" where
  "KResourceLimit_SetLimitValue r which value =
     (let index = LimitableResource_index which
      in if \<not> m_current_values r ! index \<le> value then (ResultInvalidState, r)
         else (ResultSuccess,
               r\<lparr>m_limit_values := (m_limit_values r)[index := value],
                 m_peak_values := (m_peak_values r)[index := m_current_values r ! index]\<rparr>))"

definition WrappingAdd :: "int \<Rightarrow> int \<Rightarrow> int" where
  "WrappingAdd lhs rhs = signed_take_bit 63 (lhs + rhs)"

definition DefaultTimeout :: int where "DefaultTimeout = 10000000000"

text \<open>
  One round of the loop of \<^verbatim>\<open>Reserve\<close>: it returns true, returns false, or counts itself as a waiter
  and waits.  \<open>tick\<close> is what the hardware timer reads.
\<close>

datatype Reserve_outcome = Reserved | Refused | Waits

definition Reserve_round ::
    "KResourceLimit \<Rightarrow> LimitableResource \<Rightarrow> int \<Rightarrow> int \<Rightarrow> int \<Rightarrow> Reserve_outcome \<times> KResourceLimit" where
  "Reserve_round r which value timeout tick =
     (let index = LimitableResource_index which;
          current = m_current_values r ! index
      in if WrappingAdd current value \<le> current then (Refused, r)
         else if current + value \<le> m_limit_values r ! index
         then (Reserved,
               r\<lparr>m_current_values := (m_current_values r)[index := current + value],
                 m_current_hints :=
                   (m_current_hints r)[index := m_current_hints r ! index + value],
                 m_peak_values :=
                   (m_peak_values r)[index := max (m_peak_values r ! index) (current + value)]\<rparr>)
         else if m_current_hints r ! index + value \<le> m_limit_values r ! index \<and>
                 (timeout < 0 \<or> tick < timeout)
         then (Waits, r\<lparr>m_waiter_count := m_waiter_count r + 1\<rparr>)
         else (Refused, r))"

definition Reserve_enter ::
    "KResourceLimit \<Rightarrow> LimitableResource \<Rightarrow> int \<Rightarrow> int \<Rightarrow> int \<Rightarrow> Reserve_outcome \<times> KResourceLimit" where
  "Reserve_enter r which value timeout tick =
     (let index = LimitableResource_index which
      in if m_current_hints r ! index \<ge> m_limit_values r ! index then (Refused, r)
         else Reserve_round r which value timeout tick)"

definition Reserve_resume ::
    "KResourceLimit \<Rightarrow> LimitableResource \<Rightarrow> int \<Rightarrow> int \<Rightarrow> int \<Rightarrow> Reserve_outcome \<times> KResourceLimit" where
  "Reserve_resume r which value timeout tick =
     Reserve_round (r\<lparr>m_waiter_count := m_waiter_count r - 1\<rparr>) which value timeout tick"

text \<open>
  The whole call: each wait takes the next element of \<open>waits\<close>, what the limit has become by the time
  the thread runs again and the tick it then reads.  \<open>None\<close> is a call that is still waiting.
\<close>

fun Reserve_loop ::
    "Reserve_outcome \<times> KResourceLimit \<Rightarrow> LimitableResource \<Rightarrow> int \<Rightarrow> int \<Rightarrow>
     ((KResourceLimit \<Rightarrow> KResourceLimit) \<times> int) list \<Rightarrow> (bool \<times> KResourceLimit) option" where
  "Reserve_loop (Reserved, r) which value timeout waits = Some (True, r)"
| "Reserve_loop (Refused, r) which value timeout waits = Some (False, r)"
| "Reserve_loop (Waits, r) which value timeout [] = None"
| "Reserve_loop (Waits, r) which value timeout ((others, tick) # waits) =
     Reserve_loop (Reserve_resume (others r) which value timeout tick) which value timeout waits"

definition KResourceLimit_Reserve ::
    "KResourceLimit \<Rightarrow> LimitableResource \<Rightarrow> int \<Rightarrow> int \<Rightarrow> int \<Rightarrow>
     ((KResourceLimit \<Rightarrow> KResourceLimit) \<times> int) list \<Rightarrow> (bool \<times> KResourceLimit) option" where
  "KResourceLimit_Reserve r which value timeout tick waits =
     Reserve_loop (Reserve_enter r which value timeout tick) which value timeout waits"

definition KResourceLimit_Reserve_default ::
    "KResourceLimit \<Rightarrow> LimitableResource \<Rightarrow> int \<Rightarrow> int \<Rightarrow>
     ((KResourceLimit \<Rightarrow> KResourceLimit) \<times> int) list \<Rightarrow> (bool \<times> KResourceLimit) option" where
  "KResourceLimit_Reserve_default r which value tick waits =
     KResourceLimit_Reserve r which value (tick + DefaultTimeout) tick waits"

text \<open>Releasing; the flag says whether the condition variable is broadcast.\<close>

definition KResourceLimit_Release_hint ::
    "KResourceLimit \<Rightarrow> LimitableResource \<Rightarrow> int \<Rightarrow> int \<Rightarrow> KResourceLimit \<times> bool" where
  "KResourceLimit_Release_hint r which value hint =
     (let index = LimitableResource_index which
      in (r\<lparr>m_current_values := (m_current_values r)[index := m_current_values r ! index - value],
            m_current_hints := (m_current_hints r)[index := m_current_hints r ! index - hint]\<rparr>,
          m_waiter_count r \<noteq> 0))"

definition KResourceLimit_Release ::
    "KResourceLimit \<Rightarrow> LimitableResource \<Rightarrow> int \<Rightarrow> KResourceLimit \<times> bool" where
  "KResourceLimit_Release r which value = KResourceLimit_Release_hint r which value value"

definition KResourceLimit_Release_asserts ::
    "KResourceLimit \<Rightarrow> LimitableResource \<Rightarrow> int \<Rightarrow> int \<Rightarrow> bool" where
  "KResourceLimit_Release_asserts r which value hint \<longleftrightarrow>
     (let index = LimitableResource_index which
      in 0 \<le> value \<and> 0 \<le> hint \<and>
         m_current_values r ! index \<le> m_limit_values r ! index \<and>
         m_current_hints r ! index \<le> m_current_values r ! index \<and>
         value \<le> m_current_values r ! index \<and> hint \<le> m_current_hints r ! index)"

definition CreateResourceLimitForProcess :: "int \<Rightarrow> KResourceLimit" where
  "CreateResourceLimitForProcess physical_memory_size =
     (let r0 = KResourceLimit_new;
          r1 = snd (KResourceLimit_SetLimitValue r0 PhysicalMemoryMax physical_memory_size);
          r2 = snd (KResourceLimit_SetLimitValue r1 ThreadCountMax 800);
          r3 = snd (KResourceLimit_SetLimitValue r2 EventCountMax 900);
          r4 = snd (KResourceLimit_SetLimitValue r3 TransferMemoryCountMax 200)
      in snd (KResourceLimit_SetLimitValue r4 SessionCountMax 1133))"

section \<open>Scoped reservations\<close>

text \<open>
  The scoped reservation on a limit; \<open>sr_has_limit\<close> says that its pointer to the limit is not null.
\<close>

record KScopedResourceReservation =
  sr_has_limit :: bool
  sr_value :: int
  sr_resource :: LimitableResource
  sr_succeeded :: bool

definition KScopedResourceReservation_construct ::
    "KResourceLimit option \<Rightarrow> LimitableResource \<Rightarrow> int \<Rightarrow> int \<Rightarrow> int \<Rightarrow>
     ((KResourceLimit \<Rightarrow> KResourceLimit) \<times> int) list \<Rightarrow>
     (KScopedResourceReservation \<times> KResourceLimit option) option" where
  "KScopedResourceReservation_construct l r v timeout tick waits =
     (case l of
        Some limit \<Rightarrow>
          if v \<noteq> 0
          then (case KResourceLimit_Reserve limit r v timeout tick waits of
                  None \<Rightarrow> None
                | Some (ok, limit') \<Rightarrow>
                    Some (\<lparr>sr_has_limit = True, sr_value = v, sr_resource = r, sr_succeeded = ok\<rparr>,
                          Some limit'))
          else Some (\<lparr>sr_has_limit = True, sr_value = v, sr_resource = r, sr_succeeded = True\<rparr>, l)
      | None \<Rightarrow>
          Some (\<lparr>sr_has_limit = False, sr_value = v, sr_resource = r, sr_succeeded = True\<rparr>, l))"

definition KScopedResourceReservation_Commit ::
    "KScopedResourceReservation \<Rightarrow> KScopedResourceReservation" where
  "KScopedResourceReservation_Commit sr = sr\<lparr>sr_has_limit := False\<rparr>"

definition KScopedResourceReservation_destroy ::
    "KScopedResourceReservation \<Rightarrow> KResourceLimit option \<Rightarrow> KResourceLimit option" where
  "KScopedResourceReservation_destroy sr l =
     (if sr_has_limit sr \<and> sr_value sr \<noteq> 0 \<and> sr_succeeded sr
      then map_option (\<lambda>limit. fst (KResourceLimit_Release limit (sr_resource sr) (sr_value sr))) l
      else l)"

section \<open>Threads sharing a limit\<close>

text \<open>
  What a thread is doing: outside the call, asleep on the condition variable, woken but not yet
  running, or back from the call with its result.  \<open>held\<close> records what has been granted and not yet
  returned, with the part that is still hinted.
\<close>

datatype reserve_phase =
    Outside
  | Asleep LimitableResource int int
  | Woken LimitableResource int int
  | Returned bool

record limit_system =
  sys_limit :: KResourceLimit
  sys_wait_list :: "nat list"
  sys_phase :: "nat \<Rightarrow> reserve_phase"
  sys_held :: "(LimitableResource \<times> int \<times> int) list"
  sys_tick :: int

definition after_round ::
    "limit_system \<Rightarrow> nat \<Rightarrow> LimitableResource \<Rightarrow> int \<Rightarrow> int \<Rightarrow> Reserve_outcome \<times> KResourceLimit \<Rightarrow>
     limit_system" where
  "after_round s t which value timeout p =
     (case p of
        (Reserved, r) \<Rightarrow>
          s\<lparr>sys_limit := r, sys_phase := (sys_phase s)(t := Returned True), sys_held := sys_held s @ [(which, value, value)]\<rparr>
      | (Refused, r) \<Rightarrow> s\<lparr>sys_limit := r, sys_phase := (sys_phase s)(t := Returned False)\<rparr>
      | (Waits, r) \<Rightarrow>
          s\<lparr>sys_limit := r, sys_wait_list := sys_wait_list s @ [t],
            sys_phase := (sys_phase s)(t := Asleep which value timeout)\<rparr>)"

fun wake :: "reserve_phase \<Rightarrow> reserve_phase" where
  "wake (Asleep which value timeout) = Woken which value timeout"
| "wake p = p"

definition Broadcast :: "limit_system \<Rightarrow> limit_system" where
  "Broadcast s =
     s\<lparr>sys_wait_list := [], sys_phase := (\<lambda>t. if t \<in> set (sys_wait_list s) then wake (sys_phase s t) else sys_phase s t)\<rparr>"

definition release_held ::
    "limit_system \<Rightarrow> nat \<Rightarrow> int \<Rightarrow> int \<Rightarrow> limit_system" where
  "release_held s k value hint =
     (case sys_held s ! k of
        (which, v, h) \<Rightarrow>
          (case KResourceLimit_Release_hint (sys_limit s) which value hint of
             (r, broadcast) \<Rightarrow>
               let s' = s\<lparr>sys_limit := r, sys_held := (sys_held s)[k := (which, v - value, h - hint)]\<rparr>
               in if broadcast then Broadcast s' else s'))"

inductive limit_step :: "limit_system \<Rightarrow> limit_system \<Rightarrow> bool" where
  call: "sys_phase s t = Outside \<Longrightarrow> 0 \<le> value \<Longrightarrow> value < 2 ^ 63 \<Longrightarrow>
    limit_step s (after_round s t which value timeout
      (Reserve_enter (sys_limit s) which value timeout (sys_tick s)))"
| resume: "sys_phase s t = Woken which value timeout \<Longrightarrow>
    limit_step s (after_round s t which value timeout
      (Reserve_resume (sys_limit s) which value timeout (sys_tick s)))"
| cancel: "sys_phase s t = Asleep which value timeout \<Longrightarrow>
    limit_step s (s\<lparr>sys_wait_list := remove1 t (sys_wait_list s), sys_phase := (sys_phase s)(t := Woken which value timeout)\<rparr>)"
| release: "k < length (sys_held s) \<Longrightarrow> sys_held s ! k = (which, v, h) \<Longrightarrow>
    0 \<le> value \<Longrightarrow> 0 \<le> hint \<Longrightarrow> hint \<le> h \<Longrightarrow> h - hint \<le> v - value \<Longrightarrow>
    limit_step s (release_held s k value hint)"
| set_limit: "value < 2 ^ 63 \<Longrightarrow>
    limit_step s (s\<lparr>sys_limit := snd (KResourceLimit_SetLimitValue (sys_limit s) which value)\<rparr>)"
| leave: "sys_phase s t = Returned b \<Longrightarrow> limit_step s (s\<lparr>sys_phase := (sys_phase s)(t := Outside)\<rparr>)"
| time: "sys_tick s \<le> tick' \<Longrightarrow> limit_step s (s\<lparr>sys_tick := tick'\<rparr>)"


section \<open>The values in use\<close>

definition held_values :: "(LimitableResource \<times> int \<times> int) list \<Rightarrow> LimitableResource \<Rightarrow> int" where
  "held_values hs which = (\<Sum>(w, v, h)\<leftarrow>hs. if w = which then v else 0)"

definition held_hints :: "(LimitableResource \<times> int \<times> int) list \<Rightarrow> LimitableResource \<Rightarrow> int" where
  "held_hints hs which = (\<Sum>(w, v, h)\<leftarrow>hs. if w = which then h else 0)"

definition values_ok :: "KResourceLimit \<Rightarrow> (LimitableResource \<times> int \<times> int) list \<Rightarrow> bool" where
  "values_ok r hs \<longleftrightarrow>
     length (m_limit_values r) = LimitableResource_Count \<and>
     length (m_current_values r) = LimitableResource_Count \<and>
     length (m_current_hints r) = LimitableResource_Count \<and>
     length (m_peak_values r) = LimitableResource_Count \<and>
     (\<forall>(w, v, h)\<in>set hs. 0 \<le> h \<and> h \<le> v) \<and>
     (\<forall>w. let i = LimitableResource_index w
          in m_current_values r ! i = held_values hs w \<and> m_current_hints r ! i = held_hints hs w \<and>
             m_current_values r ! i \<le> m_peak_values r ! i \<and>
             m_peak_values r ! i \<le> m_limit_values r ! i \<and> m_limit_values r ! i < 2 ^ 63)"

lemma index_less [simp]: "LimitableResource_index w < LimitableResource_Count"
  by (cases w) (simp_all add: LimitableResource_Count_def)

lemma index_eq_iff [simp]: "LimitableResource_index w = LimitableResource_index w' \<longleftrightarrow> w = w'"
  by (cases w; cases w') simp_all

lemma held_append [simp]:
  "held_values (hs @ [(w, v, h)]) w' = held_values hs w' + (if w = w' then v else 0)"
  "held_hints (hs @ [(w, v, h)]) w' = held_hints hs w' + (if w = w' then h else 0)"
  by (simp_all add: held_values_def held_hints_def)

lemma sum_list_map_update:
  fixes f :: "'a \<Rightarrow> int"
  assumes "k < length xs"
  shows "sum_list (map f (xs[k := x])) = sum_list (map f xs) - f (xs ! k) + f x"
  using assms by (induction xs arbitrary: k) (auto split: nat.split)

lemma held_update:
  assumes "k < length hs" and "hs ! k = (w, v, h)"
  shows "held_values (hs[k := (w, v', h')]) w' = held_values hs w' + (if w = w' then v' - v else 0)"
    and "held_hints (hs[k := (w, v', h')]) w' = held_hints hs w' + (if w = w' then h' - h else 0)"
  using assms by (simp_all add: held_values_def held_hints_def sum_list_map_update)

lemma held_bounds:
  assumes "\<forall>(w, v, h)\<in>set hs. 0 \<le> h \<and> h \<le> v"
  shows "0 \<le> held_hints hs w" "held_hints hs w \<le> held_values hs w"
  using assms by (induction hs) (auto simp: held_values_def held_hints_def)

lemma held_member:
  assumes "\<forall>(w, v, h)\<in>set hs. 0 \<le> h \<and> h \<le> v" and "k < length hs" and "hs ! k = (w, v, h)"
  shows "v \<le> held_values hs w" "h \<le> held_hints hs w"
proof -
  have h: "\<forall>(w', v', h')\<in>set (hs[k := (w, 0, 0)]). 0 \<le> h' \<and> h' \<le> v'"
    using assms(1) by (auto dest!: subsetD [OF set_update_subset_insert])
  have "0 \<le> held_hints (hs[k := (w, 0, 0)]) w" using held_bounds(1) [OF h] .
  moreover have "0 \<le> held_values (hs[k := (w, 0, 0)]) w"
    using held_bounds [OF h, of w] by linarith
  ultimately show "v \<le> held_values hs w" "h \<le> held_hints hs w"
    by (simp_all add: held_update [OF assms(2,3)])
qed

lemma values_okD:
  assumes "values_ok r hs"
  defines "i w \<equiv> LimitableResource_index w"
  shows "m_current_values r ! i w = held_values hs w" "m_current_hints r ! i w = held_hints hs w"
    "0 \<le> m_current_hints r ! i w" "m_current_hints r ! i w \<le> m_current_values r ! i w"
    "m_current_values r ! i w \<le> m_peak_values r ! i w" "m_peak_values r ! i w \<le> m_limit_values r ! i w"
    "m_limit_values r ! i w < 2 ^ 63"
proof -
  have *: "\<forall>(w, v, h)\<in>set hs. 0 \<le> h \<and> h \<le> v" using assms(1) by (simp add: values_ok_def)
  show "m_current_values r ! i w = held_values hs w" "m_current_hints r ! i w = held_hints hs w"
    "m_current_values r ! i w \<le> m_peak_values r ! i w" "m_peak_values r ! i w \<le> m_limit_values r ! i w"
    "m_limit_values r ! i w < 2 ^ 63"
    using assms(1) unfolding i_def values_ok_def Let_def by blast+
  then show "0 \<le> m_current_hints r ! i w" "m_current_hints r ! i w \<le> m_current_values r ! i w"
    using held_bounds [OF *, of w] by simp_all
qed

text \<open>The guard against overflow refuses exactly the sums that do not fit and the empty request.\<close>

lemma WrappingAdd_le:
  assumes "0 \<le> a" "a < 2 ^ 63" "0 \<le> b" "b < 2 ^ 63"
  shows "WrappingAdd a b \<le> a \<longleftrightarrow> b = 0 \<or> 2 ^ 63 \<le> a + b"
proof (cases "a + b < 2 ^ 63")
  case True
  then have "WrappingAdd a b = a + b"
    unfolding WrappingAdd_def using assms by (intro signed_take_bit_int_eq_self) simp_all
  with True assms show ?thesis by auto
next
  case False
  have "(a + b + 2 ^ 63) mod 2 ^ 64 = (a + b - 2 ^ 63 + 2 ^ 64) mod 2 ^ 64"
    by (simp add: ac_simps)
  also have "\<dots> = (a + b - 2 ^ 63) mod 2 ^ 64" by (rule mod_add_self2)
  also have "\<dots> = a + b - 2 ^ 63" using assms False by (intro mod_pos_pos_trivial) simp_all
  finally have "WrappingAdd a b = a + b - 2 ^ 64"
    by (simp add: WrappingAdd_def signed_take_bit_eq_take_bit_shift take_bit_eq_mod)
  with False assms show ?thesis by auto
qed


lemma Reserve_round_values:
  assumes "values_ok r hs" and "0 \<le> value" and "Reserve_round r which value timeout tick = (out, r')"
  shows "values_ok r' (if out = Reserved then hs @ [(which, value, value)] else hs)"
proof (cases "out = Reserved")
  case False
  then have "r' = r \<or> r' = r\<lparr>m_waiter_count := m_waiter_count r + 1\<rparr>"
    using assms(3) by (auto simp: Reserve_round_def Let_def split: if_splits)
  with False assms(1) show ?thesis by (auto simp: values_ok_def)
next
  case True
  let ?i = "LimitableResource_index which"
  have r': "r' = r\<lparr>m_current_values := (m_current_values r)[?i := m_current_values r ! ?i + value],
      m_current_hints := (m_current_hints r)[?i := m_current_hints r ! ?i + value],
      m_peak_values := (m_peak_values r)[?i := max (m_peak_values r ! ?i) (m_current_values r ! ?i + value)]\<rparr>"
    and fits: "m_current_values r ! ?i + value \<le> m_limit_values r ! ?i"
    using True assms(3) by (auto simp: Reserve_round_def Let_def split: if_splits)
  have "length (m_current_values r) = LimitableResource_Count"
    "length (m_current_hints r) = LimitableResource_Count"
    "length (m_peak_values r) = LimitableResource_Count"
    using assms(1) by (simp_all add: values_ok_def)
  with True assms(1,2) fits values_okD [OF assms(1)] show ?thesis
    by (auto simp: values_ok_def r' Let_def nth_list_update max_def)
qed

lemma Release_values:
  assumes "values_ok r hs" and "k < length hs" and "hs ! k = (which, v, h)"
    and "0 \<le> value" "0 \<le> hint" "hint \<le> h" "h - hint \<le> v - value"
  shows "values_ok (fst (KResourceLimit_Release_hint r which value hint))
      (hs[k := (which, v - value, h - hint)])"
    and "KResourceLimit_Release_asserts r which value hint"
proof -
  have *: "\<forall>(w, v, h)\<in>set hs. 0 \<le> h \<and> h \<le> v" using assms(1) by (simp add: values_ok_def)
  have "\<forall>(w, v, h)\<in>set (hs[k := (which, v - value, h - hint)]). 0 \<le> h \<and> h \<le> v"
    using * assms(6,7) by (auto dest!: subsetD [OF set_update_subset_insert])
  moreover have "length (m_current_values r) = LimitableResource_Count"
    "length (m_current_hints r) = LimitableResource_Count"
    using assms(1) by (simp_all add: values_ok_def)
  ultimately show "values_ok (fst (KResourceLimit_Release_hint r which value hint))
      (hs[k := (which, v - value, h - hint)])"
    using assms(1,4) values_okD [OF assms(1)]
    by (auto simp: values_ok_def KResourceLimit_Release_hint_def Let_def nth_list_update
        held_update [OF assms(2,3)] intro: order_trans [rotated])
  have "v \<le> held_values hs which" "h \<le> held_hints hs which"
    using held_member [OF * assms(2,3)] by simp_all
  moreover have "(which, v, h) \<in> set hs" using assms(2,3) by (metis nth_mem)
  then have "0 \<le> h" "h \<le> v" using * by auto
  ultimately show "KResourceLimit_Release_asserts r which value hint"
    using values_okD [OF assms(1), of which] assms(4-7)
    by (simp add: KResourceLimit_Release_asserts_def)
qed

lemma SetLimitValue_values:
  assumes "values_ok r hs" and "value < 2 ^ 63"
  shows "values_ok (snd (KResourceLimit_SetLimitValue r which value)) hs"
proof -
  have "length (m_limit_values r) = LimitableResource_Count"
    "length (m_peak_values r) = LimitableResource_Count"
    using assms(1) by (simp_all add: values_ok_def)
  with assms values_okD [OF assms(1)] show ?thesis
    by (auto simp: values_ok_def KResourceLimit_SetLimitValue_def Let_def nth_list_update)
qed


section \<open>The waiting threads\<close>

fun asleep :: "reserve_phase \<Rightarrow> bool" where
  "asleep (Asleep which value timeout) = True"
| "asleep p = False"

fun in_call :: "reserve_phase \<Rightarrow> bool" where
  "in_call (Asleep which value timeout) = True"
| "in_call (Woken which value timeout) = True"
| "in_call p = False"

fun request_ok :: "reserve_phase \<Rightarrow> bool" where
  "request_ok (Asleep which value timeout) \<longleftrightarrow> 0 \<le> value \<and> value < 2 ^ 63"
| "request_ok (Woken which value timeout) \<longleftrightarrow> 0 \<le> value \<and> value < 2 ^ 63"
| "request_ok p \<longleftrightarrow> True"

definition waiters_ok :: "limit_system \<Rightarrow> bool" where
  "waiters_ok s \<longleftrightarrow>
     distinct (sys_wait_list s) \<and> set (sys_wait_list s) = {t. asleep (sys_phase s t)} \<and>
     finite {t. in_call (sys_phase s t)} \<and>
     m_waiter_count (sys_limit s) = int (card {t. in_call (sys_phase s t)}) \<and>
     (\<forall>t. request_ok (sys_phase s t))"

definition limit_inv :: "limit_system \<Rightarrow> bool" where
  "limit_inv s \<longleftrightarrow> values_ok (sys_limit s) (sys_held s) \<and> waiters_ok s"

lemma asleep_in_call: "asleep p \<Longrightarrow> in_call p"
  by (cases p) simp_all

lemma in_call_update:
  "{t'. in_call ((f(t := p)) t')} =
     (if in_call p then insert t ({t'. in_call (f t')} - {t}) else {t'. in_call (f t')} - {t})"
  by auto

lemma asleep_update:
  "{t'. asleep ((f(t := p)) t')} =
     (if asleep p then insert t ({t'. asleep (f t')} - {t}) else {t'. asleep (f t')} - {t})"
  by auto

lemma wake_simps [simp]:
  "in_call (wake p) = in_call p" "request_ok (wake p) = request_ok p" "\<not> asleep (wake p)"
  by (cases p; simp)+

lemma Reserve_round_waiters:
  "Reserve_round r which value timeout tick = (out, r') \<Longrightarrow>
   m_waiter_count r' = m_waiter_count r + (if out = Waits then 1 else 0)"
  by (auto simp: Reserve_round_def Let_def split: if_splits)

lemma after_round_waiters:
  assumes "waiters_ok s" and "\<not> asleep (sys_phase s t)" and "0 \<le> value" "value < 2 ^ 63"
    and "m_waiter_count r' =
      int (card ({t'. in_call (sys_phase s t')} - {t})) + (if out = Waits then 1 else 0)"
  shows "waiters_ok (after_round s t which value timeout (out, r'))"
proof -
  have t: "t \<notin> {t. asleep (sys_phase s t)}" using assms(2) by simp
  show ?thesis
  proof (cases out)
    case Waits
    with assms t show ?thesis
      by (simp add: waiters_ok_def after_round_def in_call_update asleep_update del: fun_upd_apply)
        (simp add: card.insert_remove)
  qed (use assms t in \<open>simp_all add: waiters_ok_def after_round_def in_call_update asleep_update
      del: fun_upd_apply, simp_all\<close>)
qed

lemma waiters_ok_limit:
  "m_waiter_count r = m_waiter_count (sys_limit s) \<Longrightarrow> waiters_ok (s\<lparr>sys_limit := r\<rparr>) = waiters_ok s"
  by (simp add: waiters_ok_def)

lemma Broadcast_waiters:
  assumes "waiters_ok s"
  shows "waiters_ok (Broadcast s)"
proof -
  have "{t. in_call (sys_phase (Broadcast s) t)} = {t. in_call (sys_phase s t)}"
    by (auto simp: Broadcast_def)
  moreover have "{t. asleep (sys_phase (Broadcast s) t)} = {}"
    using assms by (auto simp: Broadcast_def waiters_ok_def)
  ultimately show ?thesis
    using assms unfolding waiters_ok_def by (simp add: Broadcast_def)
qed

lemma Broadcast_fields [simp]:
  "sys_limit (Broadcast s) = sys_limit s" "sys_held (Broadcast s) = sys_held s"
  "sys_wait_list (Broadcast s) = []"
  by (simp_all add: Broadcast_def)

lemma after_round_inv:
  assumes "limit_inv s" and "\<not> asleep (sys_phase s t)" and "0 \<le> value" "value < 2 ^ 63"
    and "values_ok r' (if out = Reserved then sys_held s @ [(which, value, value)] else sys_held s)"
    and "m_waiter_count r' =
      int (card ({t'. in_call (sys_phase s t')} - {t})) + (if out = Waits then 1 else 0)"
  shows "limit_inv (after_round s t which value timeout (out, r'))"
proof -
  have "waiters_ok (after_round s t which value timeout (out, r'))"
    using assms by (intro after_round_waiters) (simp_all add: limit_inv_def)
  with assms(1,5) show ?thesis by (cases out) (simp_all add: limit_inv_def after_round_def)
qed

lemma Reserve_enter_values:
  assumes "values_ok r hs" and "0 \<le> value" and "Reserve_enter r which value timeout tick = (out, r')"
  shows "values_ok r' (if out = Reserved then hs @ [(which, value, value)] else hs)"
proof (cases "m_current_hints r ! LimitableResource_index which \<ge> m_limit_values r ! LimitableResource_index which")
  case True
  with assms show ?thesis by (auto simp: Reserve_enter_def)
next
  case False
  with assms show ?thesis by (intro Reserve_round_values) (simp_all add: Reserve_enter_def)
qed

lemma Reserve_enter_waiters:
  "Reserve_enter r which value timeout tick = (out, r') \<Longrightarrow>
   m_waiter_count r' = m_waiter_count r + (if out = Waits then 1 else 0)"
  by (auto simp: Reserve_enter_def Let_def split: if_splits dest: Reserve_round_waiters)

lemma release_inv:
  assumes "limit_inv s" and "k < length (sys_held s)" and "sys_held s ! k = (which, v, h)"
    and "0 \<le> val" "0 \<le> hint" "hint \<le> h" "h - hint \<le> v - val"
  shows "limit_inv (release_held s k val hint)"
proof -
  have v: "values_ok (fst (KResourceLimit_Release_hint (sys_limit s) which val hint))
      ((sys_held s)[k := (which, v - val, h - hint)])"
    using assms by (intro Release_values(1)) (simp_all add: limit_inv_def)
  let ?s = "s\<lparr>sys_limit := fst (KResourceLimit_Release_hint (sys_limit s) which val hint),
    sys_held := (sys_held s)[k := (which, v - val, h - hint)]\<rparr>"
  have "waiters_ok ?s"
    using assms(1) by (simp add: limit_inv_def waiters_ok_def KResourceLimit_Release_hint_def Let_def)
  with v assms(2-) show ?thesis
    by (simp add: release_held_def limit_inv_def KResourceLimit_Release_hint_def Let_def Broadcast_waiters)
qed

lemma resume_inv:
  assumes "limit_inv s" and "sys_phase s t = Woken which val timeout"
  shows "limit_inv (after_round s t which val timeout
    (Reserve_resume (sys_limit s) which val timeout (sys_tick s)))"
proof -
  let ?r = "(sys_limit s)\<lparr>m_waiter_count := m_waiter_count (sys_limit s) - 1\<rparr>"
  obtain out r' where e: "Reserve_resume (sys_limit s) which val timeout (sys_tick s) = (out, r')"
    by fastforce
  have v: "request_ok (sys_phase s t)" using assms(1) by (auto simp: limit_inv_def waiters_ok_def)
  have "values_ok ?r (sys_held s)" using assms(1) by (simp add: limit_inv_def values_ok_def)
  then have "values_ok r' (if out = Reserved then sys_held s @ [(which, val, val)] else sys_held s)"
    using Reserve_round_values e v assms(2) by (simp add: Reserve_resume_def)
  moreover have "t \<in> {t. in_call (sys_phase s t)}" using assms(2) by simp
  then have "m_waiter_count ?r = int (card ({t. in_call (sys_phase s t)} - {t}))"
    using assms(1) card_Suc_Diff1 [of "{t. in_call (sys_phase s t)}" t]
    by (auto simp: limit_inv_def waiters_ok_def simp del: card_Diff_insert)
  moreover note Reserve_round_waiters [OF e [unfolded Reserve_resume_def]]
  ultimately show ?thesis
    unfolding e using assms v by (intro after_round_inv) simp_all
qed

lemma limit_inv_step:
  assumes "limit_step s s'" and "limit_inv s"
  shows "limit_inv s'"
  using assms
proof (induction rule: limit_step.induct)
  case (call s t val which timeout)
  obtain out r' where e: "Reserve_enter (sys_limit s) which val timeout (sys_tick s) = (out, r')"
    by fastforce
  have "values_ok r' (if out = Reserved then sys_held s @ [(which, val, val)] else sys_held s)"
    using call by (intro Reserve_enter_values [OF _ _ e]) (simp_all add: limit_inv_def)
  moreover have "{t'. in_call (sys_phase s t')} - {t} = {t'. in_call (sys_phase s t')}"
    using call.hyps by auto
  moreover note Reserve_enter_waiters [OF e]
  ultimately show ?case
    unfolding e using call
    by (intro after_round_inv) (simp_all add: limit_inv_def waiters_ok_def)
next
  case (resume s t which val timeout)
  then show ?case by (simp add: resume_inv)
next
  case (cancel s t which val timeout)
  then have "t \<in> {t. in_call (sys_phase s t)}" by simp
  moreover have "request_ok (sys_phase s t)"
    using cancel.prems unfolding limit_inv_def waiters_ok_def by blast
  ultimately show ?case using cancel
    by (simp add: limit_inv_def waiters_ok_def in_call_update asleep_update insert_absorb
        del: fun_upd_apply) (simp)
next
  case (release k s which v h val hint)
  then show ?case by (intro release_inv) simp_all
next
  case (set_limit val s which)
  have "m_waiter_count (snd (KResourceLimit_SetLimitValue (sys_limit s) which val))
      = m_waiter_count (sys_limit s)"
    by (simp add: KResourceLimit_SetLimitValue_def Let_def)
  with set_limit show ?case by (simp add: limit_inv_def SetLimitValue_values waiters_ok_limit)
next
  case (leave s t b)
  then show ?case
    by (simp add: limit_inv_def waiters_ok_def in_call_update asleep_update del: fun_upd_apply)
      (simp)
next
  case (time s tick')
  then show ?case by (simp add: limit_inv_def waiters_ok_def)
qed


section \<open>Properties\<close>

definition limit_start :: "int \<Rightarrow> limit_system" where
  "limit_start physical_memory_size =
     \<lparr>sys_limit = CreateResourceLimitForProcess physical_memory_size, sys_wait_list = [],
      sys_phase = (\<lambda>t. Outside), sys_held = [], sys_tick = 0\<rparr>"

lemma limit_start_inv:
  assumes "0 \<le> sz" and "sz < 2 ^ 63"
  shows "limit_inv (limit_start sz)"
proof -
  have "values_ok KResourceLimit_new []"
    unfolding values_ok_def by (auto simp: KResourceLimit_new_def held_values_def held_hints_def)
  then have "values_ok (CreateResourceLimitForProcess sz) []"
    using assms unfolding CreateResourceLimitForProcess_def Let_def
    by (intro SetLimitValue_values) simp_all
  moreover have "m_waiter_count (CreateResourceLimitForProcess sz) = 0"
    by (simp add: CreateResourceLimitForProcess_def KResourceLimit_SetLimitValue_def
        KResourceLimit_new_def Let_def)
  ultimately show ?thesis
    by (simp add: limit_inv_def limit_start_def waiters_ok_def)
qed

lemma limit_inv_steps: "limit_step\<^sup>*\<^sup>* s s' \<Longrightarrow> limit_inv s \<Longrightarrow> limit_inv s'"
  by (induction rule: rtranclp_induct) (auto intro: limit_inv_step)

text \<open>
  C5: whatever the threads sharing a process's limit do, in whatever order they are scheduled, the
  value in use of each resource is exactly what has been granted and not yet returned, its hinted
  part is between zero and that, and it never exceeds the peak, nor the peak the limit.  The
  assertions of the accessors hold throughout.
\<close>

theorem limit_never_exceeded:
  assumes "0 \<le> sz" and "sz < 2 ^ 63" and "limit_step\<^sup>*\<^sup>* (limit_start sz) s"
  shows "KResourceLimit_GetCurrentValue (sys_limit s) w = held_values (sys_held s) w \<and>
    KResourceLimit_GetCurrentValue (sys_limit s) w \<le> KResourceLimit_GetPeakValue (sys_limit s) w \<and>
    KResourceLimit_GetPeakValue (sys_limit s) w \<le> KResourceLimit_GetLimitValue (sys_limit s) w \<and>
    0 \<le> KResourceLimit_GetFreeValue (sys_limit s) w \<and>
    KResourceLimit_value_asserts (sys_limit s) w (KResourceLimit_GetCurrentValue (sys_limit s) w)"
proof -
  have "values_ok (sys_limit s) (sys_held s)"
    using limit_inv_steps [OF assms(3) limit_start_inv [OF assms(1,2)]] by (simp add: limit_inv_def)
  from values_okD [OF this, of w] show ?thesis
    by (simp add: KResourceLimit_GetCurrentValue_def KResourceLimit_GetPeakValue_def
        KResourceLimit_GetLimitValue_def KResourceLimit_GetFreeValue_def
        KResourceLimit_value_asserts_def Let_def)
qed

lemma limit_call_event:
  "limit_step (limit_start sz) (after_round (limit_start sz) 7 EventCountMax 900 (- 1)
     (Reserve_enter (CreateResourceLimitForProcess sz) EventCountMax 900 (- 1) 0))"
  using limit_step.call [of "limit_start sz" 7 900 EventCountMax "- 1"] by (simp add: limit_start_def)

theorem limit_never_exceeded_witness:
  "\<exists>s. limit_step\<^sup>*\<^sup>* (limit_start 4096) s \<and> held_values (sys_held s) EventCountMax = 900 \<and>
     KResourceLimit_GetCurrentValue (sys_limit s) EventCountMax = 900"
proof -
  let ?s = "after_round (limit_start 4096) 7 EventCountMax 900 (- 1)
     (Reserve_enter (CreateResourceLimitForProcess 4096) EventCountMax 900 (- 1) 0)"
  have r: "limit_step\<^sup>*\<^sup>* (limit_start 4096) ?s" using limit_call_event by blast
  have "fst (Reserve_enter (CreateResourceLimitForProcess 4096) EventCountMax 900 (- 1) 0) = Reserved"
    by code_simp
  then have "held_values (sys_held ?s) EventCountMax = 900"
    by (cases "Reserve_enter (CreateResourceLimitForProcess 4096) EventCountMax 900 (- 1) 0")
      (simp add: after_round_def limit_start_def held_values_def)
  with r limit_never_exceeded [OF _ _ r, of EventCountMax] show ?thesis by auto
qed

text \<open>A sleeping thread whose request would be granted now.\<close>

definition stalled :: "limit_system \<Rightarrow> nat \<Rightarrow> bool" where
  "stalled s t \<longleftrightarrow>
     (case sys_phase s t of
        Asleep which value timeout \<Rightarrow>
          m_current_values (sys_limit s) ! LimitableResource_index which + value
            \<le> m_limit_values (sys_limit s) ! LimitableResource_index which
      | _ \<Rightarrow> False)"


lemma Reserve_round_raises:
  assumes "values_ok r hs" and "0 \<le> value" and "Reserve_round r which value timeout tick = (out, r')"
  shows "m_limit_values r' = m_limit_values r \<and>
    m_current_values r ! LimitableResource_index w \<le> m_current_values r' ! LimitableResource_index w \<and>
    (out = Waits \<longrightarrow> m_limit_values r ! LimitableResource_index which
       < m_current_values r' ! LimitableResource_index which + value)"
  using assms by (auto simp: Reserve_round_def values_ok_def Let_def nth_list_update split: if_splits)

lemma Reserve_enter_raises:
  assumes "values_ok r hs" and "0 \<le> value" and "Reserve_enter r which value timeout tick = (out, r')"
  shows "m_limit_values r' = m_limit_values r \<and>
    m_current_values r ! LimitableResource_index w \<le> m_current_values r' ! LimitableResource_index w \<and>
    (out = Waits \<longrightarrow> m_limit_values r ! LimitableResource_index which
       < m_current_values r' ! LimitableResource_index which + value)"
proof (cases "m_current_hints r ! LimitableResource_index which \<ge> m_limit_values r ! LimitableResource_index which")
  case True
  with assms(3) show ?thesis by (auto simp: Reserve_enter_def)
next
  case False
  with assms(3) have "Reserve_round r which value timeout tick = (out, r')"
    by (simp add: Reserve_enter_def)
  from Reserve_round_raises [OF assms(1,2) this] show ?thesis .
qed

lemma after_round_not_stalled:
  assumes "\<forall>t. \<not> stalled s t"
    and "\<And>w. m_limit_values r' = m_limit_values (sys_limit s) \<and>
      m_current_values (sys_limit s) ! LimitableResource_index w \<le> m_current_values r' ! LimitableResource_index w \<and>
      (out = Waits \<longrightarrow> m_limit_values (sys_limit s) ! LimitableResource_index which
         < m_current_values r' ! LimitableResource_index which + value)"
  shows "\<not> stalled (after_round s t which value timeout (out, r')) t'"
proof -
  have s: "\<not> stalled s t'" using assms(1) by blast
  note w = assms(2)
  show ?thesis
  proof (cases "t' = t")
    case True
    with w [of which] show ?thesis by (cases out) (simp_all add: stalled_def after_round_def not_le)
  next
    case False
    then have "stalled (after_round s t which value timeout (out, r')) t' = stalled (s\<lparr>sys_limit := r'\<rparr>) t'"
      by (cases out) (simp_all add: stalled_def after_round_def split: reserve_phase.split)
    with s w show ?thesis
      by (cases "sys_phase s t'") (auto simp: stalled_def intro: order_trans [OF add_right_mono])
  qed
qed

lemma stalled_asleep: "stalled s t \<Longrightarrow> asleep (sys_phase s t)"
  by (cases "sys_phase s t") (simp_all add: stalled_def)

lemma stalled_cong:
  assumes "sys_phase s' t = sys_phase s t"
    and "m_current_values (sys_limit s') = m_current_values (sys_limit s)"
    and "m_limit_values (sys_limit s') = m_limit_values (sys_limit s)"
  shows "stalled s' t = stalled s t"
  by (simp add: stalled_def assms split: reserve_phase.split)

lemma release_not_stalled:
  assumes "limit_inv s" and "sys_held s ! k = (which, v, h)"
  shows "\<not> stalled (release_held s k val hint) t'"
proof (cases "m_waiter_count (sys_limit s) = 0")
  case True
  then have "{t. in_call (sys_phase s t)} = {}"
    using assms(1) unfolding limit_inv_def waiters_ok_def by auto
  then have "\<not> asleep (sys_phase s t)" for t using asleep_in_call by blast
  moreover have "sys_phase (release_held s k val hint) = sys_phase s"
    using True assms(2)
    by (simp add: release_held_def KResourceLimit_Release_hint_def Let_def)
  ultimately show ?thesis using stalled_asleep by metis
next
  case False
  then have "release_held s k val hint = Broadcast (s\<lparr>
      sys_limit := fst (KResourceLimit_Release_hint (sys_limit s) which val hint),
      sys_held := (sys_held s)[k := (which, v - val, h - hint)]\<rparr>)"
    using assms(2) by (simp add: release_held_def KResourceLimit_Release_hint_def Let_def)
  moreover have "set (sys_wait_list s) = {t. asleep (sys_phase s t)}"
    using assms(1) by (simp add: limit_inv_def waiters_ok_def)
  ultimately have "\<not> asleep (sys_phase (release_held s k val hint) t)" for t
    by (simp add: Broadcast_def)
  then show ?thesis using stalled_asleep by blast
qed

lemma not_stalled_step:
  assumes "limit_step s s'" and "limit_inv s" and "\<forall>t. \<not> stalled s t"
    and "m_limit_values (sys_limit s') = m_limit_values (sys_limit s)"
  shows "\<forall>t. \<not> stalled s' t"
  using assms
proof (induction rule: limit_step.induct)
  case (call s t val which timeout)
  obtain out r' where e: "Reserve_enter (sys_limit s) which val timeout (sys_tick s) = (out, r')"
    by fastforce
  have "values_ok (sys_limit s) (sys_held s)" using call.prems by (simp add: limit_inv_def)
  note raises = Reserve_enter_raises [OF this call.hyps(2) e]
  show ?case
    unfolding e by (intro allI after_round_not_stalled [OF call.prems(2) raises])
next
  case (resume s t which val timeout)
  let ?r = "(sys_limit s)\<lparr>m_waiter_count := m_waiter_count (sys_limit s) - 1\<rparr>"
  obtain out r' where e: "Reserve_resume (sys_limit s) which val timeout (sys_tick s) = (out, r')"
    by fastforce
  have r: "values_ok ?r (sys_held s)" using resume.prems by (simp add: limit_inv_def values_ok_def)
  have "request_ok (sys_phase s t)" using resume.prems by (auto simp: limit_inv_def waiters_ok_def)
  then have v: "0 \<le> val" using resume.hyps by simp
  note raises = Reserve_round_raises [OF r v e [unfolded Reserve_resume_def], simplified]
  show ?case
    unfolding e by (intro allI after_round_not_stalled [OF resume.prems(2) raises])
next
  case (release k s which v h val hint)
  then show ?case using release_not_stalled by metis
next
  case (set_limit val s which)
  have "m_current_values (snd (KResourceLimit_SetLimitValue (sys_limit s) which val))
      = m_current_values (sys_limit s)"
    by (simp add: KResourceLimit_SetLimitValue_def Let_def)
  with set_limit.prems(2,3) show ?case
    by (intro allI) (subst stalled_cong [of _ _ s], simp_all)
next
  case (cancel s t which val timeout)
  show ?case
  proof
    fix t'
    show "\<not> stalled (s\<lparr>sys_wait_list := remove1 t (sys_wait_list s),
        sys_phase := (sys_phase s)(t := Woken which val timeout)\<rparr>) t'"
      using cancel.prems(2) by (cases "t' = t") (simp add: stalled_def, subst stalled_cong [of _ _ s], simp_all)
  qed
next
  case (leave s t b)
  show ?case
  proof
    fix t'
    show "\<not> stalled (s\<lparr>sys_phase := (sys_phase s)(t := Outside)\<rparr>) t'"
      using leave.prems(2) by (cases "t' = t") (simp add: stalled_def, subst stalled_cong [of _ _ s], simp_all)
  qed
next
  case (time s tick')
  then show ?case
    by (intro allI) (subst stalled_cong [of _ _ s], simp_all)
qed

text \<open>
  C15: no lost wake-up.  Starting with nobody asleep and as long as the limits are not moved, a
  thread sleeping in \<^verbatim>\<open>Reserve\<close> could not be granted its request at that moment: every release that
  makes room wakes all sleepers before it lets the lock go.
\<close>

theorem Reserve_no_lost_wakeup:
  assumes "limit_inv s" and "\<forall>t. \<not> asleep (sys_phase s t)"
    and "(\<lambda>s s'. limit_step s s' \<and> m_limit_values (sys_limit s') = m_limit_values (sys_limit s))\<^sup>*\<^sup>* s s'"
    and "sys_phase s' t = Asleep which value timeout"
  shows "KResourceLimit_GetLimitValue (sys_limit s') which
    < KResourceLimit_GetCurrentValue (sys_limit s') which + value"
proof -
  have "limit_inv s' \<and> (\<forall>t. \<not> stalled s' t)"
    using assms(3)
  proof (induction rule: rtranclp_induct)
    case base
    with assms(1,2) show ?case by (auto dest: stalled_asleep)
  next
    case (step s1 s2)
    then show ?case using not_stalled_step limit_inv_step by blast
  qed
  then have "\<not> stalled s' t" by blast
  with assms(4) show ?thesis
    by (simp add: stalled_def KResourceLimit_GetLimitValue_def KResourceLimit_GetCurrentValue_def)
qed


definition busy_start :: limit_system where
  "busy_start =
     \<lparr>sys_limit = \<lparr>m_limit_values = [0, 2, 0, 0, 0], m_current_values = [0, 2, 0, 0, 0],
        m_current_hints = [0, 1, 0, 0, 0], m_peak_values = [0, 2, 0, 0, 0], m_waiter_count = 0\<rparr>,
      sys_wait_list = [], sys_phase = (\<lambda>t. Outside), sys_held = [(ThreadCountMax, 2, 1)],
      sys_tick = 0\<rparr>"

lemma busy_start_inv: "limit_inv busy_start"
proof -
  have "values_ok (sys_limit busy_start) (sys_held busy_start)"
    unfolding values_ok_def
  proof (intro conjI allI)
    fix w show "let i = LimitableResource_index w
          in m_current_values (sys_limit busy_start) ! i = held_values (sys_held busy_start) w \<and>
             m_current_hints (sys_limit busy_start) ! i = held_hints (sys_held busy_start) w \<and>
             m_current_values (sys_limit busy_start) ! i \<le> m_peak_values (sys_limit busy_start) ! i \<and>
             m_peak_values (sys_limit busy_start) ! i \<le> m_limit_values (sys_limit busy_start) ! i \<and>
             m_limit_values (sys_limit busy_start) ! i < 2 ^ 63"
      by (cases w) (simp_all add: busy_start_def held_values_def held_hints_def)
  qed (simp_all add: busy_start_def LimitableResource_Count_def)
  then show ?thesis by (simp add: limit_inv_def waiters_ok_def busy_start_def)
qed

theorem Reserve_no_lost_wakeup_witness:
  "\<exists>s' :: limit_system. sys_phase s' 3 = Asleep ThreadCountMax 1 (- 1) \<and>
     KResourceLimit_GetLimitValue (sys_limit s') ThreadCountMax
       < KResourceLimit_GetCurrentValue (sys_limit s') ThreadCountMax + 1"
proof -
  let ?p = "Reserve_enter (sys_limit busy_start) ThreadCountMax 1 (- 1) 0"
  let ?s = "after_round busy_start 3 ThreadCountMax 1 (- 1) ?p"
  have p: "fst ?p = Waits \<and> m_limit_values (snd ?p) = [0, 2, 0, 0, 0]" by code_simp
  then have a: "sys_phase ?s 3 = Asleep ThreadCountMax 1 (- 1)"
    "m_limit_values (sys_limit ?s) = m_limit_values (sys_limit busy_start)"
    by (cases ?p; simp add: after_round_def; simp add: busy_start_def)+
  have "limit_step busy_start ?s"
    using limit_step.call [of busy_start 3 1 ThreadCountMax "- 1"] by (simp add: busy_start_def)
  with a(2) have r: "(\<lambda>s s'. limit_step s s' \<and>
      m_limit_values (sys_limit s') = m_limit_values (sys_limit s))\<^sup>*\<^sup>* busy_start ?s" by blast
  have "\<forall>t. \<not> asleep (sys_phase busy_start t)" by (simp add: busy_start_def)
  note w = Reserve_no_lost_wakeup [OF busy_start_inv this r a(1)]
  show ?thesis by (rule exI [of _ ?s], rule conjI [OF a(1) w])
qed

text \<open>
  C28: \<^verbatim>\<open>Reserve\<close> returns.  Whatever the other threads do to the limit while the caller waits, once it
  is resumed at or after its deadline it leaves the loop.
\<close>

theorem Reserve_returns:
  assumes "0 \<le> timeout" and "\<exists>(others, tick')\<in>set waits. timeout \<le> tick'"
  shows "\<exists>ok r'. KResourceLimit_Reserve r which value timeout tick waits = Some (ok, r')"
proof -
  have "\<exists>ok r'. Reserve_loop p which value timeout waits = Some (ok, r')" for p
    using assms(2)
  proof (induction waits arbitrary: p)
    case Nil
    then show ?case by simp
  next
    case (Cons w waits)
    obtain others tick' where w: "w = (others, tick')" by fastforce
    obtain out r1 where p: "p = (out, r1)" by fastforce
    show ?case
    proof (cases out)
      case Waits
      let ?q = "Reserve_resume (others r1) which value timeout tick'"
      show ?thesis
      proof (cases "timeout \<le> tick'")
        case True
        then have "fst ?q \<noteq> Waits" using assms(1) by (simp add: Reserve_resume_def Reserve_round_def Let_def)
        then show ?thesis using Waits w p by (cases ?q; cases "fst ?q") auto
      next
        case False
        with Cons.prems w have "\<exists>(others, tick')\<in>set waits. timeout \<le> tick'" by auto
        from Cons.IH [OF this, of ?q] show ?thesis using Waits w p by simp
      qed
    qed (use p in auto)
  qed
  then show ?thesis by (simp add: KResourceLimit_Reserve_def)
qed

theorem Reserve_returns_witness:
  "KResourceLimit_Reserve (sys_limit busy_start) ThreadCountMax 1 50 0 [] = None \<and>
   (\<exists>ok r'. KResourceLimit_Reserve (sys_limit busy_start) ThreadCountMax 1 50 0 [(id, 60)] = Some (ok, r'))"
proof
  show "KResourceLimit_Reserve (sys_limit busy_start) ThreadCountMax 1 50 0 [] = None" by code_simp
  show "\<exists>ok r'. KResourceLimit_Reserve (sys_limit busy_start) ThreadCountMax 1 50 0 [(id, 60)] = Some (ok, r')"
    by (rule Reserve_returns) simp_all
qed

text \<open>
  C27: a scoped reservation that did not have to wait.  If it is dropped without a commit, the values
  in use and the hints are those from before; if it is committed, dropping it changes nothing and a
  successful reservation stays counted in full.
\<close>

theorem scoped_reservation:
  assumes "values_ok r hs" and "0 \<le> v"
    and "KScopedResourceReservation_construct (Some r) which v timeout tick [] = Some (sr, Some r1)"
    and "KScopedResourceReservation_destroy sr (Some r1) = Some r2"
  shows "m_current_values r2 = m_current_values r \<and> m_current_hints r2 = m_current_hints r \<and>
    m_limit_values r2 = m_limit_values r \<and>
    KScopedResourceReservation_destroy (KScopedResourceReservation_Commit sr) (Some r1) = Some r1 \<and>
    KResourceLimit_GetCurrentValue r1 which =
      KResourceLimit_GetCurrentValue r which + (if sr_succeeded sr then v else 0)"
proof (cases "v = 0")
  case True
  with assms(3,4) show ?thesis
    by (auto simp: KScopedResourceReservation_construct_def KScopedResourceReservation_destroy_def
        KScopedResourceReservation_Commit_def)
next
  case False
  let ?i = "LimitableResource_index which"
  have l: "length (m_current_values r) = LimitableResource_Count"
    "length (m_current_hints r) = LimitableResource_Count"
    using assms(1) by (simp_all add: values_ok_def)
  obtain out where e: "Reserve_enter r which v timeout tick = (out, r1)" "out \<noteq> Waits"
    and sr: "sr = \<lparr>sr_has_limit = True, sr_value = v, sr_resource = which, sr_succeeded = (out = Reserved)\<rparr>"
    using assms(3) False
    by (cases "Reserve_enter r which v timeout tick"; cases "fst (Reserve_enter r which v timeout tick)")
      (auto simp: KScopedResourceReservation_construct_def KResourceLimit_Reserve_def)
  have "if out = Reserved
     then m_current_values r1 = (m_current_values r)[?i := m_current_values r ! ?i + v] \<and>
       m_current_hints r1 = (m_current_hints r)[?i := m_current_hints r ! ?i + v] \<and>
       m_limit_values r1 = m_limit_values r
     else r1 = r"
    using e by (auto simp: Reserve_enter_def Reserve_round_def Let_def split: if_splits)
  with assms(4) l False show ?thesis
    by (auto simp: sr KScopedResourceReservation_destroy_def KScopedResourceReservation_Commit_def
        KResourceLimit_Release_def KResourceLimit_Release_hint_def Let_def
        KResourceLimit_GetCurrentValue_def split: if_splits)
qed

theorem scoped_reservation_witness:
  "\<exists>sr r1 r2. KScopedResourceReservation_construct (Some (CreateResourceLimitForProcess 4096))
       SessionCountMax 1133 0 5 [] = Some (sr, Some r1) \<and> sr_succeeded sr \<and>
     KScopedResourceReservation_destroy sr (Some r1) = Some r2 \<and>
     m_current_values r2 = m_current_values (CreateResourceLimitForProcess 4096)"
proof -
  let ?r = "CreateResourceLimitForProcess 4096"
  have "case KScopedResourceReservation_construct (Some ?r) SessionCountMax 1133 0 5 [] of
      Some (sr, Some r1) \<Rightarrow> sr_succeeded sr \<and> KScopedResourceReservation_destroy sr (Some r1) \<noteq> None
    | _ \<Rightarrow> False" by code_simp
  then obtain sr r1 r2 where e: "KScopedResourceReservation_construct (Some ?r) SessionCountMax 1133 0 5 []
      = Some (sr, Some r1)" "sr_succeeded sr" "KScopedResourceReservation_destroy sr (Some r1) = Some r2"
    by (auto split: option.splits prod.splits)
  have "values_ok ?r []"
    using limit_start_inv [of 4096] by (simp add: limit_inv_def limit_start_def)
  from scoped_reservation [OF this _ e(1,3)] e show ?thesis by auto
qed

end
