(* ===== verification/Tiny_MT.thy ===== *)
theory Tiny_MT
  imports Kernel_Prelude "HOL-Library.Monad_Syntax"
begin

text \<open>
  \<^verbatim>\<open>common/tiny_mt.h\<close>: the TinyMT generator.  The state is its four 32-bit words; every operation
  returns the new state.  The two conversions to floating point are not modelled.

  Shown here: the 127 bits the generator works on are never all zero, from either initialisation
  and for as long as it is used; and filling a buffer writes exactly the bytes of the buffer, except
  for buffers that lie inside one unaligned word, where it writes outside.
\<close>

section \<open>The generator\<close>

definition ParamMat1 :: u32 where "ParamMat1 = 0x8F7011EE"

definition ParamMat2 :: u32 where "ParamMat2 = 0xFC78FF1F"

definition ParamTmat :: u32 where "ParamTmat = 0x3793FDFF"

definition ParamMult :: u32 where "ParamMult = 0x6C078965"

definition ParamPlus :: u32 where "ParamPlus = 0x0019660D"

definition ParamXor :: u32 where "ParamXor = 0x5D588B65"

definition TopBitmask :: u32 where "TopBitmask = 0x7FFFFFFF"

definition MinimumInitIterations :: nat where "MinimumInitIterations = 8"

definition NumDiscardedInitOutputs :: nat where "NumDiscardedInitOutputs = 8"

definition XorByShifted27 :: "u32 \<Rightarrow> u32" where
  "XorByShifted27 x = x XOR drop_bit 27 x"

definition XorByShifted30 :: "u32 \<Rightarrow> u32" where
  "XorByShifted30 x = x XOR drop_bit 30 x"

record TinyMT =
  data0 :: u32
  data1 :: u32
  data2 :: u32
  data3 :: u32

text \<open>Indexing the array of the four words, modulo its length as the code does.\<close>

definition TinyMT_get :: "TinyMT \<Rightarrow> nat \<Rightarrow> u32" where
  "TinyMT_get s i =
     (let k = i mod 4 in if k = 0 then data0 s else if k = 1 then data1 s
      else if k = 2 then data2 s else data3 s)"

definition TinyMT_set :: "TinyMT \<Rightarrow> nat \<Rightarrow> u32 \<Rightarrow> TinyMT" where
  "TinyMT_set s i v =
     (let k = i mod 4 in if k = 0 then s\<lparr>data0 := v\<rparr> else if k = 1 then s\<lparr>data1 := v\<rparr>
      else if k = 2 then s\<lparr>data2 := v\<rparr> else s\<lparr>data3 := v\<rparr>)"

definition TinyMT_advance :: "TinyMT \<Rightarrow> TinyMT" where
  "TinyMT_advance s =
     (let x0 = (data0 s AND TopBitmask) XOR data1 s XOR data2 s;
          y0 = data3 s;
          x1 = x0 XOR push_bit 1 x0;
          y1 = y0 XOR drop_bit 1 y0 XOR x1;
          state0 = data1 s;
          state1 = data2 s;
          state2 = x1 XOR push_bit 10 y1;
          state3 = y1
      in if (y1 AND 1) \<noteq> 0
         then \<lparr>data0 = state0, data1 = state1 XOR ParamMat1, data2 = state2 XOR ParamMat2, data3 = state3\<rparr>
         else \<lparr>data0 = state0, data1 = state1, data2 = state2, data3 = state3\<rparr>)"

definition TinyMT_temper :: "TinyMT \<Rightarrow> u32" where
  "TinyMT_temper s =
     (let t1 = data0 s + drop_bit 8 (data2 s);
          t0 = data3 s XOR t1
      in if (t1 AND 1) \<noteq> 0 then t0 XOR ParamTmat else t0)"

definition TinyMT_GenerateRandomU32 :: "TinyMT \<Rightarrow> u32 \<times> TinyMT" where
  "TinyMT_GenerateRandomU32 s = (let s' = TinyMT_advance s in (TinyMT_temper s', s'))"

definition TinyMT_GenerateRandomU24 :: "TinyMT \<Rightarrow> u32 \<times> TinyMT" where
  "TinyMT_GenerateRandomU24 s =
     (case TinyMT_GenerateRandomU32 s of (r, s') \<Rightarrow> (drop_bit 8 r, s'))"

definition TinyMT_FinalizeInitialization :: "TinyMT \<Rightarrow> TinyMT" where
  "TinyMT_FinalizeInitialization s =
     (let s1 = (if (data0 s AND TopBitmask) = 0 \<and> data1 s = 0 \<and> data2 s = 0 \<and> data3 s = 0
                then \<lparr>data0 = 0x54, data1 = 0x49, data2 = 0x4E, data3 = 0x59\<rparr> else s)
      in ((\<lambda>s. snd (TinyMT_GenerateRandomU32 s)) ^^ NumDiscardedInitOutputs) s1)"

definition GenerateInitialValuePlus :: "TinyMT \<Rightarrow> nat \<Rightarrow> u32 \<Rightarrow> TinyMT" where
  "GenerateInitialValuePlus s index v =
     (let state0 = TinyMT_get s index; state1 = TinyMT_get s (index + 1);
          state2 = TinyMT_get s (index + 2); state3 = TinyMT_get s (index + 3);
          x = XorByShifted27 (state0 XOR state1 XOR state3) * ParamPlus;
          y = x + of_nat index + v;
          s1 = TinyMT_set s index y;
          s2 = TinyMT_set s1 (index + 1) (state1 + x)
      in TinyMT_set s2 (index + 2) (state2 + y))"

definition GenerateInitialValueXor :: "TinyMT \<Rightarrow> nat \<Rightarrow> TinyMT" where
  "GenerateInitialValueXor s index =
     (let state0 = TinyMT_get s index; state1 = TinyMT_get s (index + 1);
          state2 = TinyMT_get s (index + 2); state3 = TinyMT_get s (index + 3);
          x = XorByShifted27 (state0 + state1 + state3) * ParamXor;
          y = x - of_nat index;
          s1 = TinyMT_set s index y;
          s2 = TinyMT_set s1 (index + 1) (state1 XOR x)
      in TinyMT_set s2 (index + 2) (state2 XOR y))"

definition TinyMT_Initialize_step :: "TinyMT \<Rightarrow> nat \<Rightarrow> TinyMT" where
  "TinyMT_Initialize_step s i =
     (let mixed = XorByShifted30 (TinyMT_get s (i - 1))
      in TinyMT_set s i (TinyMT_get s i XOR (mixed * ParamMult + of_nat i)))"

definition TinyMT_Initialize :: "u32 \<Rightarrow> TinyMT" where
  "TinyMT_Initialize seed =
     TinyMT_FinalizeInitialization
       (foldl TinyMT_Initialize_step
          \<lparr>data0 = seed, data1 = ParamMat1, data2 = ParamMat2, data3 = ParamTmat\<rparr>
          [1..<MinimumInitIterations])"

definition TinyMT_Initialize_seeds :: "u32 list \<Rightarrow> TinyMT" where
  "TinyMT_Initialize_seeds seed =
     (let seed_count = length seed;
          num_init_iterations = max (seed_count + 1) MinimumInitIterations - 1;
          s0 = \<lparr>data0 = 0, data1 = ParamMat1, data2 = ParamMat2, data3 = ParamTmat\<rparr>;
          s1 = GenerateInitialValuePlus s0 0 (of_nat seed_count);
          s2 = foldl (\<lambda>s i. GenerateInitialValuePlus s ((i + 1) mod 4)
                        (if i < seed_count then seed ! i else 0)) s1 [0..<num_init_iterations];
          s3 = foldl (\<lambda>s i. GenerateInitialValueXor s ((i + 1 + num_init_iterations) mod 4)) s2 [0..<4]
      in TinyMT_FinalizeInitialization s3)"

text \<open>
  Filling a buffer that starts at address \<open>start\<close>: the bytes written, as pairs of address and byte in
  the order they are written.  A word is stored with its least significant byte first.
\<close>

definition word_bytes :: "u32 \<Rightarrow> u8 list" where
  "word_bytes w = map (\<lambda>k. ucast (drop_bit (8 * k) w)) [0..<4]"

definition memcpy_word :: "nat \<Rightarrow> u32 \<Rightarrow> nat \<Rightarrow> (nat \<times> u8) list" where
  "memcpy_word dst w n = zip [dst..<dst + n] (word_bytes w)"

text \<open>The loop over the aligned words compares and advances 64-bit addresses.\<close>

partial_function (option) GenerateRandomBytes_words ::
    "TinyMT \<Rightarrow> nat \<Rightarrow> nat \<Rightarrow> ((nat \<times> u8) list \<times> TinyMT) option" where
  "GenerateRandomBytes_words s cur_dst end_dst =
     (if cur_dst < end_dst
      then let (rnd, s1) = TinyMT_GenerateRandomU32 s
           in do {
                (out, s2) \<leftarrow> GenerateRandomBytes_words s1 (add64 cur_dst 4) end_dst;
                Some (memcpy_word cur_dst rnd 4 @ out, s2)
              }
      else Some ([], s))"

definition TinyMT_GenerateRandomBytes ::
    "TinyMT \<Rightarrow> nat \<Rightarrow> nat \<Rightarrow> ((nat \<times> u8) list \<times> TinyMT) option" where
  "TinyMT_GenerateRandomBytes s start sz =
     (let stop = add64 start sz;
          aligned_start = AlignUp start 4;
          aligned_end = AlignDown stop 4;
          (out1, s1) =
            (if start < aligned_start
             then let (rnd, s') = TinyMT_GenerateRandomU32 s
                  in (memcpy_word start rnd (sub64 aligned_start start), s')
             else ([], s))
      in do {
           (out2, s2) \<leftarrow> GenerateRandomBytes_words s1 aligned_start aligned_end;
           let (out3, s3) =
             (if aligned_end < stop
              then let (rnd, s') = TinyMT_GenerateRandomU32 s2
                   in (memcpy_word aligned_end rnd (sub64 stop aligned_end), s')
              else ([], s2));
           Some (out1 @ out2 @ out3, s3)
         })"

section \<open>The state is never all zero\<close>

definition TinyMT_ok :: "TinyMT \<Rightarrow> bool" where
  "TinyMT_ok s \<longleftrightarrow> \<not> ((data0 s AND TopBitmask) = 0 \<and> data1 s = 0 \<and> data2 s = 0 \<and> data3 s = 0)"

lemma xor_zero_bits:
  fixes a b :: u32
  assumes "a XOR b = 0"
  shows "bit a n = bit b n"
proof -
  have "bit (a XOR b) n = bit (0 :: u32) n" using assms by (rule arg_cong)
  then show ?thesis by (simp add: bit_xor_iff)
qed

lemma xor_shift_left_zero:
  fixes x :: u32
  assumes "x XOR push_bit 1 x = 0"
  shows "x = 0"
proof (rule bit_word_eqI)
  fix n
  have "\<not> bit x n"
  proof (induction n)
    case 0
    show ?case using xor_zero_bits [OF assms, of 0, unfolded bit_push_bit_iff] by simp
  next
    case (Suc n)
    then show ?case using xor_zero_bits [OF assms, of "Suc n", unfolded bit_push_bit_iff] by simp
  qed
  then show "bit x n = bit (0 :: u32) n" by simp
qed

lemma xor_shift_right_zero:
  fixes x :: u32
  assumes "x XOR drop_bit 1 x = 0"
  shows "x = 0"
proof (rule bit_word_eqI)
  have *: "bit x n = bit x (Suc n)" for n
    using xor_zero_bits [OF assms, of n, unfolded bit_drop_bit_eq] by simp
  fix n
  have "bit x n = bit x (n + k)" for k by (induction k) (use * in auto)
  from this [of 32] have "\<not> bit x n" using bit_imp_le_length [of x "n + 32"] by auto
  then show "bit x n = bit (0 :: u32) n" by simp
qed


lemma top_bits_agree:
  assumes "a AND TopBitmask = b" and "b AND TopBitmask = 0"
  shows "b = 0"
  using assms by (metis and.assoc and.idem)

lemma TinyMT_advance_ok:
  assumes "TinyMT_ok s"
  shows "TinyMT_ok (TinyMT_advance s)"
proof (rule ccontr)
  define x0 where "x0 = (data0 s AND TopBitmask) XOR data1 s XOR data2 s"
  define x1 where "x1 = x0 XOR push_bit 1 x0"
  define y1 where "y1 = data3 s XOR drop_bit 1 (data3 s) XOR x1"
  assume "\<not> TinyMT_ok (TinyMT_advance s)"
  then have z: "data0 (TinyMT_advance s) AND TopBitmask = 0" "data1 (TinyMT_advance s) = 0"
    "data2 (TinyMT_advance s) = 0" "data3 (TinyMT_advance s) = 0"
    unfolding TinyMT_ok_def by simp_all
  have adv: "TinyMT_advance s =
      (if (y1 AND 1) \<noteq> 0
       then \<lparr>data0 = data1 s, data1 = data2 s XOR ParamMat1,
         data2 = (x1 XOR push_bit 10 y1) XOR ParamMat2, data3 = y1\<rparr>
       else \<lparr>data0 = data1 s, data1 = data2 s, data2 = x1 XOR push_bit 10 y1, data3 = y1\<rparr>)"
    unfolding TinyMT_advance_def Let_def x0_def x1_def y1_def by (rule refl)
  have y1: "y1 = 0" using z(4) unfolding adv by (simp split: if_splits)
  have adv: "TinyMT_advance s = \<lparr>data0 = data1 s, data1 = data2 s, data2 = x1, data3 = 0\<rparr>"
    unfolding adv y1 by simp
  have d: "data1 s AND TopBitmask = 0" "data2 s = 0" "x1 = 0" using z adv by simp_all
  have x0: "x0 = 0" using d(3) unfolding x1_def by (rule xor_shift_left_zero)
  have "data3 s XOR drop_bit 1 (data3 s) = 0" using y1 d(3) by (simp add: y1_def)
  then have d3: "data3 s = 0" by (rule xor_shift_right_zero)
  have "(data0 s AND TopBitmask) XOR data1 s = 0" using x0 d(2) by (simp add: x0_def)
  then have e: "data0 s AND TopBitmask = data1 s"
    by (intro bit_word_eqI) (rule xor_zero_bits)
  have "data1 s = 0" using e d(1) by (rule top_bits_agree)
  with e d(2) d3 have "\<not> TinyMT_ok s" unfolding TinyMT_ok_def by simp
  with assms show False by contradiction
qed

lemma funpow_advance_ok: "TinyMT_ok s \<Longrightarrow> TinyMT_ok (((\<lambda>s. snd (TinyMT_GenerateRandomU32 s)) ^^ n) s)"
  by (induction n) (simp_all add: TinyMT_GenerateRandomU32_def Let_def TinyMT_advance_ok)

lemma TinyMT_FinalizeInitialization_ok: "TinyMT_ok (TinyMT_FinalizeInitialization s)"
  unfolding TinyMT_FinalizeInitialization_def Let_def
  by (rule funpow_advance_ok) (simp add: TinyMT_ok_def)

text \<open>
  C35: both initialisations leave the generator in a state whose 127 working bits are not all zero,
  and drawing numbers keeps it so: it never gets stuck at the fixed point zero.
\<close>

theorem TinyMT_never_stuck:
  "TinyMT_ok (TinyMT_Initialize seed) \<and> TinyMT_ok (TinyMT_Initialize_seeds seeds) \<and>
   (TinyMT_ok s \<longrightarrow> TinyMT_ok (snd (TinyMT_GenerateRandomU32 s)))"
  by (simp add: TinyMT_Initialize_def TinyMT_Initialize_seeds_def Let_def
      TinyMT_FinalizeInitialization_ok TinyMT_GenerateRandomU32_def TinyMT_advance_ok)

theorem TinyMT_never_stuck_witness:
  "TinyMT_ok (snd (TinyMT_GenerateRandomU32 (TinyMT_Initialize 0)))"
  using TinyMT_never_stuck [of 0 "[]" "TinyMT_Initialize 0"] by simp

section \<open>Filling a buffer\<close>

lemma length_word_bytes [simp]: "length (word_bytes w) = 4"
  by (simp add: word_bytes_def)

lemma memcpy_word_addresses: "n \<le> 4 \<Longrightarrow> map fst (memcpy_word dst w n) = [dst..<dst + n]"
  by (simp add: memcpy_word_def map_fst_zip_take)

lemma GenerateRandomBytes_words_addresses:
  assumes "4 dvd cur" and "4 dvd stop" and "cur \<le> stop" and "stop < 2 ^ 64"
  shows "\<exists>out s'. GenerateRandomBytes_words s cur stop = Some (out, s') \<and> map fst out = [cur..<stop]"
  using assms
proof (induction "stop - cur" arbitrary: s cur rule: less_induct)
  case less
  show ?case
  proof (cases "cur < stop")
    case True
    then have le: "cur + 4 \<le> stop" using less(2,3) by (auto elim!: dvdE)
    then have next_dst: "add64 cur 4 = cur + 4" using less(5) by (intro add64_eq) linarith
    have dec: "stop - (cur + 4) < stop - cur" using le by linarith
    obtain out s' where o: "GenerateRandomBytes_words (snd (TinyMT_GenerateRandomU32 s)) (cur + 4) stop = Some (out, s')"
      "map fst out = [cur + 4..<stop]"
      using less(1) [OF dec, of "snd (TinyMT_GenerateRandomU32 s)"] less(2-5) le by auto
    have "[cur..<stop] = [cur..<cur + 4] @ [cur + 4..<stop]" using upt_add_eq_append [of cur "cur + 4" "stop - (cur + 4)"] le by simp
    then show ?thesis using True o next_dst memcpy_word_addresses [of 4 cur]
      by (subst GenerateRandomBytes_words.simps) (simp add: case_prod_beta Let_def)
  next
    case False
    then show ?thesis by (subst GenerateRandomBytes_words.simps) simp
  qed
qed

lemma GenerateRandomBytes_words_empty: "stop \<le> cur \<Longrightarrow> GenerateRandomBytes_words s cur stop = Some ([], s)"
  by (subst GenerateRandomBytes_words.simps) simp

text \<open>What is written: the head up to a word boundary, the words between, the tail from a word boundary.\<close>

lemma GenerateRandomBytes_written:
  assumes "start + 4 < 2 ^ 64" and "start + sz < 2 ^ 64"
  shows "\<exists>out s'. TinyMT_GenerateRandomBytes s start sz = Some (out, s') \<and>
    map fst out = [start..<AlignUp start 4] @ [AlignUp start 4..<AlignDown (start + sz) 4] @ [AlignDown (start + sz) 4..<start + sz]"
proof -
  define a where "a = AlignUp start 4"
  define e where "e = AlignDown (start + sz) 4"
  define s1 where "s1 = (if start < a then snd (TinyMT_GenerateRandomU32 s) else s)"
  have a: "start \<le> a" "a < start + 4" "4 dvd a"
    unfolding a_def using AlignUp_ge [OF assms(1)] AlignUp_less [OF assms(1)] AlignUp_dvd [OF assms(1)] by simp_all
  have e: "e \<le> start + sz" "start + sz < e + 4" "4 dvd e"
    unfolding e_def using AlignDown_le [of "start + sz" 4] AlignDown_gt [of 4 "start + sz"] AlignDown_dvd [of 4 "start + sz"] by simp_all
  obtain out s2 where w: "GenerateRandomBytes_words s1 a e = Some (out, s2)" "map fst out = [a..<e]"
    using GenerateRandomBytes_words_addresses [OF a(3) e(3), of s1] GenerateRandomBytes_words_empty [of e a s1] e(1) assms(2)
    by (cases "a \<le> e") auto
  have m: "map fst (memcpy_word start r (a - start)) = [start..<a]" "map fst (memcpy_word e r (start + sz - e)) = [e..<start + sz]" for r
    using memcpy_word_addresses [of "a - start" start r] memcpy_word_addresses [of "start + sz - e" e r] a e by simp_all
  have "a < 2 ^ 64" using a(2) assms(1) by linarith
  then have d: "sub64 a start = a - start" "sub64 (start + sz) e = start + sz - e"
    using sub64_eq [OF a(1)] sub64_eq [OF e(1) assms(2)] by blast+
  have stop: "add64 start sz = start + sz" by (rule add64_eq [OF assms(2)])
  show ?thesis
    unfolding TinyMT_GenerateRandomBytes_def stop Let_def a_def [symmetric] e_def [symmetric] d
    using w a(1) e(1) m by (cases "start < a"; cases "e < start + sz") (auto simp: case_prod_beta s1_def)
qed

text \<open>
  C36: filling a buffer that ends inside the address space.  When the first word boundary at or after the
  start is not past the end, the call returns, each byte of the buffer is written exactly once, in
  increasing order of address, and no other byte is written.
\<close>

theorem GenerateRandomBytes_exact:
  assumes "AlignUp start 4 \<le> AlignDown (start + sz) 4" and "start + 4 < 2 ^ 64" and "start + sz < 2 ^ 64"
  shows "\<exists>out s'. TinyMT_GenerateRandomBytes s start sz = Some (out, s') \<and> map fst out = [start..<start + sz]"
proof -
  have "start \<le> AlignUp start 4" using AlignUp_ge [OF assms(2)] by simp
  moreover have "AlignDown (start + sz) 4 \<le> start + sz" by (rule AlignDown_le)
  ultimately have "[start..<start + sz] =
      [start..<AlignUp start 4] @ [AlignUp start 4..<AlignDown (start + sz) 4] @ [AlignDown (start + sz) 4..<start + sz]"
    using assms(1) upt_add_eq_append [of start "AlignUp start 4" "start + sz - AlignUp start 4"]
      upt_add_eq_append [of "AlignUp start 4" "AlignDown (start + sz) 4" "start + sz - AlignDown (start + sz) 4"] by simp
  then show ?thesis using GenerateRandomBytes_written [OF assms(2,3), of s] by simp
qed

theorem GenerateRandomBytes_exact_witness:
  "\<exists>out s'. TinyMT_GenerateRandomBytes (TinyMT_Initialize 7) 4099 9 = Some (out, s') \<and> map fst out = [4099..<4108]"
  using GenerateRandomBytes_exact [of 4099 9 "TinyMT_Initialize 7"]
  by (simp add: AlignUp_def AlignDown_def add64_def)

text \<open>
  C40: any buffer strictly inside one word, of any size, an empty one included.  The head is filled up to the
  next word boundary without regard to the size and the tail from the word boundary before the buffer, so
  the bytes of the word before the buffer and the bytes after it are overwritten as well.
\<close>

theorem GenerateRandomBytes_outside:
  assumes "AlignDown start 4 < start" and "start + sz < AlignDown start 4 + 4" and "start + 4 < 2 ^ 64"
  shows "\<exists>out s'. TinyMT_GenerateRandomBytes s start sz = Some (out, s') \<and>
    map fst out = [start..<AlignDown start 4 + 4] @ [AlignDown start 4..<start + sz] \<and>
    set (map fst out) - {start..<start + sz} = {AlignDown start 4..<start} \<union> {start + sz..<AlignDown start 4 + 4} \<and>
    {AlignDown start 4..<start} \<noteq> {} \<and> {start + sz..<AlignDown start 4 + 4} \<noteq> {}"
proof -
  let ?d = "AlignDown start 4"
  have nd: "\<not> 4 dvd start" using assms(1) AlignDown_id [of 4 start] by auto
  have up: "AlignUp start 4 = ?d + 4" by (rule AlignUp_eq [OF nd assms(3)])
  have stop: "start + sz < 2 ^ 64" using assms AlignDown_le [of start 4] by linarith
  have d: "?d = 4 * (start div 4)" by (simp add: AlignDown_def minus_mod_eq_mult_div)
  have "(start + sz) div 4 = start div 4" by (rule div_nat_eqI) (use assms(1,2) in \<open>simp_all add: d\<close>)
  then have down: "AlignDown (start + sz) 4 = ?d" by (simp add: AlignDown_def minus_mod_eq_mult_div)
  obtain out s' where o: "TinyMT_GenerateRandomBytes s start sz = Some (out, s')"
    "map fst out = [start..<?d + 4] @ [?d + 4..<?d] @ [?d..<start + sz]"
    using GenerateRandomBytes_written [OF assms(3) stop, of s] unfolding up down by blast
  have eq: "map fst out = [start..<?d + 4] @ [?d..<start + sz]" using o(2) by simp
  have "set (map fst out) = {start..<?d + 4} \<union> {?d..<start + sz}" unfolding eq by simp
  moreover have "({start..<m} \<union> {l..<start + sz}) - {start..<start + sz} = {l..<start} \<union> {start + sz..<m}"
    if "l < start" "start + sz < m" for l m using that by auto
  ultimately have "set (map fst out) - {start..<start + sz} = {?d..<start} \<union> {start + sz..<?d + 4}" using assms(1,2) by simp
  moreover have "{?d..<start} \<noteq> {}" "{start + sz..<?d + 4} \<noteq> {}" using assms(1,2) by simp_all
  ultimately show ?thesis using o(1) eq by blast
qed

theorem GenerateRandomBytes_outside_witness:
  "\<exists>out s'. TinyMT_GenerateRandomBytes (TinyMT_Initialize 7) 4097 1 = Some (out, s') \<and>
     map fst out = [4097..<4100] @ [4096..<4098]"
  using GenerateRandomBytes_outside [of 4097 1 "TinyMT_Initialize 7"] by (auto simp: AlignDown_def)

end
