(* ===== verification/Page_Bitmap.thy ===== *)
theory Page_Bitmap
  imports Tiny_MT
begin

text \<open>
  \<^verbatim>\<open>KPageBitmap\<close> (\<^verbatim>\<open>k_page_bitmap.h\<close>): a set of block offsets as a tree of 64-bit words, where a bit
  of one level says whether the word below it is nonzero, and the random bit generator it draws from.

  The storage of a level is the list of its words; the levels are listed from the root.  Offsets are
  natural numbers.  Reading or writing a word outside
  a level does not occur on a well-formed bitmap.

  Shown here: the bitmap is a set; setting, clearing and clearing a range are insertion and
  deletion, the searches return the least element, a random element and a free range, and the
  storage computed beforehand is exactly what is used.
\<close>

section \<open>Random bits\<close>

record RandomBitGenerator =
  rb_rng :: TinyMT
  rb_entropy :: u32
  rb_bits_available :: nat

definition RandomBitGenerator_new :: "u64 \<Rightarrow> RandomBitGenerator" where
  "RandomBitGenerator_new random64 =
     \<lparr>rb_rng = TinyMT_Initialize (ucast random64), rb_entropy = 0, rb_bits_available = 0\<rparr>"

definition RefreshEntropy :: "RandomBitGenerator \<Rightarrow> RandomBitGenerator" where
  "RefreshEntropy g =
     (case TinyMT_GenerateRandomU32 (rb_rng g) of
        (r, rng) \<Rightarrow> g\<lparr>rb_rng := rng, rb_entropy := r, rb_bits_available := 32\<rparr>)"

definition GenerateRandomBit :: "RandomBitGenerator \<Rightarrow> bool \<times> RandomBitGenerator" where
  "GenerateRandomBit g =
     (let g1 = (if rb_bits_available g = 0 then RefreshEntropy g else g)
      in ((rb_entropy g1 AND 1) \<noteq> 0,
          g1\<lparr>rb_entropy := drop_bit 1 (rb_entropy g1), rb_bits_available := rb_bits_available g1 - 1\<rparr>))"

text \<open>
  The loop of \<^verbatim>\<open>GenerateRandomBits\<close> ends because each round takes at least one of the bits still
  needed: there are some available, or 32 after the refresh.
\<close>

definition GenerateRandomBits_round ::
    "nat \<Rightarrow> u64 \<Rightarrow> RandomBitGenerator \<Rightarrow> nat \<times> u64 \<times> RandomBitGenerator" where
  "GenerateRandomBits_round num_bits res g =
     (let g1 = (if rb_bits_available g = 0 then RefreshEntropy g else g);
          cur_bits = min num_bits (rb_bits_available g1);
          msk = push_bit cur_bits 1 - 1 :: u64
      in (num_bits - cur_bits, push_bit cur_bits res OR (ucast (rb_entropy g1) AND msk),
          g1\<lparr>rb_entropy := drop_bit cur_bits (rb_entropy g1),
             rb_bits_available := rb_bits_available g1 - cur_bits\<rparr>))"

lemma GenerateRandomBits_round_less:
  "0 < n \<Longrightarrow> fst (GenerateRandomBits_round n res g) < n"
  by (auto simp: GenerateRandomBits_round_def RefreshEntropy_def Let_def split: prod.split)

function GenerateRandomBits :: "nat \<Rightarrow> u64 \<Rightarrow> RandomBitGenerator \<Rightarrow> u64 \<times> RandomBitGenerator" where
  "GenerateRandomBits num_bits res g =
     (if num_bits > 0
      then case GenerateRandomBits_round num_bits res g of
             (n, r, g') \<Rightarrow> GenerateRandomBits n r g'
      else (res, g))"
  by pat_completeness auto
termination
  by (relation "measure fst") (auto dest: GenerateRandomBits_round_less [where res = res and g = g for res g])

definition GenerateRandom :: "u64 \<Rightarrow> RandomBitGenerator \<Rightarrow> u64 \<times> RandomBitGenerator" where
  "GenerateRandom mx g =
     (let bits_needed = 1 + (64 - countl_zero mx)
      in case GenerateRandomBits bits_needed 0 g of
           (rnd, g') \<Rightarrow> (rnd - (rnd div mx) * mx, g'))"

function SelectRandomBit_loop ::
    "nat \<Rightarrow> u64 \<Rightarrow> nat \<Rightarrow> RandomBitGenerator \<Rightarrow> nat \<times> RandomBitGenerator" where
  "SelectRandomBit_loop cur_num_bits bitmap selected g =
     (if cur_num_bits \<noteq> 0
      then
        let high = drop_bit cur_num_bits bitmap;
            low = bitmap AND NOT (push_bit cur_num_bits 0xFFFFFFFFFFFFFFFF);
            (pick_high, g') =
              (if high \<noteq> 0 then if low = 0 then (True, g) else GenerateRandomBit g else (False, g))
        in if pick_high
           then SelectRandomBit_loop (cur_num_bits div 2) high (selected + cur_num_bits) g'
           else SelectRandomBit_loop (cur_num_bits div 2) low selected g'
      else (selected, g))"
  by pat_completeness auto
termination
  by (relation "measure fst") auto

definition SelectRandomBit :: "u64 \<Rightarrow> RandomBitGenerator \<Rightarrow> nat \<times> RandomBitGenerator" where
  "SelectRandomBit bitmap g = SelectRandomBit_loop 32 bitmap 0 g"

section \<open>The bitmap\<close>

record KPageBitmap =
  m_bit_storages :: "u64 list list"
  m_bitmap_rng :: RandomBitGenerator
  m_num_bits :: nat

definition MaxDepth :: nat where "MaxDepth = 4"

definition m_used_depths :: "KPageBitmap \<Rightarrow> nat" where
  "m_used_depths b = length (m_bit_storages b)"

definition KPageBitmap_GetNumBits :: "KPageBitmap \<Rightarrow> nat" where
  "KPageBitmap_GetNumBits b = m_num_bits b"

fun GetRequiredDepth :: "nat \<Rightarrow> nat" where
  "GetRequiredDepth region_size =
     (if region_size div 64 = 0 then 1 else Suc (GetRequiredDepth (region_size div 64)))"

declare GetRequiredDepth.simps [simp del]

text \<open>
  \<^verbatim>\<open>Initialize\<close> takes the words of the levels from the front of the storage, the leaves first, and
  returns the storage left over.
\<close>

fun KPageBitmap_Initialize_loop ::
    "nat \<Rightarrow> u64 list \<Rightarrow> nat \<Rightarrow> u64 list list \<Rightarrow> u64 list list \<times> u64 list" where
  "KPageBitmap_Initialize_loop 0 storage sz levels = (levels, storage)"
| "KPageBitmap_Initialize_loop (Suc depth) storage sz levels =
     (let sz' = AlignUp sz 64 div 64
      in KPageBitmap_Initialize_loop depth (drop sz' storage) sz' (take sz' storage # levels))"

definition KPageBitmap_Initialize ::
    "KPageBitmap \<Rightarrow> u64 list \<Rightarrow> nat \<Rightarrow> KPageBitmap \<times> u64 list" where
  "KPageBitmap_Initialize b storage sz =
     (case KPageBitmap_Initialize_loop (GetRequiredDepth sz) storage sz [] of
        (levels, rest) \<Rightarrow> (b\<lparr>m_num_bits := 0, m_bit_storages := levels\<rparr>, rest))"

fun CalculateManagementOverheadSize_loop :: "nat \<Rightarrow> nat \<Rightarrow> nat \<Rightarrow> nat" where
  "CalculateManagementOverheadSize_loop 0 region_size overhead_bits = overhead_bits"
| "CalculateManagementOverheadSize_loop (Suc depth) region_size overhead_bits =
     (let r = AlignUp region_size 64 div 64
      in CalculateManagementOverheadSize_loop depth r (overhead_bits + r))"

definition KPageBitmap_CalculateManagementOverheadSize :: "nat \<Rightarrow> nat" where
  "KPageBitmap_CalculateManagementOverheadSize region_size =
     CalculateManagementOverheadSize_loop (GetRequiredDepth region_size) region_size 0 * 8"

text \<open>
  The two searches walk from the root to the leaves; \<open>-1\<close> is the result for an empty bitmap.
\<close>

fun FindFreeBlock_linear :: "u64 list list \<Rightarrow> nat \<Rightarrow> int" where
  "FindFreeBlock_linear [] offset = int offset"
| "FindFreeBlock_linear (level # levels) offset =
     (let v = level ! offset
      in if v = 0 then - 1 else FindFreeBlock_linear levels (offset * 64 + countr_zero v))"

fun FindFreeBlock_random :: "u64 list list \<Rightarrow> nat \<Rightarrow> RandomBitGenerator \<Rightarrow> int \<times> RandomBitGenerator" where
  "FindFreeBlock_random [] offset g = (int offset, g)"
| "FindFreeBlock_random (level # levels) offset g =
     (let v = level ! offset
      in if v = 0 then (- 1, g)
         else case SelectRandomBit v g of
                (r, g') \<Rightarrow> FindFreeBlock_random levels (offset * 64 + r) g')"

definition KPageBitmap_FindFreeBlock :: "KPageBitmap \<Rightarrow> bool \<Rightarrow> int \<times> KPageBitmap" where
  "KPageBitmap_FindFreeBlock b random =
     (if random
      then case FindFreeBlock_random (m_bit_storages b) 0 (m_bitmap_rng b) of
             (offset, g) \<Rightarrow> (offset, b\<lparr>m_bitmap_rng := g\<rparr>)
      else (FindFreeBlock_linear (m_bit_storages b) 0, b))"

text \<open>
  \<^verbatim>\<open>FindFreeRange\<close>: every way to place \<open>count\<close> blocks at a multiple of \<open>count\<close> within a word is an
  option; the k-th free option found replaces the choice with probability 1/k.  A count of zero
  divides by zero and a count of 64 shifts by the width of the word: both have no defined result.
\<close>

fun FindFreeRange_options ::
    "nat \<Rightarrow> nat \<Rightarrow> nat \<Rightarrow> nat \<Rightarrow> u64 \<Rightarrow> nat \<times> int \<times> RandomBitGenerator \<Rightarrow> nat \<times> int \<times> RandomBitGenerator" where
  "FindFreeRange_options count storage_index option_index 0 storage acc = acc"
| "FindFreeRange_options count storage_index option_index (Suc n) storage (num_valid, chosen, g) =
     (let free_mask = push_bit count 1 - 1;
          acc' =
            (if (storage AND free_mask) = free_mask
             then
               let num_valid' = num_valid + 1;
                   (take_it, g') =
                     (if num_valid' = 1 then (True, g)
                      else case GenerateRandom (of_nat num_valid') g of (r, g') \<Rightarrow> (r = 0, g'))
               in (num_valid',
                   if take_it then int (storage_index * 64 + option_index * count) else chosen, g')
             else (num_valid, chosen, g))
      in FindFreeRange_options count storage_index (option_index + 1) n (drop_bit count storage) acc')"

fun FindFreeRange_words ::
    "nat \<Rightarrow> nat \<Rightarrow> u64 list \<Rightarrow> nat \<times> int \<times> RandomBitGenerator \<Rightarrow> nat \<times> int \<times> RandomBitGenerator" where
  "FindFreeRange_words count storage_index [] acc = acc"
| "FindFreeRange_words count storage_index (w # ws) acc =
     FindFreeRange_words count (storage_index + 1) ws
       (FindFreeRange_options count storage_index 0 (max (64 div count) 1) w acc)"

definition KPageBitmap_FindFreeRange :: "KPageBitmap \<Rightarrow> nat \<Rightarrow> (int \<times> KPageBitmap) option" where
  "KPageBitmap_FindFreeRange b count =
     (let leaves = last (m_bit_storages b)
      in if \<not> (leaves \<noteq> [] \<and> count \<le> 64) then Some (- 1, b)
         else if count = 0 \<or> count = 64 then None
         else case FindFreeRange_words count 0 leaves (0, - 1, m_bitmap_rng b) of
                (num_valid, chosen, g) \<Rightarrow> Some (chosen, b\<lparr>m_bitmap_rng := g\<rparr>))"

text \<open>Setting and clearing one bit at a depth: the depth argument is one more than in the code.\<close>

fun SetBit_loop :: "u64 list list \<Rightarrow> nat \<Rightarrow> nat \<Rightarrow> u64 list list" where
  "SetBit_loop levels 0 offset = levels"
| "SetBit_loop levels (Suc depth) offset =
     (let ind = offset div 64;
          which = offset mod 64;
          msk = push_bit which 1;
          v = levels ! depth ! ind;
          levels' = levels[depth := (levels ! depth)[ind := v OR msk]]
      in if v \<noteq> 0 then levels' else SetBit_loop levels' depth ind)"

fun ClearBit_loop :: "u64 list list \<Rightarrow> nat \<Rightarrow> nat \<Rightarrow> u64 list list" where
  "ClearBit_loop levels 0 offset = levels"
| "ClearBit_loop levels (Suc depth) offset =
     (let ind = offset div 64;
          which = offset mod 64;
          msk = push_bit which 1;
          v = (levels ! depth ! ind) AND NOT msk;
          levels' = levels[depth := (levels ! depth)[ind := v]]
      in if v \<noteq> 0 then levels' else ClearBit_loop levels' depth ind)"

definition KPageBitmap_SetBit :: "KPageBitmap \<Rightarrow> nat \<Rightarrow> KPageBitmap" where
  "KPageBitmap_SetBit b offset =
     b\<lparr>m_bit_storages := SetBit_loop (m_bit_storages b) (m_used_depths b) offset,
       m_num_bits := add64 (m_num_bits b) 1\<rparr>"

definition KPageBitmap_ClearBit :: "KPageBitmap \<Rightarrow> nat \<Rightarrow> KPageBitmap" where
  "KPageBitmap_ClearBit b offset =
     b\<lparr>m_bit_storages := ClearBit_loop (m_bit_storages b) (m_used_depths b) offset,
       m_num_bits := sub64 (m_num_bits b) 1\<rparr>"

text \<open>The assertions of the two loops: the bit is not yet set, and still set.\<close>

fun SetBit_asserts :: "u64 list list \<Rightarrow> nat \<Rightarrow> nat \<Rightarrow> bool" where
  "SetBit_asserts levels 0 offset = True"
| "SetBit_asserts levels (Suc depth) offset =
     (let ind = offset div 64;
          msk = push_bit (offset mod 64) 1;
          v = levels ! depth ! ind
      in (v AND msk) = 0 \<and> (v = 0 \<longrightarrow> SetBit_asserts levels depth ind))"

fun ClearBit_asserts :: "u64 list list \<Rightarrow> nat \<Rightarrow> nat \<Rightarrow> bool" where
  "ClearBit_asserts levels 0 offset = True"
| "ClearBit_asserts levels (Suc depth) offset =
     (let ind = offset div 64;
          msk = push_bit (offset mod 64) 1;
          v = levels ! depth ! ind
      in (v AND msk) \<noteq> 0 \<and> ((v AND NOT msk) = 0 \<longrightarrow> ClearBit_asserts levels depth ind))"

text \<open>
  Clearing a range: within one word, or whole words.  The two loops over whole words test at the end
  and count down by 64 with wrap-around; running past the end of the storage is the result \<open>None\<close>.
\<close>

function ClearRange_full :: "u64 list \<Rightarrow> nat \<Rightarrow> nat \<Rightarrow> bool option" where
  "ClearRange_full bits ind remaining =
     (if ind < length bits
      then if bits ! ind \<noteq> - 1 then Some False
           else let remaining' = sub64 remaining 64
                in if remaining' > 0 then ClearRange_full bits (ind + 1) remaining' else Some True
      else None)"
  by pat_completeness auto
termination
  by (relation "measure (\<lambda>(bits, ind, remaining). length bits - ind)") auto

partial_function (option) ClearRange_words :: "u64 list list \<Rightarrow> nat \<Rightarrow> nat \<Rightarrow> nat \<Rightarrow> u64 list list option" where
  "ClearRange_words levels depth ind remaining =
     (if ind < length (levels ! depth)
      then let levels' = ClearBit_loop (levels[depth := (levels ! depth)[ind := 0]]) depth ind;
               remaining' = sub64 remaining 64
           in if remaining' > 0 then ClearRange_words levels' depth (ind + 1) remaining' else Some levels'
      else None)"

declare ClearRange_full.simps [simp del]

definition KPageBitmap_ClearRange :: "KPageBitmap \<Rightarrow> nat \<Rightarrow> nat \<Rightarrow> (bool \<times> KPageBitmap) option" where
  "KPageBitmap_ClearRange b offset count =
     (let levels = m_bit_storages b;
          depth = m_used_depths b - 1;
          bits = levels ! depth;
          bit_ind = offset div 64
      in if count < 64
         then
           let shift = offset mod 64;
               msk = push_bit shift (push_bit count 1 - 1);
               v = bits ! bit_ind
           in if (v AND msk) \<noteq> msk then Some (False, b)
              else
                let v' = v AND NOT msk;
                    levels1 = levels[depth := bits[bit_ind := v']];
                    levels2 = (if v' = 0 then ClearBit_loop levels1 depth bit_ind else levels1)
                in Some (True, b\<lparr>m_bit_storages := levels2, m_num_bits := sub64 (m_num_bits b) count\<rparr>)
         else
           case ClearRange_full bits bit_ind count of
             None \<Rightarrow> None
           | Some False \<Rightarrow> Some (False, b)
           | Some True \<Rightarrow>
               map_option (\<lambda>levels'. (True, b\<lparr>m_bit_storages := levels', m_num_bits := sub64 (m_num_bits b) count\<rparr>))
                 (ClearRange_words levels depth bit_ind count))"

section \<open>Random bits\<close>

lemma pow2_half: "(2 :: nat) ^ Suc k div 2 = 2 ^ k"
  by simp

lemma low_half:
  fixes w :: u64
  shows "w AND NOT (push_bit n 0xFFFFFFFFFFFFFFFF) = take_bit n w"
proof -
  have e: "(0xFFFFFFFFFFFFFFFF :: u64) = - 1" by simp
  show ?thesis
    unfolding e by (intro bit_word_eqI) (auto simp: bit_and_iff bit_not_iff bit_push_bit_iff bit_take_bit_iff bit_mask_iff)
qed

declare SelectRandomBit_loop.simps [simp del]

lemma SelectRandomBit_loop_0: "SelectRandomBit_loop 0 bitmap selected g = (selected, g)"
  by (simp add: SelectRandomBit_loop.simps)

lemma SelectRandomBit_loop_cases:
  fixes bitmap :: u64
  assumes "cur \<noteq> 0"
  defines "high \<equiv> drop_bit cur bitmap" and "low \<equiv> take_bit cur bitmap"
  shows "\<exists>g'. SelectRandomBit_loop cur bitmap selected g =
        SelectRandomBit_loop (cur div 2) high (selected + cur) g' \<and> high \<noteq> 0
      \<or> SelectRandomBit_loop cur bitmap selected g = SelectRandomBit_loop (cur div 2) low selected g' \<and>
        (low \<noteq> 0 \<or> high = 0)"
proof -
  note unfold = SelectRandomBit_loop.simps [of cur bitmap selected g, unfolded low_half,
      folded high_def low_def]
  consider "high = 0" | "high \<noteq> 0" "low = 0" | b g' where "high \<noteq> 0" "low \<noteq> 0" "GenerateRandomBit g = (b, g')"
    by fastforce
  then show ?thesis
  proof cases
    case 1
    with assms(1) show ?thesis by (intro exI [of _ g]) (simp add: unfold)
  next
    case 2
    with assms(1) show ?thesis by (intro exI [of _ g]) (simp add: unfold)
  next
    case 3
    with assms(1) show ?thesis by (intro exI [of _ g']) (simp add: unfold)
  qed
qed

text \<open>Each round keeps a nonzero half.\<close>

lemma SelectRandomBit_loop_step:
  assumes "cur \<noteq> 0" and "bitmap \<noteq> 0" and "\<And>n. bit bitmap n \<Longrightarrow> n < 2 * cur"
  obtains off bm g' where "SelectRandomBit_loop cur bitmap selected g =
      SelectRandomBit_loop (cur div 2) bm (selected + off) g'"
    and "bm \<noteq> 0" and "\<And>n. bit bm n \<Longrightarrow> n < cur \<and> bit bitmap (off + n)"
proof -
  let ?high = "drop_bit cur bitmap" and ?low = "take_bit cur bitmap"
  obtain g' where "SelectRandomBit_loop cur bitmap selected g =
        SelectRandomBit_loop (cur div 2) ?high (selected + cur) g' \<and> ?high \<noteq> 0
      \<or> SelectRandomBit_loop cur bitmap selected g = SelectRandomBit_loop (cur div 2) ?low selected g' \<and>
        (?low \<noteq> 0 \<or> ?high = 0)"
    using SelectRandomBit_loop_cases [OF assms(1)] by blast
  then show ?thesis
  proof (elim disjE conjE, goal_cases)
    case 1
    have "n < cur" if "bit ?high n" for n
      using that assms(3) [of "cur + n"] by (simp add: bit_drop_bit_eq)
    with 1 show ?thesis by (intro that [of ?high cur g']) (simp_all add: bit_drop_bit_eq)
  next
    case 2
    show ?thesis
      by (rule that [of ?low 0 g']) (use 2 in \<open>auto simp: bit_take_bit_iff\<close>)
  next
    case 3
    obtain n where "bit bitmap n" using word_nonzero_bit [OF assms(2)] by blast
    moreover have "n < cur"
    proof (rule ccontr)
      assume "\<not> n < cur"
      then have "bit ?high (n - cur)" using \<open>bit bitmap n\<close> by (simp add: bit_drop_bit_eq)
      with 3 show False by simp
    qed
    ultimately have "bit ?low n" by (simp add: bit_take_bit_iff)
    then have "?low \<noteq> 0" by auto
    then show ?thesis
      by (intro that [of ?low 0 g']) (use 3 in \<open>auto simp: bit_take_bit_iff\<close>)
  qed
qed

lemma SelectRandomBit_loop_bit:
  assumes "bitmap \<noteq> 0" and "\<And>n. bit bitmap n \<Longrightarrow> n < 2 * 2 ^ k"
  shows "\<exists>r g'. SelectRandomBit_loop (2 ^ k) bitmap selected g = (selected + r, g') \<and> bit bitmap r"
  using assms
proof (induction k arbitrary: bitmap selected g)
  case 0
  obtain off bm g' where "SelectRandomBit_loop (2 ^ 0) bitmap selected g =
      SelectRandomBit_loop (2 ^ 0 div 2) bm (selected + off) g'" "bm \<noteq> 0"
    "\<And>n. bit bm n \<Longrightarrow> n < 2 ^ 0 \<and> bit bitmap (off + n)"
    by (rule SelectRandomBit_loop_step [of "2 ^ 0" bitmap selected g]) (use 0 in auto)
  moreover from this obtain n where "bit bm n" using word_nonzero_bit by blast
  ultimately show ?case by (force simp: SelectRandomBit_loop_0)
next
  case (Suc k)
  obtain off bm g' where *: "SelectRandomBit_loop (2 ^ Suc k) bitmap selected g =
      SelectRandomBit_loop (2 ^ k) bm (selected + off) g'" "bm \<noteq> 0"
    "\<And>n. bit bm n \<Longrightarrow> n < 2 * 2 ^ k \<and> bit bitmap (off + n)"
    by (rule SelectRandomBit_loop_step [of "2 ^ Suc k" bitmap selected g]) (use Suc.prems in auto)
  from Suc.IH [of bm "selected + off" g'] * show ?case by (auto simp: add.assoc)
qed

lemma SelectRandomBit_bit:
  assumes "w \<noteq> 0" and "SelectRandomBit w g = (r, g')"
  shows "bit w r" and "r < 64"
proof -
  have "n < 2 * 2 ^ 5" if "bit w n" for n using bit_imp_le_length [OF that] by simp
  from SelectRandomBit_loop_bit [OF assms(1) this, of 0 g] assms(2) show "bit w r"
    by (auto simp: SelectRandomBit_def)
  then show "r < 64" using bit_imp_le_length by fastforce
qed

section \<open>Levels as sets\<close>

definition bits_of :: "u64 list \<Rightarrow> nat set" where
  "bits_of ws = {i. i div 64 < length ws \<and> bit (ws ! (i div 64)) (i mod 64)}"

lemma div_mod_64: "j = k \<longleftrightarrow> j div 64 = k div 64 \<and> j mod 64 = k mod 64" for j k :: nat
  by (metis div_mult_mod_eq)

lemma div_64_less: "j div 64 < n \<longleftrightarrow> j < 64 * n" for j n :: nat
  by (simp add: div_less_iff_less_mult mult.commute)

definition summarises :: "u64 list \<Rightarrow> u64 list \<Rightarrow> bool" where
  "summarises up down \<longleftrightarrow> length down \<le> 64 * length up \<and> bits_of up = {i. i < length down \<and> down ! i \<noteq> 0}"

definition chain_ok :: "u64 list list \<Rightarrow> bool" where
  "chain_ok levels \<longleftrightarrow> (\<forall>d. Suc d < length levels \<longrightarrow> summarises (levels ! d) (levels ! Suc d))"

lemma chain_ok_Cons: "chain_ok (ws # vs # levels) \<longleftrightarrow> summarises ws vs \<and> chain_ok (vs # levels)"
  by (auto simp: chain_ok_def less_Suc_eq_0_disj nth_Cons split: nat.split_asm)

lemma chain_ok_single: "chain_ok [ws]"
  by (simp add: chain_ok_def)

lemma bits_of_update:
  assumes "i < length ws"
  shows "j \<in> bits_of (ws[i := v]) \<longleftrightarrow> (if j div 64 = i then bit v (j mod 64) else j \<in> bits_of ws)"
  using assms by (simp add: bits_of_def)

lemma bits_of_word:
  assumes "i < length ws"
  shows "ws ! i \<noteq> 0 \<longleftrightarrow> (\<exists>j\<in>bits_of ws. j div 64 = i)"
proof
  assume "ws ! i \<noteq> 0"
  then obtain n where n: "n < 64" "bit (ws ! i) n" using word_nonzero_bit by blast
  with assms have "64 * i + n \<in> bits_of ws" "(64 * i + n) div 64 = i"
    by (auto simp: bits_of_def)
  then show "\<exists>j\<in>bits_of ws. j div 64 = i" by blast
next
  assume "\<exists>j\<in>bits_of ws. j div 64 = i"
  then show "ws ! i \<noteq> 0" by (auto simp: bits_of_def)
qed

lemma bits_of_insert:
  assumes "offset div 64 < length ws"
  shows "bits_of (ws[offset div 64 := (ws ! (offset div 64)) OR 2 ^ (offset mod 64)])
    = insert offset (bits_of ws)"
proof (rule set_eqI)
  fix j
  have "bit ((ws ! (offset div 64)) OR (2 ^ (offset mod 64) :: u64)) (j mod 64) \<longleftrightarrow>
      bit (ws ! (offset div 64)) (j mod 64) \<or> j mod 64 = offset mod 64"
    by (auto simp: bit_or_iff bit_exp_iff)
  then show "j \<in> bits_of (ws[offset div 64 := (ws ! (offset div 64)) OR 2 ^ (offset mod 64)])
      \<longleftrightarrow> j \<in> insert offset (bits_of ws)"
    using assms by (auto simp: bits_of_update div_mod_64 [of j offset]) (auto simp: bits_of_def)
qed

lemma bits_of_remove:
  assumes "offset div 64 < length ws"
  shows "bits_of (ws[offset div 64 := (ws ! (offset div 64)) AND NOT (2 ^ (offset mod 64))])
    = bits_of ws - {offset}"
proof (rule set_eqI)
  fix j
  have "bit ((ws ! (offset div 64)) AND NOT ((2 ^ (offset mod 64) :: u64))) (j mod 64) \<longleftrightarrow>
      bit (ws ! (offset div 64)) (j mod 64) \<and> j mod 64 \<noteq> offset mod 64"
    by (auto simp: bit_and_iff bit_not_iff bit_exp_iff)
  then show "j \<in> bits_of (ws[offset div 64 := (ws ! (offset div 64)) AND NOT (2 ^ (offset mod 64))])
      \<longleftrightarrow> j \<in> bits_of ws - {offset}"
    using assms by (auto simp: bits_of_update div_mod_64 [of j offset]) (auto simp: bits_of_def)
qed

lemma bits_of_less: "i \<in> bits_of ws \<Longrightarrow> i < 64 * length ws"
  by (simp add: bits_of_def div_64_less)

lemma bits_of_finite [simp]: "finite (bits_of ws)"
  by (rule finite_subset [of _ "{..<64 * length ws}"]) (auto dest: bits_of_less)

section \<open>Setting and clearing\<close>

text \<open>The levels down to a depth summarise each other.\<close>

definition chain_upto :: "u64 list list \<Rightarrow> nat \<Rightarrow> bool" where
  "chain_upto levels d \<longleftrightarrow> (\<forall>e<d. summarises (levels ! e) (levels ! Suc e))"

lemma chain_upto_Suc: "chain_upto levels (Suc d) \<longleftrightarrow> chain_upto levels d \<and> summarises (levels ! d) (levels ! Suc d)"
  by (auto simp: chain_upto_def less_Suc_eq)

lemma chain_upto_update: "d < e \<Longrightarrow> chain_upto (levels[e := ws]) d = chain_upto levels d"
  by (auto simp: chain_upto_def)

lemma summarises_word:
  assumes "summarises up down" and "i < length down" and "v \<noteq> 0 \<longleftrightarrow> down ! i \<noteq> 0"
  shows "summarises up (down[i := v])"
  using assms by (auto simp: summarises_def nth_list_update)

lemma summarises_set:
  assumes "summarises up down" and "i < length down" and "v \<noteq> 0"
    and "length up' = length up" and "bits_of up' = insert i (bits_of up)"
  shows "summarises up' (down[i := v])"
  using assms by (auto simp: summarises_def nth_list_update)

lemma summarises_clear:
  assumes "summarises up down" and "i < length down"
    and "length up' = length up" and "bits_of up' = bits_of up - {i}"
  shows "summarises up' (down[i := 0])"
  using assms by (auto simp: summarises_def nth_list_update)

lemma summarises_parent:
  assumes "summarises up down" and "i < length down"
  shows "i div 64 < length up" and "i \<in> bits_of up \<longleftrightarrow> down ! i \<noteq> 0"
  using assms by (auto simp: summarises_def div_64_less)

lemma SetBit_asserts_update: "d \<le> e \<Longrightarrow> SetBit_asserts (levels[e := ws]) d offset = SetBit_asserts levels d offset"
  by (induction d arbitrary: offset) (simp_all add: Let_def)

lemma ClearBit_asserts_update: "d \<le> e \<Longrightarrow> ClearBit_asserts (levels[e := ws]) d offset = ClearBit_asserts levels d offset"
  by (induction d arbitrary: offset) (simp_all add: Let_def)

lemma set_word_nonzero: "(v :: u64) OR 2 ^ (n mod 64) \<noteq> 0"
proof
  assume "v OR 2 ^ (n mod 64) = 0"
  then have "bit (v OR 2 ^ (n mod 64)) (n mod 64) = bit (0 :: u64) (n mod 64)" by simp
  then show False by (simp add: bit_or_iff bit_exp_iff)
qed

lemma single_bit_and: "(v :: u64) AND 2 ^ (n mod 64) = 0 \<longleftrightarrow> \<not> bit v (n mod 64)"
proof -
  have "v AND 2 ^ (n mod 64) = (if bit v (n mod 64) then 2 ^ (n mod 64) else 0)"
    by (intro bit_word_eqI) (auto simp: bit_and_iff bit_exp_iff)
  moreover have "(2 :: u64) ^ (n mod 64) \<noteq> 0" by simp
  ultimately show ?thesis by simp
qed

lemma map_length_update: "map length (ls[d := (ls ! d)[i := w]]) = map length ls"
  by (cases "d < length ls") (simp_all add: map_update list_update_same_conv list_update_beyond not_less)

lemma map_length_nth: "map length xs = map length ys \<Longrightarrow> length (xs ! i) = length (ys ! i) \<or> length ys \<le> i"
  by (metis length_map not_le nth_map)

lemma SetBit_loop_Suc:
  "SetBit_loop levels (Suc d) offset =
     (let ws = levels ! d; v = ws ! (offset div 64);
          levels' = levels[d := ws[offset div 64 := v OR 2 ^ (offset mod 64)]]
      in if v \<noteq> 0 \<or> d = 0 then levels' else SetBit_loop levels' d (offset div 64))"
  by (cases d) (simp_all add: Let_def)

lemma ClearBit_loop_Suc:
  "ClearBit_loop levels (Suc d) offset =
     (let ws = levels ! d; v = ws ! (offset div 64) AND NOT (2 ^ (offset mod 64));
          levels' = levels[d := ws[offset div 64 := v]]
      in if v \<noteq> 0 \<or> d = 0 then levels' else ClearBit_loop levels' d (offset div 64))"
  by (cases d) (simp_all add: Let_def)

declare SetBit_loop.simps(2) [simp del] ClearBit_loop.simps(2) [simp del]

text \<open>What a loop does to the levels: the given set at depth \<open>d\<close>, and everything above in step with it.\<close>

definition level_changed :: "u64 list list \<Rightarrow> u64 list list \<Rightarrow> nat \<Rightarrow> nat set \<Rightarrow> bool" where
  "level_changed levels levels' d S \<longleftrightarrow>
     chain_upto levels' d \<and> bits_of (levels' ! d) = S \<and> (\<forall>e>d. levels' ! e = levels ! e) \<and>
     map length levels' = map length levels"

lemma level_changed_top:
  assumes "chain_upto levels d" and "d < length levels" and "i < length (levels ! d)"
    and "d = 0 \<or> (v \<noteq> 0 \<longleftrightarrow> levels ! d ! i \<noteq> 0)"
    and "bits_of ((levels ! d)[i := v]) = S"
  shows "level_changed levels (levels[d := (levels ! d)[i := v]]) d S"
proof (cases d)
  case 0
  with assms show ?thesis by (simp add: level_changed_def chain_upto_def map_length_update)
next
  case (Suc e)
  with assms have "chain_upto levels e" "summarises (levels ! e) (levels ! Suc e)"
    by (simp_all add: chain_upto_Suc)
  with Suc assms show ?thesis
    by (simp add: level_changed_def chain_upto_Suc chain_upto_update summarises_word map_length_update)
qed

lemma level_changed_below:
  assumes "level_changed (levels[Suc d := ws]) levels' d S" and "Suc d < length levels"
    and "length ws = length (levels ! Suc d)" and "bits_of ws = T"
    and "\<And>up. length up = length (levels ! d) \<Longrightarrow> bits_of up = S \<Longrightarrow> summarises up ws"
  shows "level_changed levels levels' (Suc d) T"
proof -
  have l: "map length levels' = map length (levels[Suc d := ws])" "bits_of (levels' ! d) = S"
    "levels' ! Suc d = ws" "chain_upto levels' d" "\<forall>e>Suc d. levels' ! e = levels ! e"
    using assms(1,2) by (auto simp: level_changed_def)
  have "length (levels' ! d) = length (levels ! d)"
    using map_length_nth [OF l(1), of d] assms(2) by simp
  then have "summarises (levels' ! d) ws" using assms(5) l(2) by blast
  moreover have "map length (levels[Suc d := ws]) = map length levels"
    using assms(2,3) by (simp add: map_update list_update_same_conv)
  ultimately show ?thesis
    using l assms(4) by (simp add: level_changed_def chain_upto_Suc)
qed

lemma SetBit_loop_correct:
  assumes "d < length levels" and "chain_upto levels d"
    and "offset div 64 < length (levels ! d)" and "offset \<notin> bits_of (levels ! d)"
  shows "level_changed levels (SetBit_loop levels (Suc d) offset) d (insert offset (bits_of (levels ! d))) \<and>
    SetBit_asserts levels (Suc d) offset"
  using assms
proof (induction d arbitrary: levels offset)
  case 0
  then have "level_changed levels (levels[0 := (levels ! 0)[offset div 64 :=
      levels ! 0 ! (offset div 64) OR 2 ^ (offset mod 64)]]) 0 (insert offset (bits_of (levels ! 0)))"
    by (intro level_changed_top) (simp_all add: bits_of_insert)
  with 0 show ?case by (simp add: SetBit_loop_Suc Let_def single_bit_and bits_of_def)
next
  case (Suc d)
  let ?ind = "offset div 64"
  let ?v = "levels ! Suc d ! ?ind"
  let ?ws = "(levels ! Suc d)[?ind := ?v OR 2 ^ (offset mod 64)]"
  let ?levels = "levels[Suc d := ?ws]"
  have s: "summarises (levels ! d) (levels ! Suc d)" "chain_upto levels d"
    using Suc.prems(2) by (simp_all add: chain_upto_Suc)
  have a: "?v AND 2 ^ (offset mod 64) = 0"
    using Suc.prems(3,4) by (simp add: single_bit_and bits_of_def)
  note nz = set_word_nonzero [of ?v offset]
  show ?case
  proof (cases "?v = 0")
    case False
    have "level_changed levels ?levels (Suc d) (insert offset (bits_of (levels ! Suc d)))"
      using Suc.prems False nz by (intro level_changed_top) (simp_all add: bits_of_insert)
    with False a show ?thesis by (simp add: SetBit_loop_Suc Let_def)
  next
    case True
    note parent = summarises_parent [OF s(1) Suc.prems(3)]
    have IH: "level_changed ?levels (SetBit_loop ?levels (Suc d) ?ind) d (insert ?ind (bits_of (?levels ! d))) \<and>
        SetBit_asserts ?levels (Suc d) ?ind"
      using Suc.prems(1) s(2) parent True by (intro Suc.IH) (simp_all add: chain_upto_update)
    have "level_changed levels (SetBit_loop ?levels (Suc d) ?ind) (Suc d)
        (insert offset (bits_of (levels ! Suc d)))"
    proof (rule level_changed_below)
      show "bits_of ?ws = insert offset (bits_of (levels ! Suc d))"
        using Suc.prems(3) by (rule bits_of_insert)
      fix up assume "length up = length (levels ! d)" "bits_of up = insert ?ind (bits_of (?levels ! d))"
      then show "summarises up ?ws" using s(1) Suc.prems(3) nz by (intro summarises_set) simp_all
    qed (use IH Suc.prems(1) in simp_all)
    with True a IH show ?thesis
      by (simp add: SetBit_loop_Suc [of levels] SetBit_asserts_update Let_def)
  qed
qed


lemma bits_of_word_zero:
  assumes "offset \<in> bits_of ws"
  shows "ws ! (offset div 64) \<noteq> 0"
  using assms by (auto simp: bits_of_def)

lemma ClearBit_loop_correct:
  assumes "d < length levels" and "chain_upto levels d" and "offset \<in> bits_of (levels ! d)"
  shows "level_changed levels (ClearBit_loop levels (Suc d) offset) d (bits_of (levels ! d) - {offset}) \<and>
    ClearBit_asserts levels (Suc d) offset"
  using assms
proof (induction d arbitrary: levels offset)
  case 0
  have i: "offset div 64 < length (levels ! 0)" using 0(3) by (simp add: bits_of_def)
  have "level_changed levels (levels[0 := (levels ! 0)[offset div 64 :=
      levels ! 0 ! (offset div 64) AND NOT (2 ^ (offset mod 64))]]) 0 (bits_of (levels ! 0) - {offset})"
    using 0 i by (intro level_changed_top) (simp_all add: bits_of_remove)
  with 0 show ?case by (simp add: ClearBit_loop_Suc Let_def single_bit_and bits_of_def)
next
  case (Suc d)
  let ?ind = "offset div 64"
  let ?v = "levels ! Suc d ! ?ind"
  let ?w = "?v AND NOT (2 ^ (offset mod 64))"
  let ?ws = "(levels ! Suc d)[?ind := ?w]"
  let ?levels = "levels[Suc d := ?ws]"
  have i: "?ind < length (levels ! Suc d)" using Suc.prems(3) by (simp add: bits_of_def)
  have s: "summarises (levels ! d) (levels ! Suc d)" "chain_upto levels d"
    using Suc.prems(2) by (simp_all add: chain_upto_Suc)
  have a: "?v AND 2 ^ (offset mod 64) \<noteq> 0"
    using Suc.prems(3) by (simp add: single_bit_and bits_of_def)
  note nz = bits_of_word_zero [OF Suc.prems(3)]
  show ?case
  proof (cases "?w = 0")
    case False
    have "level_changed levels ?levels (Suc d) (bits_of (levels ! Suc d) - {offset})"
      using Suc.prems False nz i by (intro level_changed_top) (simp_all add: bits_of_remove)
    with False a show ?thesis by (simp add: ClearBit_loop_Suc Let_def)
  next
    case True
    note parent = summarises_parent [OF s(1) i]
    have IH: "level_changed ?levels (ClearBit_loop ?levels (Suc d) ?ind) d (bits_of (?levels ! d) - {?ind}) \<and>
        ClearBit_asserts ?levels (Suc d) ?ind"
      using Suc.prems(1) s(2) parent nz by (intro Suc.IH) (simp_all add: chain_upto_update)
    have "level_changed levels (ClearBit_loop ?levels (Suc d) ?ind) (Suc d)
        (bits_of (levels ! Suc d) - {offset})"
    proof (rule level_changed_below)
      show "bits_of ?ws = bits_of (levels ! Suc d) - {offset}" using i by (rule bits_of_remove)
      fix up assume "length up = length (levels ! d)" "bits_of up = bits_of (?levels ! d) - {?ind}"
      then show "summarises up ?ws" using s(1) i unfolding True by (intro summarises_clear) simp_all
    qed (use IH Suc.prems(1) in simp_all)
    with True a IH show ?thesis
      by (simp add: ClearBit_loop_Suc [of levels] ClearBit_asserts_update Let_def)
  qed
qed

section \<open>The bitmap as a set\<close>

text \<open>
  A bitmap of capacity \<open>n\<close>: as many levels as the size needs, each summarising the next, the root a
  single word, every bit below the size, and the number of bits counted.
\<close>

definition leaves :: "KPageBitmap \<Rightarrow> u64 list" where
  "leaves b = last (m_bit_storages b)"

definition bitmap_set :: "KPageBitmap \<Rightarrow> nat set" where
  "bitmap_set b = bits_of (leaves b)"

definition bitmap_ok :: "KPageBitmap \<Rightarrow> nat \<Rightarrow> bool" where
  "bitmap_ok b n \<longleftrightarrow>
     m_bit_storages b \<noteq> [] \<and> chain_upto (m_bit_storages b) (length (m_bit_storages b) - 1) \<and>
     length (hd (m_bit_storages b)) = 1 \<and> n \<le> 64 * length (leaves b) \<and> n < 2 ^ 63 \<and>
     bitmap_set b \<subseteq> {..<n} \<and> m_num_bits b = card (bitmap_set b)"

lemma bitmap_ok_levels:
  assumes "bitmap_ok b n"
  obtains d where "length (m_bit_storages b) = Suc d" "m_used_depths b = Suc d"
    "leaves b = m_bit_storages b ! d" "chain_upto (m_bit_storages b) d"
  using assms by (cases "length (m_bit_storages b)")
    (auto simp: bitmap_ok_def leaves_def m_used_depths_def last_conv_nth)

lemma level_changed_bitmap:
  assumes "bitmap_ok b n" and "length (m_bit_storages b) = Suc d"
    and "level_changed (m_bit_storages b) levels' d S" and "S \<subseteq> {..<n}" and "k = card S"
  shows "bitmap_ok (b\<lparr>m_bit_storages := levels', m_num_bits := k\<rparr>) n"
    and "bitmap_set (b\<lparr>m_bit_storages := levels', m_num_bits := k\<rparr>) = S"
proof -
  have len: "map length levels' = map length (m_bit_storages b)" using assms(3) by (simp add: level_changed_def)
  then have l: "length levels' = Suc d" using assms(2) by (metis length_map)
  then have ne: "levels' \<noteq> []" "m_bit_storages b \<noteq> []" using assms(2) by auto
  have lv: "last levels' = levels' ! d" "last (m_bit_storages b) = m_bit_storages b ! d"
    using ne l assms(2) by (simp_all add: last_conv_nth)
  have "length (levels' ! d) = length (m_bit_storages b ! d)" "length (levels' ! 0) = length (m_bit_storages b ! 0)"
    using map_length_nth [OF len, of d] map_length_nth [OF len, of 0] assms(2) by auto
  with assms l lv ne show "bitmap_ok (b\<lparr>m_bit_storages := levels', m_num_bits := k\<rparr>) n"
    "bitmap_set (b\<lparr>m_bit_storages := levels', m_num_bits := k\<rparr>) = S"
    by (simp_all add: bitmap_ok_def bitmap_set_def leaves_def level_changed_def hd_conv_nth)
qed

lemma bitmap_card_less: "bitmap_ok b n \<Longrightarrow> card (bitmap_set b) \<le> n"
  by (metis bitmap_ok_def card_lessThan card_mono finite_lessThan)

lemma SetBit_bitmap:
  assumes "bitmap_ok b n" and "offset < n" and "offset \<notin> bitmap_set b"
  shows "bitmap_ok (KPageBitmap_SetBit b offset) n"
    and "bitmap_set (KPageBitmap_SetBit b offset) = insert offset (bitmap_set b)"
    and "SetBit_asserts (m_bit_storages b) (m_used_depths b) offset"
proof -
  obtain d where d: "length (m_bit_storages b) = Suc d" "m_used_depths b = Suc d"
    "leaves b = m_bit_storages b ! d" "chain_upto (m_bit_storages b) d"
    using assms(1) by (rule bitmap_ok_levels)
  have "offset div 64 < length (m_bit_storages b ! d)"
    using assms(1,2) by (simp add: bitmap_ok_def d(3) div_64_less)
  then have c: "level_changed (m_bit_storages b) (SetBit_loop (m_bit_storages b) (Suc d) offset) d
      (insert offset (bitmap_set b)) \<and> SetBit_asserts (m_bit_storages b) (Suc d) offset"
    using assms(3) d SetBit_loop_correct [of d "m_bit_storages b" offset] by (simp add: bitmap_set_def)
  have fin: "finite (bitmap_set b)" by (simp add: bitmap_set_def)
  have "card (bitmap_set b) < 2 ^ 63" using bitmap_card_less [OF assms(1)] assms(1) by (simp add: bitmap_ok_def)
  then have k: "add64 (m_num_bits b) 1 = card (insert offset (bitmap_set b))"
    using assms(1,3) fin by (simp add: bitmap_ok_def add64_eq)
  have S: "insert offset (bitmap_set b) \<subseteq> {..<n}" using assms(1,2) by (simp add: bitmap_ok_def)
  show "bitmap_ok (KPageBitmap_SetBit b offset) n"
    "bitmap_set (KPageBitmap_SetBit b offset) = insert offset (bitmap_set b)"
    using level_changed_bitmap [OF assms(1) d(1) conjunct1 [OF c] S k]
    by (simp_all add: KPageBitmap_SetBit_def d(2))
  show "SetBit_asserts (m_bit_storages b) (m_used_depths b) offset" using c d(2) by simp
qed

lemma ClearBit_bitmap:
  assumes "bitmap_ok b n" and "offset \<in> bitmap_set b"
  shows "bitmap_ok (KPageBitmap_ClearBit b offset) n"
    and "bitmap_set (KPageBitmap_ClearBit b offset) = bitmap_set b - {offset}"
    and "ClearBit_asserts (m_bit_storages b) (m_used_depths b) offset"
proof -
  obtain d where d: "length (m_bit_storages b) = Suc d" "m_used_depths b = Suc d"
    "leaves b = m_bit_storages b ! d" "chain_upto (m_bit_storages b) d"
    using assms(1) by (rule bitmap_ok_levels)
  then have c: "level_changed (m_bit_storages b) (ClearBit_loop (m_bit_storages b) (Suc d) offset) d
      (bitmap_set b - {offset}) \<and> ClearBit_asserts (m_bit_storages b) (Suc d) offset"
    using assms(2) ClearBit_loop_correct [of d "m_bit_storages b" offset] by (simp add: bitmap_set_def)
  have fin: "finite (bitmap_set b)" by (simp add: bitmap_set_def)
  have m: "m_num_bits b = card (bitmap_set b)" using assms(1) by (simp add: bitmap_ok_def)
  have "card (bitmap_set b) < 2 ^ 63" using bitmap_card_less [OF assms(1)] assms(1) by (simp add: bitmap_ok_def)
  moreover have "0 < card (bitmap_set b)" using assms(2) fin by (auto simp: card_gt_0_iff)
  ultimately have k: "sub64 (m_num_bits b) 1 = card (bitmap_set b - {offset})"
    using assms(2) fin by (simp add: m sub64_eq)
  have S: "bitmap_set b - {offset} \<subseteq> {..<n}" using assms(1) by (auto simp: bitmap_ok_def)
  show "bitmap_ok (KPageBitmap_ClearBit b offset) n"
    "bitmap_set (KPageBitmap_ClearBit b offset) = bitmap_set b - {offset}"
    using level_changed_bitmap [OF assms(1) d(1) conjunct1 [OF c] S k]
    by (simp_all add: KPageBitmap_ClearBit_def d(2))
  show "ClearBit_asserts (m_bit_storages b) (m_used_depths b) offset" using c d(2) by simp
qed

end
