(* ===== verification/Page_Bitmap_Search.thy ===== *)
theory Page_Bitmap_Search
  imports Page_Bitmap
begin

text \<open>
  \<^verbatim>\<open>KPageBitmap\<close>, continued: correctness of the searches, of clearing a range and of the
  initialisation, and the properties of the bitmap as a whole.
\<close>

section \<open>Searching\<close>

lemma chain_ok_upto: "chain_ok levels \<longleftrightarrow> chain_upto levels (length levels - 1)"
  by (auto simp: chain_ok_def chain_upto_def)

text \<open>The index, \<open>n\<close> levels up, of the word above an offset.\<close>

definition ancestor :: "nat \<Rightarrow> nat \<Rightarrow> nat" where
  "ancestor n x = x div 64 ^ n"

lemma ancestor_simps: "ancestor 0 x = x" "ancestor (Suc n) x = ancestor n x div 64"
  by (simp_all add: ancestor_def power_Suc2 div_mult2_eq del: power_Suc)

lemma ancestor_mono: "ancestor n x < ancestor n y \<Longrightarrow> x \<le> y"
  unfolding ancestor_def by (meson div_le_mono not_le order.strict_implies_order)

lemma leaf_ancestor:
  assumes "chain_ok (ws # levels)" and "x \<in> bits_of (last (ws # levels))"
  shows "ancestor (Suc (length levels)) x < length ws \<and> ws ! (ancestor (Suc (length levels)) x) \<noteq> 0"
  using assms
proof (induction levels arbitrary: ws)
  case Nil
  then show ?case using bits_of_word_zero by (simp add: bits_of_def ancestor_simps)
next
  case (Cons vs levels)
  then have "summarises ws vs" and j: "ancestor (Suc (length levels)) x < length vs \<and> vs ! (ancestor (Suc (length levels)) x) \<noteq> 0"
    by (auto simp: chain_ok_Cons)
  then have "ancestor (Suc (length levels)) x \<in> bits_of ws" by (simp add: summarises_def)
  from bits_of_word_zero [OF this] this show ?case
    by (simp add: bits_of_def ancestor_simps)
qed

lemma word_bit_position: "n < 64 \<Longrightarrow> (i * 64 + n) div 64 = i" "n < 64 \<Longrightarrow> (i * 64 + n) mod 64 = n" for i n :: nat
  by simp_all

lemma FindFreeBlock_linear_least:
  assumes "chain_ok (ws # levels)" and "i < length ws" and "ws ! i \<noteq> 0"
  shows "\<exists>r. FindFreeBlock_linear (ws # levels) i = int r \<and> r \<in> bits_of (last (ws # levels)) \<and>
    ancestor (Suc (length levels)) r = i \<and>
    (\<forall>x\<in>bits_of (last (ws # levels)). ancestor (Suc (length levels)) x = i \<longrightarrow> r \<le> x)"
  using assms
proof (induction levels arbitrary: ws i)
  case Nil
  let ?r = "i * 64 + countr_zero (ws ! i)"
  note z = countr_zero [OF Nil.prems(3)]
  have "?r \<le> x" if "x \<in> bits_of ws" "x div 64 = i" for x
  proof -
    have "bit (ws ! i) (x mod 64)" using that by (auto simp: bits_of_def)
    then have "countr_zero (ws ! i) \<le> x mod 64" using z(3) by (meson not_le)
    then show ?thesis using that(2) div_mult_mod_eq [of x 64] by linarith
  qed
  moreover have "?r \<in> bits_of ws" using Nil.prems(2) z by (simp add: bits_of_def word_bit_position)
  ultimately show ?case
    using Nil.prems z by (intro exI [of _ ?r]) (simp add: Let_def word_bit_position ancestor_simps)
next
  case (Cons vs levels)
  let ?j = "i * 64 + countr_zero (ws ! i)"
  let ?n = "Suc (length levels)"
  note z = countr_zero [OF Cons.prems(3)]
  have s: "summarises ws vs" "chain_ok (vs # levels)" using Cons.prems(1) by (simp_all add: chain_ok_Cons)
  have "?j \<in> bits_of ws" using Cons.prems(2) z by (simp add: bits_of_def word_bit_position)
  then have j: "?j < length vs" "vs ! ?j \<noteq> 0" using s(1) by (auto simp: summarises_def)
  obtain r where r: "FindFreeBlock_linear (vs # levels) ?j = int r" "r \<in> bits_of (last (vs # levels))"
    "ancestor ?n r = ?j" "\<forall>x\<in>bits_of (last (vs # levels)). ancestor ?n x = ?j \<longrightarrow> r \<le> x"
    using Cons.IH [OF s(2) j] by blast
  have "r \<le> x" if x: "x \<in> bits_of (last (vs # levels))" "ancestor (Suc ?n) x = i" for x
  proof -
    have jx: "ancestor ?n x \<in> bits_of ws"
      using leaf_ancestor [OF s(2) x(1)] s(1) by (simp add: summarises_def)
    have "ancestor ?n x div 64 = i" using x(2) by (simp only: ancestor_simps(2))
    then have "bit (ws ! i) (ancestor ?n x mod 64)" using jx by (auto simp: bits_of_def)
    then have "countr_zero (ws ! i) \<le> ancestor ?n x mod 64" using z(3) by (meson not_le)
    then have le: "?j \<le> ancestor ?n x"
      using \<open>ancestor ?n x div 64 = i\<close> div_mult_mod_eq [of "ancestor ?n x" 64] by linarith
    show "r \<le> x"
    proof (cases "ancestor ?n x = ?j")
      case True
      with r(4) x(1) show ?thesis by blast
    next
      case False
      with le r(3) have "ancestor ?n r < ancestor ?n x" by linarith
      then show ?thesis by (rule ancestor_mono)
    qed
  qed
  moreover have "ancestor (Suc ?n) r = i" using z(2) by (simp add: ancestor_simps(2) [of ?n] r(3) word_bit_position del: ancestor_simps)
  ultimately show ?case using r(1,2) Cons.prems(3) by (simp add: Let_def)
qed

lemma FindFreeBlock_random_member:
  assumes "chain_ok (ws # levels)" and "i < length ws" and "ws ! i \<noteq> 0"
  shows "\<exists>r g'. FindFreeBlock_random (ws # levels) i g = (int r, g') \<and> r \<in> bits_of (last (ws # levels))"
  using assms
proof (induction levels arbitrary: ws i g)
  case Nil
  obtain k g' where k: "SelectRandomBit (ws ! i) g = (k, g')" by fastforce
  note b = SelectRandomBit_bit [OF Nil.prems(3) k]
  have "i * 64 + k \<in> bits_of ws" using b Nil.prems(2) by (simp add: bits_of_def word_bit_position)
  with k Nil.prems show ?case by (intro exI [of _ "i * 64 + k"] exI [of _ g']) (simp add: Let_def)
next
  case (Cons vs levels)
  obtain k g' where k: "SelectRandomBit (ws ! i) g = (k, g')" by fastforce
  note b = SelectRandomBit_bit [OF Cons.prems(3) k]
  have s: "summarises ws vs" "chain_ok (vs # levels)" using Cons.prems(1) by (simp_all add: chain_ok_Cons)
  have "i * 64 + k \<in> bits_of ws" using b Cons.prems(2) by (simp add: bits_of_def word_bit_position)
  then have j: "i * 64 + k < length vs" "vs ! (i * 64 + k) \<noteq> 0" using s(1) by (auto simp: summarises_def)
  from Cons.IH [OF s(2) j, of g'] k Cons.prems(3) show ?case by (simp add: Let_def)
qed

lemma root_word:
  assumes "bitmap_ok b n"
  obtains ws levels where "m_bit_storages b = ws # levels" "length ws = 1" "chain_ok (ws # levels)"
    "bitmap_set b = bits_of (last (ws # levels))" "ws ! 0 = 0 \<longleftrightarrow> bitmap_set b = {}"
proof -
  obtain ws levels where w: "m_bit_storages b = ws # levels" "length ws = 1" "chain_ok (ws # levels)"
    using assms by (cases "m_bit_storages b") (auto simp: bitmap_ok_def chain_ok_upto)
  have S: "bitmap_set b = bits_of (last (ws # levels))" by (simp add: bitmap_set_def leaves_def w(1))
  have "ws ! 0 = 0 \<longleftrightarrow> bitmap_set b = {}"
  proof
    assume z: "ws ! 0 = 0"
    show "bitmap_set b = {}"
    proof (rule ccontr)
      assume "bitmap_set b \<noteq> {}"
      then obtain x where "x \<in> bits_of (last (ws # levels))" using S by blast
      from leaf_ancestor [OF w(3) this] w(2) z show False by auto
    qed
  next
    assume "bitmap_set b = {}"
    with FindFreeBlock_linear_least [OF w(3), of 0] w(2) S show "ws ! 0 = 0" by auto
  qed
  with w S that show ?thesis by blast
qed

lemma FindFreeBlock_linear_Min:
  assumes "bitmap_ok b n"
  shows "KPageBitmap_FindFreeBlock b False =
    (if bitmap_set b = {} then (- 1, b) else (int (Min (bitmap_set b)), b))"
proof -
  obtain ws levels where w: "m_bit_storages b = ws # levels" "length ws = 1" "chain_ok (ws # levels)"
    "bitmap_set b = bits_of (last (ws # levels))" "ws ! 0 = 0 \<longleftrightarrow> bitmap_set b = {}"
    using assms by (rule root_word)
  show ?thesis
  proof (cases "bitmap_set b = {}")
    case True
    with w show ?thesis by (simp add: KPageBitmap_FindFreeBlock_def)
  next
    case False
    then obtain r where r: "FindFreeBlock_linear (ws # levels) 0 = int r" "r \<in> bitmap_set b"
      "\<forall>x\<in>bitmap_set b. ancestor (Suc (length levels)) x = 0 \<longrightarrow> r \<le> x"
      using FindFreeBlock_linear_least [OF w(3), of 0] w(2,4,5) by auto
    have "r \<le> x" if "x \<in> bitmap_set b" for x
      using r(3) that leaf_ancestor [OF w(3), of x] w(2,4) by simp
    then have "r = Min (bitmap_set b)"
      using r(2) by (intro Min_eqI [symmetric]) (simp_all add: bitmap_set_def)
    with False r(1) w(1) show ?thesis by (simp add: KPageBitmap_FindFreeBlock_def)
  qed
qed

lemma FindFreeBlock_random_In:
  assumes "bitmap_ok b n" and "KPageBitmap_FindFreeBlock b True = (r, b')"
  shows "\<exists>g. b' = b\<lparr>m_bitmap_rng := g\<rparr>"
    and "if bitmap_set b = {} then r = - 1 else 0 \<le> r \<and> nat r \<in> bitmap_set b"
proof -
  obtain ws levels where w: "m_bit_storages b = ws # levels" "length ws = 1" "chain_ok (ws # levels)"
    "bitmap_set b = bits_of (last (ws # levels))" "ws ! 0 = 0 \<longleftrightarrow> bitmap_set b = {}"
    using assms(1) by (rule root_word)
  show "\<exists>g. b' = b\<lparr>m_bitmap_rng := g\<rparr>"
    using assms(2) by (auto simp: KPageBitmap_FindFreeBlock_def split: prod.splits)
  show "if bitmap_set b = {} then r = - 1 else 0 \<le> r \<and> nat r \<in> bitmap_set b"
  proof (cases "bitmap_set b = {}")
    case True
    with w assms(2) show ?thesis by (simp add: KPageBitmap_FindFreeBlock_def)
  next
    case False
    with FindFreeBlock_random_member [OF w(3), of 0 "m_bitmap_rng b"] w assms(2) show ?thesis
      by (auto simp: KPageBitmap_FindFreeBlock_def)
  qed
qed

section \<open>Clearing a range\<close>

lemma range_mask_bit:
  assumes "shift + count \<le> 64" and "n < 64"
  shows "bit (push_bit shift (push_bit count 1 - 1) :: u64) n \<longleftrightarrow> shift \<le> n \<and> n < shift + count"
proof -
  have "(push_bit count 1 - 1 :: u64) = mask count" by (simp add: mask_eq_exp_minus_1)
  then show ?thesis using assms by (auto simp: bit_push_bit_iff bit_mask_iff)
qed

lemma range_mask_subset:
  assumes "shift + count \<le> 64"
  defines "msk \<equiv> push_bit shift (push_bit count 1 - 1) :: u64"
  shows "v AND msk = msk \<longleftrightarrow> (\<forall>n. shift \<le> n \<and> n < shift + count \<longrightarrow> bit v n)"
proof
  assume a: "v AND msk = msk"
  show "\<forall>n. shift \<le> n \<and> n < shift + count \<longrightarrow> bit v n"
  proof (intro allI impI)
    fix n assume n: "shift \<le> n \<and> n < shift + count"
    have "bit msk n" unfolding msk_def using n assms(1) by (subst range_mask_bit) simp_all
    then have "bit (v AND msk) n" using a by simp
    then show "bit v n" by (simp add: bit_and_iff)
  qed
next
  assume a: "\<forall>n. shift \<le> n \<and> n < shift + count \<longrightarrow> bit v n"
  show "v AND msk = msk"
  proof (rule bit_word_eqI)
    fix n assume "n < LENGTH(64)"
    then have "bit msk n \<longleftrightarrow> shift \<le> n \<and> n < shift + count"
      unfolding msk_def using assms(1) by (intro range_mask_bit) simp_all
    then show "bit (v AND msk) n = bit msk n" using a by (auto simp: bit_and_iff)
  qed
qed

lemma offset_range:
  fixes offset count j :: nat
  assumes "offset mod 64 + count \<le> 64" and "0 < count"
  shows "j \<in> {offset..<offset + count} \<longleftrightarrow>
    j div 64 = offset div 64 \<and> offset mod 64 \<le> j mod 64 \<and> j mod 64 < offset mod 64 + count"
proof
  assume "j \<in> {offset..<offset + count}"
  then have j: "offset \<le> j" "j < offset + count" by simp_all
  have o: "offset = offset div 64 * 64 + offset mod 64" by simp
  have "j div 64 = offset div 64"
  proof (rule div_nat_eqI)
    show "64 * (offset div 64) \<le> j" using j o by linarith
    show "j < 64 * Suc (offset div 64)" unfolding mult_Suc_right using j assms(1) o by linarith
  qed
  moreover have "j = j div 64 * 64 + j mod 64" "offset = offset div 64 * 64 + offset mod 64" by simp_all
  ultimately show "j div 64 = offset div 64 \<and> offset mod 64 \<le> j mod 64 \<and> j mod 64 < offset mod 64 + count"
    using j by linarith
next
  assume "j div 64 = offset div 64 \<and> offset mod 64 \<le> j mod 64 \<and> j mod 64 < offset mod 64 + count"
  moreover have "j = j div 64 * 64 + j mod 64" "offset = offset div 64 * 64 + offset mod 64" by simp_all
  ultimately have "offset \<le> j" "j < offset + count" by linarith+
  then show "j \<in> {offset..<offset + count}" by simp
qed

lemma level_changed_trans:
  "level_changed a b d S \<Longrightarrow> level_changed b c d T \<Longrightarrow> level_changed a c d T"
  by (auto simp: level_changed_def)

text \<open>Overwriting a nonzero word and, when it becomes zero, clearing its bit above.\<close>

lemma word_cleared:
  fixes v :: u64
  assumes "d < length levels" and "chain_upto levels d" and "i < length (levels ! d)"
    and "levels ! d ! i \<noteq> 0"
  defines "levels1 \<equiv> levels[d := (levels ! d)[i := v]]"
  shows "level_changed levels (if v = 0 then ClearBit_loop levels1 d i else levels1) d
    (bits_of ((levels ! d)[i := v]))"
proof (cases "v \<noteq> 0 \<or> d = 0")
  case True
  have "level_changed levels levels1 d (bits_of ((levels ! d)[i := v]))"
    unfolding levels1_def using assms(1-4) True by (intro level_changed_top) auto
  with True show ?thesis by auto
next
  case False
  then obtain e where d: "d = Suc e" "v = 0" by (cases d) auto
  have s: "summarises (levels ! e) (levels ! Suc e)" "chain_upto levels e"
    using assms(2) d by (simp_all add: chain_upto_Suc)
  have i: "i \<in> bits_of (levels ! e)" using summarises_parent [OF s(1)] assms(3,4) d by simp
  have "level_changed levels1 (ClearBit_loop levels1 (Suc e) i) e (bits_of (levels1 ! e) - {i})"
    using ClearBit_loop_correct [of e levels1 i] assms(1) s(2) i
    by (simp add: levels1_def d(1) chain_upto_update)
  then have "level_changed levels (ClearBit_loop levels1 (Suc e) i) (Suc e) (bits_of ((levels ! d)[i := v]))"
    unfolding levels1_def d(1)
  proof (rule level_changed_below)
    fix up assume "length up = length (levels ! e)"
      "bits_of up = bits_of (levels[Suc e := (levels ! Suc e)[i := v]] ! e) - {i}"
    then show "summarises up ((levels ! Suc e)[i := v])"
      unfolding d(2) using s(1) assms(3) d(1) by (intro summarises_clear) simp_all
  qed (use assms(1) d(1) in simp_all)
  with d show ?thesis by simp
qed

lemma bits_of_full_words:
  assumes "ind + n \<le> length ws"
  shows "(\<forall>i<n. ws ! (ind + i) = - 1) \<longleftrightarrow> {64 * ind..<64 * (ind + n)} \<subseteq> bits_of ws"
proof
  assume a: "\<forall>i<n. ws ! (ind + i) = - 1"
  show "{64 * ind..<64 * (ind + n)} \<subseteq> bits_of ws"
  proof
    fix j assume "j \<in> {64 * ind..<64 * (ind + n)}"
    then have "ind \<le> j div 64" "j div 64 < ind + n" by (auto simp: div_64_less less_eq_div_iff_mult_less_eq mult.commute)
    moreover from this have "ws ! (j div 64) = - 1" using a [rule_format, of "j div 64 - ind"] by simp
    ultimately show "j \<in> bits_of ws" using assms by (simp add: bits_of_def)
  qed
next
  assume a: "{64 * ind..<64 * (ind + n)} \<subseteq> bits_of ws"
  show "\<forall>i<n. ws ! (ind + i) = - 1"
  proof (intro allI impI bit_word_eqI)
    fix i k assume i: "i < n" and k: "k < LENGTH(64)"
    then have "(ind + i) * 64 + k \<in> {64 * ind..<64 * (ind + n)}" by simp
    then have "(ind + i) * 64 + k \<in> bits_of ws" using a by blast
    then have "bit (ws ! (ind + i)) k" using k word_bit_position [of k "ind + i"] by (simp add: bits_of_def)
    then show "bit (ws ! (ind + i)) k = bit (- 1 :: u64) k" using k by simp
  qed
qed

lemma ClearRange_full_correct:
  assumes "ind + Suc n \<le> length bits" and "64 * Suc n < 2 ^ 64"
  shows "ClearRange_full bits ind (64 * Suc n) = Some (\<forall>i<Suc n. bits ! (ind + i) = - 1)"
  using assms
proof (induction n arbitrary: ind)
  case 0
  then show ?case by (simp add: ClearRange_full.simps [of bits] sub64_eq)
next
  case (Suc n)
  have r: "sub64 (64 * Suc (Suc n)) 64 = 64 * Suc n" using Suc.prems(2) by (simp add: sub64_eq)
  have "ClearRange_full bits (ind + 1) (64 * Suc n) = Some (\<forall>i<Suc n. bits ! (ind + 1 + i) = - 1)"
    using Suc.prems by (intro Suc.IH) simp_all
  moreover have "(\<forall>i<Suc (Suc n). bits ! (ind + i) = - 1) \<longleftrightarrow> bits ! ind = - 1 \<and> (\<forall>i<Suc n. bits ! (ind + 1 + i) = - 1)"
    by (subst All_less_Suc2) simp
  ultimately show ?case using Suc.prems(1) by (simp add: ClearRange_full.simps [of bits ind] r del: mult_Suc_right)
qed

lemma word_cleared_round:
  assumes "d < length levels" and "chain_upto levels d" and "ind < length (levels ! d)" and "levels ! d ! ind \<noteq> 0"
  defines "levels' \<equiv> ClearBit_loop (levels[d := (levels ! d)[ind := 0]]) d ind"
  shows "level_changed levels levels' d (bits_of (levels ! d) - {64 * ind..<64 * Suc ind})"
    and "length levels' = length levels" and "length (levels' ! d) = length (levels ! d)" and "chain_upto levels' d"
    and "bits_of (levels' ! d) = bits_of (levels ! d) - {64 * ind..<64 * Suc ind}"
proof -
  let ?S = "bits_of ((levels ! d)[ind := 0])"
  have c: "level_changed levels levels' d ?S" unfolding levels'_def using word_cleared [of d levels ind 0] assms(1-4) by simp
  have S: "?S = bits_of (levels ! d) - {64 * ind..<64 * Suc ind}"
  proof (rule set_eqI)
    fix j
    have "j div 64 = ind \<longleftrightarrow> 64 * ind \<le> j \<and> j < 64 * Suc ind" by auto
    then show "j \<in> ?S \<longleftrightarrow> j \<in> bits_of (levels ! d) - {64 * ind..<64 * Suc ind}"
      using assms(3) by (auto simp: bits_of_update)
  qed
  show "level_changed levels levels' d (bits_of (levels ! d) - {64 * ind..<64 * Suc ind})" using c unfolding S .
  show "length levels' = length levels" "length (levels' ! d) = length (levels ! d)"
    using c assms(1) map_length_nth [of levels' levels d] unfolding level_changed_def by (metis length_map, metis not_le)
  show "chain_upto levels' d" "bits_of (levels' ! d) = bits_of (levels ! d) - {64 * ind..<64 * Suc ind}"
    using c unfolding level_changed_def S by auto
qed

lemma ClearRange_words_correct:
  assumes "d < length levels" and "chain_upto levels d" and "ind + Suc n \<le> length (levels ! d)"
    and "\<forall>i<Suc n. levels ! d ! (ind + i) \<noteq> 0" and "64 * Suc n < 2 ^ 64"
  shows "\<exists>levels'. ClearRange_words levels d ind (64 * Suc n) = Some levels' \<and>
    level_changed levels levels' d (bits_of (levels ! d) - {64 * ind..<64 * (ind + Suc n)})"
  using assms
proof (induction n arbitrary: levels ind)
  case 0
  then show ?case using word_cleared_round(1) [of d levels ind] by (simp add: ClearRange_words.simps [of levels] sub64_eq)
next
  case (Suc n)
  let ?levels = "ClearBit_loop (levels[d := (levels ! d)[ind := 0]]) d ind"
  have r: "sub64 (64 * Suc (Suc n)) 64 = 64 * Suc n" using Suc.prems(5) by (simp add: sub64_eq)
  have i: "ind < length (levels ! d)" "levels ! d ! ind \<noteq> 0" using Suc.prems(3) Suc.prems(4)[rule_format, of 0] by simp_all
  note c = word_cleared_round [OF Suc.prems(1,2) i]
  have nz: "\<forall>i<Suc n. ?levels ! d ! (ind + 1 + i) \<noteq> 0"
  proof (intro allI impI)
    fix i assume i: "i < Suc n"
    have "levels ! d ! (ind + Suc i) \<noteq> 0" using Suc.prems(4) i by blast
    then obtain j where j: "j \<in> bits_of (levels ! d)" "j div 64 = ind + Suc i"
      using bits_of_word [of "ind + Suc i" "levels ! d"] Suc.prems(3) i by auto
    then have "j \<in> bits_of (?levels ! d)" unfolding c(5) by auto
    from bits_of_word_zero [OF this] j(2) show "?levels ! d ! (ind + 1 + i) \<noteq> 0" by simp
  qed
  obtain levels' where l: "ClearRange_words ?levels d (ind + 1) (64 * Suc n) = Some levels'"
    "level_changed ?levels levels' d (bits_of (?levels ! d) - {64 * (ind + 1)..<64 * (ind + 1 + Suc n)})"
    using Suc.IH [of ?levels "ind + 1"] c(2-4) Suc.prems nz by auto
  have "bits_of (?levels ! d) - {64 * (ind + 1)..<64 * (ind + 1 + Suc n)}
      = bits_of (levels ! d) - {64 * ind..<64 * (ind + Suc (Suc n))}"
    unfolding c(5) by auto
  then have "level_changed levels levels' d (bits_of (levels ! d) - {64 * ind..<64 * (ind + Suc (Suc n))})"
    using level_changed_trans [OF c(1) l(2)] by simp
  then show ?case using l(1) i(1) r by (simp add: ClearRange_words.simps [of levels d ind] del: mult_Suc_right)
qed

lemma range_word_subset:
  assumes "offset div 64 < length ws" and "offset mod 64 + count \<le> 64" and "0 < count"
  defines "msk \<equiv> push_bit (offset mod 64) (push_bit count 1 - 1) :: u64"
  shows "ws ! (offset div 64) AND msk = msk \<longleftrightarrow> {offset..<offset + count} \<subseteq> bits_of ws"
proof -
  let ?i = "offset div 64"
  note R = offset_range [OF assms(2,3)]
  have "{offset..<offset + count} \<subseteq> bits_of ws \<longleftrightarrow>
      (\<forall>n. offset mod 64 \<le> n \<and> n < offset mod 64 + count \<longrightarrow> bit (ws ! ?i) n)"
  proof
    assume a: "{offset..<offset + count} \<subseteq> bits_of ws"
    show "\<forall>n. offset mod 64 \<le> n \<and> n < offset mod 64 + count \<longrightarrow> bit (ws ! ?i) n"
    proof (intro allI impI)
      fix n assume n: "offset mod 64 \<le> n \<and> n < offset mod 64 + count"
      then have "?i * 64 + n \<in> {offset..<offset + count}"
        unfolding R using assms(2) by (simp add: word_bit_position)
      then have "?i * 64 + n \<in> bits_of ws" using a by blast
      then show "bit (ws ! ?i) n" using n assms(2) by (simp add: bits_of_def word_bit_position)
    qed
  next
    assume a: "\<forall>n. offset mod 64 \<le> n \<and> n < offset mod 64 + count \<longrightarrow> bit (ws ! ?i) n"
    show "{offset..<offset + count} \<subseteq> bits_of ws"
    proof
      fix j assume "j \<in> {offset..<offset + count}"
      with R a assms(1) show "j \<in> bits_of ws" by (simp add: bits_of_def)
    qed
  qed
  then show ?thesis unfolding msk_def using range_mask_subset [OF assms(2)] by simp
qed

lemma range_word_diff:
  assumes "offset div 64 < length ws" and "offset mod 64 + count \<le> 64" and "0 < count"
  defines "msk \<equiv> push_bit (offset mod 64) (push_bit count 1 - 1) :: u64"
  shows "bits_of (ws[offset div 64 := ws ! (offset div 64) AND NOT msk])
    = bits_of ws - {offset..<offset + count}"
proof (rule set_eqI)
  fix j
  have "bit (ws ! (offset div 64) AND NOT msk) (j mod 64) \<longleftrightarrow> bit (ws ! (offset div 64)) (j mod 64) \<and>
      \<not> (offset mod 64 \<le> j mod 64 \<and> j mod 64 < offset mod 64 + count)"
    unfolding msk_def bit_and_iff bit_not_iff using range_mask_bit [OF assms(2), of "j mod 64"] by simp
  then show "j \<in> bits_of (ws[offset div 64 := ws ! (offset div 64) AND NOT msk]) \<longleftrightarrow>
      j \<in> bits_of ws - {offset..<offset + count}"
    unfolding Diff_iff offset_range [OF assms(2,3)] bits_of_update [OF assms(1)]
    using assms(1) by (auto simp: bits_of_def)
qed

lemma ClearRange_one_word:
  assumes "length (m_bit_storages b) = Suc d" and "chain_upto (m_bit_storages b) d"
    and "offset div 64 < length (m_bit_storages b ! d)" and "offset mod 64 + count \<le> 64"
    and "0 < count" and "count < 64"
  defines "S \<equiv> bits_of (m_bit_storages b ! d)" and "R \<equiv> {offset..<offset + count}"
  shows "\<exists>levels'. KPageBitmap_ClearRange b offset count =
      Some (if R \<subseteq> S then (True, b\<lparr>m_bit_storages := levels', m_num_bits := sub64 (m_num_bits b) count\<rparr>)
       else (False, b)) \<and>
    (R \<subseteq> S \<longrightarrow> level_changed (m_bit_storages b) levels' d (S - R))"
proof -
  let ?levels = "m_bit_storages b" and ?i = "offset div 64"
  define msk :: u64 where "msk = push_bit (offset mod 64) (push_bit count 1 - 1)"
  define v' where "v' = ?levels ! d ! ?i AND NOT msk"
  define levels1 where "levels1 = ?levels[d := (?levels ! d)[?i := v']]"
  define levels2 where "levels2 = (if v' = 0 then ClearBit_loop levels1 d ?i else levels1)"
  have D: "m_used_depths b - 1 = d" using assms(1) by (simp add: m_used_depths_def)
  have "?levels ! d ! ?i \<noteq> 0" if "R \<subseteq> S"
  proof -
    have "offset \<in> S" using that assms(5) by (auto simp: R_def)
    then show ?thesis unfolding S_def by (rule bits_of_word_zero)
  qed
  then have "level_changed ?levels levels2 d (S - R)" if "R \<subseteq> S"
    using word_cleared [of d ?levels ?i v', folded levels1_def, folded levels2_def] assms(1-3) that
      range_word_diff [OF assms(3-5), folded msk_def, folded v'_def]
    by (simp add: S_def R_def)
  moreover have "KPageBitmap_ClearRange b offset count =
      Some (if R \<subseteq> S then (True, b\<lparr>m_bit_storages := levels2, m_num_bits := sub64 (m_num_bits b) count\<rparr>)
       else (False, b))"
    unfolding KPageBitmap_ClearRange_def Let_def D msk_def [symmetric] v'_def [symmetric]
      levels1_def [symmetric] levels2_def [symmetric]
    using assms(6) range_word_subset [OF assms(3-5), folded msk_def] by (simp add: S_def R_def)
  ultimately show ?thesis by blast
qed

lemma ClearRange_words:
  assumes "length (m_bit_storages b) = Suc d" and "chain_upto (m_bit_storages b) d"
    and "offset + count \<le> 64 * length (m_bit_storages b ! d)" and "offset mod 64 = 0" and "count mod 64 = 0"
    and "64 \<le> count" and "count < 2 ^ 64"
  defines "S \<equiv> bits_of (m_bit_storages b ! d)" and "R \<equiv> {offset..<offset + count}"
  shows "\<exists>levels'. KPageBitmap_ClearRange b offset count =
      Some (if R \<subseteq> S then (True, b\<lparr>m_bit_storages := levels', m_num_bits := sub64 (m_num_bits b) count\<rparr>)
       else (False, b)) \<and>
    (R \<subseteq> S \<longrightarrow> level_changed (m_bit_storages b) levels' d (S - R))"
proof -
  let ?levels = "m_bit_storages b" and ?i = "offset div 64" and ?n = "count div 64"
  have D: "m_used_depths b - 1 = d" using assms(1) by (simp add: m_used_depths_def)
  have e: "64 * ?i = offset" "64 * ?n = count" using assms(4,5) by auto
  then have len: "?i + ?n \<le> length (?levels ! d)" using assms(3) by linarith
  have R: "R = {64 * ?i..<64 * (?i + ?n)}" unfolding R_def distrib_left e ..
  have full: "(\<forall>k<?n. ?levels ! d ! (?i + k) = - 1) \<longleftrightarrow> R \<subseteq> S"
    unfolding S_def R by (rule bits_of_full_words [OF len])
  obtain m where m: "?n = Suc m" using assms(6) by (cases ?n) simp_all
  have c: "64 * Suc m = count" using e(2) m by simp
  have check: "ClearRange_full (?levels ! d) ?i count = Some (R \<subseteq> S)"
    using ClearRange_full_correct [of ?i m "?levels ! d"] len assms(7) full unfolding c m by simp
  have "\<exists>levels'. ClearRange_words ?levels d ?i count = Some levels' \<and> level_changed ?levels levels' d (S - R)" if "R \<subseteq> S"
    using ClearRange_words_correct [of d ?levels ?i m] assms(1,2,7) len full that unfolding S_def R m c by auto
  then obtain levels' where l: "R \<subseteq> S \<Longrightarrow> ClearRange_words ?levels d ?i count = Some levels'"
    "R \<subseteq> S \<longrightarrow> level_changed ?levels levels' d (S - R)" by blast
  then have "KPageBitmap_ClearRange b offset count =
      Some (if R \<subseteq> S then (True, b\<lparr>m_bit_storages := levels', m_num_bits := sub64 (m_num_bits b) count\<rparr>) else (False, b))"
    unfolding KPageBitmap_ClearRange_def Let_def D using assms(6) check by simp
  with l(2) show ?thesis by blast
qed

lemma ClearRange_returns:
  assumes "bitmap_ok b n" and "offset + count \<le> n" and "0 < count"
    and "if count < 64 then offset mod 64 + count \<le> 64 else offset mod 64 = 0 \<and> count mod 64 = 0"
    and "length (m_bit_storages b) = Suc d"
  defines "R \<equiv> {offset..<offset + count}" and "S \<equiv> bitmap_set b"
  shows "\<exists>levels'. KPageBitmap_ClearRange b offset count =
      Some (if R \<subseteq> S then (True, b\<lparr>m_bit_storages := levels', m_num_bits := sub64 (m_num_bits b) count\<rparr>)
       else (False, b)) \<and>
    (R \<subseteq> S \<longrightarrow> level_changed (m_bit_storages b) levels' d (S - R))"
proof -
  have d: "leaves b = m_bit_storages b ! d" "chain_upto (m_bit_storages b) d"
    using bitmap_ok_levels [OF assms(1)] assms(5) by auto
  have S: "S = bits_of (m_bit_storages b ! d)" by (simp add: S_def bitmap_set_def d(1))
  have len: "offset + count \<le> 64 * length (m_bit_storages b ! d)" "count < 2 ^ 64"
    using assms(1,2) d(1) by (simp_all add: bitmap_ok_def)
  then have i: "offset div 64 < length (m_bit_storages b ! d)" using assms(3) by (simp add: div_64_less)
  show ?thesis
    using ClearRange_one_word [OF assms(5) d(2) i _ assms(3)] ClearRange_words [OF assms(5) d(2) len(1) _ _ _ len(2)] assms(4)
    unfolding S R_def by (cases "count < 64") auto
qed

lemma ClearRange_bitmap:
  assumes "bitmap_ok b n" and "offset + count \<le> n" and "0 < count"
    and "if count < 64 then offset mod 64 + count \<le> 64 else offset mod 64 = 0 \<and> count mod 64 = 0"
    and "KPageBitmap_ClearRange b offset count = Some (ok, b')"
  shows "ok \<longleftrightarrow> {offset..<offset + count} \<subseteq> bitmap_set b"
    and "bitmap_ok b' n"
    and "bitmap_set b' = (if ok then bitmap_set b - {offset..<offset + count} else bitmap_set b)"
    and "\<not> ok \<Longrightarrow> b' = b"
proof -
  obtain d where d: "length (m_bit_storages b) = Suc d" "m_used_depths b = Suc d"
    "leaves b = m_bit_storages b ! d" "chain_upto (m_bit_storages b) d"
    using assms(1) by (rule bitmap_ok_levels)
  let ?R = "{offset..<offset + count}" and ?S = "bitmap_set b"
  obtain levels' where eq: "KPageBitmap_ClearRange b offset count =
      Some (if ?R \<subseteq> ?S then (True, b\<lparr>m_bit_storages := levels', m_num_bits := sub64 (m_num_bits b) count\<rparr>)
       else (False, b))"
    and c: "?R \<subseteq> ?S \<longrightarrow> level_changed (m_bit_storages b) levels' d (?S - ?R)"
    using ClearRange_returns [OF assms(1-4) d(1)] by blast
  show ok: "ok \<longleftrightarrow> ?R \<subseteq> ?S" "\<not> ok \<Longrightarrow> b' = b" using assms(5) eq by (auto split: if_splits)
  have "bitmap_ok b' n \<and> bitmap_set b' = ?S - ?R" if sub: "?R \<subseteq> ?S"
  proof -
    have "card ?R \<le> card ?S" using sub by (intro card_mono) (simp_all add: bitmap_set_def)
    moreover have "card ?S < 2 ^ 63" "m_num_bits b = card ?S"
      using bitmap_card_less [OF assms(1)] assms(1) by (simp_all add: bitmap_ok_def)
    ultimately have k: "sub64 (m_num_bits b) count = card (?S - ?R)"
      using sub by (simp add: sub64_eq card_Diff_subset)
    have sn: "?S - ?R \<subseteq> {..<n}" using assms(1) by (auto simp: bitmap_ok_def)
    note level_changed_bitmap [OF assms(1) d(1) c [rule_format, OF sub] sn k]
    with eq assms(5) sub show ?thesis by simp
  qed
  with ok assms(1) show "bitmap_ok b' n" "bitmap_set b' = (if ok then ?S - ?R else ?S)" by auto
qed

section \<open>Initialising\<close>

definition up64 :: "nat \<Rightarrow> nat" where
  "up64 n = AlignUp n 64 div 64"

lemma up64_eq:
  assumes "n + 64 < 2 ^ 64"
  shows "n \<le> 64 * up64 n" and "64 * up64 n < n + 64"
proof -
  have "64 * (AlignUp n 64 div 64) = AlignUp n 64" using AlignUp_dvd [OF assms] by simp
  then show "n \<le> 64 * up64 n" "64 * up64 n < n + 64"
    unfolding up64_def using AlignUp_ge [OF assms] AlignUp_less [OF assms] by simp_all
qed

lemma up64_le: "n + 64 < 2 ^ 64 \<Longrightarrow> up64 n \<le> n"
  using up64_eq [of n] by linarith

lemma up64_pow_bound:
  assumes "0 < n" and "n \<le> 64 ^ d" and "n + 64 < 2 ^ 64"
  shows "(up64 ^^ d) n = 1"
  using assms
proof (induction d arbitrary: n)
  case (Suc d)
  note u = up64_eq [OF Suc.prems(3)] up64_le [OF Suc.prems(3)]
  have "0 < up64 n" using u(1) Suc.prems(1) by linarith
  moreover have "up64 n \<le> 64 ^ d" using u(2) Suc.prems(2) by simp
  moreover have "up64 n + 64 < 2 ^ 64" using u(3) Suc.prems(3) by linarith
  ultimately show ?case using Suc.IH by (simp add: funpow_swap1)
qed simp

lemma GetRequiredDepth_bound: "n < 64 ^ GetRequiredDepth n \<and> 0 < GetRequiredDepth n"
proof (induction n rule: GetRequiredDepth.induct)
  case (1 n)
  show ?case
  proof (cases "n div 64 = 0")
    case True
    then show ?thesis by (simp add: GetRequiredDepth.simps [of n] div_eq_0_iff)
  next
    case False
    with 1 have "n div 64 < 64 ^ GetRequiredDepth (n div 64)" by blast
    then have "n < 64 * 64 ^ GetRequiredDepth (n div 64)" by (simp add: div_64_less)
    with False show ?thesis by (simp add: GetRequiredDepth.simps [of n])
  qed
qed

fun words_needed :: "nat \<Rightarrow> nat \<Rightarrow> nat" where
  "words_needed 0 n = 0"
| "words_needed (Suc d) n = up64 n + words_needed d (up64 n)"

lemma overhead_loop: "CalculateManagementOverheadSize_loop d n acc = acc + words_needed d n"
  by (induction d arbitrary: n acc) (simp_all add: Let_def up64_def)

lemma zero_level: "\<forall>w\<in>set ws. w = 0 \<Longrightarrow> bits_of ws = {}"
  by (auto simp: bits_of_def dest!: bspec [OF _ nth_mem])

lemma zero_levels_summarise:
  assumes "\<forall>w\<in>set up. w = 0" and "\<forall>w\<in>set down. w = 0" and "length down \<le> 64 * length up"
  shows "summarises up down"
  using assms by (auto simp: summarises_def zero_level)

lemma Initialize_loop_levels:
  assumes "\<forall>w\<in>set storage. w = 0" and "words_needed d n \<le> length storage" and "n + 64 < 2 ^ 64"
    and "chain_ok levels" and "\<forall>ws\<in>set levels. \<forall>w\<in>set ws. w = 0"
    and "levels \<noteq> [] \<Longrightarrow> length (hd levels) = n"
  shows "\<exists>new. KPageBitmap_Initialize_loop d storage n levels
      = (new @ levels, drop (words_needed d n) storage) \<and>
    chain_ok (new @ levels) \<and> (\<forall>ws\<in>set (new @ levels). \<forall>w\<in>set ws. w = 0) \<and> length new = d \<and>
    (d \<noteq> 0 \<longrightarrow> length (hd new) = (up64 ^^ d) n \<and> length (last new) = up64 n)"
  using assms
proof (induction d arbitrary: storage n levels)
  case 0
  then show ?case by simp
next
  case (Suc d)
  let ?u = "up64 n"
  let ?ws = "take ?u storage"
  note u = up64_eq [OF Suc.prems(3)] up64_le [OF Suc.prems(3)]
  have len: "length ?ws = ?u" "words_needed d ?u \<le> length (drop ?u storage)" using Suc.prems(2) by simp_all
  have z: "\<forall>w\<in>set ?ws. w = 0" using Suc.prems(1) by (meson in_set_takeD)
  have "chain_ok (?ws # levels)"
  proof (cases levels)
    case (Cons vs rest)
    have "summarises ?ws vs"
      using z Suc.prems(5,6) u(1) Cons len(1) by (intro zero_levels_summarise) auto
    with Suc.prems(4) Cons show ?thesis by (simp add: chain_ok_Cons)
  qed (simp add: chain_ok_single)
  moreover have "\<forall>w\<in>set (drop ?u storage). w = 0" using Suc.prems(1) by (meson in_set_dropD)
  ultimately obtain new where new: "KPageBitmap_Initialize_loop d (drop ?u storage) ?u (?ws # levels)
      = (new @ ?ws # levels, drop (words_needed d ?u) (drop ?u storage))"
    "chain_ok (new @ ?ws # levels)" "\<forall>ws\<in>set (new @ ?ws # levels). \<forall>w\<in>set ws. w = 0" "length new = d"
    "d \<noteq> 0 \<longrightarrow> length (hd new) = (up64 ^^ d) ?u \<and> length (last new) = up64 ?u"
    using Suc.IH [of "drop ?u storage" ?u "?ws # levels"] Suc.prems(3,5) len z u(3) by auto
  show ?case
  proof (intro exI [of _ "new @ [?ws]"] conjI)
    show "KPageBitmap_Initialize_loop (Suc d) storage n levels
        = ((new @ [?ws]) @ levels, drop (words_needed (Suc d) n) storage)"
      using new(1) by (simp add: Let_def up64_def [symmetric] add.commute)
    show "Suc d \<noteq> 0 \<longrightarrow> length (hd (new @ [?ws])) = (up64 ^^ Suc d) n \<and> length (last (new @ [?ws])) = ?u"
      using new(4,5) len(1) by (cases new) (auto simp: funpow_swap1)
  qed (use new in simp_all)
qed

lemma Initialize_bitmap:
  assumes "0 < n" and "n < 2 ^ 62" and "\<forall>w\<in>set storage. w = 0"
    and "KPageBitmap_CalculateManagementOverheadSize n \<le> 8 * length storage"
  shows "\<exists>b'. KPageBitmap_Initialize b storage n
      = (b', drop (KPageBitmap_CalculateManagementOverheadSize n div 8) storage) \<and>
    bitmap_ok b' n \<and> bitmap_set b' = {}"
proof -
  let ?d = "GetRequiredDepth n"
  have n: "n + 64 < 2 ^ 64" using assms(2) by simp
  note d = GetRequiredDepth_bound [of n]
  have o: "KPageBitmap_CalculateManagementOverheadSize n = words_needed ?d n * 8"
    by (simp add: KPageBitmap_CalculateManagementOverheadSize_def overhead_loop)
  then have "words_needed ?d n \<le> length storage" using assms(4) by simp
  then obtain new where new: "KPageBitmap_Initialize_loop ?d storage n [] = (new, drop (words_needed ?d n) storage)"
    "chain_ok new" "\<forall>ws\<in>set new. \<forall>w\<in>set ws. w = 0" "length new = ?d"
    "length (hd new) = (up64 ^^ ?d) n" "length (last new) = up64 n"
    using Initialize_loop_levels [OF assms(3) _ n, of ?d "[]"] d by (auto simp: chain_ok_def)
  have ne: "new \<noteq> []" using new(4) d by auto
  let ?b = "b\<lparr>m_num_bits := 0, m_bit_storages := new\<rparr>"
  have S: "bitmap_set ?b = {}"
    using new(3) ne by (auto simp: bitmap_set_def leaves_def intro!: zero_level)
  have "(up64 ^^ ?d) n = 1" using d n assms(1) by (intro up64_pow_bound) simp_all
  then have "bitmap_ok ?b n"
    using new(2,5,6) ne S assms(2) up64_eq(1) [OF n]
    by (simp add: bitmap_ok_def chain_ok_upto leaves_def)
  with S new(1) o show ?thesis by (simp add: KPageBitmap_Initialize_def)
qed

section \<open>Finding a free range\<close>

text \<open>
  The state of the search: nothing was found and the choice is \<open>-1\<close>, or the choice is a free range
  within one word.
\<close>

definition range_choice :: "u64 list \<Rightarrow> nat \<Rightarrow> nat \<times> int \<times> RandomBitGenerator \<Rightarrow> bool" where
  "range_choice ws count acc \<longleftrightarrow>
     (case acc of (num_valid, chosen, g) \<Rightarrow>
        if num_valid = 0 then chosen = - 1
        else 0 \<le> chosen \<and> nat chosen mod 64 + count \<le> 64 \<and> {nat chosen..<nat chosen + count} \<subseteq> bits_of ws)"

lemma option_free:
  assumes "i < length ws" and "(k + 1) * count \<le> 64" and "0 < count"
  shows "(drop_bit (k * count) (ws ! i) AND (push_bit count 1 - 1)) = (push_bit count 1 - 1 :: u64) \<longleftrightarrow>
    {i * 64 + k * count..<i * 64 + k * count + count} \<subseteq> bits_of ws"
proof -
  let ?o = "i * 64 + k * count"
  have k: "k * count < 64" "k * count + count \<le> 64" using assms(2,3) by (simp_all add: algebra_simps)
  then have o: "?o div 64 = i" "?o mod 64 = k * count" by (simp_all add: word_bit_position)
  have "(drop_bit (k * count) (ws ! i) AND (push_bit count 1 - 1)) = (push_bit count 1 - 1 :: u64) \<longleftrightarrow>
      (\<forall>n<count. bit (drop_bit (k * count) (ws ! i)) n)"
    using range_mask_subset [of 0 count "drop_bit (k * count) (ws ! i)"] k by simp
  also have "\<dots> \<longleftrightarrow> (\<forall>n. k * count \<le> n \<and> n < k * count + count \<longrightarrow> bit (ws ! i) n)"
  proof safe
    fix n assume a: "\<forall>n<count. bit (drop_bit (k * count) (ws ! i)) n" "k * count \<le> n" "n < k * count + count"
    then have "n - k * count < count" by simp
    with a(1) have "bit (drop_bit (k * count) (ws ! i)) (n - k * count)" by blast
    with a(2) show "bit (ws ! i) n" by (simp add: bit_drop_bit_eq)
  qed (simp add: bit_drop_bit_eq)
  also have "\<dots> \<longleftrightarrow> {?o..<?o + count} \<subseteq> bits_of ws"
    using range_word_subset [of ?o ws count] range_mask_subset [of "k * count" count "ws ! i"] assms(1,3) k o by simp
  finally show ?thesis .
qed

lemma FindFreeRange_options_correct:
  assumes "i < length ws" and "(k + n) * count \<le> 64" and "0 < count" and "range_choice ws count acc"
  defines "acc' \<equiv> FindFreeRange_options count i k n (drop_bit (k * count) (ws ! i)) acc"
  shows "range_choice ws count acc' \<and>
    (fst acc' = 0 \<longleftrightarrow> fst acc = 0 \<and>
       (\<forall>j. k \<le> j \<and> j < k + n \<longrightarrow> \<not> {i * 64 + j * count..<i * 64 + j * count + count} \<subseteq> bits_of ws))"
  using assms(1-4) unfolding acc'_def
proof (induction n arbitrary: k acc)
  case 0
  then show ?case by simp
next
  case (Suc n)
  obtain num chosen g where acc: "acc = (num, chosen, g)" using prod_cases3 by blast
  let ?o = "i * 64 + k * count"
  have k: "(k + 1) * count \<le> 64" using Suc.prems(2) by (rule order_trans [rotated]) simp
  have k': "k * count + count \<le> 64" using k by simp
  note free = option_free [OF Suc.prems(1) k Suc.prems(3)]
  have next_word: "drop_bit count (drop_bit (k * count) (ws ! i)) = drop_bit ((k + 1) * count) (ws ! i)"
    by (simp add: add.commute)
  obtain acc1 where step: "FindFreeRange_options count i k (Suc n) (drop_bit (k * count) (ws ! i)) acc
      = FindFreeRange_options count i (k + 1) n (drop_bit ((k + 1) * count) (ws ! i)) acc1"
    and c1: "range_choice ws count acc1"
    and f1: "fst acc1 = 0 \<longleftrightarrow> fst acc = 0 \<and> \<not> {?o..<?o + count} \<subseteq> bits_of ws"
  proof (cases "{?o..<?o + count} \<subseteq> bits_of ws")
    case False
    then show ?thesis
      using that [of acc] Suc.prems(4) free next_word by (simp add: acc Let_def)
  next
    case True
    obtain t g' where t: "(if num + 1 = 1 then (True, g)
        else case GenerateRandom (of_nat (num + 1)) g of (r, g') \<Rightarrow> (r = 0, g')) = (t, g')" by fastforce
    have tn: "num = 0 \<Longrightarrow> t" using t by simp
    let ?acc1 = "(num + 1, if t then int ?o else chosen, g')"
    have "FindFreeRange_options count i k (Suc n) (drop_bit (k * count) (ws ! i)) acc
      = FindFreeRange_options count i (k + 1) n (drop_bit ((k + 1) * count) (ws ! i)) ?acc1"
      using True free next_word t unfolding acc FindFreeRange_options.simps Let_def by simp
    moreover have "range_choice ws count ?acc1"
      using True tn Suc.prems(4) k' word_bit_position(2) [of "k * count" i] Suc.prems(3)
      by (auto simp: range_choice_def acc nat_add_distrib nat_mult_distrib split: if_splits)
    ultimately show ?thesis using that [of ?acc1] True by simp
  qed
  have "range_choice ws count (FindFreeRange_options count i (k + 1) n (drop_bit ((k + 1) * count) (ws ! i)) acc1) \<and>
      (fst (FindFreeRange_options count i (k + 1) n (drop_bit ((k + 1) * count) (ws ! i)) acc1) = 0 \<longleftrightarrow> fst acc1 = 0 \<and>
       (\<forall>j. k + 1 \<le> j \<and> j < k + 1 + n \<longrightarrow> \<not> {i * 64 + j * count..<i * 64 + j * count + count} \<subseteq> bits_of ws))"
    using Suc.prems(1-3) c1 by (intro Suc.IH) simp_all
  moreover have "(\<forall>j. k \<le> j \<and> j < k + Suc n \<longrightarrow> P j) \<longleftrightarrow> P k \<and> (\<forall>j. k + 1 \<le> j \<and> j < k + 1 + n \<longrightarrow> P j)" for P
    by (auto simp: le_less Suc_le_eq) (metis Suc_lessI add_Suc_right less_antisym not_less_eq)
  ultimately show ?case unfolding step using f1 by auto
qed


lemma split_first_index:
  fixes i m n :: nat
  assumes "i < m"
  shows "(\<forall>l j. i \<le> l \<and> l < m \<and> j < n \<longrightarrow> P l j) \<longleftrightarrow>
    (\<forall>j. 0 \<le> j \<and> j < 0 + n \<longrightarrow> P i j) \<and> (\<forall>l j. i + 1 \<le> l \<and> l < m \<and> j < n \<longrightarrow> P l j)"
    (is "?A \<longleftrightarrow> ?B")
proof
  assume ?B
  show ?A
  proof (intro allI impI)
    fix l j assume "i \<le> l \<and> l < m \<and> j < n"
    with \<open>?B\<close> show "P l j" by (cases "l = i") auto
  qed
qed (use assms in auto)

definition range_free :: "u64 list \<Rightarrow> nat \<Rightarrow> nat \<Rightarrow> nat \<Rightarrow> bool" where
  "range_free ws count i j \<longleftrightarrow> {i * 64 + j * count..<i * 64 + j * count + count} \<subseteq> bits_of ws"

lemma FindFreeRange_words_correct:
  assumes "0 < count" and "count < 64" and "range_choice ws count acc" and "us = drop i ws"
  shows "range_choice ws count (FindFreeRange_words count i us acc) \<and>
    (fst (FindFreeRange_words count i us acc) = 0 \<longleftrightarrow> fst acc = 0 \<and>
       (\<forall>l j. i \<le> l \<and> l < length ws \<and> j < 64 div count \<longrightarrow> \<not> range_free ws count l j))"
  using assms(3,4)
proof (induction us arbitrary: i acc)
  case Nil
  then have "length ws \<le> i" by simp
  with Nil.prems(1) show ?case by auto
next
  case (Cons u us)
  let ?n = "64 div count"
  have "\<not> length ws \<le> i" using Cons.prems(2) by auto
  then have i: "i < length ws" by simp
  then have u: "u = ws ! i" "us = drop (i + 1) ws"
    using Cons.prems(2) unfolding Cons_nth_drop_Suc [OF i, symmetric] by simp_all
  have "0 < ?n" using assms(1,2) by (simp add: div_greater_zero_iff)
  then have n: "max ?n 1 = ?n" "(0 + ?n) * count \<le> 64" by (simp_all add: max_def)
  define acc1 where "acc1 = FindFreeRange_options count i 0 ?n u acc"
  have step: "FindFreeRange_words count i (u # us) acc = FindFreeRange_words count (i + 1) us acc1"
    by (simp only: FindFreeRange_words.simps n(1) acc1_def)
  have o: "range_choice ws count acc1" "fst acc1 = 0 \<longleftrightarrow> fst acc = 0 \<and>
      (\<forall>j. 0 \<le> j \<and> j < 0 + ?n \<longrightarrow> \<not> range_free ws count i j)"
    using FindFreeRange_options_correct [OF i n(2) assms(1) Cons.prems(1)]
    unfolding acc1_def range_free_def u(1) by simp_all
  show ?case
    unfolding step split_first_index [OF i] using Cons.IH [OF o(1) u(2)] o(2) by argo
qed

section \<open>Properties\<close>

text \<open>
  C10: the bitmap implements a set of offsets below its capacity.  Setting a bit inserts, clearing a
  bit deletes, clearing a range always returns, deletes the range when all of it is present and changes
  nothing otherwise; the number of bits is the size of the set, the levels stay in step, and the assertions
  at every level of the walk hold.
\<close>

theorem KPageBitmap_implements_set:
  assumes "bitmap_ok b n" and "offset < n" and "offset + count \<le> n" and "0 < count"
    and "if count < 64 then offset mod 64 + count \<le> 64 else offset mod 64 = 0 \<and> count mod 64 = 0"
  shows "(if offset \<in> bitmap_set b
      then ClearBit_asserts (m_bit_storages b) (m_used_depths b) offset \<and>
        bitmap_ok (KPageBitmap_ClearBit b offset) n \<and>
        bitmap_set (KPageBitmap_ClearBit b offset) = bitmap_set b - {offset}
      else SetBit_asserts (m_bit_storages b) (m_used_depths b) offset \<and>
        bitmap_ok (KPageBitmap_SetBit b offset) n \<and>
        bitmap_set (KPageBitmap_SetBit b offset) = insert offset (bitmap_set b)) \<and>
    (\<exists>ok b'. KPageBitmap_ClearRange b offset count = Some (ok, b') \<and> bitmap_ok b' n \<and>
       (if {offset..<offset + count} \<subseteq> bitmap_set b
        then ok \<and> bitmap_set b' = bitmap_set b - {offset..<offset + count}
        else \<not> ok \<and> b' = b))"
proof -
  obtain d where "length (m_bit_storages b) = Suc d" using assms(1) by (rule bitmap_ok_levels)
  then obtain ok b' where r: "KPageBitmap_ClearRange b offset count = Some (ok, b')"
    using ClearRange_returns [OF assms(1,3-5)] by (metis surj_pair)
  note range = ClearRange_bitmap [OF assms(1,3-5) r]
  show ?thesis
  proof (intro conjI)
    show "\<exists>ok b'. KPageBitmap_ClearRange b offset count = Some (ok, b') \<and> bitmap_ok b' n \<and>
       (if {offset..<offset + count} \<subseteq> bitmap_set b
        then ok \<and> bitmap_set b' = bitmap_set b - {offset..<offset + count}
        else \<not> ok \<and> b' = b)"
      using r range by simp
  qed (simp add: ClearBit_bitmap [OF assms(1)] SetBit_bitmap [OF assms(1,2)])
qed

definition example_bitmap :: KPageBitmap where
  "example_bitmap = \<lparr>m_bit_storages = [[2], [0, 96]], m_bitmap_rng = RandomBitGenerator_new 3, m_num_bits = 2\<rparr>"

lemma example_bitmap_bits: "bits_of [0, 96] = {69, 70}"
proof (rule set_eqI)
  fix j
  have "(j \<in> bits_of [0, 96]) = (j div 64 = 1 \<and> bit (96 :: u64) (j mod 64))"
    by (cases "j div 64 = 0"; cases "j div 64 = 1") (auto simp: bits_of_def)
  also have "bit (96 :: u64) k \<longleftrightarrow> k = 5 \<or> k = 6" for k
  proof -
    have "(96 :: u64) = 2 ^ 5 OR 2 ^ 6" by simp
    then show ?thesis by (simp only: bit_or_iff bit_exp_iff) auto
  qed
  finally show "j \<in> bits_of [0, 96] \<longleftrightarrow> j \<in> {69, 70}" by (auto simp: div_mod_64 [of j 69] div_mod_64 [of j 70])
qed

lemma example_bitmap_ok: "bitmap_ok example_bitmap 100" "bitmap_set example_bitmap = {69, 70}"
proof -
  show S: "bitmap_set example_bitmap = {69, 70}"
    by (simp add: bitmap_set_def leaves_def example_bitmap_def example_bitmap_bits)
  have b: "bit (2 :: u64) k \<longleftrightarrow> k = 1" for k
    using bit_exp_iff [of 1 k, where ?'a = "64 word"] by auto
  have r: "bits_of [2] = {1}"
  proof (rule set_eqI)
    fix j
    have "j \<in> bits_of [2] \<longleftrightarrow> j div 64 = 0 \<and> j mod 64 = 1"
      unfolding bits_of_def using b [of "j mod 64"] by (cases "j div 64 = 0") simp_all
    then show "j \<in> bits_of [2] \<longleftrightarrow> j \<in> {1}" using div_mod_64 [of j 1] by simp
  qed
  have "{i. i < length [0, 96 :: u64] \<and> [0, 96 :: u64] ! i \<noteq> 0} = {1}"
  proof (rule set_eqI)
    fix i show "i \<in> {i. i < length [0, 96 :: u64] \<and> [0, 96 :: u64] ! i \<noteq> 0} \<longleftrightarrow> i \<in> {1}"
      by (cases "i = 0"; cases "i = 1") simp_all
  qed
  then have "summarises [2] [0, 96]" unfolding summarises_def r by simp
  moreover have "m_bit_storages example_bitmap = [[2], [0, 96]]" "m_num_bits example_bitmap = 2"
    by (simp_all add: example_bitmap_def)
  ultimately show "bitmap_ok example_bitmap 100"
    by (simp add: bitmap_ok_def S leaves_def chain_upto_def)
qed

theorem KPageBitmap_implements_set_witness:
  "bitmap_set (KPageBitmap_ClearBit example_bitmap 70) = {69} \<and>
   (\<exists>b'. KPageBitmap_ClearRange example_bitmap 69 2 = Some (True, b') \<and> bitmap_set b' = {})"
proof -
  have c: "bitmap_set (KPageBitmap_ClearBit example_bitmap 70) = {69, 70} - {70}"
    using KPageBitmap_implements_set [of example_bitmap 100 70 1] example_bitmap_ok by simp
  have R: "{69..<71} = {69, 70 :: nat}" by auto
  have "\<exists>b'. KPageBitmap_ClearRange example_bitmap 69 2 = Some (True, b') \<and> bitmap_set b' = {}"
    using KPageBitmap_implements_set [of example_bitmap 100 69 2] example_bitmap_ok by (auto simp: R)
  with c show ?thesis by auto
qed

text \<open>
  C24: searching.  The linear search returns the least free offset, the random search some free
  offset, both \<open>-1\<close> exactly when there is none; neither changes the set, and the random search
  changes nothing but the generator.
\<close>

theorem FindFreeBlock_correct:
  assumes "bitmap_ok b n"
  shows "KPageBitmap_FindFreeBlock b False =
      (if bitmap_set b = {} then - 1 else int (Min (bitmap_set b)), b) \<and>
    (\<exists>r g. KPageBitmap_FindFreeBlock b True = (r, b\<lparr>m_bitmap_rng := g\<rparr>) \<and>
       (if bitmap_set b = {} then r = - 1 else 0 \<le> r \<and> nat r \<in> bitmap_set b))"
proof -
  obtain r b' where "KPageBitmap_FindFreeBlock b True = (r, b')" by fastforce
  then show ?thesis
    using FindFreeBlock_linear_Min [OF assms] FindFreeBlock_random_In [OF assms] by auto
qed

theorem FindFreeBlock_correct_witness:
  "KPageBitmap_FindFreeBlock example_bitmap False = (69, example_bitmap)"
  using FindFreeBlock_correct [OF example_bitmap_ok(1)] example_bitmap_ok(2) by simp

text \<open>
  The storage computed beforehand.  A bitmap for up to 2^62 blocks, initialised on zeroed storage
  of at least the size \<^verbatim>\<open>CalculateManagementOverheadSize\<close> answers, takes exactly that many bytes of it
  and is the empty set of that capacity; its root is a single word.
\<close>

theorem Initialize_uses_overhead:
  assumes "0 < n" and "n < 2 ^ 62" and "\<forall>w\<in>set storage. w = 0"
    and "KPageBitmap_CalculateManagementOverheadSize n \<le> 8 * length storage"
  shows "\<exists>b'. KPageBitmap_Initialize b storage n
      = (b', drop (KPageBitmap_CalculateManagementOverheadSize n div 8) storage) \<and>
    bitmap_ok b' n \<and> bitmap_set b' = {}"
  using assms by (rule Initialize_bitmap)

theorem Initialize_uses_overhead_witness:
  "KPageBitmap_CalculateManagementOverheadSize 5000 = 8 * (79 + 2 + 1) \<and>
   (\<exists>b'. KPageBitmap_Initialize example_bitmap (replicate 100 0) 5000 = (b', replicate 18 0) \<and> bitmap_ok b' 5000)"
proof -
  have "GetRequiredDepth 5000 = 3"
    by (simp add: GetRequiredDepth.simps [of 5000] GetRequiredDepth.simps [of 78] GetRequiredDepth.simps [of "Suc 0"])
  moreover have "up64 5000 = 79" "up64 79 = 2" "up64 2 = 1"
    by (simp_all add: up64_def AlignUp_def add64_def)
  ultimately have o: "KPageBitmap_CalculateManagementOverheadSize 5000 = 656"
    by (simp add: KPageBitmap_CalculateManagementOverheadSize_def overhead_loop numeral_3_eq_3)
  show ?thesis
    using Initialize_uses_overhead [of 5000 "replicate 100 0" example_bitmap] unfolding o by (simp, blast)
qed

text \<open>
  C37: searching for a range of less than a word.  The search always has a result; it is the start of
  a free range inside one word, or \<open>-1\<close>, and \<open>-1\<close> only when no range starting at a multiple of its
  length within a word is free.
\<close>

theorem FindFreeRange_correct:
  assumes "bitmap_ok b n" and "0 < count" and "count < 64"
  shows "\<exists>r g. KPageBitmap_FindFreeRange b count = Some (r, b\<lparr>m_bitmap_rng := g\<rparr>) \<and>
    (if r = - 1
     then \<forall>i j. j < 64 div count \<longrightarrow> \<not> {i * 64 + j * count..<i * 64 + j * count + count} \<subseteq> bitmap_set b
     else 0 \<le> r \<and> nat r mod 64 + count \<le> 64 \<and> {nat r..<nat r + count} \<subseteq> bitmap_set b)"
proof -
  let ?ws = "leaves b"
  obtain num r g where e: "FindFreeRange_words count 0 ?ws (0, - 1, m_bitmap_rng b) = (num, r, g)"
    using prod_cases3 by blast
  have c: "range_choice ?ws count (num, r, g) \<and> (num = 0 \<longleftrightarrow>
      (\<forall>l j. l < length ?ws \<and> j < 64 div count \<longrightarrow> \<not> range_free ?ws count l j))"
    using FindFreeRange_words_correct [of count ?ws "(0, - 1, m_bitmap_rng b)" ?ws 0] assms(2,3) e
    by (simp add: range_choice_def)
  have out: "\<not> range_free ?ws count i j" if "\<not> i < length ?ws" for i j
  proof
    assume "range_free ?ws count i j"
    then have "i * 64 + j * count \<in> bits_of ?ws" using assms(2) by (auto simp: range_free_def)
    then have "i * 64 + j * count < 64 * length ?ws" by (rule bits_of_less)
    with that show False by (simp add: not_less)
  qed
  have "KPageBitmap_FindFreeRange b count = Some (r, b\<lparr>m_bitmap_rng := g\<rparr>)"
    using e assms(2,3)
    by (cases "?ws = []") (auto simp: KPageBitmap_FindFreeRange_def leaves_def [symmetric])
  moreover have "if r = - 1
     then \<forall>i j. j < 64 div count \<longrightarrow> \<not> {i * 64 + j * count..<i * 64 + j * count + count} \<subseteq> bitmap_set b
     else 0 \<le> r \<and> nat r mod 64 + count \<le> 64 \<and> {nat r..<nat r + count} \<subseteq> bitmap_set b"
  proof (cases "num = 0")
    case True
    then have "r = - 1" using c by (simp add: range_choice_def)
    moreover have "\<not> range_free ?ws count i j" if "j < 64 div count" for i j
      using c True out that by (cases "i < length ?ws") simp_all
    ultimately show ?thesis by (simp add: bitmap_set_def range_free_def)
  next
    case False
    with c show ?thesis by (simp add: bitmap_set_def range_choice_def)
  qed
  ultimately show ?thesis by blast
qed


theorem FindFreeRange_correct_witness:
  "\<exists>r g. KPageBitmap_FindFreeRange example_bitmap 2 = Some (r, example_bitmap\<lparr>m_bitmap_rng := g\<rparr>)"
  using FindFreeRange_correct [OF example_bitmap_ok(1), of 2] by (simp, blast)

end
