(* ===== verification/Page_Heap.thy ===== *)
theory Page_Heap
  imports Page_Bitmap_Search
begin

text \<open>
  \<^verbatim>\<open>KPageHeap\<close> (\<^verbatim>\<open>k_page_heap.h\<close>, \<^verbatim>\<open>k_page_heap.cpp\<close>): the free physical memory of a region, as blocks
  of seven sizes, each size with a bitmap of its free blocks.  Freeing coalesces complete groups of
  neighbours into blocks of the next size; allocating splits.

  Physical addresses and sizes are natural numbers.  A heap lies below the physical address limit, so
  the sums of the code do not wrap.  Subtractions of sizes and of the base of a level wrap as they do
  in the code.
  Indexing the array of blocks outside its bounds is the result \<open>None\<close>.
\<close>

section \<open>Block sizes\<close>

definition NumMemoryBlockPageShifts :: nat where "NumMemoryBlockPageShifts = 7"

definition MemoryBlockPageShifts :: "nat list" where
  "MemoryBlockPageShifts = [0xC, 0x10, 0x15, 0x16, 0x19, 0x1D, 0x1E]"

definition GetBlockSize :: "nat \<Rightarrow> nat" where
  "GetBlockSize index = 2 ^ (MemoryBlockPageShifts ! index)"

definition GetBlockNumPages :: "nat \<Rightarrow> nat" where
  "GetBlockNumPages index = GetBlockSize index div PageSize"

fun GetAlignedBlockIndex_loop :: "nat \<Rightarrow> nat list \<Rightarrow> nat \<Rightarrow> int" where
  "GetAlignedBlockIndex_loop target_pages [] i = - 1"
| "GetAlignedBlockIndex_loop target_pages (s # shifts) i =
     (if target_pages \<le> 2 ^ s div PageSize then int i
      else GetAlignedBlockIndex_loop target_pages shifts (i + 1))"

definition GetAlignedBlockIndex :: "nat \<Rightarrow> nat \<Rightarrow> int" where
  "GetAlignedBlockIndex num_pages align_pages =
     GetAlignedBlockIndex_loop (max num_pages align_pages) MemoryBlockPageShifts 0"

fun GetBlockIndex_loop :: "nat \<Rightarrow> nat \<Rightarrow> int" where
  "GetBlockIndex_loop num_pages 0 = - 1"
| "GetBlockIndex_loop num_pages (Suc i) =
     (if num_pages \<ge> 2 ^ (MemoryBlockPageShifts ! i) div PageSize then int i
      else GetBlockIndex_loop num_pages i)"

definition GetBlockIndex :: "nat \<Rightarrow> int" where
  "GetBlockIndex num_pages = GetBlockIndex_loop num_pages NumMemoryBlockPageShifts"

section \<open>The blocks of one size\<close>

record Block =
  b_bitmap :: KPageBitmap
  b_heap_address :: nat
  b_end_offset :: nat
  b_block_shift :: nat
  b_next_block_shift :: nat

definition Block_GetSize :: "Block \<Rightarrow> nat" where
  "Block_GetSize b = 2 ^ b_block_shift b"

definition Block_GetNumPages :: "Block \<Rightarrow> nat" where
  "Block_GetNumPages b = Block_GetSize b div PageSize"

definition Block_GetNumFreeBlocks :: "Block \<Rightarrow> nat" where
  "Block_GetNumFreeBlocks b = KPageBitmap_GetNumBits (b_bitmap b)"

definition Block_GetNumFreePages :: "Block \<Rightarrow> nat" where
  "Block_GetNumFreePages b = Block_GetNumFreeBlocks b * Block_GetNumPages b"

definition Block_Initialize :: "Block \<Rightarrow> nat \<Rightarrow> nat \<Rightarrow> nat \<Rightarrow> nat \<Rightarrow> u64 list \<Rightarrow> Block \<times> u64 list" where
  "Block_Initialize b addr sz bs nbs bit_storage =
     (let align = (if nbs \<noteq> 0 then 2 ^ nbs else 2 ^ bs);
          addr' = AlignDown addr align;
          stop = AlignUp (addr + sz) align;
          end_offset = (stop - addr') div 2 ^ bs
      in case KPageBitmap_Initialize (b_bitmap b) bit_storage end_offset of
           (bitmap, rest) \<Rightarrow>
             (b\<lparr>b_bitmap := bitmap, b_heap_address := addr', b_end_offset := end_offset,
                b_block_shift := bs, b_next_block_shift := nbs\<rparr>, rest))"

definition Block_PushBlock :: "Block \<Rightarrow> nat \<Rightarrow> (nat \<times> Block) option" where
  "Block_PushBlock b address =
     (let offset = sub64 address (b_heap_address b) div 2 ^ b_block_shift b;
          b1 = b\<lparr>b_bitmap := KPageBitmap_SetBit (b_bitmap b) offset\<rparr>
      in if b_next_block_shift b \<noteq> 0
         then
           let diff = 2 ^ (b_next_block_shift b - b_block_shift b);
               offset' = AlignDown offset diff
           in case KPageBitmap_ClearRange (b_bitmap b1) offset' diff of
                None \<Rightarrow> None
              | Some (ok, bitmap) \<Rightarrow>
                  if ok then Some (b_heap_address b + offset' * 2 ^ b_block_shift b, b1\<lparr>b_bitmap := bitmap\<rparr>)
                  else Some (0, b1\<lparr>b_bitmap := bitmap\<rparr>)
         else Some (0, b1))"

definition Block_PopBlock :: "Block \<Rightarrow> bool \<Rightarrow> nat \<times> Block" where
  "Block_PopBlock b random =
     (case KPageBitmap_FindFreeBlock (b_bitmap b) random of
        (soffset, bitmap) \<Rightarrow>
          if soffset < 0 then (0, b\<lparr>b_bitmap := bitmap\<rparr>)
          else
            let offset = nat soffset
            in (b_heap_address b + offset * 2 ^ b_block_shift b,
                b\<lparr>b_bitmap := KPageBitmap_ClearBit bitmap offset\<rparr>))"

definition Block_CalculateManagementOverheadSize :: "nat \<Rightarrow> nat \<Rightarrow> nat \<Rightarrow> nat" where
  "Block_CalculateManagementOverheadSize region_size cur_block_shift next_block_shift =
     (let cur_block_size = 2 ^ cur_block_shift;
          next_block_size = 2 ^ next_block_shift;
          align = (if next_block_shift \<noteq> 0 then next_block_size else cur_block_size)
      in KPageBitmap_CalculateManagementOverheadSize
           ((align * 2 + AlignUp region_size align) div cur_block_size))"

section \<open>The heap\<close>

record KPageHeap =
  m_heap_address :: nat
  m_heap_size :: nat
  m_initial_used_size :: nat
  m_num_blocks :: nat
  m_blocks :: "Block list"
  m_heap_rng :: RandomBitGenerator

definition KPageHeap_GetEndAddress :: "KPageHeap \<Rightarrow> nat" where
  "KPageHeap_GetEndAddress h = m_heap_address h + m_heap_size h"

definition KPageHeap_GetPageOffset :: "KPageHeap \<Rightarrow> nat \<Rightarrow> nat" where
  "KPageHeap_GetPageOffset h block = sub64 block (m_heap_address h) div PageSize"

definition KPageHeap_GetPageOffsetToEnd :: "KPageHeap \<Rightarrow> nat \<Rightarrow> nat" where
  "KPageHeap_GetPageOffsetToEnd h block = sub64 (KPageHeap_GetEndAddress h) block div PageSize"

definition next_shift :: "nat list \<Rightarrow> nat \<Rightarrow> nat" where
  "next_shift block_shifts i = (if i \<noteq> length block_shifts - 1 then block_shifts ! (i + 1) else 0)"

fun KPageHeap_Initialize_loop ::
    "nat \<Rightarrow> nat \<Rightarrow> nat list \<Rightarrow> nat list \<Rightarrow> Block list \<Rightarrow> u64 list \<Rightarrow> Block list \<times> u64 list" where
  "KPageHeap_Initialize_loop address sz block_shifts [] blocks storage = (blocks, storage)"
| "KPageHeap_Initialize_loop address sz block_shifts (i # is) blocks storage =
     (case Block_Initialize (blocks ! i) address sz (block_shifts ! i) (next_shift block_shifts i) storage of
        (b, rest) \<Rightarrow> KPageHeap_Initialize_loop address sz block_shifts is (blocks[i := b]) rest)"

definition KPageHeap_Initialize_shifts ::
    "KPageHeap \<Rightarrow> nat \<Rightarrow> nat \<Rightarrow> nat \<Rightarrow> nat list \<Rightarrow> KPageHeap \<times> u64 list" where
  "KPageHeap_Initialize_shifts h address sz management_size block_shifts =
     (let management_data = replicate (management_size div 8) 0
      in case KPageHeap_Initialize_loop address sz block_shifts [0..<length block_shifts] (m_blocks h)
           management_data of
           (blocks, rest) \<Rightarrow>
             (h\<lparr>m_heap_address := address, m_heap_size := sz, m_num_blocks := length block_shifts,
                m_blocks := blocks\<rparr>, rest))"

definition KPageHeap_Initialize :: "KPageHeap \<Rightarrow> nat \<Rightarrow> nat \<Rightarrow> nat \<Rightarrow> KPageHeap \<times> u64 list" where
  "KPageHeap_Initialize h address sz management_size =
     KPageHeap_Initialize_shifts h address sz management_size MemoryBlockPageShifts"

definition KPageHeap_GetNumFreePages :: "KPageHeap \<Rightarrow> nat" where
  "KPageHeap_GetNumFreePages h = sum_list (map Block_GetNumFreePages (take (m_num_blocks h) (m_blocks h)))"

definition KPageHeap_GetFreeSize :: "KPageHeap \<Rightarrow> nat" where
  "KPageHeap_GetFreeSize h = KPageHeap_GetNumFreePages h * PageSize"

definition KPageHeap_SetInitialUsedSize :: "KPageHeap \<Rightarrow> nat \<Rightarrow> KPageHeap" where
  "KPageHeap_SetInitialUsedSize h reserved_size =
     h\<lparr>m_initial_used_size := sub64 (sub64 (m_heap_size h) (KPageHeap_GetNumFreePages h * PageSize)) reserved_size\<rparr>"

function KPageHeap_FreeBlock :: "KPageHeap \<Rightarrow> nat \<Rightarrow> nat \<Rightarrow> KPageHeap option" where
  "KPageHeap_FreeBlock h block index =
     (if index < length (m_blocks h)
      then case Block_PushBlock (m_blocks h ! index) block of
             None \<Rightarrow> None
           | Some (block', b) \<Rightarrow>
               let h' = h\<lparr>m_blocks := (m_blocks h)[index := b]\<rparr>
               in if block' \<noteq> 0 then KPageHeap_FreeBlock h' block' (index + 1) else Some h'
      else None)"
  by pat_completeness auto
termination
  by (relation "measure (\<lambda>(h, block, index). length (m_blocks h) - index)") auto

declare KPageHeap_FreeBlock.simps [simp del]

text \<open>
  \<^verbatim>\<open>Free\<close>: the largest size with an aligned block inside the range, the aligned blocks of that size,
  then what lies before and after them in blocks of decreasing size.
\<close>

fun Free_find_big :: "KPageHeap \<Rightarrow> nat \<Rightarrow> nat \<Rightarrow> nat \<Rightarrow> nat option" where
  "Free_find_big h start stop 0 = None"
| "Free_find_big h start stop (Suc i) =
     (let block_size = Block_GetSize (m_blocks h ! i)
      in if AlignUp start block_size < AlignDown stop block_size then Some i
         else Free_find_big h start stop i)"

function Free_blocks_up :: "KPageHeap \<Rightarrow> nat \<Rightarrow> nat \<Rightarrow> nat \<Rightarrow> nat \<Rightarrow> KPageHeap option" where
  "Free_blocks_up h index block_size block stop =
     (if block < stop \<and> 0 < block_size
      then case KPageHeap_FreeBlock h block index of
             None \<Rightarrow> None
           | Some h' \<Rightarrow> Free_blocks_up h' index block_size (block + block_size) stop
      else Some h)"
  by pat_completeness auto
termination
  by (relation "measure (\<lambda>(h, index, block_size, block, stop). stop - block)") auto

function Free_before_level ::
    "KPageHeap \<Rightarrow> nat \<Rightarrow> nat \<Rightarrow> nat \<Rightarrow> nat \<Rightarrow> (KPageHeap \<times> nat) option" where
  "Free_before_level h i block_size before_start before_end =
     (if before_start + block_size \<le> before_end \<and> 0 < block_size
      then case KPageHeap_FreeBlock h (before_end - block_size) i of
             None \<Rightarrow> None
           | Some h' \<Rightarrow> Free_before_level h' i block_size before_start (before_end - block_size)
      else Some (h, before_end))"
  by pat_completeness auto
termination
  by (relation "measure (\<lambda>(h, i, block_size, before_start, before_end). before_end)") auto

fun Free_before :: "KPageHeap \<Rightarrow> nat \<Rightarrow> nat \<Rightarrow> nat \<Rightarrow> KPageHeap option" where
  "Free_before h 0 before_start before_end = Some h"
| "Free_before h (Suc i) before_start before_end =
     (case Free_before_level h i (Block_GetSize (m_blocks h ! i)) before_start before_end of
        None \<Rightarrow> None
      | Some (h', before_end') \<Rightarrow> Free_before h' i before_start before_end')"

function Free_after_level ::
    "KPageHeap \<Rightarrow> nat \<Rightarrow> nat \<Rightarrow> nat \<Rightarrow> nat \<Rightarrow> (KPageHeap \<times> nat) option" where
  "Free_after_level h i block_size after_start after_end =
     (if after_start + block_size \<le> after_end \<and> 0 < block_size
      then case KPageHeap_FreeBlock h after_start i of
             None \<Rightarrow> None
           | Some h' \<Rightarrow> Free_after_level h' i block_size (after_start + block_size) after_end
      else Some (h, after_start))"
  by pat_completeness auto
termination
  by (relation "measure (\<lambda>(h, i, block_size, after_start, after_end). after_end - after_start)") auto

fun Free_after :: "KPageHeap \<Rightarrow> nat \<Rightarrow> nat \<Rightarrow> nat \<Rightarrow> KPageHeap option" where
  "Free_after h 0 after_start after_end = Some h"
| "Free_after h (Suc i) after_start after_end =
     (case Free_after_level h i (Block_GetSize (m_blocks h ! i)) after_start after_end of
        None \<Rightarrow> None
      | Some (h', after_start') \<Rightarrow> Free_after h' i after_start' after_end)"

declare Free_blocks_up.simps [simp del] Free_before_level.simps [simp del] Free_after_level.simps [simp del]

definition KPageHeap_Free :: "KPageHeap \<Rightarrow> nat \<Rightarrow> nat \<Rightarrow> KPageHeap option" where
  "KPageHeap_Free h addr num_pages =
     (if num_pages = 0 then Some h
      else
        let start = addr;
            stop = addr + num_pages * PageSize
        in case Free_find_big h start stop (m_num_blocks h) of
             None \<Rightarrow> Some h
           | Some big_index \<Rightarrow>
               let block_size = Block_GetSize (m_blocks h ! big_index);
                   big_start = AlignUp start block_size;
                   big_end = AlignDown stop block_size
               in case Free_blocks_up h big_index block_size big_start big_end of
                    None \<Rightarrow> None
                  | Some h1 \<Rightarrow>
                      (case Free_before h1 big_index start big_start of
                         None \<Rightarrow> None
                       | Some h2 \<Rightarrow> Free_after h2 big_index big_end stop))"

fun AllocateByLinearSearch_loop :: "KPageHeap \<Rightarrow> nat \<Rightarrow> nat list \<Rightarrow> (nat \<times> KPageHeap) option" where
  "AllocateByLinearSearch_loop h needed_size [] = Some (0, h)"
| "AllocateByLinearSearch_loop h needed_size (i # is) =
     (case Block_PopBlock (m_blocks h ! i) False of
        (addr, b) \<Rightarrow>
          let h1 = h\<lparr>m_blocks := (m_blocks h)[i := b]\<rparr>
          in if addr \<noteq> 0
             then
               let allocated_size = Block_GetSize b
               in if allocated_size > needed_size
                  then map_option (\<lambda>h2. (addr, h2))
                         (KPageHeap_Free h1 (addr + needed_size) ((allocated_size - needed_size) div PageSize))
                  else Some (addr, h1)
             else AllocateByLinearSearch_loop h1 needed_size is)"

definition KPageHeap_AllocateByLinearSearch :: "KPageHeap \<Rightarrow> nat \<Rightarrow> (nat \<times> KPageHeap) option" where
  "KPageHeap_AllocateByLinearSearch h index =
     AllocateByLinearSearch_loop h (Block_GetSize (m_blocks h ! index)) [index..<m_num_blocks h]"

text \<open>
  \<^verbatim>\<open>AllocateByRandom\<close>: first the sizes to choose from, until they offer four possible placements;
  then, if there is a choice of size, a random one weighted by its placements.
\<close>

definition MinimumPossibleAlignmentsForRandomAllocation :: nat where
  "MinimumPossibleAlignmentsForRandomAllocation = 4"

definition placements :: "KPageHeap \<Rightarrow> nat \<Rightarrow> nat \<Rightarrow> nat \<Rightarrow> nat" where
  "placements h needed_size align_shift i =
     (1 + sub64 (Block_GetSize (m_blocks h ! i)) needed_size div 2 ^ align_shift) *
     Block_GetNumFreeBlocks (m_blocks h ! i)"

fun AllocateByRandom_scan :: "KPageHeap \<Rightarrow> nat \<Rightarrow> nat \<Rightarrow> nat list \<Rightarrow> nat \<Rightarrow> nat \<Rightarrow> nat \<times> nat" where
  "AllocateByRandom_scan h needed_size align_shift [] possible max_blocks = (possible, max_blocks)"
| "AllocateByRandom_scan h needed_size align_shift (i # is) possible max_blocks =
     (let possible' = possible + placements h needed_size align_shift i
      in if possible' \<ge> MinimumPossibleAlignmentsForRandomAllocation then (possible', i + 1)
         else AllocateByRandom_scan h needed_size align_shift is possible' max_blocks)"

fun AllocateByRandom_pick :: "KPageHeap \<Rightarrow> nat \<Rightarrow> nat \<Rightarrow> nat list \<Rightarrow> nat \<Rightarrow> nat \<Rightarrow> nat \<Rightarrow> nat" where
  "AllocateByRandom_pick h needed_size align_shift [] rnd possible index = index"
| "AllocateByRandom_pick h needed_size align_shift (i # is) rnd possible index =
     (let possible' = possible + placements h needed_size align_shift i
      in if rnd < possible' then i
         else AllocateByRandom_pick h needed_size align_shift is rnd possible' index)"

definition AllocateByRandom_index ::
    "KPageHeap \<Rightarrow> nat \<Rightarrow> nat \<Rightarrow> nat \<Rightarrow> nat \<times> RandomBitGenerator" where
  "AllocateByRandom_index h index needed_size align_shift =
     (case AllocateByRandom_scan h needed_size align_shift [index..<m_num_blocks h] 0 (m_num_blocks h) of
        (possible, max_blocks) \<Rightarrow>
          if possible > 0 \<and> index + 1 < max_blocks
          then case GenerateRandom (of_nat possible) (m_heap_rng h) of
                 (rnd, g) \<Rightarrow>
                   (AllocateByRandom_pick h needed_size align_shift [index..<max_blocks] (unat rnd) 0 index, g)
          else (index, m_heap_rng h))"

definition KPageHeap_AllocateByRandom :: "KPageHeap \<Rightarrow> nat \<Rightarrow> nat \<Rightarrow> nat \<Rightarrow> (nat \<times> KPageHeap) option" where
  "KPageHeap_AllocateByRandom h index0 num_pages align_pages =
     (let needed_size = num_pages * PageSize;
          align_size = align_pages * PageSize;
          align_shift = countr_zero (of_nat align_size)
      in if align_shift = 64 then None
         else
           case AllocateByRandom_index h index0 needed_size align_shift of
             (index, g) \<Rightarrow>
               (case Block_PopBlock (m_blocks h ! index) True of
                  (addr, b) \<Rightarrow>
                    let h1 = h\<lparr>m_heap_rng := g, m_blocks := (m_blocks h)[index := b]\<rparr>
                    in if addr \<noteq> 0
                       then
                         let leftover_size = sub64 (Block_GetSize b) needed_size
                         in if leftover_size > 0
                            then
                              let possible_alignments = 1 + leftover_size div 2 ^ align_shift;
                                  (rnd, g') = GenerateRandom (of_nat possible_alignments) g;
                                  random_offset = unat rnd * 2 ^ align_shift;
                                  h2 = h1\<lparr>m_heap_rng := g'\<rparr>
                              in case (if random_offset \<noteq> 0
                                       then KPageHeap_Free h2 addr (random_offset div PageSize) else Some h2) of
                                   None \<Rightarrow> None
                                 | Some h3 \<Rightarrow>
                                     let addr' = addr + random_offset
                                     in map_option (\<lambda>h4. (addr', h4))
                                          (if random_offset \<noteq> leftover_size
                                           then KPageHeap_Free h3 (addr' + needed_size)
                                                  ((leftover_size - random_offset) div PageSize)
                                           else Some h3)
                            else Some (addr, h1)
                       else Some (0, h1)))"

definition KPageHeap_AllocateBlock :: "KPageHeap \<Rightarrow> nat \<Rightarrow> bool \<Rightarrow> (nat \<times> KPageHeap) option" where
  "KPageHeap_AllocateBlock h index random =
     (if random
      then let block_pages = Block_GetNumPages (m_blocks h ! index)
           in KPageHeap_AllocateByRandom h index block_pages block_pages
      else KPageHeap_AllocateByLinearSearch h index)"

definition KPageHeap_AllocateAligned :: "KPageHeap \<Rightarrow> nat \<Rightarrow> nat \<Rightarrow> nat \<Rightarrow> (nat \<times> KPageHeap) option" where
  "KPageHeap_AllocateAligned h index num_pages align_pages =
     KPageHeap_AllocateByRandom h index num_pages align_pages"

definition KPageHeap_CalculateManagementOverheadSize_shifts :: "nat \<Rightarrow> nat list \<Rightarrow> nat" where
  "KPageHeap_CalculateManagementOverheadSize_shifts region_size block_shifts =
     AlignUp (sum_list (map (\<lambda>i. Block_CalculateManagementOverheadSize region_size (block_shifts ! i)
       (next_shift block_shifts i)) [0..<length block_shifts])) PageSize"

definition KPageHeap_CalculateManagementOverheadSize :: "nat \<Rightarrow> nat" where
  "KPageHeap_CalculateManagementOverheadSize region_size =
     KPageHeap_CalculateManagementOverheadSize_shifts region_size MemoryBlockPageShifts"

section \<open>Free memory as a set\<close>

text \<open>
  A free block is a size index with an address.  \<open>block_bytes\<close> is the memory it covers, \<open>free_blocks\<close>
  the free blocks of a heap and \<open>free_bytes\<close> the free memory.
\<close>

definition block_bytes :: "nat \<times> nat \<Rightarrow> nat set" where
  "block_bytes x = (case x of (i, a) \<Rightarrow> {a..<a + GetBlockSize i})"

definition level_blocks :: "Block \<Rightarrow> nat set" where
  "level_blocks b = (\<lambda>offset. b_heap_address b + offset * 2 ^ b_block_shift b) ` bitmap_set (b_bitmap b)"

definition free_blocks :: "KPageHeap \<Rightarrow> (nat \<times> nat) set" where
  "free_blocks h = {(i, a). i < length (m_blocks h) \<and> a \<in> level_blocks (m_blocks h ! i)}"

definition free_bytes :: "KPageHeap \<Rightarrow> nat set" where
  "free_bytes h = (\<Union>x\<in>free_blocks h. block_bytes x)"

definition disjoint_blocks :: "(nat \<times> nat) set \<Rightarrow> bool" where
  "disjoint_blocks F \<longleftrightarrow> (\<forall>x\<in>F. \<forall>y\<in>F. x \<noteq> y \<longrightarrow> block_bytes x \<inter> block_bytes y = {})"

definition level_align :: "nat \<Rightarrow> nat" where
  "level_align i =
     (let n = next_shift MemoryBlockPageShifts i
      in if n \<noteq> 0 then 2 ^ n else 2 ^ (MemoryBlockPageShifts ! i))"

definition level_ok :: "KPageHeap \<Rightarrow> nat \<Rightarrow> Block \<Rightarrow> bool" where
  "level_ok h i b \<longleftrightarrow>
     b_block_shift b = MemoryBlockPageShifts ! i \<and> b_next_block_shift b = next_shift MemoryBlockPageShifts i \<and>
     b_heap_address b = AlignDown (m_heap_address h) (level_align i) \<and>
     b_end_offset b =
       (AlignUp (m_heap_address h + m_heap_size h) (level_align i) - b_heap_address b) div GetBlockSize i \<and>
     bitmap_ok (b_bitmap b) (b_end_offset b)"

definition region_ok :: "KPageHeap \<Rightarrow> bool" where
  "region_ok h \<longleftrightarrow>
     PageSize dvd m_heap_address h \<and> PageSize dvd m_heap_size h \<and> 0 < m_heap_size h \<and>
     2 ^ 30 \<le> m_heap_address h \<and> m_heap_address h + m_heap_size h < 2 ^ 62"

definition inside :: "KPageHeap \<Rightarrow> nat \<times> nat \<Rightarrow> bool" where
  "inside h x \<longleftrightarrow> m_heap_address h \<le> snd x \<and> snd x + GetBlockSize (fst x) \<le> m_heap_address h + m_heap_size h"

definition heap_ok :: "KPageHeap \<Rightarrow> bool" where
  "heap_ok h \<longleftrightarrow>
     m_num_blocks h = NumMemoryBlockPageShifts \<and> length (m_blocks h) = NumMemoryBlockPageShifts \<and>
     region_ok h \<and> (\<forall>i<NumMemoryBlockPageShifts. level_ok h i (m_blocks h ! i)) \<and>
     (\<forall>x\<in>free_blocks h. inside h x) \<and> disjoint_blocks (free_blocks h)"

text \<open>
  \<open>full_group h i a\<close>: all the blocks of size \<open>i\<close> that make up the block of the next size at \<open>a\<close> are
  free.  A heap is \<open>heap_coalesced\<close> if it has no such group: it keeps free memory in blocks as large as
  possible.
\<close>

definition level_diff :: "nat \<Rightarrow> nat" where
  "level_diff i = 2 ^ (next_shift MemoryBlockPageShifts i - MemoryBlockPageShifts ! i)"

definition full_group :: "KPageHeap \<Rightarrow> nat \<Rightarrow> nat \<Rightarrow> bool" where
  "full_group h i a \<longleftrightarrow> (\<forall>k<level_diff i. (i, a + k * GetBlockSize i) \<in> free_blocks h)"

definition heap_coalesced :: "KPageHeap \<Rightarrow> bool" where
  "heap_coalesced h \<longleftrightarrow>
     (\<forall>i a. Suc i < NumMemoryBlockPageShifts \<and> GetBlockSize (Suc i) dvd a \<longrightarrow> \<not> full_group h i a)"

lemma index_cases:
  assumes "i < NumMemoryBlockPageShifts"
  obtains "i = 0" | "i = 1" | "i = 2" | "i = 3" | "i = 4" | "i = 5" | "i = 6"
  using assms unfolding NumMemoryBlockPageShifts_def by linarith

text \<open>The sizes: each is a multiple of a page and of the sizes before it.\<close>

lemma block_sizes:
  assumes "i < NumMemoryBlockPageShifts"
  shows "PageSize dvd GetBlockSize i" "0 < GetBlockSize i" "GetBlockSize i \<le> 2 ^ 30"
    "GetBlockSize i dvd level_align i" "level_align i dvd 2 ^ 30" "0 < level_align i" "level_align i \<le> 2 ^ 30"
  using assms
  by (cases rule: index_cases;
      simp add: GetBlockSize_def MemoryBlockPageShifts_def PageSize_def level_align_def next_shift_def)+

lemma next_block_size:
  assumes "i < NumMemoryBlockPageShifts" and "next_shift MemoryBlockPageShifts i \<noteq> 0"
  shows "Suc i < NumMemoryBlockPageShifts" "level_align i = GetBlockSize (Suc i)"
    "GetBlockSize (Suc i) = level_diff i * GetBlockSize i" "level_diff i dvd 64" "level_diff i < 64"
    "0 < level_diff i"
  using assms
  by (cases rule: index_cases;
      simp add: GetBlockSize_def MemoryBlockPageShifts_def level_align_def next_shift_def
        NumMemoryBlockPageShifts_def level_diff_def)+

lemma size_dvd:
  assumes "i \<le> j" and "j < NumMemoryBlockPageShifts"
  shows "GetBlockSize i dvd GetBlockSize j"
proof -
  have "MemoryBlockPageShifts ! i \<le> MemoryBlockPageShifts ! j"
  proof -
    have "sorted MemoryBlockPageShifts" by (simp add: MemoryBlockPageShifts_def)
    then show ?thesis
      using assms by (intro sorted_nth_mono) (simp_all add: MemoryBlockPageShifts_def NumMemoryBlockPageShifts_def)
  qed
  then show ?thesis by (simp add: GetBlockSize_def le_imp_power_dvd)
qed

lemma GetBlockSize_0: "GetBlockSize 0 = PageSize"
  by (simp add: GetBlockSize_def MemoryBlockPageShifts_def PageSize_def)

lemma Block_GetSize_ok: "level_ok h i b \<Longrightarrow> Block_GetSize b = GetBlockSize i"
  by (simp add: Block_GetSize_def GetBlockSize_def level_ok_def)

section \<open>Offsets and addresses\<close>

lemma block_base:
  assumes "level_ok h i b" and "i < NumMemoryBlockPageShifts" and "region_ok h"
  shows "b_heap_address b \<le> m_heap_address h" "level_align i dvd b_heap_address b"
    "GetBlockSize i dvd b_heap_address b" "0 < b_heap_address b"
    "m_heap_address h + m_heap_size h \<le> b_heap_address b + b_end_offset b * GetBlockSize i"
    "0 < b_end_offset b"
proof -
  let ?A = "level_align i" and ?s = "m_heap_address h" and ?e = "m_heap_address h + m_heap_size h"
  note sz = block_sizes [OF assms(2)]
  have b: "b_heap_address b = AlignDown ?s ?A" "b_end_offset b = (AlignUp ?e ?A - b_heap_address b) div GetBlockSize i"
    using assms(1) by (simp_all add: level_ok_def)
  show le: "b_heap_address b \<le> ?s" unfolding b(1) by (rule AlignDown_le)
  show A: "?A dvd b_heap_address b" unfolding b(1) by (rule AlignDown_dvd)
  then show "GetBlockSize i dvd b_heap_address b" using sz(4) dvd_trans by blast
  have "?s < b_heap_address b + ?A" unfolding b(1) by (rule AlignDown_gt [OF sz(6)])
  then show "0 < b_heap_address b" using assms(3) sz(7) unfolding region_ok_def by linarith
  have "?e < 2 ^ 62" using assms(3) by (simp add: region_ok_def)
  then have e: "?e + ?A < 2 ^ 64" using sz(7) by simp
  note up = AlignUp_ge [OF e sz(6)] AlignUp_dvd [OF e]
  have "GetBlockSize i dvd AlignUp ?e ?A - b_heap_address b"
    using dvd_trans [OF sz(4) A] dvd_trans [OF sz(4) up(2)] by (rule dvd_diff_nat [rotated])
  then have "b_end_offset b * GetBlockSize i = AlignUp ?e ?A - b_heap_address b" unfolding b(2) by simp
  then show le2: "?e \<le> b_heap_address b + b_end_offset b * GetBlockSize i" using up(1) by linarith
  show "0 < b_end_offset b"
  proof (rule ccontr)
    assume "\<not> 0 < b_end_offset b"
    with le2 le assms(3) show False by (simp add: region_ok_def)
  qed
qed

lemma level_blocks_iff:
  assumes "level_ok h i b" and "i < NumMemoryBlockPageShifts" and "region_ok h"
    and "GetBlockSize i dvd a" and "m_heap_address h \<le> a"
  shows "a \<in> level_blocks b \<longleftrightarrow> (a - b_heap_address b) div GetBlockSize i \<in> bitmap_set (b_bitmap b)"
    and "b_heap_address b + (a - b_heap_address b) div GetBlockSize i * GetBlockSize i = a"
proof -
  note base = block_base [OF assms(1-3)]
  have s: "2 ^ b_block_shift b = GetBlockSize i" using assms(1) by (simp add: level_ok_def GetBlockSize_def)
  have le: "b_heap_address b \<le> a" using base(1) assms(5) by simp
  have "GetBlockSize i dvd a - b_heap_address b" using base(3) assms(4) by (rule dvd_diff_nat [rotated])
  then show eq: "b_heap_address b + (a - b_heap_address b) div GetBlockSize i * GetBlockSize i = a"
    using le by simp
  show "a \<in> level_blocks b \<longleftrightarrow> (a - b_heap_address b) div GetBlockSize i \<in> bitmap_set (b_bitmap b)"
    using eq block_sizes(2) [OF assms(2)] unfolding level_blocks_def s by (auto simp: image_iff) (metis)
qed

lemma offset_in_range:
  assumes "level_ok h i b" and "i < NumMemoryBlockPageShifts" and "region_ok h"
    and "GetBlockSize i dvd a" and "inside h (i, a)"
  shows "(a - b_heap_address b) div GetBlockSize i < b_end_offset b"
proof -
  note base = block_base [OF assms(1-3)]
  have a: "m_heap_address h \<le> a" "a + GetBlockSize i \<le> m_heap_address h + m_heap_size h"
    using assms(5) by (simp_all add: inside_def)
  have eq: "b_heap_address b + (a - b_heap_address b) div GetBlockSize i * GetBlockSize i = a"
    using level_blocks_iff(2) [OF assms(1-4) a(1)] .
  have "(a - b_heap_address b) div GetBlockSize i * GetBlockSize i < b_end_offset b * GetBlockSize i"
    using eq a(2) base(5) block_sizes(2) [OF assms(2)] by linarith
  then show ?thesis by simp
qed

section \<open>Changing one level\<close>

lemma free_blocks_update:
  assumes "i < length (m_blocks h)"
  shows "free_blocks (h\<lparr>m_blocks := (m_blocks h)[i := b]\<rparr>) = {x \<in> free_blocks h. fst x \<noteq> i} \<union> Pair i ` level_blocks b"
  using assms by (auto simp: free_blocks_def nth_list_update split: if_splits)

lemma level_ok_cong: "m_heap_address h' = m_heap_address h \<Longrightarrow> m_heap_size h' = m_heap_size h \<Longrightarrow>
    level_ok h' i b = level_ok h i b"
  by (simp add: level_ok_def)

lemma level_ok_bitmap:
  assumes "level_ok h i b" and "bitmap_ok bm (b_end_offset b)"
  shows "level_ok h i (b\<lparr>b_bitmap := bm\<rparr>)"
  using assms unfolding level_ok_def by simp

lemma heap_ok_update:
  assumes "heap_ok h" and "i < NumMemoryBlockPageShifts" and "level_ok h i b"
    and "\<And>a. a \<in> level_blocks b \<Longrightarrow> inside h (i, a)"
    and "disjoint_blocks ({x \<in> free_blocks h. fst x \<noteq> i} \<union> Pair i ` level_blocks b)"
  shows "heap_ok (h\<lparr>m_blocks := (m_blocks h)[i := b]\<rparr>)"
proof -
  let ?h = "h\<lparr>m_blocks := (m_blocks h)[i := b]\<rparr>"
  have i: "i < length (m_blocks h)" using assms(1,2) by (simp add: heap_ok_def)
  have "level_ok ?h j (m_blocks ?h ! j)" if "j < NumMemoryBlockPageShifts" for j
    using that assms(1,3) i by (cases "j = i") (simp_all add: heap_ok_def level_ok_cong [of ?h h])
  moreover have "inside ?h x" if "x \<in> free_blocks ?h" for x
    using that assms(1,4) unfolding free_blocks_update [OF i] by (auto simp: heap_ok_def inside_def)
  ultimately show ?thesis
    using assms(1,5) by (simp add: heap_ok_def free_blocks_update [OF i] region_ok_def)
qed

lemma free_bytes_update:
  assumes "i < length (m_blocks h)"
  shows "free_bytes (h\<lparr>m_blocks := (m_blocks h)[i := b]\<rparr>) =
    (\<Union>x\<in>{x \<in> free_blocks h. fst x \<noteq> i}. block_bytes x) \<union> (\<Union>a\<in>level_blocks b. {a..<a + GetBlockSize i})"
  unfolding free_bytes_def free_blocks_update [OF assms] by (simp add: block_bytes_def)

lemma free_blocks_split:
  assumes "i < length (m_blocks h)"
  shows "free_blocks h = {x \<in> free_blocks h. fst x \<noteq> i} \<union> Pair i ` level_blocks (m_blocks h ! i)"
  using assms by (auto simp: free_blocks_def)

lemma free_bytes_split:
  assumes "i < length (m_blocks h)"
  shows "free_bytes h = (\<Union>x\<in>{x \<in> free_blocks h. fst x \<noteq> i}. block_bytes x) \<union>
    (\<Union>a\<in>level_blocks (m_blocks h ! i). {a..<a + GetBlockSize i})"
proof -
  have "free_bytes h = (\<Union>x\<in>{x \<in> free_blocks h. fst x \<noteq> i} \<union> Pair i ` level_blocks (m_blocks h ! i). block_bytes x)"
    unfolding free_bytes_def using free_blocks_split [OF assms] by simp
  then show ?thesis by (simp add: block_bytes_def)
qed

lemma disjoint_blocks_subset: "disjoint_blocks F \<Longrightarrow> G \<subseteq> F \<Longrightarrow> disjoint_blocks G"
  unfolding disjoint_blocks_def by blast

lemma disjoint_blocks_insert:
  assumes "disjoint_blocks F" and "block_bytes x \<inter> (\<Union>y\<in>F. block_bytes y) = {}"
  shows "disjoint_blocks (insert x F)"
  using assms unfolding disjoint_blocks_def by blast

lemma disjoint_blocks_remove:
  assumes "disjoint_blocks F" and "G \<subseteq> F"
  shows "(\<Union>x\<in>F - G. block_bytes x) = (\<Union>x\<in>F. block_bytes x) - (\<Union>x\<in>G. block_bytes x)"
proof (intro equalityI subsetI)
  fix z assume "z \<in> (\<Union>x\<in>F - G. block_bytes x)"
  then obtain x where x: "x \<in> F" "x \<notin> G" "z \<in> block_bytes x" by blast
  have "z \<notin> block_bytes y" if "y \<in> G" for y
  proof -
    have "x \<noteq> y" "y \<in> F" using that x(2) assms(2) by auto
    then have "block_bytes x \<inter> block_bytes y = {}" using assms(1) x(1) unfolding disjoint_blocks_def by simp
    with x(3) show ?thesis by blast
  qed
  with x show "z \<in> (\<Union>x\<in>F. block_bytes x) - (\<Union>x\<in>G. block_bytes x)" by blast
qed blast

lemma interval_blocks:
  fixes c m n s :: nat
  shows "(\<Union>k\<in>{m..<m + n}. {c + k * s..<c + k * s + s}) = {c + m * s..<c + m * s + n * s}"
proof (induction n)
  case (Suc n)
  have "{m..<m + Suc n} = insert (m + n) {m..<m + n}" by auto
  then have "(\<Union>k\<in>{m..<m + Suc n}. {c + k * s..<c + k * s + s})
      = {c + (m + n) * s..<c + (m + n) * s + s} \<union> {c + m * s..<c + m * s + n * s}"
    using Suc by simp
  also have "\<dots> = {c + m * s..<c + m * s + Suc n * s}" by (auto simp: algebra_simps)
  finally show ?case .
qed simp

section \<open>Pushing a block\<close>

lemma push_set:
  assumes "heap_ok h" and "i < NumMemoryBlockPageShifts" and "GetBlockSize i dvd a" and "inside h (i, a)"
    and "block_bytes (i, a) \<inter> free_bytes h = {}"
  defines "b \<equiv> m_blocks h ! i"
  defines "b1 \<equiv> b\<lparr>b_bitmap := KPageBitmap_SetBit (b_bitmap b) ((a - b_heap_address b) div 2 ^ b_block_shift b)\<rparr>"
  shows "level_ok h i b1" and "level_blocks b1 = insert a (level_blocks b)"
    and "heap_ok (h\<lparr>m_blocks := (m_blocks h)[i := b1]\<rparr>)"
    and "free_bytes (h\<lparr>m_blocks := (m_blocks h)[i := b1]\<rparr>) = free_bytes h \<union> block_bytes (i, a)"
    and "free_blocks (h\<lparr>m_blocks := (m_blocks h)[i := b1]\<rparr>) = insert (i, a) (free_blocks h)"
proof -
  have len: "i < length (m_blocks h)" using assms(1,2) by (simp add: heap_ok_def)
  have ok: "level_ok h i b" "region_ok h" using assms(1,2) by (simp_all add: heap_ok_def b_def)
  have s: "2 ^ b_block_shift b = GetBlockSize i" using ok(1) by (simp add: level_ok_def GetBlockSize_def)
  let ?o = "(a - b_heap_address b) div GetBlockSize i"
  have a: "m_heap_address h \<le> a" using assms(4) by (simp add: inside_def)
  note addr = level_blocks_iff [OF ok(1) assms(2) ok(2) assms(3) a]
  note range = offset_in_range [OF ok(1) assms(2) ok(2) assms(3,4)]
  have "a \<in> block_bytes (i, a)" using block_sizes(2) [OF assms(2)] by (simp add: block_bytes_def)
  then have fresh: "a \<notin> level_blocks b"
    using assms(5) unfolding free_bytes_split [OF len] b_def block_bytes_def by fastforce
  then have "?o \<notin> bitmap_set (b_bitmap b)" using addr(1) by simp
  note bm = SetBit_bitmap [OF _ range this]
  have bo: "bitmap_ok (b_bitmap b) (b_end_offset b)" using ok(1) unfolding level_ok_def by blast
  show ok1: "level_ok h i b1" unfolding b1_def s using ok(1) bm(1) [OF bo] by (rule level_ok_bitmap)
  show lv: "level_blocks b1 = insert a (level_blocks b)"
    using bm(2) [OF bo] addr(2) by (simp add: level_blocks_def b1_def s)
  have F: "{x \<in> free_blocks h. fst x \<noteq> i} \<union> Pair i ` level_blocks b1 = insert (i, a) (free_blocks h)"
    using free_blocks_split [OF len] lv b_def by auto
  show "heap_ok (h\<lparr>m_blocks := (m_blocks h)[i := b1]\<rparr>)"
  proof (rule heap_ok_update [OF assms(1,2) ok1])
    show "inside h (i, a')" if "a' \<in> level_blocks b1" for a'
      using that assms(1,4) len lv by (auto simp: heap_ok_def free_blocks_def b_def)
    show "disjoint_blocks ({x \<in> free_blocks h. fst x \<noteq> i} \<union> Pair i ` level_blocks b1)"
      unfolding F using assms(1,5) by (intro disjoint_blocks_insert) (simp_all add: heap_ok_def free_bytes_def)
  qed
  show "free_bytes (h\<lparr>m_blocks := (m_blocks h)[i := b1]\<rparr>) = free_bytes h \<union> block_bytes (i, a)"
    unfolding free_bytes_def free_blocks_update [OF len] F by auto
  show "free_blocks (h\<lparr>m_blocks := (m_blocks h)[i := b1]\<rparr>) = insert (i, a) (free_blocks h)"
    unfolding free_blocks_update [OF len] F ..
qed

section \<open>Coalescing a complete group\<close>

lemma end_offset_dvd:
  assumes "level_ok h i b" and "i < NumMemoryBlockPageShifts" and "region_ok h"
    and "next_shift MemoryBlockPageShifts i \<noteq> 0"
  shows "level_diff i dvd b_end_offset b"
proof -
  let ?A = "level_align i" and ?e = "m_heap_address h + m_heap_size h"
  note sz = block_sizes [OF assms(2)] and nx = next_block_size [OF assms(2,4)]
  have "?e < 2 ^ 62" using assms(3) by (simp add: region_ok_def)
  then have "?e + ?A < 2 ^ 64" using sz(7) by simp
  then have "?A dvd AlignUp ?e ?A - b_heap_address b"
    using block_base(2) [OF assms(1-3)] by (intro dvd_diff_nat AlignUp_dvd)
  then obtain k where k: "AlignUp ?e ?A - b_heap_address b = ?A * k" by (rule dvdE)
  have "?A * k = (level_diff i * k) * GetBlockSize i" unfolding nx(2,3) by simp
  with k have "b_end_offset b = level_diff i * k"
    using assms(1) sz(2) by (simp add: level_ok_def)
  then show ?thesis by simp
qed

lemma group_offset:
  assumes "o1 < n" and "d dvd n" and "0 < (d :: nat)" and "d dvd 64" and "d < 64"
  shows "AlignDown o1 d + d \<le> n" and "AlignDown o1 d mod 64 + d \<le> 64"
proof -
  have *: "x + d \<le> m" if "d dvd x" "d dvd m" "x < m" for x m
  proof -
    have "d dvd m - x" "0 < m - x" using that by simp_all
    then have "d \<le> m - x" by (rule dvd_imp_le)
    then show ?thesis using that(3) by linarith
  qed
  have a: "d dvd AlignDown o1 d" by (rule AlignDown_dvd)
  show "AlignDown o1 d + d \<le> n"
    using AlignDown_le [of o1 d] assms(1) by (intro * a assms(2)) linarith
  show "AlignDown o1 d mod 64 + d \<le> 64"
    using a assms(4) by (intro *) (simp_all add: dvd_mod)
qed

lemma group_blocks:
  assumes "next_shift MemoryBlockPageShifts i \<noteq> 0" and "i < NumMemoryBlockPageShifts"
  shows "(\<Union>x\<in>Pair i ` (\<lambda>k. c + k * GetBlockSize i) ` {m..<m + level_diff i}. block_bytes x)
    = block_bytes (Suc i, c + m * GetBlockSize i)"
  using interval_blocks [of c "GetBlockSize i" m "level_diff i"] next_block_size(3) [OF assms(2,1)]
  by (simp add: block_bytes_def)

lemma free_blocks_remove:
  assumes "i < length (m_blocks h)"
  shows "{x \<in> free_blocks h. fst x \<noteq> i} \<union> Pair i ` (level_blocks (m_blocks h ! i) - G) = free_blocks h - Pair i ` G"
  using assms by (auto simp: free_blocks_def)

lemma next_shift_exists:
  assumes "i < NumMemoryBlockPageShifts"
  shows "next_shift MemoryBlockPageShifts i \<noteq> 0 \<longleftrightarrow> Suc i < NumMemoryBlockPageShifts"
  using assms by (cases rule: index_cases) (simp_all add: next_shift_def MemoryBlockPageShifts_def NumMemoryBlockPageShifts_def)

text \<open>The group of the next size that a block belongs to is the one \<^verbatim>\<open>PushBlock\<close> computes.\<close>

lemma group_base:
  fixes c s d x k :: nat
  assumes "d * s dvd c" and "d * s dvd x" and "k < d" and "0 < s" and "c \<le> x + k * s"
  shows "x = c + AlignDown ((x + k * s - c) div s) d * s"
proof -
  obtain q r where q: "c = d * s * q" "x = d * s * r" using assms(1,2) by (auto elim!: dvdE)
  have "k * s < d * s" using assms(3,4) by simp
  then have "d * s * q < d * s * Suc r" using assms(5) unfolding q mult_Suc_right by linarith
  then have qr: "q \<le> r" by (metis less_Suc_eq_le mult_less_cancel1)
  then obtain t where t: "r = q + t" using le_iff_add by blast
  have "x + k * s - c = (d * t + k) * s" unfolding q t by (simp add: algebra_simps)
  then have "(x + k * s - c) div s = d * t + k" using assms(4) by simp
  then have "AlignDown ((x + k * s - c) div s) d = d * t" using assms(3) by (simp add: AlignDown_def)
  then show ?thesis unfolding q t by (simp add: algebra_simps)
qed

lemma pushed_coalesced:
  assumes "heap_ok h" and "heap_coalesced h" and "i < NumMemoryBlockPageShifts" and "GetBlockSize i dvd a" and "inside h (i, a)"
    and "free_blocks h' \<subseteq> insert (i, a) (free_blocks h)"
  defines "c \<equiv> b_heap_address (m_blocks h ! i)"
  assumes group: "Suc i < NumMemoryBlockPageShifts \<Longrightarrow>
      \<not> full_group h' i (c + AlignDown ((a - c) div GetBlockSize i) (level_diff i) * GetBlockSize i)"
  shows "heap_coalesced h'"
  unfolding heap_coalesced_def
proof (intro allI impI notI; elim conjE)
  fix j x assume j: "Suc j < NumMemoryBlockPageShifts" and x: "GetBlockSize (Suc j) dvd x" and full: "full_group h' j x"
  have "\<not> full_group h j x" using assms(2) j x by (simp add: heap_coalesced_def)
  then obtain k where k: "k < level_diff j" "(j, x + k * GetBlockSize j) \<notin> free_blocks h" by (auto simp: full_group_def)
  then have e: "j = i" "a = x + k * GetBlockSize i" using full assms(6) by (auto simp: full_group_def)
  have nx: "next_shift MemoryBlockPageShifts i \<noteq> 0" using j e(1) next_shift_exists [OF assms(3)] by simp
  note n = next_block_size [OF assms(3) nx]
  have ok: "level_ok h i (m_blocks h ! i)" "region_ok h" using assms(1,3) by (simp_all add: heap_ok_def)
  note base = block_base [OF ok(1) assms(3) ok(2), folded c_def]
  have "c \<le> a" using base(1) assms(5) by (simp add: inside_def)
  then have "x = c + AlignDown ((x + k * GetBlockSize i - c) div GetBlockSize i) (level_diff i) * GetBlockSize i"
    using base(2) n(2,3) x k(1) e block_sizes(2) [OF assms(3)] by (intro group_base) simp_all
  with full e j show False using group by simp
qed

lemma heap_coalesced_less: "heap_coalesced h \<Longrightarrow> free_blocks h' \<subseteq> free_blocks h \<Longrightarrow> heap_coalesced h'"
  unfolding heap_coalesced_def full_group_def by blast

lemma full_group_bits:
  assumes "heap_ok h" and "i < NumMemoryBlockPageShifts" and "b = m_blocks h ! i"
    and "full_group h i (b_heap_address b + m * GetBlockSize i)"
  shows "{m..<m + level_diff i} \<subseteq> bitmap_set (b_bitmap b)"
proof
  fix j assume j: "j \<in> {m..<m + level_diff i}"
  have s: "2 ^ b_block_shift b = GetBlockSize i" using assms(1-3) by (simp add: heap_ok_def level_ok_def GetBlockSize_def)
  have "(i, b_heap_address b + m * GetBlockSize i + (j - m) * GetBlockSize i) \<in> free_blocks h"
    using assms(4) j by (auto simp: full_group_def)
  then have "b_heap_address b + j * GetBlockSize i \<in> level_blocks b"
    using j assms(3) by (simp add: free_blocks_def add.assoc flip: add_mult_distrib)
  then show "j \<in> bitmap_set (b_bitmap b)" using block_sizes(2) [OF assms(2)] unfolding level_blocks_def s by auto
qed

lemma coalesce:
  assumes "heap_ok h" and "i < NumMemoryBlockPageShifts" and "next_shift MemoryBlockPageShifts i \<noteq> 0"
    and "b = m_blocks h ! i" and "o1 < b_end_offset b"
    and "KPageBitmap_ClearRange (b_bitmap b) (AlignDown o1 (level_diff i)) (level_diff i) = Some (True, bitmap)"
  defines "p \<equiv> b_heap_address b + AlignDown o1 (level_diff i) * GetBlockSize i"
  defines "h' \<equiv> h\<lparr>m_blocks := (m_blocks h)[i := b\<lparr>b_bitmap := bitmap\<rparr>]\<rparr>"
  shows "heap_ok h'" and "free_bytes h = free_bytes h' \<union> block_bytes (Suc i, p)"
    and "block_bytes (Suc i, p) \<inter> free_bytes h' = {}"
    and "inside h (Suc i, p)" and "GetBlockSize (Suc i) dvd p" and "p \<noteq> 0"
    and "free_blocks h' \<subseteq> free_blocks h" and "\<not> full_group h' i p"
proof -
  let ?d = "level_diff i" and ?m = "AlignDown o1 (level_diff i)" and ?s = "GetBlockSize i"
  have len: "i < length (m_blocks h)" using assms(1,2) by (simp add: heap_ok_def)
  have ok: "level_ok h i b" "region_ok h" using assms(1,2,4) by (simp_all add: heap_ok_def)
  have bo: "bitmap_ok (b_bitmap b) (b_end_offset b)" using ok(1) unfolding level_ok_def by blast
  note sz = block_sizes [OF assms(2)] and nx = next_block_size [OF assms(2,3)]
    and base = block_base [OF ok(1) assms(2) ok(2)]
  note grp = group_offset [OF assms(5) end_offset_dvd [OF ok(1) assms(2) ok(2) assms(3)] nx(6,4,5)]
  have w: "if ?d < 64 then ?m mod 64 + ?d \<le> 64 else ?m mod 64 = 0 \<and> ?d mod 64 = 0" using grp(2) nx(5) by simp
  note cr = ClearRange_bitmap [OF bo grp(1) nx(6) w assms(6)]
  let ?f = "\<lambda>k. b_heap_address b + k * GetBlockSize i" and ?G = "{?m..<?m + ?d}"
  have s: "2 ^ b_block_shift b = ?s" using ok(1) by (simp add: level_ok_def GetBlockSize_def)
  have inj: "inj ?f" using sz(2) by (simp add: inj_on_def)
  let ?b = "b\<lparr>b_bitmap := bitmap\<rparr>" and ?R = "Pair i ` ?f ` {?m..<?m + ?d}"
  have sub: "?G \<subseteq> bitmap_set (b_bitmap b)" using cr(1) by simp
  have L: "level_blocks b = ?f ` bitmap_set (b_bitmap b)" by (simp add: level_blocks_def s)
  have lv: "level_blocks ?b = level_blocks b - ?f ` ?G"
    unfolding L using cr(3) inj by (simp add: level_blocks_def s image_set_diff)
  have okb: "level_ok h i ?b" using ok(1) cr(2) by (rule level_ok_bitmap)
  have "?f ` ?G \<subseteq> level_blocks b" unfolding L using sub by (rule image_mono)
  then have Rsub: "?R \<subseteq> free_blocks h" using len assms(4) by (auto simp: free_blocks_def)
  have F: "{x \<in> free_blocks h. fst x \<noteq> i} \<union> Pair i ` level_blocks ?b = free_blocks h - ?R"
    unfolding lv using free_blocks_remove [OF len, folded assms(4)] .
  have dj: "disjoint_blocks (free_blocks h)" "\<forall>x\<in>free_blocks h. inside h x" using assms(1) by (simp_all add: heap_ok_def)
  have ins: "inside h (i, ?f k)" if "k \<in> ?G" for k using Rsub dj(2) that by blast
  show "heap_ok h'" unfolding h'_def
  proof (rule heap_ok_update [OF assms(1,2) okb])
    show "inside h (i, a')" if "a' \<in> level_blocks ?b" for a'
    proof -
      have "(i, a') \<in> free_blocks h" using that F by blast
      with dj(2) show ?thesis by blast
    qed
    show "disjoint_blocks ({x \<in> free_blocks h. fst x \<noteq> i} \<union> Pair i ` level_blocks ?b)"
      unfolding F using dj(1) by (rule disjoint_blocks_subset) blast
  qed
  have R: "(\<Union>x\<in>?R. block_bytes x) = block_bytes (Suc i, p)"
    unfolding p_def by (rule group_blocks [OF assms(3,2)])
  have fb: "free_bytes h' = free_bytes h - block_bytes (Suc i, p)"
    unfolding h'_def free_bytes_def free_blocks_update [OF len] F using disjoint_blocks_remove [OF dj(1) Rsub] R by simp
  have "block_bytes (Suc i, p) \<subseteq> free_bytes h" unfolding R [symmetric] free_bytes_def using Rsub by blast
  with fb show "free_bytes h = free_bytes h' \<union> block_bytes (Suc i, p)" "block_bytes (Suc i, p) \<inter> free_bytes h' = {}"
    by blast+
  have "inside h (i, ?f ?m)" "inside h (i, ?f (?m + ?d - 1))" using nx(6) by (intro ins; simp)+
  moreover have "?f (?m + ?d - 1) + ?s = p + GetBlockSize (Suc i)"
    using nx(3,6) by (cases ?d) (simp_all add: p_def algebra_simps)
  ultimately show "inside h (Suc i, p)" by (simp add: inside_def p_def)
  have "GetBlockSize (Suc i) dvd ?m * ?s" unfolding nx(3) by (intro mult_dvd_mono AlignDown_dvd dvd_refl)
  then show "GetBlockSize (Suc i) dvd p" using base(2) nx(2) unfolding p_def by simp
  show "p \<noteq> 0" using base(4) unfolding p_def by simp
  have fr: "free_blocks h' = free_blocks h - ?R" unfolding h'_def free_blocks_update [OF len] F ..
  then show "free_blocks h' \<subseteq> free_blocks h" by blast
  have "(i, p) \<in> ?R" unfolding p_def using nx(6) by (intro imageI) simp
  then have "(i, p + 0 * ?s) \<notin> free_blocks h'" using fr by simp
  then show "\<not> full_group h' i p" using nx(6) unfolding full_group_def by blast
qed

section \<open>Freeing a block\<close>

text \<open>
  \<open>freed h h' S\<close>: \<open>h'\<close> is a well-formed heap over the same region whose free memory is that of \<open>h\<close>
  with \<open>S\<close> added, and coalesced if \<open>h\<close> was.
\<close>

definition same_region :: "KPageHeap \<Rightarrow> KPageHeap \<Rightarrow> bool" where
  "same_region h h' \<longleftrightarrow>
     m_heap_address h' = m_heap_address h \<and> m_heap_size h' = m_heap_size h \<and>
     m_initial_used_size h' = m_initial_used_size h"

definition freed :: "KPageHeap \<Rightarrow> KPageHeap \<Rightarrow> nat set \<Rightarrow> bool" where
  "freed h h' S \<longleftrightarrow> heap_ok h' \<and> same_region h h' \<and> free_bytes h' = free_bytes h \<union> S \<and> (heap_coalesced h \<longrightarrow> heap_coalesced h')"

lemma freed_trans: "freed h h1 S \<Longrightarrow> freed h1 h2 T \<Longrightarrow> freed h h2 (S \<union> T)"
  by (auto simp: freed_def same_region_def)

lemma same_region_blocks [simp]: "same_region h (h\<lparr>m_blocks := bs\<rparr>)"
  by (simp add: same_region_def)

lemma inside_cong: "same_region h h' \<Longrightarrow> inside h' x = inside h x"
  by (simp add: inside_def same_region_def)

text \<open>
  \<open>pushed h i a p h'\<close>: \<open>h'\<close> is \<open>h\<close> after the block of size \<open>i\<close> at \<open>a\<close> has been pushed.  Either the block is
  free now, or the group it completes has been taken out and its address \<open>p\<close> is to be pushed next.
\<close>

definition pushed :: "KPageHeap \<Rightarrow> nat \<Rightarrow> nat \<Rightarrow> nat \<Rightarrow> KPageHeap \<Rightarrow> bool" where
  "pushed h i a p h' \<longleftrightarrow> heap_ok h' \<and> (heap_coalesced h \<longrightarrow> heap_coalesced h') \<and>
     (if p = 0 then free_bytes h' = free_bytes h \<union> block_bytes (i, a)
      else Suc i < NumMemoryBlockPageShifts \<and> inside h (Suc i, p) \<and> GetBlockSize (Suc i) dvd p \<and>
        block_bytes (Suc i, p) \<inter> free_bytes h' = {} \<and>
        free_bytes h' \<union> block_bytes (Suc i, p) = free_bytes h \<union> block_bytes (i, a))"

lemma PushBlock_correct:
  assumes "heap_ok h" and "i < NumMemoryBlockPageShifts" and "GetBlockSize i dvd a" and "inside h (i, a)"
    and "block_bytes (i, a) \<inter> free_bytes h = {}"
  shows "\<exists>p b'. Block_PushBlock (m_blocks h ! i) a = Some (p, b') \<and> pushed h i a p (h\<lparr>m_blocks := (m_blocks h)[i := b']\<rparr>)"
proof -
  define b where "b = m_blocks h ! i"
  define o1 where "o1 = (a - b_heap_address b) div GetBlockSize i"
  define b1 where "b1 = b\<lparr>b_bitmap := KPageBitmap_SetBit (b_bitmap b) o1\<rparr>"
  define h1 where "h1 = h\<lparr>m_blocks := (m_blocks h)[i := b1]\<rparr>"
  have len: "i < length (m_blocks h)" using assms(1,2) by (simp add: heap_ok_def)
  have ok: "level_ok h i b" "region_ok h" using assms(1,2) by (simp_all add: heap_ok_def b_def)
  have sh: "2 ^ b_block_shift b = GetBlockSize i" "b_next_block_shift b = next_shift MemoryBlockPageShifts i"
    "2 ^ (b_next_block_shift b - b_block_shift b) = level_diff i"
    using ok(1) by (simp_all add: level_ok_def GetBlockSize_def level_diff_def)
  note set = push_set [OF assms(1-5), folded b_def, unfolded sh(1), folded o1_def, folded b1_def, folded h1_def]
  have h1: "m_blocks h1 ! i = b1" "b_heap_address b1 = b_heap_address b" "same_region h h1"
    "h1\<lparr>m_blocks := (m_blocks h1)[i := x]\<rparr> = h\<lparr>m_blocks := (m_blocks h)[i := x]\<rparr>" for x
    using len by (simp_all add: h1_def b1_def)
  have "b_heap_address b \<le> a" "a < 2 ^ 62"
    using block_base(1) [OF ok(1) assms(2) ok(2)] assms(4) ok(2) block_sizes(2) [OF assms(2)]
    by (simp_all add: inside_def region_ok_def)
  then have off: "sub64 a (b_heap_address b) div GetBlockSize i = o1" by (simp add: sub64_eq o1_def)
  note push = Block_PushBlock_def [of b a, unfolded Let_def, unfolded sh(3), unfolded sh(1,2) off, folded b1_def]
  let ?g = "b_heap_address b + AlignDown o1 (level_diff i) * GetBlockSize i"
  have kept: "heap_coalesced h \<longrightarrow> heap_coalesced h'"
    if "free_blocks h' \<subseteq> free_blocks h1" "Suc i < NumMemoryBlockPageShifts \<Longrightarrow> \<not> full_group h' i ?g" for h'
    using pushed_coalesced [OF assms(1) _ assms(2-4), of h'] that set(5) by (simp add: o1_def b_def)
  show ?thesis
  proof (cases "next_shift MemoryBlockPageShifts i = 0")
    case True
    then have "Block_PushBlock b a = Some (0, b1)" using push by simp
    moreover have "heap_coalesced h \<longrightarrow> heap_coalesced h1" using True next_shift_exists [OF assms(2)] by (intro kept) auto
    ultimately show ?thesis using set(3,4) by (auto simp: pushed_def b_def h1_def)
  next
    case False
    note nx = next_block_size [OF assms(2) False]
    have o1: "o1 < b_end_offset b1" unfolding b1_def o1_def
      using offset_in_range [OF ok(1) assms(2) ok(2) assms(3,4)] by simp
    have bo: "bitmap_ok (b_bitmap b1) (b_end_offset b1)" using set(1) unfolding level_ok_def by blast
    note grp = group_offset [OF o1 end_offset_dvd [OF set(1) assms(2) ok(2) False] nx(6,4,5)]
    have w: "if level_diff i < 64 then AlignDown o1 (level_diff i) mod 64 + level_diff i \<le> 64
        else AlignDown o1 (level_diff i) mod 64 = 0 \<and> level_diff i mod 64 = 0" using grp(2) nx(5) by simp
    obtain ok1 bitmap where c: "KPageBitmap_ClearRange (b_bitmap b1) (AlignDown o1 (level_diff i)) (level_diff i) = Some (ok1, bitmap)"
      using ClearRange_returns [OF bo grp(1) nx(6) w] bitmap_ok_levels [OF bo] by (metis surj_pair)
    note cr = ClearRange_bitmap [OF bo grp(1) nx(6) w c]
    show ?thesis
    proof (cases ok1)
      case True
      then have p: "Block_PushBlock b a = Some (?g, b1\<lparr>b_bitmap := bitmap\<rparr>)" using push c False by simp
      have c': "KPageBitmap_ClearRange (b_bitmap b1) (AlignDown o1 (level_diff i)) (level_diff i) = Some (True, bitmap)"
        using c True by simp
      note co = coalesce [OF set(3) assms(2) False h1(1) [symmetric] o1 c', unfolded h1(2,4)]
      have "heap_coalesced h \<longrightarrow> heap_coalesced (h\<lparr>m_blocks := (m_blocks h)[i := b1\<lparr>b_bitmap := bitmap\<rparr>]\<rparr>)"
        using co(7,8) by (intro kept) simp_all
      then have "pushed h i a ?g (h\<lparr>m_blocks := (m_blocks h)[i := b1\<lparr>b_bitmap := bitmap\<rparr>]\<rparr>)"
        using co(1-5) set(4) nx(1) inside_cong [OF h1(3)] unfolding pushed_def if_not_P [OF co(6)] by simp
      with p show ?thesis unfolding b_def by blast
    next
      case not_ok: False
      then have "Block_PushBlock b a = Some (0, b1)" using push c False cr(4) by (simp add: b1_def)
      moreover have "\<not> full_group h1 i ?g"
        using full_group_bits [OF set(3) assms(2) h1(1) [symmetric], unfolded h1(2)] cr(1) not_ok by blast
      then have "heap_coalesced h \<longrightarrow> heap_coalesced h1" by (intro kept) auto
      ultimately show ?thesis using set(3,4) by (auto simp: pushed_def b_def h1_def)
    qed
  qed
qed

lemma FreeBlock_correct:
  assumes "heap_ok h" and "i < NumMemoryBlockPageShifts" and "GetBlockSize i dvd a" and "inside h (i, a)"
    and "block_bytes (i, a) \<inter> free_bytes h = {}"
  shows "\<exists>h'. KPageHeap_FreeBlock h a i = Some h' \<and> freed h h' (block_bytes (i, a))"
  using assms
proof (induction "NumMemoryBlockPageShifts - i" arbitrary: h i a rule: less_induct)
  case less
  obtain p b' where push: "Block_PushBlock (m_blocks h ! i) a = Some (p, b')"
    "pushed h i a p (h\<lparr>m_blocks := (m_blocks h)[i := b']\<rparr>)" using PushBlock_correct [OF less.prems] by blast
  let ?h = "h\<lparr>m_blocks := (m_blocks h)[i := b']\<rparr>"
  have len: "i < length (m_blocks h)" using less.prems(1,2) by (simp add: heap_ok_def)
  show ?case
  proof (cases "p = 0")
    case True
    then show ?thesis using push len by (simp add: KPageHeap_FreeBlock.simps [of h a i] pushed_def freed_def)
  next
    case False
    with push(2) have n: "Suc i < NumMemoryBlockPageShifts" "heap_ok ?h" "inside h (Suc i, p)" "GetBlockSize (Suc i) dvd p"
      "block_bytes (Suc i, p) \<inter> free_bytes ?h = {}"
      "free_bytes ?h \<union> block_bytes (Suc i, p) = free_bytes h \<union> block_bytes (i, a)" "heap_coalesced h \<longrightarrow> heap_coalesced ?h"
      by (simp_all add: pushed_def)
    have "inside ?h (Suc i, p)" using n(3) by (simp add: inside_def)
    moreover have "NumMemoryBlockPageShifts - Suc i < NumMemoryBlockPageShifts - i" using n(1) by simp
    ultimately obtain h'
      where "KPageHeap_FreeBlock ?h p (Suc i) = Some h'" "freed ?h h' (block_bytes (Suc i, p))"
      using less.hyps [of "Suc i" ?h p] n(1,2,4,5) by blast
    then show ?thesis using False n(6,7) len push(1)
      by (simp add: KPageHeap_FreeBlock.simps [of h a i] freed_def same_region_def)
  qed
qed

text \<open>
  In a coalesced heap an aligned range of one of the sizes that is free as a whole lies in a single
  free block.
\<close>

lemma dvd_gap: "s dvd a \<Longrightarrow> s dvd b \<Longrightarrow> a < b \<Longrightarrow> a + s \<le> b" for a b s :: nat
  by (metis dvd_diff_nat dvd_imp_le le_add_diff_inverse less_imp_le nat_add_left_cancel_le zero_less_diff)

lemma free_blocks_aligned:
  assumes "heap_ok h" and "(j, a) \<in> free_blocks h"
  shows "j < NumMemoryBlockPageShifts" and "GetBlockSize j dvd a"
proof -
  show j: "j < NumMemoryBlockPageShifts" using assms by (simp add: heap_ok_def free_blocks_def)
  let ?b = "m_blocks h ! j"
  have ok: "level_ok h j ?b" "region_ok h" using assms(1) j by (simp_all add: heap_ok_def)
  obtain k where "a = b_heap_address ?b + k * 2 ^ b_block_shift ?b"
    using assms(2) by (auto simp: free_blocks_def level_blocks_def)
  moreover have "2 ^ b_block_shift ?b = GetBlockSize j" using ok(1) by (simp add: level_ok_def GetBlockSize_def)
  ultimately show "GetBlockSize j dvd a" using block_base(3) [OF ok(1) j ok(2)] by simp
qed

lemma aligned_block_inside:
  fixes s t a c x :: nat
  assumes "s dvd t" and "s dvd a" and "t dvd c" and "x \<in> {a..<a + s}" and "x \<in> {c..<c + t}"
  shows "{a..<a + s} \<subseteq> {c..<c + t}"
proof -
  have sc: "s dvd c" "s dvd c + t" using assms(1,3) dvd_trans by auto
  have "\<not> a < c" using dvd_gap [OF assms(2) sc(1)] assms(4,5) by auto
  moreover have "a + s \<le> c + t" using assms(4,5) by (intro dvd_gap [OF assms(2) sc(2)]) simp
  ultimately show ?thesis by auto
qed

lemma heap_coalesced_maximal:
  assumes "heap_ok h" and "heap_coalesced h" and "i < NumMemoryBlockPageShifts" and "GetBlockSize i dvd a"
    and "block_bytes (i, a) \<subseteq> free_bytes h"
  shows "\<exists>x\<in>free_blocks h. i \<le> fst x \<and> block_bytes (i, a) \<subseteq> block_bytes x"
  using assms(3-5)
proof (induction i arbitrary: a)
  case 0
  then have "a \<in> free_bytes h" using block_sizes(2) [of 0] by (auto simp: block_bytes_def)
  then obtain j c where x: "(j, c) \<in> free_blocks h" "a \<in> block_bytes (j, c)" by (auto simp: free_bytes_def)
  note al = free_blocks_aligned [OF assms(1) x(1)]
  have "block_bytes (0, a) \<subseteq> block_bytes (j, c)"
    using aligned_block_inside [OF size_dvd [of 0 j] 0(2) al(2), of a] al(1) x(2) block_sizes(2) [OF 0(1)]
    by (simp add: block_bytes_def)
  with x(1) show ?case by (intro bexI [of _ "(j, c)"]) simp_all
next
  case (Suc i)
  have nx: "next_shift MemoryBlockPageShifts i \<noteq> 0" using next_shift_exists [of i] Suc.prems(1) by simp
  have i: "i < NumMemoryBlockPageShifts" using Suc.prems(1) by simp
  note n = next_block_size [OF i nx]
  obtain k where k: "k < level_diff i" "(i, a + k * GetBlockSize i) \<notin> free_blocks h"
    using assms(2) Suc.prems(1,2) by (auto simp: heap_coalesced_def full_group_def)
  let ?c = "a + k * GetBlockSize i"
  have "(k + 1) * GetBlockSize i \<le> level_diff i * GetBlockSize i" using k(1) by (intro mult_le_mono1) simp
  then have sub: "block_bytes (i, ?c) \<subseteq> block_bytes (Suc i, a)" using n(3) by (auto simp: block_bytes_def)
  have d: "GetBlockSize i dvd ?c" using Suc.prems(2) n(3) by (auto intro: dvd_add dvd_mult_right)
  obtain j e where x: "(j, e) \<in> free_blocks h" "i \<le> j" "block_bytes (i, ?c) \<subseteq> block_bytes (j, e)"
    using Suc.IH [OF i d] sub Suc.prems(3) by fastforce
  note al = free_blocks_aligned [OF assms(1) x(1)]
  have c: "?c \<in> block_bytes (i, ?c)" using block_sizes(2) [OF i] by (simp add: block_bytes_def)
  have "j \<noteq> i"
  proof
    assume "j = i"
    then have "{e..<e + GetBlockSize i} \<subseteq> {?c..<?c + GetBlockSize i}"
      using aligned_block_inside [of "GetBlockSize i" "GetBlockSize i" e ?c ?c] d al(2) x(3) c by (auto simp: block_bytes_def)
    moreover have "e \<le> ?c" using x(3) c by (auto simp: block_bytes_def)
    ultimately have "e = ?c" using block_sizes(2) [OF i] by simp
    with k(2) x(1) \<open>j = i\<close> show False by simp
  qed
  then have "Suc i \<le> j" using x(2) by simp
  moreover from this have "block_bytes (Suc i, a) \<subseteq> block_bytes (j, e)"
    using aligned_block_inside [OF size_dvd [of "Suc i" j] Suc.prems(2) al(2), of ?c] al(1) sub c x(3)
    by (auto simp: block_bytes_def)
  ultimately show ?case using x(1) by (intro bexI [of _ "(j, e)"]) simp_all
qed

section \<open>Freeing a range\<close>

definition within :: "KPageHeap \<Rightarrow> nat \<Rightarrow> nat \<Rightarrow> bool" where
  "within h start stop \<longleftrightarrow>
     heap_ok h \<and> m_heap_address h \<le> start \<and> start \<le> stop \<and> stop \<le> m_heap_address h + m_heap_size h \<and>
     {start..<stop} \<inter> free_bytes h = {}"

lemma interval_sub: "{start..<stop} \<inter> F = {} \<Longrightarrow> start \<le> x \<Longrightarrow> y \<le> stop \<Longrightarrow> {x..<y} \<inter> F = {}" for x y :: nat
  using ivl_subset [of x y start stop] by blast

lemma within_sub: "within h start stop \<Longrightarrow> start \<le> x \<Longrightarrow> x \<le> y \<Longrightarrow> y \<le> stop \<Longrightarrow> within h x y"
  unfolding within_def using interval_sub [of start stop "free_bytes h" x y] by simp

lemma within_freed:
  "within h start stop \<Longrightarrow> freed h h' S \<Longrightarrow> {x..<y} \<inter> S = {} \<Longrightarrow> start \<le> x \<Longrightarrow> x \<le> y \<Longrightarrow> y \<le> stop \<Longrightarrow>
    within h' x y"
  unfolding within_def freed_def same_region_def
  using interval_sub [of start stop "free_bytes h" x y] by (simp add: Int_Un_distrib)

lemma FreeBlock_within:
  assumes "within h a (a + GetBlockSize i)" and "i < NumMemoryBlockPageShifts" and "GetBlockSize i dvd a"
  shows "\<exists>h'. KPageHeap_FreeBlock h a i = Some h' \<and> freed h h' {a..<a + GetBlockSize i}"
  using FreeBlock_correct [of h i a] assms by (simp add: within_def inside_def block_bytes_def)

lemma freed_nothing: "heap_ok h \<Longrightarrow> freed h h {}"
  by (simp add: freed_def same_region_def)

lemma interval_join: "a \<le> b \<Longrightarrow> b \<le> c \<Longrightarrow> {a..<b} \<union> {b..<c} = {a..<c}" for a b c :: nat
  by auto

lemma Free_blocks_up_correct:
  assumes "within h block stop" and "i < NumMemoryBlockPageShifts"
    and "GetBlockSize i dvd block" and "GetBlockSize i dvd stop"
  shows "\<exists>h'. Free_blocks_up h i (GetBlockSize i) block stop = Some h' \<and> freed h h' {block..<stop}"
  using assms
proof (induction "stop - block" arbitrary: h block rule: less_induct)
  case less
  let ?s = "GetBlockSize i"
  note sz = block_sizes [OF less.prems(2)]
  show ?case
  proof (cases "block < stop")
    case True
    have gap: "block + ?s \<le> stop" using less.prems(3,4) True by (rule dvd_gap)
    then have "within h block (block + ?s)" using less.prems(1) by (intro within_sub [OF less.prems(1)]) simp_all
    then obtain h1 where h1: "KPageHeap_FreeBlock h block i = Some h1" "freed h h1 {block..<block + ?s}"
      using FreeBlock_within less.prems(2,3) by blast
    have "within h1 (block + ?s) stop" using less.prems(1) h1(2) gap by (intro within_freed [OF less.prems(1) h1(2)]) auto
    moreover have "stop - (block + ?s) < stop - block" "?s dvd block + ?s" using True sz(2) less.prems(3) by simp_all
    ultimately obtain h2 where h2: "Free_blocks_up h1 i ?s (block + ?s) stop = Some h2" "freed h1 h2 {block + ?s..<stop}"
      using less.hyps [of "block + ?s" h1] less.prems(2,4) by blast
    have "freed h h2 {block..<stop}" using freed_trans [OF h1(2) h2(2)] gap by (simp add: interval_join)
    then show ?thesis using True sz(2) h1(1) h2(1) by (simp add: Free_blocks_up.simps [of h])
  next
    case False
    then show ?thesis using less.prems(1) by (simp add: Free_blocks_up.simps [of h] freed_nothing within_def)
  qed
qed

lemma Free_before_level_correct:
  assumes "within h before_start before_end" and "i < NumMemoryBlockPageShifts" and "GetBlockSize i dvd before_end"
  shows "\<exists>h' e. Free_before_level h i (GetBlockSize i) before_start before_end = Some (h', e) \<and>
    freed h h' {e..<before_end} \<and> before_start \<le> e \<and> e \<le> before_end \<and> e < before_start + GetBlockSize i \<and>
    GetBlockSize i dvd e"
  using assms
proof (induction before_end arbitrary: h rule: less_induct)
  case (less before_end)
  let ?s = "GetBlockSize i" and ?e = "before_end - GetBlockSize i"
  note sz = block_sizes [OF less.prems(2)]
  show ?case
  proof (cases "before_start + ?s \<le> before_end")
    case True
    then have e: "?e + ?s = before_end" "before_start \<le> ?e" "?e < before_end" using sz(2) by linarith+
    have d: "?s dvd ?e" using less.prems(3) by simp
    have "within h ?e (?e + ?s)" using e by (intro within_sub [OF less.prems(1)]) simp_all
    then obtain h1 where h1: "KPageHeap_FreeBlock h ?e i = Some h1" "freed h h1 {?e..<before_end}"
      using FreeBlock_within [OF _ less.prems(2) d] e(1) by auto
    have "within h1 before_start ?e" using e by (intro within_freed [OF less.prems(1) h1(2)]) auto
    then obtain h2 e' where h2: "Free_before_level h1 i ?s before_start ?e = Some (h2, e')" "freed h1 h2 {e'..<?e}"
      "before_start \<le> e'" "e' \<le> ?e" "e' < before_start + ?s" "?s dvd e'"
      using less.IH [OF e(3) _ less.prems(2) d] by blast
    have "freed h h2 {e'..<before_end}"
      using freed_trans [OF h1(2) h2(2)] h2(4) e(3) by (simp add: interval_join Un_commute)
    then show ?thesis using True sz(2) h1(1) h2 by (simp add: Free_before_level.simps [of h])
  next
    case False
    then show ?thesis using less.prems by (simp add: Free_before_level.simps [of h] freed_nothing within_def)
  qed
qed

lemma Free_after_level_correct:
  assumes "within h after_start after_end" and "i < NumMemoryBlockPageShifts" and "GetBlockSize i dvd after_start"
  shows "\<exists>h' e. Free_after_level h i (GetBlockSize i) after_start after_end = Some (h', e) \<and>
    freed h h' {after_start..<e} \<and> after_start \<le> e \<and> e \<le> after_end \<and> after_end < e + GetBlockSize i \<and>
    GetBlockSize i dvd e"
  using assms
proof (induction "after_end - after_start" arbitrary: h after_start rule: less_induct)
  case less
  let ?s = "GetBlockSize i" and ?a = "after_start + GetBlockSize i"
  note sz = block_sizes [OF less.prems(2)]
  show ?case
  proof (cases "?a \<le> after_end")
    case True
    then have "within h after_start ?a" by (intro within_sub [OF less.prems(1)]) simp_all
    then obtain h1 where h1: "KPageHeap_FreeBlock h after_start i = Some h1" "freed h h1 {after_start..<?a}"
      using FreeBlock_within [OF _ less.prems(2,3)] by blast
    have w: "within h1 ?a after_end" using True by (intro within_freed [OF less.prems(1) h1(2)]) auto
    have d: "?s dvd ?a" "after_end - ?a < after_end - after_start" using less.prems(3) sz(2) True by simp_all
    then obtain h2 e where h2: "Free_after_level h1 i ?s ?a after_end = Some (h2, e)" "freed h1 h2 {?a..<e}"
      "?a \<le> e" "e \<le> after_end" "after_end < e + ?s" "?s dvd e"
      using less.hyps [OF d(2) w less.prems(2) d(1)] by blast
    have "freed h h2 {after_start..<e}" using freed_trans [OF h1(2) h2(2)] h2(3) by (simp add: interval_join)
    then show ?thesis using True sz(2) h1(1) h2 by (simp add: Free_after_level.simps [of h])
  next
    case False
    then show ?thesis using less.prems by (simp add: Free_after_level.simps [of h] freed_nothing within_def)
  qed
qed

lemma level_size: "heap_ok h \<Longrightarrow> i < NumMemoryBlockPageShifts \<Longrightarrow> Block_GetSize (m_blocks h ! i) = GetBlockSize i"
  by (rule Block_GetSize_ok [of h]) (simp add: heap_ok_def)

lemma rest_next:
  assumes "GetBlockSize i dvd e" and "PageSize dvd a" and "i < NumMemoryBlockPageShifts"
  shows "if i = 0 then a \<le> e \<and> e < a + GetBlockSize i \<longrightarrow> e = a else GetBlockSize (i - 1) dvd e"
    and "if i = 0 then e \<le> a \<and> a < e + GetBlockSize i \<longrightarrow> e = a else GetBlockSize (i - 1) dvd e"
proof -
  have "i \<noteq> 0 \<Longrightarrow> GetBlockSize (i - 1) dvd e" using size_dvd [of "i - 1" i] assms(1,3) dvd_trans by auto
  moreover have "e = a" if "i = 0" "a \<le> e \<and> e < a + PageSize \<or> e \<le> a \<and> a < e + PageSize"
  proof (rule ccontr)
    assume "e \<noteq> a"
    moreover have "PageSize dvd e" using assms(1) that(1) by (simp add: GetBlockSize_0)
    ultimately show False
      using dvd_gap [of PageSize a e] dvd_gap [of PageSize e a] assms(2) that(2) by linarith
  qed
  ultimately show "if i = 0 then a \<le> e \<and> e < a + GetBlockSize i \<longrightarrow> e = a else GetBlockSize (i - 1) dvd e"
    "if i = 0 then e \<le> a \<and> a < e + GetBlockSize i \<longrightarrow> e = a else GetBlockSize (i - 1) dvd e"
    by (auto simp: GetBlockSize_0)
qed

lemma Free_before_correct:
  assumes "within h before_start before_end" and "k \<le> NumMemoryBlockPageShifts" and "PageSize dvd before_start"
    and "if k = 0 then before_end = before_start else GetBlockSize (k - 1) dvd before_end"
  shows "\<exists>h'. Free_before h k before_start before_end = Some h' \<and> freed h h' {before_start..<before_end}"
  using assms
proof (induction k arbitrary: h before_end)
  case 0
  then show ?case by (simp add: freed_nothing within_def)
next
  case (Suc i)
  then have i: "i < NumMemoryBlockPageShifts" and d: "GetBlockSize i dvd before_end" by simp_all
  obtain h1 e where h1: "Free_before_level h i (GetBlockSize i) before_start before_end = Some (h1, e)"
    "freed h h1 {e..<before_end}" "before_start \<le> e" "e \<le> before_end" "e < before_start + GetBlockSize i" "GetBlockSize i dvd e"
    using Free_before_level_correct [OF Suc.prems(1) i d] by blast
  have w: "within h1 before_start e" using h1(3,4) by (intro within_freed [OF Suc.prems(1) h1(2)]) auto
  have "if i = 0 then e = before_start else GetBlockSize (i - 1) dvd e"
    using rest_next(1) [OF h1(6) Suc.prems(3) i] h1(3,5) by (auto split: if_splits)
  then obtain h2 where h2: "Free_before h1 i before_start e = Some h2" "freed h1 h2 {before_start..<e}"
    using Suc.IH [OF w _ Suc.prems(3)] i by auto
  have "freed h h2 {before_start..<before_end}"
    using freed_trans [OF h1(2) h2(2)] h1(3,4) by (simp add: interval_join Un_commute)
  moreover have "heap_ok h" using Suc.prems(1) by (simp add: within_def)
  ultimately show ?case using h1(1) h2(1) i by (simp add: level_size)
qed

lemma Free_after_correct:
  assumes "within h after_start after_end" and "k \<le> NumMemoryBlockPageShifts" and "PageSize dvd after_end"
    and "if k = 0 then after_start = after_end else GetBlockSize (k - 1) dvd after_start"
  shows "\<exists>h'. Free_after h k after_start after_end = Some h' \<and> freed h h' {after_start..<after_end}"
  using assms
proof (induction k arbitrary: h after_start)
  case 0
  then show ?case by (simp add: freed_nothing within_def)
next
  case (Suc i)
  then have i: "i < NumMemoryBlockPageShifts" and d: "GetBlockSize i dvd after_start" by simp_all
  obtain h1 e where h1: "Free_after_level h i (GetBlockSize i) after_start after_end = Some (h1, e)"
    "freed h h1 {after_start..<e}" "after_start \<le> e" "e \<le> after_end" "after_end < e + GetBlockSize i" "GetBlockSize i dvd e"
    using Free_after_level_correct [OF Suc.prems(1) i d] by blast
  have w: "within h1 e after_end" using h1(3,4) by (intro within_freed [OF Suc.prems(1) h1(2)]) auto
  have "if i = 0 then e = after_end else GetBlockSize (i - 1) dvd e"
    using rest_next(2) [OF h1(6) Suc.prems(3) i] h1(4,5) by (auto split: if_splits)
  then obtain h2 where h2: "Free_after h1 i e after_end = Some h2" "freed h1 h2 {e..<after_end}"
    using Suc.IH [OF w _ Suc.prems(3)] i by auto
  have "freed h h2 {after_start..<after_end}"
    using freed_trans [OF h1(2) h2(2)] h1(3,4) by (simp add: interval_join)
  moreover have "heap_ok h" using Suc.prems(1) by (simp add: within_def)
  ultimately show ?case using h1(1) h2(1) i by (simp add: level_size)
qed

lemma Free_find_big_correct:
  assumes "heap_ok h" and "0 < k" and "k \<le> NumMemoryBlockPageShifts"
    and "PageSize dvd start" and "PageSize dvd stop" and "start < stop"
  shows "\<exists>i<k. Free_find_big h start stop k = Some i \<and>
    AlignUp start (GetBlockSize i) < AlignDown stop (GetBlockSize i)"
  using assms(2,3)
proof (induction k)
  case (Suc i)
  have i: "Block_GetSize (m_blocks h ! i) = GetBlockSize i" using assms(1) Suc.prems by (simp add: level_size)
  show ?case
  proof (cases "i = 0")
    case True
    then show ?thesis using i assms(4-6) by (simp add: GetBlockSize_0 AlignUp_id AlignDown_id)
  next
    case False
    with Suc i show ?thesis by (auto simp: Let_def less_Suc_eq)
  qed
qed simp

lemma Free_correct:
  assumes "within h addr (addr + num_pages * PageSize)" and "PageSize dvd addr"
  shows "\<exists>h'. KPageHeap_Free h addr num_pages = Some h' \<and> freed h h' {addr..<addr + num_pages * PageSize}"
proof (cases "num_pages = 0")
  case True
  then show ?thesis using assms(1) by (simp add: KPageHeap_Free_def freed_nothing within_def)
next
  case False
  let ?e = "addr + num_pages * PageSize"
  have ok: "heap_ok h" "m_num_blocks h = NumMemoryBlockPageShifts" "region_ok h" using assms(1) by (simp_all add: within_def heap_ok_def)
  have pe: "PageSize dvd ?e" using assms(2) by simp
  have less: "addr < ?e" using False by (simp add: PageSize_def)
  obtain i where i: "i < NumMemoryBlockPageShifts" "Free_find_big h addr ?e NumMemoryBlockPageShifts = Some i"
    "AlignUp addr (GetBlockSize i) < AlignDown ?e (GetBlockSize i)"
    using Free_find_big_correct [OF ok(1) _ order_refl assms(2) pe less] by (auto simp: NumMemoryBlockPageShifts_def)
  let ?s = "GetBlockSize i" and ?bs = "AlignUp addr (GetBlockSize i)" and ?be = "AlignDown ?e (GetBlockSize i)"
  note sz = block_sizes [OF i(1)]
  have "addr < 2 ^ 62" using assms(1) ok(3) less by (simp add: within_def region_ok_def)
  then have "addr + ?s < 2 ^ 64" using sz(3) by simp
  note up = AlignUp_ge [OF this sz(2)] AlignUp_dvd [OF this] and down = AlignDown_le [of ?e ?s] AlignDown_dvd [of ?s ?e]
  have "within h ?bs ?be" using up(1) down(1) i(3) by (intro within_sub [OF assms(1)]) simp_all
  then obtain h1 where h1: "Free_blocks_up h i ?s ?bs ?be = Some h1" "freed h h1 {?bs..<?be}"
    using Free_blocks_up_correct [OF _ i(1) up(2) down(2)] by blast
  have "within h1 addr ?bs" using up(1) down(1) i(3) by (intro within_freed [OF assms(1) h1(2)]) auto
  moreover have "if i = 0 then ?bs = addr else GetBlockSize (i - 1) dvd ?bs"
    using rest_next(1) [OF up(2) assms(2) i(1)] assms(2) by (auto simp: GetBlockSize_0 AlignUp_id)
  ultimately obtain h2 where h2: "Free_before h1 i addr ?bs = Some h2" "freed h1 h2 {addr..<?bs}"
    using Free_before_correct [OF _ _ assms(2)] i(1) by (meson less_imp_le)
  have f2: "freed h h2 {addr..<?be}"
    using freed_trans [OF h1(2) h2(2)] up(1) i(3) by (simp add: interval_join Un_commute)
  have "within h2 ?be ?e" using up(1) down(1) i(3) by (intro within_freed [OF assms(1) f2]) auto
  moreover have "if i = 0 then ?be = ?e else GetBlockSize (i - 1) dvd ?be"
    using rest_next(2) [OF down(2) pe i(1)] pe by (auto simp: GetBlockSize_0 AlignDown_id)
  ultimately obtain h3 where h3: "Free_after h2 i ?be ?e = Some h3" "freed h2 h3 {?be..<?e}"
    using Free_after_correct [OF _ _ pe] i(1) by (meson less_imp_le)
  have "freed h h3 {addr..<?e}" using freed_trans [OF f2 h3(2)] up(1) down(1) i(3) by (simp add: interval_join)
  then show ?thesis
    using False i(2) h1(1) h2(1) h3(1) level_size [OF ok(1) i(1)] by (simp add: KPageHeap_Free_def Let_def ok(2))
qed

end
