(* ===== verification/Page_Heap_Alloc.thy ===== *)
theory Page_Heap_Alloc
  imports Page_Heap
begin

text \<open>
  Allocation from the page heap: taking a block, the linear and the random search, counting the free
  pages and initialising.  \<open>taken\<close> states what a successful allocation does to the free memory, and
  \<open>allocation\<close> both outcomes of a request.
\<close>

section \<open>Taking a block\<close>

definition taken :: "KPageHeap \<Rightarrow> KPageHeap \<Rightarrow> nat set \<Rightarrow> bool" where
  "taken h h' S \<longleftrightarrow> heap_ok h' \<and> same_region h h' \<and> (heap_coalesced h \<longrightarrow> heap_coalesced h') \<and>
     S \<subseteq> free_bytes h \<and> free_bytes h' = free_bytes h - S"

lemma PopBlock_bitmap:
  assumes "bitmap_ok (b_bitmap b) n" and "Block_PopBlock b random = (a, b')"
  shows "if bitmap_set (b_bitmap b) = {} then a = 0 \<and> (\<exists>g. b' = b\<lparr>b_bitmap := (b_bitmap b)\<lparr>m_bitmap_rng := g\<rparr>\<rparr>)
    else \<exists>k bitmap. k \<in> bitmap_set (b_bitmap b) \<and> a = b_heap_address b + k * 2 ^ b_block_shift b \<and>
      b' = b\<lparr>b_bitmap := bitmap\<rparr> \<and> bitmap_ok bitmap n \<and> bitmap_set bitmap = bitmap_set (b_bitmap b) - {k} \<and>
      (\<not> random \<longrightarrow> k = Min (bitmap_set (b_bitmap b)))"
proof -
  obtain r bm where f: "KPageBitmap_FindFreeBlock (b_bitmap b) random = (r, bm)" by fastforce
  have r: "\<exists>g. bm = (b_bitmap b)\<lparr>m_bitmap_rng := g\<rparr>"
    "if bitmap_set (b_bitmap b) = {} then r = - 1
     else 0 \<le> r \<and> nat r \<in> bitmap_set (b_bitmap b) \<and> (\<not> random \<longrightarrow> nat r = Min (bitmap_set (b_bitmap b)))"
  proof -
    have fin: "finite (bitmap_set (b_bitmap b))" by (simp add: bitmap_set_def)
    have "\<exists>g. b_bitmap b = (b_bitmap b)\<lparr>m_bitmap_rng := g\<rparr>" by (rule exI [of _ "m_bitmap_rng (b_bitmap b)"]) simp
    then show "\<exists>g. bm = (b_bitmap b)\<lparr>m_bitmap_rng := g\<rparr>"
      using f FindFreeBlock_linear_Min [OF assms(1)] FindFreeBlock_random_In [OF assms(1)]
      by (cases random) (auto split: if_splits)
    show "if bitmap_set (b_bitmap b) = {} then r = - 1
     else 0 \<le> r \<and> nat r \<in> bitmap_set (b_bitmap b) \<and> (\<not> random \<longrightarrow> nat r = Min (bitmap_set (b_bitmap b)))"
      using f FindFreeBlock_linear_Min [OF assms(1)] FindFreeBlock_random_In(2) [OF assms(1)] Min_in [OF fin]
      by (cases random) (auto split: if_splits)
  qed
  obtain g where bm: "bm = (b_bitmap b)\<lparr>m_bitmap_rng := g\<rparr>" using r(1) by blast
  have bok: "bitmap_ok bm n" "bitmap_set bm = bitmap_set (b_bitmap b)"
    using assms(1) by (simp_all add: bm bitmap_ok_def bitmap_set_def leaves_def)
  show ?thesis
  proof (cases "bitmap_set (b_bitmap b) = {}")
    case True
    then show ?thesis using r(2) assms(2) f bm by (auto simp: Block_PopBlock_def)
  next
    case False
    then have k: "0 \<le> r" "nat r \<in> bitmap_set bm" using r(2) bok(2) by simp_all
    note cl = ClearBit_bitmap [OF bok(1) k(2)]
    have "a = b_heap_address b + nat r * 2 ^ b_block_shift b" "b' = b\<lparr>b_bitmap := KPageBitmap_ClearBit bm (nat r)\<rparr>"
      using assms(2) f k(1) by (simp_all add: Block_PopBlock_def Let_def)
    moreover have "\<not> random \<longrightarrow> nat r = Min (bitmap_set (b_bitmap b))" using r(2) False by simp
    ultimately show ?thesis using False k(2) cl(1,2) unfolding bok(2) if_not_P [OF False] by blast
  qed
qed

lemma PopBlock_correct:
  assumes "heap_ok h" and "i < NumMemoryBlockPageShifts"
    and "Block_PopBlock (m_blocks h ! i) random = (a, b')"
  defines "h' \<equiv> h\<lparr>m_blocks := (m_blocks h)[i := b']\<rparr>"
  shows "if level_blocks (m_blocks h ! i) = {} then a = 0 \<and> heap_ok h' \<and> free_blocks h' = free_blocks h
    else a \<noteq> 0 \<and> GetBlockSize i dvd a \<and> (i, a) \<in> free_blocks h \<and> taken h h' (block_bytes (i, a))"
    and "Block_GetSize b' = GetBlockSize i"
proof -
  define b where "b = m_blocks h ! i"
  have len: "i < length (m_blocks h)" using assms(1,2) by (simp add: heap_ok_def)
  have ok: "level_ok h i b" "region_ok h" using assms(1,2) by (simp_all add: heap_ok_def b_def)
  have bo: "bitmap_ok (b_bitmap b) (b_end_offset b)" using ok(1) unfolding level_ok_def by blast
  have s: "2 ^ b_block_shift b = GetBlockSize i" using ok(1) by (simp add: level_ok_def GetBlockSize_def)
  note base = block_base [OF ok(1) assms(2) ok(2)] and sz = block_sizes [OF assms(2)]
  note pop = PopBlock_bitmap [OF bo assms(3) [folded b_def], unfolded s]
  have L: "level_blocks b = (\<lambda>k. b_heap_address b + k * GetBlockSize i) ` bitmap_set (b_bitmap b)"
    by (simp add: level_blocks_def s)
  have dj: "disjoint_blocks (free_blocks h)" "\<forall>x\<in>free_blocks h. inside h x" using assms(1) by (simp_all add: heap_ok_def)
  show "Block_GetSize b' = GetBlockSize i"
  proof -
    obtain bm where "b' = b\<lparr>b_bitmap := bm\<rparr>" using pop by (cases "bitmap_set (b_bitmap b) = {}") auto
    then show ?thesis by (simp add: Block_GetSize_def s)
  qed
  show "if level_blocks (m_blocks h ! i) = {} then a = 0 \<and> heap_ok h' \<and> free_blocks h' = free_blocks h
    else a \<noteq> 0 \<and> GetBlockSize i dvd a \<and> (i, a) \<in> free_blocks h \<and> taken h h' (block_bytes (i, a))"
  proof (cases "bitmap_set (b_bitmap b) = {}")
    case True
    with pop obtain g where g: "a = 0" "b' = b\<lparr>b_bitmap := (b_bitmap b)\<lparr>m_bitmap_rng := g\<rparr>\<rparr>" by auto
    have "bitmap_ok ((b_bitmap b)\<lparr>m_bitmap_rng := g\<rparr>) (b_end_offset b)"
      using bo by (simp add: bitmap_ok_def bitmap_set_def leaves_def)
    then have okb: "level_ok h i b'" unfolding g(2) by (intro level_ok_bitmap ok(1))
    have lv: "level_blocks b' = level_blocks b" by (simp add: level_blocks_def g(2) bitmap_set_def leaves_def)
    have F: "{x \<in> free_blocks h. fst x \<noteq> i} \<union> Pair i ` level_blocks b' = free_blocks h"
      unfolding lv b_def by (rule free_blocks_split [OF len, symmetric])
    have "heap_ok h'" unfolding h'_def
    proof (rule heap_ok_update [OF assms(1,2) okb])
      show "inside h (i, a')" if "a' \<in> level_blocks b'" for a' using that True L lv by simp
    qed (simp only: F dj(1))
    then show ?thesis using True g(1) L F free_blocks_update [OF len, of b'] by (simp add: b_def h'_def)
  next
    case False
    with pop obtain k bitmap where k: "k \<in> bitmap_set (b_bitmap b)" "a = b_heap_address b + k * GetBlockSize i"
      "b' = b\<lparr>b_bitmap := bitmap\<rparr>" "bitmap_ok bitmap (b_end_offset b)" "bitmap_set bitmap = bitmap_set (b_bitmap b) - {k}" by auto
    have okb: "level_ok h i b'" unfolding k(3) using ok(1) k(4) by (rule level_ok_bitmap)
    have inj: "inj (\<lambda>k. b_heap_address b + k * GetBlockSize i)" using sz(2) by (simp add: inj_on_def)
    have lv: "level_blocks b' = level_blocks b - {a}"
      unfolding L using k(5) inj by (simp add: k(2,3) level_blocks_def s image_set_diff)
    have F: "{x \<in> free_blocks h. fst x \<noteq> i} \<union> Pair i ` level_blocks b' = free_blocks h - {(i, a)}"
      unfolding lv using free_blocks_remove [OF len, of "{a}", folded b_def] by simp
    have "a \<in> level_blocks b" unfolding L k(2) using k(1) by (rule imageI)
    then have mem: "(i, a) \<in> free_blocks h" using len by (simp add: free_blocks_def b_def)
    have ok': "heap_ok h'" unfolding h'_def
    proof (rule heap_ok_update [OF assms(1,2) okb])
      show "inside h (i, a')" if "a' \<in> level_blocks b'" for a'
      proof -
        have "(i, a') \<in> free_blocks h" using that F by blast
        with dj(2) show ?thesis by blast
      qed
      show "disjoint_blocks ({x \<in> free_blocks h. fst x \<noteq> i} \<union> Pair i ` level_blocks b')"
        unfolding F using dj(1) by (rule disjoint_blocks_subset) blast
    qed
    have "free_bytes h' = free_bytes h - block_bytes (i, a)"
      unfolding h'_def free_bytes_def free_blocks_update [OF len] F
      using disjoint_blocks_remove [OF dj(1), of "{(i, a)}"] mem by simp
    moreover have "block_bytes (i, a) \<subseteq> free_bytes h" using mem unfolding free_bytes_def by blast
    moreover have "free_blocks h' \<subseteq> free_blocks h" unfolding h'_def free_blocks_update [OF len] F by blast
    then have "heap_coalesced h \<longrightarrow> heap_coalesced h'" using heap_coalesced_less by blast
    ultimately have "taken h h' (block_bytes (i, a))" using ok' by (simp add: taken_def h'_def)
    moreover have "GetBlockSize i dvd a" "a \<noteq> 0" using base(3,4) k(2) by simp_all
    ultimately show ?thesis using False mem L by (simp add: b_def [symmetric])
  qed
qed

section \<open>Allocating\<close>

definition any_block :: "KPageHeap \<Rightarrow> nat \<Rightarrow> bool" where
  "any_block h index \<longleftrightarrow> (\<exists>x\<in>free_blocks h. index \<le> fst x)"

definition allocation :: "KPageHeap \<Rightarrow> nat \<Rightarrow> nat \<Rightarrow> KPageHeap \<Rightarrow> nat \<Rightarrow> nat \<Rightarrow> bool" where
  "allocation h index align h' addr size' \<longleftrightarrow>
     heap_ok h' \<and> same_region h h' \<and> (heap_coalesced h \<longrightarrow> heap_coalesced h') \<and>
     (if any_block h index then addr \<noteq> 0 \<and> align dvd addr \<and> taken h h' {addr..<addr + size'}
      else addr = 0 \<and> free_bytes h' = free_bytes h)"

lemma allocation_cong:
  "free_blocks h1 = free_blocks h \<Longrightarrow> same_region h h1 \<Longrightarrow>
    allocation h1 index align h' addr size' \<longleftrightarrow> allocation h index align h' addr size'"
  unfolding allocation_def any_block_def taken_def same_region_def free_bytes_def heap_coalesced_def full_group_def by simp

lemma taken_free:
  assumes "taken h h1 S" and "freed h1 h2 T" and "T \<subseteq> S"
  shows "taken h h2 (S - T)"
  using assms unfolding taken_def freed_def same_region_def by auto

lemma popped_region:
  assumes "heap_ok h" and "(i, a) \<in> free_blocks h"
  shows "m_heap_address h \<le> a" "a + GetBlockSize i \<le> m_heap_address h + m_heap_size h"
  using assms unfolding heap_ok_def inside_def by auto

lemma free_part:
  assumes "heap_ok h" and "(i, a) \<in> free_blocks h" and "taken h h1 S" and "start + n * PageSize = stop"
    and "{start..<stop} \<subseteq> S" and "a \<le> start" and "stop \<le> a + GetBlockSize i" and "PageSize dvd start"
  shows "\<exists>h2. KPageHeap_Free h1 start n = Some h2 \<and> taken h h2 (S - {start..<stop})"
proof -
  have "within h1 start (start + n * PageSize)"
    using popped_region [OF assms(1,2)] assms(3-7) by (auto simp: within_def taken_def same_region_def)
  then obtain h2 where "KPageHeap_Free h1 start n = Some h2" "freed h1 h2 {start..<stop}"
    using Free_correct [OF _ assms(8)] assms(4) by auto
  then show ?thesis using taken_free [OF assms(3) _ assms(5)] by blast
qed

lemma page_multiple: "PageSize dvd n \<Longrightarrow> n div PageSize * PageSize = n"
  by simp

lemma AllocateByLinearSearch_loop_correct:
  assumes "heap_ok h" and "index \<le> j" and "j \<le> NumMemoryBlockPageShifts"
    and "\<forall>x\<in>free_blocks h. \<not> (index \<le> fst x \<and> fst x < j)"
  shows "\<exists>addr h'. AllocateByLinearSearch_loop h (GetBlockSize index) [j..<NumMemoryBlockPageShifts] = Some (addr, h') \<and>
    allocation h index (GetBlockSize index) h' addr (GetBlockSize index)"
  using assms
proof (induction "NumMemoryBlockPageShifts - j" arbitrary: h j)
  case 0
  then have "j = NumMemoryBlockPageShifts" by simp
  moreover have "fst x < NumMemoryBlockPageShifts" if "x \<in> free_blocks h" for x
    using that 0(2) by (auto simp: free_blocks_def heap_ok_def)
  ultimately have "\<not> any_block h index" using 0(5) by (auto simp: any_block_def)
  then show ?case using 0(2) \<open>j = NumMemoryBlockPageShifts\<close> by (simp add: allocation_def same_region_def)
next
  case (Suc n)
  then have j: "j < NumMemoryBlockPageShifts" by simp
  then have up: "[j..<NumMemoryBlockPageShifts] = j # [Suc j..<NumMemoryBlockPageShifts]" by (rule upt_conv_Cons)
  obtain a b' where p: "Block_PopBlock (m_blocks h ! j) False = (a, b')" by fastforce
  let ?h = "h\<lparr>m_blocks := (m_blocks h)[j := b']\<rparr>" and ?s = "GetBlockSize index"
  note pop = PopBlock_correct [OF Suc.prems(1) j p]
  show ?case
  proof (cases "level_blocks (m_blocks h ! j) = {}")
    case True
    then have e: "a = 0" "heap_ok ?h" "free_blocks ?h = free_blocks h" using pop(1) by simp_all
    have "fst x \<noteq> j" if "x \<in> free_blocks h" for x using that True by (auto simp: free_blocks_def)
    then have "\<forall>x\<in>free_blocks ?h. \<not> (index \<le> fst x \<and> fst x < Suc j)"
      using Suc.prems(4) e(3) by (auto simp: less_Suc_eq)
    moreover have "n = NumMemoryBlockPageShifts - Suc j" "index \<le> Suc j" "Suc j \<le> NumMemoryBlockPageShifts"
      using Suc.hyps(2) Suc.prems(2) j by simp_all
    ultimately obtain addr h' where "AllocateByLinearSearch_loop ?h ?s [Suc j..<NumMemoryBlockPageShifts] = Some (addr, h')"
      "allocation ?h index ?s h' addr ?s"
      using Suc.hyps(1) [OF _ e(2)] by blast
    then show ?thesis using p e(1) allocation_cong [OF e(3), of index] by (simp add: up)
  next
    case False
    then have e: "a \<noteq> 0" "GetBlockSize j dvd a" "(j, a) \<in> free_blocks h" "taken h ?h {a..<a + GetBlockSize j}"
      using pop(1) by (simp_all add: block_bytes_def)
    have any: "any_block h index" using e(3) Suc.prems(2) by (force simp: any_block_def)
    note d1 = size_dvd [OF Suc.prems(2) j]
    note d = d1 dvd_trans [OF d1 e(2)]
    have le: "?s \<le> GetBlockSize j" using d(1) block_sizes(2) [OF j] by (simp add: dvd_imp_le)
    have "index < NumMemoryBlockPageShifts" using Suc.prems(2) j by simp
    note pg = block_sizes(1) [OF this] block_sizes(1) [OF j] dvd_trans [OF block_sizes(1) [OF j] e(2)]
    show ?thesis
    proof (cases "?s < GetBlockSize j")
      case True
      let ?n = "(GetBlockSize j - ?s) div PageSize"
      have n: "a + ?s + ?n * PageSize = a + GetBlockSize j" using True pg(1,2) by simp
      have ps: "PageSize dvd a + ?s" "{a + ?s..<a + GetBlockSize j} \<subseteq> {a..<a + GetBlockSize j}" using pg(1,3) by simp_all
      obtain h2 where h2: "KPageHeap_Free ?h (a + ?s) ?n = Some h2"
        "taken h h2 ({a..<a + GetBlockSize j} - {a + ?s..<a + GetBlockSize j})"
        using free_part [OF Suc.prems(1) e(3,4) n ps(2) _ _ ps(1)] by auto
      have "{a..<a + GetBlockSize j} - {a + ?s..<a + GetBlockSize j} = {a..<a + ?s}" using le by auto
      with h2 have "allocation h index ?s h2 a ?s" using any e(1) d(2) by (simp add: allocation_def taken_def)
      then show ?thesis using p e(1) True pop(2) h2(1) by (simp add: up Let_def)
    next
      case False
      with le have "?s = GetBlockSize j" by simp
      then have "allocation h index ?s ?h a ?s" using any e(1,4) d(2) by (simp add: allocation_def taken_def)
      then show ?thesis using p e(1) False pop(2) by (simp add: up Let_def)
    qed
  qed
qed

lemma AllocateByLinearSearch_correct:
  assumes "heap_ok h" and "index < NumMemoryBlockPageShifts"
  shows "\<exists>addr h'. KPageHeap_AllocateByLinearSearch h index = Some (addr, h') \<and>
    allocation h index (GetBlockSize index) h' addr (GetBlockSize index)"
  using AllocateByLinearSearch_loop_correct [OF assms(1) order_refl] assms
  by (auto simp: KPageHeap_AllocateByLinearSearch_def level_size heap_ok_def)

section \<open>Random allocation\<close>

lemma GenerateRandom_less:
  assumes "m \<noteq> 0" shows "fst (GenerateRandom m g) < m"
proof -
  obtain r g' where "GenerateRandomBits (1 + (64 - countl_zero m)) 0 g = (r, g')" by fastforce
  then have "fst (GenerateRandom m g) = r mod m"
    by (simp add: GenerateRandom_def minus_div_mult_eq_mod)
  then show ?thesis using assms by (simp add: word_mod_less_divisor word_neq_0_conv)
qed

lemma GenerateRandom_bound:
  assumes "0 < n" and "n < 2 ^ 64" shows "unat (fst (GenerateRandom (of_nat n) g)) < n"
proof -
  have u: "unat (of_nat n :: u64) = n" using assms(2) by (simp add: unsigned_of_nat take_bit_nat_eq_self)
  then have "(of_nat n :: u64) \<noteq> 0" using assms(1) by auto
  then have "unat (fst (GenerateRandom (of_nat n) g)) < unat (of_nat n :: u64)"
    using GenerateRandom_less by (simp add: word_less_nat_alt)
  then show ?thesis using u by simp
qed

lemma low_zero_dvd:
  assumes "\<forall>j<k. \<not> bit w j" shows "(2 :: nat) ^ k dvd unat (w :: u64)"
proof -
  have "take_bit k (unat w) = 0"
    by (rule bit_eqI) (use assms in \<open>auto simp: bit_take_bit_iff bit_unsigned_iff\<close>)
  then show ?thesis by (simp add: take_bit_eq_0_iff)
qed

lemma align_shift:
  assumes "0 < n" and "n \<le> GetBlockSize index" and "PageSize dvd n" and "index < NumMemoryBlockPageShifts"
  defines "k \<equiv> countr_zero (of_nat n)"
  shows "k < 64" and "PageSize dvd 2 ^ k" and "2 ^ k dvd GetBlockSize index" and "2 ^ k dvd n"
proof -
  have "n \<le> 2 ^ 30" using assms(2) block_sizes(3) [OF assms(4)] by simp
  then have "n < 2 ^ 64" by simp
  then have u: "unat (of_nat n :: u64) = n" by (simp add: unsigned_of_nat take_bit_nat_eq_self)
  then have nz: "(of_nat n :: u64) \<noteq> 0" using assms(1) by auto
  note c = countr_zero(1,2) [OF nz, folded k_def]
  show "k < 64" by (rule c(2))
  have "\<forall>j<k. \<not> bit (of_nat n :: u64) j" using countr_zero(3) [OF nz] unfolding k_def by blast
  then show d: "2 ^ k dvd n" using low_zero_dvd [of k "of_nat n"] unfolding u by blast
  have p: "PageSize = 2 ^ 12" by (simp add: PageSize_def)
  have "12 \<le> k"
  proof (rule ccontr)
    assume k: "\<not> 12 \<le> k"
    obtain q where "n = push_bit 12 q" using assms(3) unfolding p by (auto simp: push_bit_eq_mult ac_simps elim: dvdE)
    then have "\<not> bit n k" using k by (simp add: bit_push_bit_iff)
    moreover have "bit (unat (of_nat n :: u64)) k" using c unfolding bit_unsigned_iff by simp
    ultimately show False unfolding u by simp
  qed
  then show "PageSize dvd 2 ^ k" unfolding p by (rule le_imp_power_dvd)
  have "2 ^ k \<le> GetBlockSize index" using dvd_imp_le [OF d assms(1)] assms(2) by simp
  then have "k \<le> MemoryBlockPageShifts ! index" unfolding GetBlockSize_def by (rule power_le_imp_le_exp [rotated]) simp
  then show "2 ^ k dvd GetBlockSize index" unfolding GetBlockSize_def by (rule le_imp_power_dvd)
qed

lemma level_blocks_empty: "level_blocks b = {} \<longleftrightarrow> bitmap_set (b_bitmap b) = {}"
  by (simp add: level_blocks_def)

lemma placements_pos:
  assumes "heap_ok h" and "i < NumMemoryBlockPageShifts"
  shows "0 < placements h needed_size k i \<longleftrightarrow> level_blocks (m_blocks h ! i) \<noteq> {}"
proof -
  have ok: "level_ok h i (m_blocks h ! i)" using assms by (simp add: heap_ok_def)
  have "bitmap_ok (b_bitmap (m_blocks h ! i)) (b_end_offset (m_blocks h ! i))" using ok unfolding level_ok_def by blast
  then have "m_num_bits (b_bitmap (m_blocks h ! i)) = card (bitmap_set (b_bitmap (m_blocks h ! i)))" by (simp add: bitmap_ok_def)
  moreover have "finite (bitmap_set (b_bitmap (m_blocks h ! i)))" by (simp add: bitmap_set_def)
  ultimately show ?thesis
    by (simp add: placements_def Block_GetNumFreeBlocks_def KPageBitmap_GetNumBits_def level_blocks_empty card_gt_0_iff)
qed

lemma level_capacity:
  assumes "heap_ok h" and "i < NumMemoryBlockPageShifts"
  shows "Block_GetNumFreeBlocks (m_blocks h ! i) * GetBlockSize i < 2 ^ 63"
proof -
  let ?b = "m_blocks h ! i" and ?A = "level_align i" and ?e = "m_heap_address h + m_heap_size h"
  have ok: "level_ok h i ?b" "region_ok h" using assms by (simp_all add: heap_ok_def)
  note sz = block_sizes [OF assms(2)]
  have bo: "bitmap_ok (b_bitmap ?b) (b_end_offset ?b)" using ok(1) unfolding level_ok_def by blast
  then have "Block_GetNumFreeBlocks ?b \<le> b_end_offset ?b"
    using bitmap_card_less [OF bo] by (simp add: Block_GetNumFreeBlocks_def KPageBitmap_GetNumBits_def bitmap_ok_def)
  then have "Block_GetNumFreeBlocks ?b * GetBlockSize i \<le> b_end_offset ?b * GetBlockSize i" by simp
  also have "\<dots> \<le> AlignUp ?e ?A - b_heap_address ?b" using ok(1) by (simp add: level_ok_def)
  also have "\<dots> \<le> AlignUp ?e ?A" by simp
  also have "\<dots> < 2 ^ 63"
  proof -
    have "?e < 2 ^ 62" using ok(2) by (simp add: region_ok_def)
    then have e: "?e + ?A < 2 ^ 62 + 2 ^ 30" using sz(7) by linarith
    then have "?e + ?A < 2 ^ 64" by (rule less_trans) simp
    then have "AlignUp ?e ?A < ?e + ?A" using sz(6) by (rule AlignUp_less)
    then have "AlignUp ?e ?A < 2 ^ 62 + 2 ^ 30" using e by (rule less_trans)
    then show ?thesis by (rule less_trans) simp
  qed
  finally show ?thesis .
qed

lemma leftover_eq:
  assumes "i < NumMemoryBlockPageShifts" and "n \<le> GetBlockSize i"
  shows "sub64 (GetBlockSize i) n = GetBlockSize i - n"
proof -
  have "GetBlockSize i < 2 ^ 64" using block_sizes(3) [OF assms(1)] by simp
  then show ?thesis using assms(2) by (simp add: sub64_eq)
qed

lemma placements_bound:
  assumes "heap_ok h" and "i < NumMemoryBlockPageShifts" and "PageSize dvd 2 ^ k" and "needed_size \<le> GetBlockSize i"
  shows "placements h needed_size k i < 2 ^ 63"
proof -
  let ?s = "GetBlockSize i"
  have p: "2 \<le> (2 :: nat) ^ k" using dvd_imp_le [OF assms(3)] by (simp add: PageSize_def)
  have "?s \<ge> PageSize" using dvd_imp_le [OF block_sizes(1,2) [OF assms(2)]] .
  then have s: "2 \<le> ?s" by (simp add: PageSize_def)
  have "(?s - needed_size) div 2 ^ k \<le> ?s div 2"
    using p by (meson diff_le_self div_le_mono div_le_mono2 le_trans zero_less_numeral)
  then have "1 + (?s - needed_size) div 2 ^ k \<le> ?s" using s by linarith
  then have "placements h needed_size k i \<le> ?s * Block_GetNumFreeBlocks (m_blocks h ! i)"
    unfolding placements_def level_size [OF assms(1,2)] leftover_eq [OF assms(2,4)] by (rule mult_le_mono1)
  with level_capacity [OF assms(1,2)] show ?thesis by (simp add: mult.commute)
qed

definition placed :: "KPageHeap \<Rightarrow> nat \<Rightarrow> nat \<Rightarrow> nat \<Rightarrow> nat \<Rightarrow> nat" where
  "placed h needed_size k a b = (\<Sum>i\<in>{a..<b}. placements h needed_size k i)"

lemma placed_Suc: "a \<le> b \<Longrightarrow> placed h n k a (Suc b) = placed h n k a b + placements h n k b"
  by (simp add: placed_def)

lemma AllocateByRandom_scan_correct:
  assumes "heap_ok h" and "PageSize dvd 2 ^ k" and "n \<le> GetBlockSize a" and "a \<le> j" and "j \<le> NumMemoryBlockPageShifts"
    and "placed h n k a j < MinimumPossibleAlignmentsForRandomAllocation"
    and "AllocateByRandom_scan h n k [j..<NumMemoryBlockPageShifts] (placed h n k a j) NumMemoryBlockPageShifts = (p, mx)"
  shows "p = placed h n k a mx \<and> j \<le> mx \<and> mx \<le> NumMemoryBlockPageShifts \<and> p < 2 ^ 64 \<and>
    (mx = NumMemoryBlockPageShifts \<or> 0 < p)"
  using assms(4-7)
proof (induction "NumMemoryBlockPageShifts - j" arbitrary: j)
  case 0
  then show ?case by (simp add: MinimumPossibleAlignmentsForRandomAllocation_def)
next
  case (Suc m)
  then have j: "j < NumMemoryBlockPageShifts" by simp
  then have up: "[j..<NumMemoryBlockPageShifts] = j # [Suc j..<NumMemoryBlockPageShifts]" by (rule upt_conv_Cons)
  let ?p = "placed h n k a j + placements h n k j"
  have s: "?p = placed h n k a (Suc j)" using Suc.prems(1) by (simp add: placed_Suc)
  show ?case
  proof (cases "?p \<ge> MinimumPossibleAlignmentsForRandomAllocation")
    case True
    then have "p = ?p" "mx = Suc j" using Suc.prems(4) by (simp_all add: up Let_def)
    moreover have "GetBlockSize a \<le> GetBlockSize j"
      using size_dvd [OF Suc.prems(1) j] block_sizes(2) [OF j] by (rule dvd_imp_le)
    then have "?p < 2 ^ 64"
      using placements_bound [OF assms(1) j assms(2), of n] assms(3) Suc.prems(3)
      by (simp add: MinimumPossibleAlignmentsForRandomAllocation_def)
    ultimately show ?thesis using s j True by (simp add: MinimumPossibleAlignmentsForRandomAllocation_def)
  next
    case False
    have "m = NumMemoryBlockPageShifts - Suc j" using Suc.hyps(2) by simp
    then have "p = placed h n k a mx \<and> Suc j \<le> mx \<and> mx \<le> NumMemoryBlockPageShifts \<and> p < 2 ^ 64 \<and>
        (mx = NumMemoryBlockPageShifts \<or> 0 < p)"
    proof (rule Suc.hyps(1))
      show "AllocateByRandom_scan h n k [Suc j..<NumMemoryBlockPageShifts] (placed h n k a (Suc j)) NumMemoryBlockPageShifts
          = (p, mx)" using Suc.prems(4) False by (simp add: up Let_def s)
    qed (use Suc.prems(1) j False s in simp_all)
    then show ?thesis using Suc_leD by blast
  qed
qed

lemma AllocateByRandom_pick_correct:
  assumes "a \<le> j" and "j \<le> mx" and "placed h n k a j \<le> rnd" and "rnd < placed h n k a mx"
  shows "\<exists>i. AllocateByRandom_pick h n k [j..<mx] rnd (placed h n k a j) index = i \<and> j \<le> i \<and> i < mx \<and> 0 < placements h n k i"
  using assms
proof (induction "mx - j" arbitrary: j)
  case 0
  then have "j = mx" by simp
  with 0 show ?case by simp
next
  case (Suc m)
  then have j: "j < mx" by simp
  then have up: "[j..<mx] = j # [Suc j..<mx]" by (rule upt_conv_Cons)
  have s: "placed h n k a j + placements h n k j = placed h n k a (Suc j)" using Suc.prems(1) by (simp add: placed_Suc)
  show ?case
  proof (cases "rnd < placed h n k a (Suc j)")
    case True
    then have "0 < placements h n k j" using Suc.prems(3) unfolding s [symmetric] by linarith
    then show ?thesis using True j by (simp add: up Let_def s)
  next
    case False
    have "m = mx - Suc j" "Suc j \<le> mx" using Suc.hyps(2) j by simp_all
    then obtain i where "AllocateByRandom_pick h n k [Suc j..<mx] rnd (placed h n k a (Suc j)) index = i"
      "Suc j \<le> i" "i < mx" "0 < placements h n k i"
      using Suc.hyps(1) [of "Suc j"] Suc.prems(1,4) False by auto
    then show ?thesis using False by (simp add: up Let_def s)
  qed
qed

lemma any_block_iff:
  assumes "heap_ok h"
  shows "any_block h index \<longleftrightarrow> (\<exists>j. index \<le> j \<and> j < NumMemoryBlockPageShifts \<and> level_blocks (m_blocks h ! j) \<noteq> {})"
proof -
  have len: "length (m_blocks h) = NumMemoryBlockPageShifts" using assms by (simp add: heap_ok_def)
  have "any_block h index \<longleftrightarrow> (\<exists>j a. (j, a) \<in> free_blocks h \<and> index \<le> j)" by (simp add: any_block_def Bex_def)
  then show ?thesis unfolding free_blocks_def len by auto
qed

lemma AllocateByRandom_index_correct:
  assumes "heap_ok h" and "index < NumMemoryBlockPageShifts" and "PageSize dvd 2 ^ k"
    and "AllocateByRandom_index h index n k = (i, g)" and "n \<le> GetBlockSize index"
  shows "index \<le> i" and "i < NumMemoryBlockPageShifts"
    and "any_block h index \<longleftrightarrow> level_blocks (m_blocks h ! i) \<noteq> {}"
proof -
  obtain p mx where sc: "AllocateByRandom_scan h n k [index..<NumMemoryBlockPageShifts] 0 NumMemoryBlockPageShifts = (p, mx)"
    by fastforce
  have z: "placed h n k index index = 0" by (simp add: placed_def)
  have c: "p = placed h n k index mx" "index \<le> mx" "mx \<le> NumMemoryBlockPageShifts" "p < 2 ^ 64"
    "mx = NumMemoryBlockPageShifts \<or> 0 < p"
    using AllocateByRandom_scan_correct [OF assms(1,3,5), of index p mx] assms(2) sc z
    by (auto simp: MinimumPossibleAlignmentsForRandomAllocation_def)
  have nb: "m_num_blocks h = NumMemoryBlockPageShifts" "length (m_blocks h) = NumMemoryBlockPageShifts"
    using assms(1) by (simp_all add: heap_ok_def)
  note any = any_block_iff [OF assms(1), of index]
  note pos = placements_pos [OF assms(1)]
  have "index \<le> i \<and> i < NumMemoryBlockPageShifts \<and> (any_block h index \<longleftrightarrow> level_blocks (m_blocks h ! i) \<noteq> {})"
  proof (cases "0 < p \<and> index + 1 < mx")
    case True
    obtain rnd g' where r: "GenerateRandom (of_nat p) (m_heap_rng h) = (rnd, g')" by fastforce
    have "unat rnd < p" using GenerateRandom_bound [of p "m_heap_rng h"] True c(4) r by simp
    then obtain i' where i': "AllocateByRandom_pick h n k [index..<mx] (unat rnd) 0 index = i'"
      "index \<le> i'" "i' < mx" "0 < placements h n k i'"
      using AllocateByRandom_pick_correct [of index index mx h n k "unat rnd" index] c(1,2) z by auto
    have "i = i'" using assms(4) True sc r i'(1) by (simp add: AllocateByRandom_index_def nb(1))
    moreover have lt: "i' < NumMemoryBlockPageShifts" using i'(3) c(3) by simp
    moreover have "level_blocks (m_blocks h ! i') \<noteq> {}" using pos [OF lt, of n k] i'(4) by simp
    ultimately show ?thesis using i'(2) any by blast
  next
    case False
    then have i: "i = index" using assms(4) sc by (auto simp: AllocateByRandom_index_def nb(1) split: if_splits)
    have "any_block h index \<longrightarrow> level_blocks (m_blocks h ! index) \<noteq> {}"
    proof (cases "p = 0")
      case True
      then have "mx = NumMemoryBlockPageShifts" using c(5) by simp
      then have "\<forall>j\<in>{index..<NumMemoryBlockPageShifts}. placements h n k j = 0"
        using True c(1) by (simp add: placed_def)
      then have "level_blocks (m_blocks h ! j) = {}" if "index \<le> j" "j < NumMemoryBlockPageShifts" for j
        using pos [OF that(2), of n k] that by simp
      then show ?thesis using any by blast
    next
      case nz: False
      with False c(2) have "mx = index \<or> mx = Suc index" by linarith
      then have "0 < placements h n k index" using nz c(1) z by (auto simp: placed_Suc)
      then show ?thesis using pos [OF assms(2)] by simp
    qed
    then show ?thesis using i assms(2) any by blast
  qed
  then show "index \<le> i" "i < NumMemoryBlockPageShifts" "any_block h index \<longleftrightarrow> level_blocks (m_blocks h ! i) \<noteq> {}" by blast+
qed

lemma rng_simps:
  "free_blocks (h\<lparr>m_heap_rng := g\<rparr>) = free_blocks h" "heap_ok (h\<lparr>m_heap_rng := g\<rparr>) = heap_ok h"
  "same_region h (h'\<lparr>m_heap_rng := g\<rparr>) = same_region h h'" "same_region (h\<lparr>m_heap_rng := g\<rparr>) h' = same_region h h'"
  "heap_coalesced (h\<lparr>m_heap_rng := g\<rparr>) = heap_coalesced h"
proof -
  show f: "free_blocks (h\<lparr>m_heap_rng := g\<rparr>) = free_blocks h" by (simp add: free_blocks_def)
  show "heap_ok (h\<lparr>m_heap_rng := g\<rparr>) = heap_ok h"
    unfolding heap_ok_def f by (simp add: region_ok_def level_ok_def inside_def)
  show "heap_coalesced (h\<lparr>m_heap_rng := g\<rparr>) = heap_coalesced h" unfolding heap_coalesced_def full_group_def f ..
qed (simp_all add: same_region_def)

lemma taken_rng: "taken h (h'\<lparr>m_heap_rng := g\<rparr>) S = taken h h' S" "taken (h\<lparr>m_heap_rng := g\<rparr>) h' S = taken h h' S"
  unfolding taken_def free_bytes_def rng_simps by simp_all

lemma free_part_if:
  assumes "heap_ok h" and "(i, a) \<in> free_blocks h" and "taken h h1 S" and "PageSize dvd start" and "PageSize dvd stop"
    and "start \<le> stop" and "{start..<stop} \<subseteq> S" and "a \<le> start" and "stop \<le> a + GetBlockSize i"
    and "c \<longleftrightarrow> start \<noteq> stop" and "n = (stop - start) div PageSize"
  shows "\<exists>h2. (if c then KPageHeap_Free h1 start n else Some h1) = Some h2 \<and> taken h h2 (S - {start..<stop})"
proof (cases c)
  case True
  have "start + n * PageSize = stop" using assms(4-6,11) by simp
  from free_part [OF assms(1-3) this assms(7-9,4)] True show ?thesis by simp
qed (use assms in simp)

lemma random_placement:
  assumes "heap_ok h" and "(i, a) \<in> free_blocks h" and "taken h h1 {a..<a + GetBlockSize i}"
    and "PageSize dvd a" and "PageSize dvd n" and "PageSize dvd f" and "n \<le> GetBlockSize i" and "f \<le> GetBlockSize i - n"
  shows "\<exists>h4. (case (if f \<noteq> 0 then KPageHeap_Free h1 a (f div PageSize) else Some h1) of
        None \<Rightarrow> None
      | Some h3 \<Rightarrow> map_option (Pair (a + f))
          (if f \<noteq> GetBlockSize i - n
           then KPageHeap_Free h3 (a + f + n) ((GetBlockSize i - n - f) div PageSize) else Some h3)) = Some (a + f, h4) \<and>
    taken h h4 {a + f..<a + f + n}"
proof -
  let ?s = "GetBlockSize i"
  have fs: "f \<le> ?s" "f + n \<le> ?s" using assms(7,8) by linarith+
  have i: "i < NumMemoryBlockPageShifts" using assms(1,2) by (auto simp: free_blocks_def heap_ok_def)
  obtain h3 where h3: "(if f \<noteq> 0 then KPageHeap_Free h1 a (f div PageSize) else Some h1) = Some h3"
    "taken h h3 ({a..<a + ?s} - {a..<a + f})"
    using free_part_if [OF assms(1-4), of "a + f" "f \<noteq> 0" "f div PageSize"] fs(1) assms(4,6) by auto
  have d: "PageSize dvd a + f + n" "PageSize dvd a + ?s" using assms(4-6) block_sizes(1) [OF i] by simp_all
  have sub: "{a + f + n..<a + ?s} \<subseteq> {a..<a + ?s} - {a..<a + f}" by auto
  have "a + ?s - (a + f + n) = ?s - n - f" "(f \<noteq> ?s - n) = (a + f + n \<noteq> a + ?s)" using fs(2) by auto
  then obtain h4 where h4: "(if f \<noteq> ?s - n then KPageHeap_Free h3 (a + f + n) ((?s - n - f) div PageSize) else Some h3) = Some h4"
    "taken h h4 ({a..<a + ?s} - {a..<a + f} - {a + f + n..<a + ?s})"
    using free_part_if [OF assms(1,2) h3(2) d _ sub, of "f \<noteq> ?s - n" "(?s - n - f) div PageSize"] fs(2) by auto
  have "{a..<a + ?s} - {a..<a + f} - {a + f + n..<a + ?s} = {a + f..<a + f + n}" using fs by auto
  with h3(1) h4 show ?thesis by simp
qed

lemma AllocateByRandom_correct:
  assumes "heap_ok h" and "index < NumMemoryBlockPageShifts" and "num_pages * PageSize \<le> GetBlockSize index"
    and "0 < align_pages" and "align_pages * PageSize \<le> GetBlockSize index"
  defines "k \<equiv> countr_zero (of_nat (align_pages * PageSize))"
  shows "\<exists>addr h'. KPageHeap_AllocateByRandom h index num_pages align_pages = Some (addr, h') \<and>
    allocation h index (2 ^ k) h' addr (num_pages * PageSize)"
proof -
  define n where "n = num_pages * PageSize"
  have "0 < align_pages * PageSize" using assms(4) by (simp add: PageSize_def)
  note k = align_shift [OF this assms(5) dvd_triv_right assms(2), folded k_def]
  obtain i g where ix: "AllocateByRandom_index h index n k = (i, g)" by fastforce
  note i = AllocateByRandom_index_correct [OF assms(1,2) k(2) ix assms(3) [folded n_def]]
  obtain a b' where p: "Block_PopBlock (m_blocks h ! i) True = (a, b')" by fastforce
  define h0 where "h0 = h\<lparr>m_blocks := (m_blocks h)[i := b']\<rparr>"
  define h1 where "h1 = h\<lparr>m_heap_rng := g, m_blocks := (m_blocks h)[i := b']\<rparr>"
  note pop = PopBlock_correct [OF assms(1) i(2) p, folded h0_def]
  have h1: "h1 = h0\<lparr>m_heap_rng := g\<rparr>" by (simp add: h0_def h1_def)
  note run = KPageHeap_AllocateByRandom_def [of h index num_pages align_pages, unfolded Let_def,
      folded n_def k_def, unfolded ix prod.case p, folded h1_def]
  have k64: "k \<noteq> 64" using k(1) by simp
  show ?thesis
  proof (cases "level_blocks (m_blocks h ! i) = {}")
    case True
    then have e: "a = 0" "heap_ok h0" "free_blocks h0 = free_blocks h" using pop(1) by simp_all
    have "heap_ok h1" "same_region h h1" "free_bytes h1 = free_bytes h" "heap_coalesced h \<longrightarrow> heap_coalesced h1"
      using e(2,3) heap_coalesced_less [of h h0] unfolding h1 rng_simps free_bytes_def by (simp_all add: h0_def)
    then have "allocation h index (2 ^ k) h1 0 n" using True i(3) by (simp add: allocation_def)
    then show ?thesis using run k64 e(1) by (simp add: n_def)
  next
    case False
    define s where "s = GetBlockSize i"
    have e: "a \<noteq> 0" "s dvd a" "(i, a) \<in> free_blocks h" "taken h h0 {a..<a + s}"
      using False pop(1) by (simp_all add: block_bytes_def s_def)
    have any: "any_block h index" using False i(3) by simp
    note sd = size_dvd [OF i(1,2), folded s_def]
    have le: "n \<le> s" using assms(3) dvd_imp_le [OF sd] block_sizes(2) [OF i(2)] by (simp add: n_def s_def)
    have lo: "sub64 (Block_GetSize b') n = s - n" using leftover_eq [OF i(2) le [unfolded s_def]] pop(2) by (simp add: s_def)
    have ka: "2 ^ k dvd a" using dvd_trans [OF k(3) sd] e(2) by (rule dvd_trans)
    note pg = dvd_trans [OF k(2) ka] block_sizes(1) [OF i(2), folded s_def]
    have pn: "PageSize dvd n" by (simp add: n_def)
    have t1: "taken h (h1\<lparr>m_heap_rng := g'\<rparr>) {a..<a + s}" for g'
      using e(4) by (simp add: h1 taken_rng)
    show ?thesis
    proof (cases "s - n = 0")
      case True
      with le have "n = s" by simp
      moreover have "taken h h1 {a..<a + s}" using e(4) by (simp add: h1 taken_rng)
      ultimately have "allocation h index (2 ^ k) h1 a n" using any e(1) ka by (simp add: allocation_def taken_def)
      then show ?thesis using run [unfolded lo] k64 e(1) True by (simp add: n_def)
    next
      case left: False
      obtain rnd g' where r: "GenerateRandom (of_nat (1 + (s - n) div 2 ^ k)) g = (rnd, g')" by fastforce
      define f where "f = unat rnd * 2 ^ k"
      have "(s - n) div 2 ^ k \<le> 2 ^ 30" using block_sizes(3) [OF i(2), folded s_def] div_le_dividend [of "s - n" "2 ^ k"] by linarith
      then have "1 + (s - n) div 2 ^ k < 2 ^ 64" by simp
      then have "unat rnd \<le> (s - n) div 2 ^ k" using GenerateRandom_bound [of "1 + (s - n) div 2 ^ k" g] r by simp
      then have "f \<le> (s - n) div 2 ^ k * 2 ^ k" unfolding f_def by (rule mult_le_mono1)
      then have f: "f \<le> s - n" by (rule order_trans) (rule div_times_less_eq_dividend)
      have kf: "2 ^ k dvd f" "PageSize dvd f" using k(2) by (simp_all add: f_def)
      obtain h4 where h4: "(case (if f \<noteq> 0 then KPageHeap_Free (h1\<lparr>m_heap_rng := g'\<rparr>) a (f div PageSize)
              else Some (h1\<lparr>m_heap_rng := g'\<rparr>)) of
            None \<Rightarrow> None
          | Some h3 \<Rightarrow> map_option (Pair (a + f))
              (if f \<noteq> s - n then KPageHeap_Free h3 (a + f + n) ((s - n - f) div PageSize) else Some h3)) = Some (a + f, h4)"
        "taken h h4 {a + f..<a + f + n}"
        using random_placement [OF assms(1) e(3) t1 [unfolded s_def] pg(1) pn kf(2) le [unfolded s_def] f [unfolded s_def], folded s_def]
        by blast
      then have "allocation h index (2 ^ k) h4 (a + f) n"
        using any e(1) ka kf(1) by (simp add: allocation_def taken_def)
      moreover have "KPageHeap_AllocateByRandom h index num_pages align_pages = Some (a + f, h4)"
        using run [unfolded lo, unfolded r prod.case, folded f_def] k64 e(1) left h4(1) by simp
      ultimately show ?thesis by (auto simp: n_def)
    qed
  qed
qed

section \<open>Counting the free pages\<close>

lemma free_blocks_Sigma:
  "length (m_blocks h) = n \<Longrightarrow> free_blocks h = Sigma {..<n} (\<lambda>i. level_blocks (m_blocks h ! i))"
  by (auto simp: free_blocks_def)

lemma card_level:
  assumes "heap_ok h" and "i < NumMemoryBlockPageShifts"
  shows "card (level_blocks (m_blocks h ! i)) = Block_GetNumFreeBlocks (m_blocks h ! i)"
    and "finite (level_blocks (m_blocks h ! i))"
proof -
  let ?b = "m_blocks h ! i"
  have ok: "level_ok h i ?b" using assms by (simp add: heap_ok_def)
  then have "bitmap_ok (b_bitmap ?b) (b_end_offset ?b)" unfolding level_ok_def by blast
  then have "m_num_bits (b_bitmap ?b) = card (bitmap_set (b_bitmap ?b))" by (simp add: bitmap_ok_def)
  moreover have "inj_on (\<lambda>k. b_heap_address ?b + k * 2 ^ b_block_shift ?b) (bitmap_set (b_bitmap ?b))" by (simp add: inj_on_def)
  ultimately show "card (level_blocks ?b) = Block_GetNumFreeBlocks ?b"
    by (simp add: level_blocks_def card_image Block_GetNumFreeBlocks_def KPageBitmap_GetNumBits_def)
  show "finite (level_blocks ?b)" by (simp add: level_blocks_def bitmap_set_def)
qed

lemma free_bytes_finite:
  assumes "heap_ok h" shows "finite (free_bytes h)"
proof -
  have "x \<in> {..<m_heap_address h + m_heap_size h}" if x: "x \<in> free_bytes h" for x
  proof -
    obtain i a where "(i, a) \<in> free_blocks h" "x \<in> block_bytes (i, a)" using x by (auto simp: free_bytes_def)
    moreover from this(1) have "inside h (i, a)" using assms by (simp add: heap_ok_def)
    ultimately show ?thesis by (simp add: inside_def block_bytes_def)
  qed
  then show ?thesis by (intro finite_subset [OF _ finite_lessThan]) blast
qed

lemma free_size_eq:
  assumes "heap_ok h"
  shows "KPageHeap_GetFreeSize h = card (free_bytes h)"
proof -
  let ?n = NumMemoryBlockPageShifts and ?L = "\<lambda>i. level_blocks (m_blocks h ! i)"
  have nb: "m_num_blocks h = ?n" "length (m_blocks h) = ?n" using assms by (simp_all add: heap_ok_def)
  note F = free_blocks_Sigma [OF nb(2)]
  have fin: "finite (free_blocks h)" unfolding F using card_level(2) [OF assms] by auto
  have "card (free_bytes h) = (\<Sum>x\<in>free_blocks h. card (block_bytes x))"
    unfolding free_bytes_def
  proof (rule card_UN_disjoint [OF fin])
    show "\<forall>x\<in>free_blocks h. finite (block_bytes x)" by (simp add: block_bytes_def split: prod.split)
    show "\<forall>x\<in>free_blocks h. \<forall>y\<in>free_blocks h. x \<noteq> y \<longrightarrow> block_bytes x \<inter> block_bytes y = {}"
      using assms by (simp add: heap_ok_def disjoint_blocks_def)
  qed
  also have "\<dots> = (\<Sum>(i, a)\<in>Sigma {..<?n} ?L. GetBlockSize i)"
    unfolding F by (rule sum.cong) (auto simp: block_bytes_def)
  also have "\<dots> = (\<Sum>i<?n. \<Sum>a\<in>?L i. GetBlockSize i)"
    using card_level(2) [OF assms] by (intro sum.Sigma [symmetric]) auto
  also have "\<dots> = (\<Sum>i<?n. Block_GetNumFreePages (m_blocks h ! i) * PageSize)"
  proof (rule sum.cong [OF refl])
    fix i assume "i \<in> {..<?n}"
    then have i: "i < ?n" by simp
    show "(\<Sum>a\<in>?L i. GetBlockSize i) = Block_GetNumFreePages (m_blocks h ! i) * PageSize"
      using card_level(1) [OF assms i] level_size [OF assms i] block_sizes(1) [OF i]
      by (simp add: Block_GetNumFreePages_def Block_GetNumPages_def)
  qed
  also have "\<dots> = KPageHeap_GetNumFreePages h * PageSize"
    by (simp add: KPageHeap_GetNumFreePages_def nb sum_list_sum_nth sum_distrib_right atLeast0LessThan)
  finally show ?thesis by (simp add: KPageHeap_GetFreeSize_def)
qed

section \<open>Initialising\<close>

lemma up64_mono:
  assumes "m \<le> n" and "n + 64 < 2 ^ 64" shows "up64 m \<le> up64 n"
proof -
  have "m + 64 < 2 ^ 64" using assms by linarith
  then show ?thesis using up64_eq(2) [of m] up64_eq(1) [OF assms(2)] assms(1) by linarith
qed

lemma words_needed_mono:
  assumes "m \<le> n" and "n + 64 < 2 ^ 64" and "d \<le> e"
  shows "words_needed d m \<le> words_needed e n"
  using assms
proof (induction d arbitrary: m n e)
  case (Suc d)
  then obtain e' where e: "e = Suc e'" "d \<le> e'" by (cases e) auto
  have u: "up64 m \<le> up64 n" using Suc.prems by (intro up64_mono)
  have "up64 n + 64 < 2 ^ 64" using up64_le [OF Suc.prems(2)] Suc.prems(2) by linarith
  with u e(2) have "words_needed d (up64 m) \<le> words_needed e' (up64 n)" by (intro Suc.IH)
  then show ?case using u e(1) by simp
qed simp

lemma GetRequiredDepth_mono: "m \<le> n \<Longrightarrow> GetRequiredDepth m \<le> GetRequiredDepth n"
proof (induction n arbitrary: m rule: GetRequiredDepth.induct)
  case (1 n)
  have q: "m div 64 \<le> n div 64" using 1(2) by (rule div_le_mono)
  show ?case
  proof (cases "n div 64 = 0")
    case True
    then show ?thesis using q by (simp add: GetRequiredDepth.simps [of n] GetRequiredDepth.simps [of m])
  next
    case False
    then show ?thesis using 1(1) [OF False q]
      by (simp add: GetRequiredDepth.simps [of n] GetRequiredDepth.simps [of m])
  qed
qed

lemma GetRequiredDepth_le: "n < 64 ^ d \<Longrightarrow> 0 < d \<Longrightarrow> GetRequiredDepth n \<le> d"
proof (induction d arbitrary: n)
  case (Suc d)
  show ?case
  proof (cases "n div 64 = 0")
    case False
    then have "0 < d" using Suc.prems(1) by (cases d) simp_all
    moreover have "n div 64 < 64 ^ d" using Suc.prems(1) by (simp add: div_64_less)
    ultimately show ?thesis using Suc.IH False by (simp add: GetRequiredDepth.simps [of n])
  qed (simp add: GetRequiredDepth.simps [of n])
qed simp

lemma overhead_eq:
  "KPageBitmap_CalculateManagementOverheadSize n = words_needed (GetRequiredDepth n) n * 8"
  by (simp add: KPageBitmap_CalculateManagementOverheadSize_def overhead_loop)

lemma overhead_mono:
  "m \<le> n \<Longrightarrow> n + 64 < 2 ^ 64 \<Longrightarrow>
    KPageBitmap_CalculateManagementOverheadSize m \<le> KPageBitmap_CalculateManagementOverheadSize n"
  using words_needed_mono [OF _ _ GetRequiredDepth_mono] by (simp add: overhead_eq)

lemma words_needed_bound: "n + 64 < 2 ^ 64 \<Longrightarrow> words_needed d n \<le> n + 2 * d"
proof (induction d arbitrary: n)
  case (Suc d)
  have u: "64 * up64 n < n + 64" using up64_eq(2) [OF Suc.prems] .
  have "up64 n + 64 < 2 ^ 64" using up64_le [OF Suc.prems] Suc.prems by linarith
  from Suc.IH [OF this] show ?case using u by simp
qed simp

lemma Initialize_loop_depth: "length (fst (KPageBitmap_Initialize_loop d storage n levels)) = d + length levels"
  by (induction d arbitrary: storage n levels) (simp_all add: Let_def)

lemma Initialize_depth: "m_used_depths (fst (KPageBitmap_Initialize b storage n)) = GetRequiredDepth n"
  using Initialize_loop_depth [of "GetRequiredDepth n" storage n "[]"]
  by (auto simp: KPageBitmap_Initialize_def m_used_depths_def split: prod.split)

definition level_overhead :: "nat \<Rightarrow> nat \<Rightarrow> nat" where
  "level_overhead sz i =
     Block_CalculateManagementOverheadSize sz (MemoryBlockPageShifts ! i) (next_shift MemoryBlockPageShifts i)"

definition fresh_level :: "KPageHeap \<Rightarrow> nat \<Rightarrow> Block \<Rightarrow> bool" where
  "fresh_level h i b \<longleftrightarrow> level_ok h i b \<and> level_blocks b = {} \<and> m_used_depths (b_bitmap b) \<le> MaxDepth"

lemma level_overhead_eq:
  "level_overhead sz i = KPageBitmap_CalculateManagementOverheadSize
     ((level_align i * 2 + AlignUp sz (level_align i)) div GetBlockSize i)"
  by (simp add: level_overhead_def Block_CalculateManagementOverheadSize_def level_align_def GetBlockSize_def Let_def)

lemma level_extent:
  assumes "region_ok h" and "i < NumMemoryBlockPageShifts"
  defines "extent \<equiv> AlignUp (m_heap_address h + m_heap_size h) (level_align i) - AlignDown (m_heap_address h) (level_align i)"
  shows "GetBlockSize i \<le> extent" and "extent < m_heap_size h + 2 * level_align i"
proof -
  let ?s = "m_heap_address h" and ?e = "m_heap_address h + m_heap_size h" and ?A = "level_align i"
  note sz = block_sizes [OF assms(2)]
  have r: "0 < m_heap_size h" "?e < 2 ^ 62" using assms(1) by (simp_all add: region_ok_def)
  have "?e + ?A < 2 ^ 64" using r(2) sz(7) by simp
  note up = AlignUp_ge [OF this sz(6)] AlignUp_less [OF this sz(6)] AlignUp_dvd [OF this]
  note down = AlignDown_le [of ?s ?A] AlignDown_gt [OF sz(6), of ?s] AlignDown_dvd [of ?A ?s]
  show "extent < m_heap_size h + 2 * ?A" unfolding extent_def using up down by linarith
  have "?A dvd extent" unfolding extent_def using up(3) down(3) by (intro dvd_diff_nat)
  moreover have "0 < extent" unfolding extent_def using up(1) down(1) r(1) by linarith
  ultimately have "?A \<le> extent" by (rule dvd_imp_le)
  then show "GetBlockSize i \<le> extent" using dvd_imp_le [OF sz(4,6)] by linarith
qed

lemma level_depth:
  assumes "i < NumMemoryBlockPageShifts" and "sz + 2 ^ 17 \<le> 2 ^ 36"
  shows "sz + 2 * level_align i \<le> 64 ^ 4 * GetBlockSize i"
  using assms
  by (cases rule: index_cases)
    (simp_all add: GetBlockSize_def MemoryBlockPageShifts_def level_align_def next_shift_def)

lemma Block_Initialize_correct:
  assumes "region_ok h" and "i < NumMemoryBlockPageShifts" and "m_heap_size h + 2 ^ 17 \<le> 2 ^ 36"
    and "\<forall>w\<in>set storage. w = 0" and "level_overhead (m_heap_size h) i \<le> 8 * length storage"
  shows "\<exists>b' w. Block_Initialize b (m_heap_address h) (m_heap_size h) (MemoryBlockPageShifts ! i)
      (next_shift MemoryBlockPageShifts i) storage = (b', drop w storage) \<and>
    8 * w \<le> level_overhead (m_heap_size h) i \<and> fresh_level h i b'"
proof -
  let ?A = "level_align i" and ?S = "GetBlockSize i"
  note sz = block_sizes [OF assms(2)] and ext = level_extent [OF assms(1,2)]
  have A: "(if next_shift MemoryBlockPageShifts i \<noteq> 0 then 2 ^ next_shift MemoryBlockPageShifts i
      else 2 ^ (MemoryBlockPageShifts ! i)) = ?A" by (simp add: level_align_def Let_def)
  define x where "x = AlignUp (m_heap_address h + m_heap_size h) ?A - AlignDown (m_heap_address h) ?A"
  define n where "n = x div ?S"
  have "1 \<le> n" using ext(1) sz(2) div_le_mono [of ?S x ?S] by (simp add: n_def x_def)
  have "x < 64 ^ 4 * ?S" using ext(2) level_depth [OF assms(2,3)] by (simp add: x_def)
  then have n4: "n < 64 ^ 4" by (simp add: n_def less_mult_imp_div_less)
  then have "n < 2 ^ 62" by simp
  have hz: "m_heap_size h + ?A < 2 ^ 64" using assms(3) sz(7) by simp
  define n' where "n' = (?A * 2 + AlignUp (m_heap_size h) ?A) div ?S"
  have "x \<le> ?A * 2 + AlignUp (m_heap_size h) ?A"
    using ext(2) AlignUp_ge [OF hz sz(6)] by (simp add: x_def)
  then have nn: "n \<le> n'" unfolding n_def n'_def by (rule div_le_mono)
  have "AlignUp (m_heap_size h) ?A < m_heap_size h + ?A" using AlignUp_less [OF hz sz(6)] .
  then have "?A * 2 + AlignUp (m_heap_size h) ?A < 2 ^ 63" using assms(3) sz(7) by simp
  then have "n' < 2 ^ 63" unfolding n'_def by (rule le_less_trans [OF div_le_dividend])
  then have "n' + 64 < 2 ^ 64" by simp
  then have ov: "KPageBitmap_CalculateManagementOverheadSize n \<le> level_overhead (m_heap_size h) i"
    using overhead_mono [OF nn] by (simp add: level_overhead_eq n'_def)
  then obtain b' where b': "KPageBitmap_Initialize (b_bitmap b) storage n
      = (b', drop (KPageBitmap_CalculateManagementOverheadSize n div 8) storage)" "bitmap_ok b' n" "bitmap_set b' = {}"
    using Initialize_bitmap [of n storage "b_bitmap b"] \<open>1 \<le> n\<close> \<open>n < 2 ^ 62\<close> assms(4,5) by auto
  have "m_used_depths b' \<le> MaxDepth"
    using Initialize_depth [of "b_bitmap b" storage n] b'(1) GetRequiredDepth_le [OF n4] by (simp add: MaxDepth_def)
  moreover have "8 * (KPageBitmap_CalculateManagementOverheadSize n div 8) \<le> level_overhead (m_heap_size h) i"
    using ov by simp
  moreover have "Block_Initialize b (m_heap_address h) (m_heap_size h) (MemoryBlockPageShifts ! i)
      (next_shift MemoryBlockPageShifts i) storage
      = (b\<lparr>b_bitmap := b', b_heap_address := AlignDown (m_heap_address h) ?A, b_end_offset := n,
          b_block_shift := MemoryBlockPageShifts ! i, b_next_block_shift := next_shift MemoryBlockPageShifts i\<rparr>,
         drop (KPageBitmap_CalculateManagementOverheadSize n div 8) storage)"
    using b'(1) unfolding Block_Initialize_def Let_def A
    unfolding x_def [symmetric] GetBlockSize_def [symmetric] n_def [symmetric]
    by simp
  ultimately show ?thesis using b'(2,3)
    by (auto simp: fresh_level_def level_ok_def level_blocks_def n_def x_def)
qed

lemma Initialize_loop_correct:
  assumes "region_ok h" and "m_heap_size h + 2 ^ 17 \<le> 2 ^ 36" and "j \<le> NumMemoryBlockPageShifts"
    and "\<forall>w\<in>set storage. w = 0" and "(\<Sum>i\<in>{j..<NumMemoryBlockPageShifts}. level_overhead (m_heap_size h) i) \<le> 8 * length storage"
    and "length blocks = NumMemoryBlockPageShifts"
  shows "\<exists>blocks' w. KPageHeap_Initialize_loop (m_heap_address h) (m_heap_size h) MemoryBlockPageShifts
      [j..<NumMemoryBlockPageShifts] blocks storage = (blocks', drop w storage) \<and>
    8 * w \<le> (\<Sum>i\<in>{j..<NumMemoryBlockPageShifts}. level_overhead (m_heap_size h) i) \<and>
    length blocks' = NumMemoryBlockPageShifts \<and> (\<forall>i<j. blocks' ! i = blocks ! i) \<and>
    (\<forall>i. j \<le> i \<and> i < NumMemoryBlockPageShifts \<longrightarrow> fresh_level h i (blocks' ! i))"
  using assms(3-6)
proof (induction "NumMemoryBlockPageShifts - j" arbitrary: j storage blocks)
  case 0
  then have "j = NumMemoryBlockPageShifts" by simp
  then show ?case using 0 by (intro exI [of _ blocks] exI [of _ 0]) auto
next
  case (Suc m)
  let ?N = NumMemoryBlockPageShifts and ?o = "level_overhead (m_heap_size h)"
  have j: "j < ?N" using Suc.hyps(2) by simp
  have up: "[j..<?N] = j # [Suc j..<?N]" using j by (rule upt_conv_Cons)
  have sum: "(\<Sum>i\<in>{j..<?N}. ?o i) = ?o j + (\<Sum>i\<in>{Suc j..<?N}. ?o i)" using j by (simp add: sum.atLeast_Suc_lessThan)
  then have oj: "?o j \<le> 8 * length storage" using Suc.prems(3) by simp
  obtain b' w where b: "Block_Initialize (blocks ! j) (m_heap_address h) (m_heap_size h) (MemoryBlockPageShifts ! j)
      (next_shift MemoryBlockPageShifts j) storage = (b', drop w storage)" "8 * w \<le> ?o j" "fresh_level h j b'"
    using Block_Initialize_correct [OF assms(1) j assms(2) Suc.prems(2) oj] by blast
  have z: "\<forall>x\<in>set (drop w storage). x = 0" using Suc.prems(2) by (auto dest: in_set_dropD)
  have l: "(\<Sum>i\<in>{Suc j..<?N}. ?o i) \<le> 8 * length (drop w storage)" using Suc.prems(3) sum b(2) by simp
  have m: "m = ?N - Suc j" "Suc j \<le> ?N" using Suc.hyps(2) j by simp_all
  obtain blocks' w' where c: "KPageHeap_Initialize_loop (m_heap_address h) (m_heap_size h) MemoryBlockPageShifts
      [Suc j..<?N] (blocks[j := b']) (drop w storage) = (blocks', drop w' (drop w storage))"
    "8 * w' \<le> (\<Sum>i\<in>{Suc j..<?N}. ?o i)" "length blocks' = ?N" "\<forall>i<Suc j. blocks' ! i = blocks[j := b'] ! i"
    "\<forall>i. Suc j \<le> i \<and> i < ?N \<longrightarrow> fresh_level h i (blocks' ! i)"
    using Suc.hyps(1) [OF m z l, of "blocks[j := b']"] Suc.prems(4) by auto
  have "blocks' ! j = b'" using c(4) Suc.prems(4) j by simp
  then have "\<forall>i. j \<le> i \<and> i < ?N \<longrightarrow> fresh_level h i (blocks' ! i)" using c(5) b(3) by (metis Suc_leI le_neq_implies_less)
  moreover have "\<forall>i<j. blocks' ! i = blocks ! i" using c(4) by simp
  ultimately show ?case using b(1,2) c(1-3) sum
    by (intro exI [of _ blocks'] exI [of _ "w + w'"]) (simp add: up ac_simps)
qed

lemma level_overhead_bound:
  assumes "i < NumMemoryBlockPageShifts" and "sz + 2 ^ 17 \<le> 2 ^ 36"
  shows "level_overhead sz i < 2 ^ 41"
proof -
  let ?A = "level_align i" and ?S = "GetBlockSize i"
  note size = block_sizes [OF assms(1)]
  define n where "n = (?A * 2 + AlignUp sz ?A) div ?S"
  have "sz + ?A < 2 ^ 64" using assms(2) size(7) by simp
  then have "AlignUp sz ?A < sz + ?A" using size(6) by (rule AlignUp_less)
  then have "?A * 2 + AlignUp sz ?A < 2 ^ 37" using assms(2) size(7) by simp
  then have n: "n < 2 ^ 37" unfolding n_def by (rule le_less_trans [OF div_le_dividend])
  then have "n < 64 ^ 7" by simp
  then have d: "GetRequiredDepth n \<le> 7" by (rule GetRequiredDepth_le) simp
  have "n + 64 < 2 ^ 64" using n by simp
  then have "words_needed (GetRequiredDepth n) n \<le> n + 2 * GetRequiredDepth n" by (rule words_needed_bound)
  then show ?thesis using n d by (simp add: level_overhead_eq n_def [symmetric] overhead_eq)
qed

lemma Initialize_correct:
  assumes "PageSize dvd address" and "PageSize dvd sz" and "0 < sz" and "2 ^ 30 \<le> address" and "address + sz < 2 ^ 62"
    and "sz + 2 ^ 17 \<le> 2 ^ 36" and "length (m_blocks h) = NumMemoryBlockPageShifts"
    and "KPageHeap_CalculateManagementOverheadSize sz \<le> management_size"
  shows "\<exists>h' w. KPageHeap_Initialize h address sz management_size = (h', replicate (management_size div 8 - w) 0) \<and>
    8 * w \<le> management_size \<and> heap_ok h' \<and> free_blocks h' = {} \<and>
    m_heap_address h' = address \<and> m_heap_size h' = sz \<and>
    (\<forall>b\<in>set (m_blocks h'). m_used_depths (b_bitmap b) \<le> MaxDepth)"
proof -
  let ?N = NumMemoryBlockPageShifts
  define h1 where "h1 = h\<lparr>m_heap_address := address, m_heap_size := sz\<rparr>"
  have r: "region_ok h1" using assms by (simp add: region_ok_def h1_def)
  have sz: "m_heap_size h1 + 2 ^ 17 \<le> 2 ^ 36" using assms(6) by (simp add: h1_def)
  have len: "length MemoryBlockPageShifts = ?N" by (simp add: MemoryBlockPageShifts_def NumMemoryBlockPageShifts_def)
  define t where "t = (\<Sum>i\<in>{0..<?N}. level_overhead sz i)"
  have "t \<le> (\<Sum>i\<in>{0..<?N}. 2 ^ 41)"
    unfolding t_def using level_overhead_bound [OF _ assms(6)] by (intro sum_mono) (simp add: less_imp_le)
  also have "\<dots> = ?N * 2 ^ 41" by simp
  finally have t: "t + PageSize < 2 ^ 64" by (simp add: NumMemoryBlockPageShifts_def PageSize_def)
  have o: "KPageHeap_CalculateManagementOverheadSize sz = AlignUp t PageSize"
    unfolding KPageHeap_CalculateManagementOverheadSize_def KPageHeap_CalculateManagementOverheadSize_shifts_def
      t_def level_overhead_def len by (simp add: interv_sum_list_conv_sum_set_nat)
  have "8 dvd PageSize" by (simp add: PageSize_def)
  then have "8 dvd AlignUp t PageSize" using AlignUp_dvd [OF t] by (rule dvd_trans)
  then obtain q where q: "AlignUp t PageSize = 8 * q" by (rule dvdE)
  have tq: "t \<le> 8 * q" using AlignUp_ge [OF t] unfolding q by (simp add: PageSize_def)
  have "q \<le> management_size div 8" using assms(8) q o by simp
  then have fit: "t \<le> 8 * length (replicate (management_size div 8) (0 :: u64))" using tq by simp
  obtain blocks w where b: "KPageHeap_Initialize_loop address sz MemoryBlockPageShifts [0..<?N] (m_blocks h)
      (replicate (management_size div 8) 0) = (blocks, drop w (replicate (management_size div 8) 0))"
    "8 * w \<le> t" "length blocks = ?N" "\<forall>i<?N. fresh_level h1 i (blocks ! i)"
    using Initialize_loop_correct [OF r sz, of 0 "replicate (management_size div 8) 0" "m_blocks h"] fit assms(7)
    by (auto simp: h1_def t_def)
  define h' where "h' = h\<lparr>m_heap_address := address, m_heap_size := sz, m_num_blocks := ?N, m_blocks := blocks\<rparr>"
  have f: "free_blocks h' = {}" using b(3,4) by (auto simp: free_blocks_def h'_def fresh_level_def)
  have "level_ok h' i (blocks ! i)" if "i < ?N" for i
    using b(4) that level_ok_cong [of h' h1] by (simp add: h'_def h1_def fresh_level_def)
  then have "heap_ok h'" using b(3) f r by (simp add: heap_ok_def disjoint_blocks_def h'_def h1_def region_ok_def)
  moreover have "\<forall>b\<in>set (m_blocks h'). m_used_depths (b_bitmap b) \<le> MaxDepth"
    using b(3,4) by (auto simp: h'_def fresh_level_def in_set_conv_nth)
  moreover have "8 * w \<le> management_size" using b(2) fit by simp
  ultimately show ?thesis using b(1) f
    by (intro exI [of _ h'] exI [of _ w])
      (simp add: KPageHeap_Initialize_def KPageHeap_Initialize_shifts_def len h'_def Let_def)
qed

section \<open>Block sizes for a request\<close>

lemma GetAlignedBlockIndex_loop_correct:
  assumes "k + length shifts = NumMemoryBlockPageShifts" and "\<And>j. j < length shifts \<Longrightarrow> shifts ! j = MemoryBlockPageShifts ! (k + j)"
    and "\<forall>j<k. GetBlockNumPages j < target"
  shows "case GetAlignedBlockIndex_loop target shifts k of r \<Rightarrow>
    if r < 0 then \<forall>j<NumMemoryBlockPageShifts. GetBlockNumPages j < target
    else nat r < NumMemoryBlockPageShifts \<and> target \<le> GetBlockNumPages (nat r) \<and> (\<forall>j<nat r. GetBlockNumPages j < target)"
  using assms
proof (induction shifts arbitrary: k)
  case (Cons s shifts)
  have s: "2 ^ s div PageSize = GetBlockNumPages k" using Cons.prems(2) [of 0] by (simp add: GetBlockNumPages_def GetBlockSize_def)
  show ?case
  proof (cases "target \<le> GetBlockNumPages k")
    case True
    then show ?thesis using Cons.prems(1,3) s by simp
  next
    case False
    have "\<forall>j<Suc k. GetBlockNumPages j < target" using Cons.prems(3) False by (simp add: less_Suc_eq)
    moreover have "shifts ! j = MemoryBlockPageShifts ! (Suc k + j)" if "j < length shifts" for j
      using Cons.prems(2) [of "Suc j"] that by simp
    ultimately show ?thesis using Cons.IH [of "Suc k"] Cons.prems(1) s False by simp
  qed
qed simp

lemma GetAlignedBlockIndex_fits:
  assumes "GetAlignedBlockIndex num_pages align_pages = int index"
  shows "index < NumMemoryBlockPageShifts" and "num_pages * PageSize \<le> GetBlockSize index"
    and "align_pages * PageSize \<le> GetBlockSize index"
proof -
  have "index < NumMemoryBlockPageShifts \<and> max num_pages align_pages \<le> GetBlockNumPages index"
    using GetAlignedBlockIndex_loop_correct [of 0 MemoryBlockPageShifts "max num_pages align_pages"] assms
    by (simp add: GetAlignedBlockIndex_def MemoryBlockPageShifts_def NumMemoryBlockPageShifts_def)
  then have i: "index < NumMemoryBlockPageShifts" and n: "num_pages \<le> GetBlockNumPages index" "align_pages \<le> GetBlockNumPages index"
    by simp_all
  show "index < NumMemoryBlockPageShifts" by (rule i)
  have "GetBlockNumPages index * PageSize = GetBlockSize index"
    using block_sizes(1) [OF i] by (simp add: GetBlockNumPages_def)
  then show "num_pages * PageSize \<le> GetBlockSize index" "align_pages * PageSize \<le> GetBlockSize index"
    using mult_le_mono1 [OF n(1), of PageSize] mult_le_mono1 [OF n(2), of PageSize] by simp_all
qed

lemma countr_zero_pow2:
  assumes "m < 64" shows "countr_zero (of_nat (2 ^ m)) = m"
proof -
  have w: "(of_nat (2 ^ m) :: u64) = 2 ^ m" by simp
  have b: "bit (2 ^ m :: u64) j \<longleftrightarrow> j = m" for j using assms by (auto simp: bit_2_iff bit_exp_iff exp_eq_zero_iff possible_bit_def)
  then have "(2 ^ m :: u64) \<noteq> 0" by (metis bit_0_eq bot_apply bot_bool_def)
  from countr_zero(1) [OF this] show ?thesis unfolding w b .
qed

lemma AllocateBlock_correct:
  assumes "heap_ok h" and "index < NumMemoryBlockPageShifts"
  shows "\<exists>addr h'. KPageHeap_AllocateBlock h index random = Some (addr, h') \<and>
    allocation h index (GetBlockSize index) h' addr (GetBlockSize index)"
proof (cases random)
  case True
  have s: "GetBlockSize index div PageSize * PageSize = GetBlockSize index" "0 < GetBlockSize index div PageSize"
    using block_sizes(1,2) [OF assms(2)] by (simp_all add: dvd_imp_le div_greater_zero_iff PageSize_def)
  have "MemoryBlockPageShifts ! index < 64" using assms(2) by (cases rule: index_cases) (simp_all add: MemoryBlockPageShifts_def)
  then have k: "2 ^ countr_zero (of_nat (GetBlockSize index)) = GetBlockSize index"
    unfolding GetBlockSize_def by (simp only: countr_zero_pow2)
  have "\<exists>addr h'. KPageHeap_AllocateByRandom h index (GetBlockSize index div PageSize) (GetBlockSize index div PageSize) = Some (addr, h') \<and>
      allocation h index (GetBlockSize index) h' addr (GetBlockSize index)"
    using AllocateByRandom_correct [OF assms, of "GetBlockSize index div PageSize" "GetBlockSize index div PageSize"]
    unfolding s(1) k using s(2) by simp
  then show ?thesis using True level_size [OF assms] by (simp add: KPageHeap_AllocateBlock_def Block_GetNumPages_def Let_def)
next
  case False
  then show ?thesis using AllocateByLinearSearch_correct [OF assms] by (simp add: KPageHeap_AllocateBlock_def)
qed

section \<open>The heap\<close>

text \<open>
  C8: freeing.  A page-aligned range of the region, none of it free, is added to the free memory:
  \<^verbatim>\<open>Free\<close> always finishes, the free memory afterwards is exactly the old one and the range, in disjoint
  blocks inside the region, and the free size the heap reports grows by the size of the range.  A
  coalesced heap (no complete group of blocks that would form a block of the next size) stays
  coalesced: an aligned range of one of the seven sizes that is free as a whole lies in one free block.
\<close>

theorem KPageHeap_Free_exact:
  assumes "heap_ok h" and "PageSize dvd addr" and "m_heap_address h \<le> addr"
    and "addr + num_pages * PageSize \<le> KPageHeap_GetEndAddress h"
    and "{addr..<addr + num_pages * PageSize} \<inter> free_bytes h = {}"
  shows "\<exists>h'. KPageHeap_Free h addr num_pages = Some h' \<and> heap_ok h' \<and>
    free_bytes h' = free_bytes h \<union> {addr..<addr + num_pages * PageSize} \<and>
    KPageHeap_GetFreeSize h' = KPageHeap_GetFreeSize h + num_pages * PageSize \<and>
    (heap_coalesced h \<longrightarrow> heap_coalesced h' \<and>
      (\<forall>i<NumMemoryBlockPageShifts. \<forall>a. GetBlockSize i dvd a \<and> block_bytes (i, a) \<subseteq> free_bytes h' \<longrightarrow>
        (\<exists>x\<in>free_blocks h'. i \<le> fst x \<and> block_bytes (i, a) \<subseteq> block_bytes x)))"
proof -
  let ?S = "{addr..<addr + num_pages * PageSize}"
  have "within h addr (addr + num_pages * PageSize)"
    using assms by (simp add: within_def KPageHeap_GetEndAddress_def)
  then obtain h' where h': "KPageHeap_Free h addr num_pages = Some h'" "freed h h' ?S"
    using Free_correct [OF _ assms(2)] by blast
  have "finite (free_bytes h)"
    by (rule free_bytes_finite [OF assms(1)])
  then have "card (free_bytes h \<union> ?S) = card (free_bytes h) + num_pages * PageSize"
    using assms(5) by (subst card_Un_disjoint) auto
  then have "KPageHeap_GetFreeSize h' = KPageHeap_GetFreeSize h + num_pages * PageSize"
    using h'(2) free_size_eq [of h'] free_size_eq [OF assms(1)] by (simp add: freed_def)
  moreover have "heap_ok h'" "heap_coalesced h \<longrightarrow> heap_coalesced h'" "free_bytes h' = free_bytes h \<union> ?S"
    using h'(2) by (simp_all add: freed_def)
  ultimately show ?thesis using h'(1) heap_coalesced_maximal [of h'] by (intro exI [of _ h']) blast
qed

definition blank_heap :: KPageHeap where
  "blank_heap =
     (let bitmap = \<lparr>m_bit_storages = [], m_bitmap_rng = RandomBitGenerator_new 1, m_num_bits = 0\<rparr>;
          b = \<lparr>b_bitmap = bitmap, b_heap_address = 0, b_end_offset = 0, b_block_shift = 0, b_next_block_shift = 0\<rparr>
      in \<lparr>m_heap_address = 0, m_heap_size = 0, m_initial_used_size = 0, m_num_blocks = 0,
          m_blocks = replicate 7 b, m_heap_rng = RandomBitGenerator_new 2\<rparr>)"

definition example_heap :: KPageHeap where
  "example_heap =
     fst (KPageHeap_Initialize blank_heap (2 ^ 31) (2 ^ 21) (KPageHeap_CalculateManagementOverheadSize (2 ^ 21)))"

lemma blank_heap_blocks: "length (m_blocks blank_heap) = NumMemoryBlockPageShifts"
  by (simp add: blank_heap_def NumMemoryBlockPageShifts_def Let_def)

lemma example_heap_ok: "heap_ok example_heap" "free_bytes example_heap = {}" "free_blocks example_heap = {}"
  "m_heap_address example_heap = 2 ^ 31" "m_heap_size example_heap = 2 ^ 21"
proof -
  obtain h' w where "KPageHeap_Initialize blank_heap (2 ^ 31) (2 ^ 21) (KPageHeap_CalculateManagementOverheadSize (2 ^ 21))
      = (h', replicate (KPageHeap_CalculateManagementOverheadSize (2 ^ 21) div 8 - w) 0)"
    and h': "heap_ok h'" "free_blocks h' = {}" "m_heap_address h' = 2 ^ 31" "m_heap_size h' = 2 ^ 21"
    using Initialize_correct [of "2 ^ 31" "2 ^ 21" blank_heap "KPageHeap_CalculateManagementOverheadSize (2 ^ 21)"]
      blank_heap_blocks by (auto simp: PageSize_def)
  then have "example_heap = h'" by (simp add: example_heap_def)
  then show "heap_ok example_heap" "free_bytes example_heap = {}" "free_blocks example_heap = {}"
    "m_heap_address example_heap = 2 ^ 31" "m_heap_size example_heap = 2 ^ 21"
    using h' by (simp_all add: free_bytes_def)
qed

lemma no_blocks_coalesced: "free_blocks h = {} \<Longrightarrow> heap_coalesced h"
  unfolding heap_coalesced_def full_group_def level_diff_def by force

lemma example_heap_coalesced: "heap_coalesced example_heap"
  by (rule no_blocks_coalesced) (rule example_heap_ok)

theorem KPageHeap_Free_exact_witness:
  "\<exists>h'. KPageHeap_Free example_heap (2 ^ 31 + PageSize) 300 = Some h' \<and>
    KPageHeap_GetFreeSize h' = KPageHeap_GetFreeSize example_heap + 300 * PageSize \<and> heap_coalesced h'"
  using KPageHeap_Free_exact [OF example_heap_ok(1), of "2 ^ 31 + PageSize" 300]
  by (simp add: example_heap_ok example_heap_coalesced KPageHeap_GetEndAddress_def PageSize_def) blast

definition filled_heap :: KPageHeap where
  "filled_heap = the (KPageHeap_Free example_heap (2 ^ 31) 512)"

lemma filled_heap_ok: "heap_ok filled_heap" "any_block filled_heap 0"
  "free_bytes filled_heap = {2 ^ 31..<2 ^ 31 + 2 ^ 21}"
proof -
  have "within example_heap (2 ^ 31) (2 ^ 31 + 512 * PageSize)" "PageSize dvd 2 ^ 31"
    using example_heap_ok by (simp_all add: within_def PageSize_def)
  then obtain h' where h': "KPageHeap_Free example_heap (2 ^ 31) 512 = Some h'"
    "freed example_heap h' {2 ^ 31..<2 ^ 31 + 512 * PageSize}" using Free_correct by blast
  then have e: "filled_heap = h'" by (simp add: filled_heap_def)
  show "heap_ok filled_heap" using h'(2) e by (simp add: freed_def)
  show f: "free_bytes filled_heap = {2 ^ 31..<2 ^ 31 + 2 ^ 21}"
    using h'(2) e example_heap_ok(2) by (simp add: freed_def PageSize_def)
  then have "free_blocks filled_heap \<noteq> {}" by (auto simp: free_bytes_def)
  then show "any_block filled_heap 0" by (auto simp: any_block_def)
qed

text \<open>
  C4: allocating a block of one of the seven sizes, at random or by the linear search.  It always
  finishes.  If any block of that size or a larger one is free, the result is the address of a
  naturally aligned range that was free, and the free memory shrinks by exactly that range: nothing
  is lost when a larger block is split.  Otherwise the result is zero and the free memory is the same.
  A coalesced heap stays coalesced.
\<close>

theorem AllocateBlock_sound:
  assumes "heap_ok h" and "index < NumMemoryBlockPageShifts"
  shows "\<exists>addr h'. KPageHeap_AllocateBlock h index random = Some (addr, h') \<and> heap_ok h' \<and> (heap_coalesced h \<longrightarrow> heap_coalesced h') \<and>
    (if any_block h index
     then addr \<noteq> 0 \<and> GetBlockSize index dvd addr \<and> {addr..<addr + GetBlockSize index} \<subseteq> free_bytes h \<and>
       free_bytes h' = free_bytes h - {addr..<addr + GetBlockSize index}
     else addr = 0 \<and> free_bytes h' = free_bytes h)"
proof -
  obtain addr h' where "KPageHeap_AllocateBlock h index random = Some (addr, h')"
    "allocation h index (GetBlockSize index) h' addr (GetBlockSize index)"
    using AllocateBlock_correct [OF assms] by blast
  then show ?thesis by (cases "any_block h index") (simp_all add: allocation_def taken_def)
qed

theorem AllocateBlock_sound_witness:
  "\<exists>addr h'. KPageHeap_AllocateBlock filled_heap 0 True = Some (addr, h') \<and>
    addr \<noteq> 0 \<and> free_bytes h' = {2 ^ 31..<2 ^ 31 + 2 ^ 21} - {addr..<addr + PageSize}"
  using AllocateBlock_sound [OF filled_heap_ok(1), of 0 True] filled_heap_ok(2,3)
  by (simp add: NumMemoryBlockPageShifts_def GetBlockSize_0) blast

text \<open>
  C22: allocating any number of pages with an alignment, from the size \<^verbatim>\<open>GetAlignedBlockIndex\<close> picks
  for them.  If a block of that size or larger is free, the result is a range of exactly the pages
  asked for, aligned to the largest power of two that divides the alignment, all of it free before and
  the only memory that is no longer free; what the chosen block has before and after it stays free.
  A coalesced heap stays coalesced.
\<close>

theorem AllocateAligned_sound:
  assumes "heap_ok h" and "0 < align_pages" and "GetAlignedBlockIndex num_pages align_pages = int index"
  shows "\<exists>addr h'. KPageHeap_AllocateAligned h index num_pages align_pages = Some (addr, h') \<and> heap_ok h' \<and> (heap_coalesced h \<longrightarrow> heap_coalesced h') \<and>
    (if any_block h index
     then addr \<noteq> 0 \<and> 2 ^ countr_zero (of_nat (align_pages * PageSize)) dvd addr \<and>
       {addr..<addr + num_pages * PageSize} \<subseteq> free_bytes h \<and>
       free_bytes h' = free_bytes h - {addr..<addr + num_pages * PageSize}
     else addr = 0 \<and> free_bytes h' = free_bytes h)"
proof -
  note fits = GetAlignedBlockIndex_fits [OF assms(3)]
  obtain addr h' where "KPageHeap_AllocateAligned h index num_pages align_pages = Some (addr, h')"
    "allocation h index (2 ^ countr_zero (of_nat (align_pages * PageSize))) h' addr (num_pages * PageSize)"
    unfolding KPageHeap_AllocateAligned_def
    using AllocateByRandom_correct [OF assms(1) fits(1,2) assms(2) fits(3)] by blast
  then show ?thesis by (cases "any_block h index") (simp_all add: allocation_def taken_def)
qed

theorem AllocateAligned_sound_witness:
  "GetAlignedBlockIndex 1 1 = 0 \<and>
   (\<exists>addr h'. KPageHeap_AllocateAligned filled_heap 0 1 1 = Some (addr, h') \<and>
     free_bytes h' = {2 ^ 31..<2 ^ 31 + 2 ^ 21} - {addr..<addr + PageSize})"
proof -
  have "GetAlignedBlockIndex 1 1 = int 0"
    by (simp add: GetAlignedBlockIndex_def MemoryBlockPageShifts_def PageSize_def)
  with AllocateAligned_sound [OF filled_heap_ok(1) _ this] filled_heap_ok(2,3) show ?thesis by simp blast
qed

text \<open>
  C23: initialising on the storage \<^verbatim>\<open>CalculateManagementOverheadSize\<close> asks for.  For a
  page-aligned region at or above 1 GiB of at most 64 GiB less 128 KiB, the bitmaps fit into that
  storage, no bitmap has more than \<^verbatim>\<open>MaxDepth\<close> levels, and the heap is well formed and coalesced with
  nothing free.
\<close>

theorem KPageHeap_Initialize_fits:
  assumes "PageSize dvd address" and "PageSize dvd sz" and "0 < sz" and "2 ^ 30 \<le> address" and "address + sz < 2 ^ 62"
    and "sz + 2 ^ 17 \<le> 2 ^ 36" and "length (m_blocks h) = NumMemoryBlockPageShifts"
    and "KPageHeap_CalculateManagementOverheadSize sz \<le> management_size"
  shows "\<exists>h' w. KPageHeap_Initialize h address sz management_size = (h', replicate (management_size div 8 - w) 0) \<and>
    8 * w \<le> management_size \<and> heap_ok h' \<and> free_bytes h' = {} \<and> heap_coalesced h' \<and>
    (\<forall>b\<in>set (m_blocks h'). m_used_depths (b_bitmap b) \<le> MaxDepth)"
  using Initialize_correct [OF assms] by (auto simp: free_bytes_def no_blocks_coalesced)

theorem KPageHeap_Initialize_fits_witness:
  "\<exists>h' w. KPageHeap_Initialize blank_heap (2 ^ 31) (2 ^ 32) (KPageHeap_CalculateManagementOverheadSize (2 ^ 32))
      = (h', replicate (KPageHeap_CalculateManagementOverheadSize (2 ^ 32) div 8 - w) 0) \<and> heap_ok h'"
  using KPageHeap_Initialize_fits [of "2 ^ 31" "2 ^ 32" blank_heap "KPageHeap_CalculateManagementOverheadSize (2 ^ 32)"]
    blank_heap_blocks by (simp add: PageSize_def) blast

end
