(* ===== verification/Priority_Queue.thy ===== *)
theory Priority_Queue
  imports Kernel_Prelude "HOL-Library.Monad_Syntax"
begin

text \<open>
  \<^verbatim>\<open>KPriorityQueue\<close> (\<^verbatim>\<open>k_priority_queue.h\<close>): the run queues of the scheduler.  For every core and
  priority there is a queue of the threads scheduled on the core and one of the threads that could be
  migrated to it.  The queues are doubly linked through the threads: a thread has one entry per core,
  shared by the two kinds of queue.  For the kernel there are four cores and priorities 0 (highest)
  to 63.

  All entries live in one store: the roots, named by kind, priority and core, and the entries of the
  threads, named by thread and core.  A thread is a number.  What the queue asks a thread (priority,
  active core, affinity, whether it is a dummy) is the record \<open>Member\<close>.  Indexing an array of queues
  out of range is the result \<open>None\<close>.
\<close>

section \<open>Affinity masks\<close>

definition NUM_CPU_CORES :: nat where "NUM_CPU_CORES = 4"

definition AllowedAffinityMask :: u64 where
  "AllowedAffinityMask = push_bit NUM_CPU_CORES 1 - 1"

record KAffinityMask =
  m_mask :: u64

definition GetCoreBit :: "int \<Rightarrow> u64" where
  "GetCoreBit core = push_bit (nat core) 1"

definition GetCoreBit_asserts :: "int \<Rightarrow> bool" where
  "GetCoreBit_asserts core \<longleftrightarrow> 0 \<le> core \<and> core < int NUM_CPU_CORES"

definition KAffinityMask_GetAffinityMask :: "KAffinityMask \<Rightarrow> u64" where
  "KAffinityMask_GetAffinityMask a = m_mask a"

definition KAffinityMask_SetAffinityMask :: "KAffinityMask \<Rightarrow> u64 \<Rightarrow> KAffinityMask" where
  "KAffinityMask_SetAffinityMask a new_mask = a\<lparr>m_mask := new_mask\<rparr>"

definition KAffinityMask_SetAffinityMask_asserts :: "u64 \<Rightarrow> bool" where
  "KAffinityMask_SetAffinityMask_asserts new_mask \<longleftrightarrow> new_mask AND NOT AllowedAffinityMask = 0"

definition KAffinityMask_GetAffinity :: "KAffinityMask \<Rightarrow> int \<Rightarrow> bool" where
  "KAffinityMask_GetAffinity a core \<longleftrightarrow> m_mask a AND GetCoreBit core \<noteq> 0"

definition KAffinityMask_SetAffinity :: "KAffinityMask \<Rightarrow> int \<Rightarrow> bool \<Rightarrow> KAffinityMask" where
  "KAffinityMask_SetAffinity a core on =
     (if on then a\<lparr>m_mask := m_mask a OR GetCoreBit core\<rparr>
      else a\<lparr>m_mask := m_mask a AND NOT (GetCoreBit core)\<rparr>)"

definition KAffinityMask_SetAll :: "KAffinityMask \<Rightarrow> KAffinityMask" where
  "KAffinityMask_SetAll a = a\<lparr>m_mask := AllowedAffinityMask\<rparr>"

section \<open>Entries\<close>

definition LowestThreadPriority :: int where "LowestThreadPriority = 63"

definition HighestThreadPriority :: int where "HighestThreadPriority = 0"

definition NumPriority :: nat where
  "NumPriority = nat (LowestThreadPriority - HighestThreadPriority + 1)"

definition IsValidCore :: "int \<Rightarrow> bool" where
  "IsValidCore core \<longleftrightarrow> 0 \<le> core \<and> core < int NUM_CPU_CORES"

definition IsValidPriority :: "int \<Rightarrow> bool" where
  "IsValidPriority priority \<longleftrightarrow> HighestThreadPriority \<le> priority \<and> priority \<le> LowestThreadPriority + 1"

record QueueEntry =
  e_prev :: "nat option"
  e_next :: "nat option"

definition QueueEntry_Initialize :: QueueEntry where
  "QueueEntry_Initialize = \<lparr>e_prev = None, e_next = None\<rparr>"

datatype which_queue = Scheduled | Suggested

datatype entry_ref = Root which_queue nat nat | EntryOf nat nat

type_synonym entries = "entry_ref \<Rightarrow> QueueEntry"

definition SetPrev :: "entries \<Rightarrow> entry_ref \<Rightarrow> nat option \<Rightarrow> entries" where
  "SetPrev es r thread = es(r := (es r)\<lparr>e_prev := thread\<rparr>)"

definition SetNext :: "entries \<Rightarrow> entry_ref \<Rightarrow> nat option \<Rightarrow> entries" where
  "SetNext es r thread = es(r := (es r)\<lparr>e_next := thread\<rparr>)"

text \<open>The entry a link leads to: that of the thread, or the root for the null pointer.\<close>

definition entry_or_root :: "which_queue \<Rightarrow> nat \<Rightarrow> nat \<Rightarrow> nat option \<Rightarrow> entry_ref" where
  "entry_or_root w p core thread =
     (case thread of Some t \<Rightarrow> EntryOf t core | None \<Rightarrow> Root w p core)"

section \<open>A queue of one priority\<close>

definition KPerCoreQueue_PushBack :: "entries \<Rightarrow> which_queue \<Rightarrow> nat \<Rightarrow> nat \<Rightarrow> nat \<Rightarrow> bool \<times> entries" where
  "KPerCoreQueue_PushBack es w p core member =
     (let tail = e_prev (es (Root w p core));
          tail_entry = entry_or_root w p core tail;
          es1 = SetPrev es (EntryOf member core) tail;
          es2 = SetNext es1 (EntryOf member core) None;
          es3 = SetNext es2 tail_entry (Some member);
          es4 = SetPrev es3 (Root w p core) (Some member)
      in (tail = None, es4))"

definition KPerCoreQueue_PushFront :: "entries \<Rightarrow> which_queue \<Rightarrow> nat \<Rightarrow> nat \<Rightarrow> nat \<Rightarrow> bool \<times> entries" where
  "KPerCoreQueue_PushFront es w p core member =
     (let head = e_next (es (Root w p core));
          head_entry = entry_or_root w p core head;
          es1 = SetPrev es (EntryOf member core) None;
          es2 = SetNext es1 (EntryOf member core) head;
          es3 = SetPrev es2 head_entry (Some member);
          es4 = SetNext es3 (Root w p core) (Some member)
      in (head = None, es4))"

definition KPerCoreQueue_GetFront :: "entries \<Rightarrow> which_queue \<Rightarrow> nat \<Rightarrow> nat \<Rightarrow> nat option" where
  "KPerCoreQueue_GetFront es w p core = e_next (es (Root w p core))"

definition KPerCoreQueue_Remove :: "entries \<Rightarrow> which_queue \<Rightarrow> nat \<Rightarrow> nat \<Rightarrow> nat \<Rightarrow> bool \<times> entries" where
  "KPerCoreQueue_Remove es w p core member =
     (let prev = e_prev (es (EntryOf member core));
          nxt = e_next (es (EntryOf member core));
          prev_entry = entry_or_root w p core prev;
          next_entry = entry_or_root w p core nxt;
          es1 = SetNext es prev_entry nxt;
          es2 = SetPrev es1 next_entry prev
      in (KPerCoreQueue_GetFront es2 w p core = None, es2))"

section \<open>The queues of all priorities\<close>

record KPriorityQueue =
  pq_entries :: entries
  m_available_priorities :: "which_queue \<Rightarrow> nat \<Rightarrow> u64"

definition KPriorityQueue_new :: KPriorityQueue where
  "KPriorityQueue_new = \<lparr>pq_entries = \<lambda>_. QueueEntry_Initialize, m_available_priorities = \<lambda>_ _. 0\<rparr>"

definition set_available :: "KPriorityQueue \<Rightarrow> which_queue \<Rightarrow> nat \<Rightarrow> nat \<Rightarrow> bool \<Rightarrow> KPriorityQueue" where
  "set_available q w core p on =
     q\<lparr>m_available_priorities := (m_available_priorities q)
         (w := (m_available_priorities q w)
            (core := (if on then set_bit p else unset_bit p) (m_available_priorities q w core)))\<rparr>"

definition Impl_asserts :: "int \<Rightarrow> int \<Rightarrow> bool" where
  "Impl_asserts priority core \<longleftrightarrow> IsValidCore core \<and> IsValidPriority priority"

definition Impl_PushBack :: "which_queue \<Rightarrow> int \<Rightarrow> int \<Rightarrow> nat \<Rightarrow> KPriorityQueue \<Rightarrow> KPriorityQueue option" where
  "Impl_PushBack w priority core member q =
     (if priority > LowestThreadPriority then Some q
      else if \<not> (0 \<le> priority \<and> IsValidCore core) then None
      else case KPerCoreQueue_PushBack (pq_entries q) w (nat priority) (nat core) member of
             (first, es) \<Rightarrow>
               let q' = q\<lparr>pq_entries := es\<rparr>
               in Some (if first then set_available q' w (nat core) (nat priority) True else q'))"

definition Impl_PushFront :: "which_queue \<Rightarrow> int \<Rightarrow> int \<Rightarrow> nat \<Rightarrow> KPriorityQueue \<Rightarrow> KPriorityQueue option" where
  "Impl_PushFront w priority core member q =
     (if priority > LowestThreadPriority then Some q
      else if \<not> (0 \<le> priority \<and> IsValidCore core) then None
      else case KPerCoreQueue_PushFront (pq_entries q) w (nat priority) (nat core) member of
             (first, es) \<Rightarrow>
               let q' = q\<lparr>pq_entries := es\<rparr>
               in Some (if first then set_available q' w (nat core) (nat priority) True else q'))"

definition Impl_Remove :: "which_queue \<Rightarrow> int \<Rightarrow> int \<Rightarrow> nat \<Rightarrow> KPriorityQueue \<Rightarrow> KPriorityQueue option" where
  "Impl_Remove w priority core member q =
     (if priority > LowestThreadPriority then Some q
      else if \<not> (0 \<le> priority \<and> IsValidCore core) then None
      else case KPerCoreQueue_Remove (pq_entries q) w (nat priority) (nat core) member of
             (now_empty, es) \<Rightarrow>
               let q' = q\<lparr>pq_entries := es\<rparr>
               in Some (if now_empty then set_available q' w (nat core) (nat priority) False else q'))"

fun first_set :: "u64 \<Rightarrow> nat list \<Rightarrow> nat" where
  "first_set bits [] = NumPriority"
| "first_set bits (i # is) = (if bit bits i then i else first_set bits is)"

definition GetNextSet :: "u64 \<Rightarrow> nat \<Rightarrow> nat" where
  "GetNextSet bits n = first_set bits [add64 n 1..<NumPriority]"

definition Impl_GetFront :: "which_queue \<Rightarrow> int \<Rightarrow> KPriorityQueue \<Rightarrow> nat option option" where
  "Impl_GetFront w core q =
     (if \<not> IsValidCore core then None
      else
        let priority = first_set (m_available_priorities q w (nat core)) [0..<NumPriority]
        in Some (if int priority \<le> LowestThreadPriority
                 then KPerCoreQueue_GetFront (pq_entries q) w priority (nat core) else None))"

definition Impl_GetFront_priority :: "which_queue \<Rightarrow> int \<Rightarrow> int \<Rightarrow> KPriorityQueue \<Rightarrow> nat option option" where
  "Impl_GetFront_priority w priority core q =
     (if priority \<le> LowestThreadPriority
      then if 0 \<le> priority \<and> IsValidCore core
           then Some (KPerCoreQueue_GetFront (pq_entries q) w (nat priority) (nat core)) else None
      else Some None)"

definition Impl_GetNext :: "which_queue \<Rightarrow> int \<Rightarrow> nat \<Rightarrow> int \<Rightarrow> KPriorityQueue \<Rightarrow> nat option option" where
  "Impl_GetNext w core member member_priority q =
     (if \<not> IsValidCore core then None
      else
        let nxt = e_next (pq_entries q (EntryOf member (nat core)))
        in Some (if nxt = None
                 then
                   let priority = GetNextSet (m_available_priorities q w (nat core)) (nat (member_priority mod 2 ^ 64))
                   in if int priority \<le> LowestThreadPriority
                      then KPerCoreQueue_GetFront (pq_entries q) w priority (nat core) else nxt
                 else nxt))"

definition Impl_MoveToFront :: "which_queue \<Rightarrow> int \<Rightarrow> int \<Rightarrow> nat \<Rightarrow> KPriorityQueue \<Rightarrow> KPriorityQueue option" where
  "Impl_MoveToFront w priority core member q =
     (if priority \<le> LowestThreadPriority
      then if 0 \<le> priority \<and> IsValidCore core
           then
             let es1 = snd (KPerCoreQueue_Remove (pq_entries q) w (nat priority) (nat core) member);
                 es2 = snd (KPerCoreQueue_PushFront es1 w (nat priority) (nat core) member)
             in Some (q\<lparr>pq_entries := es2\<rparr>)
           else None
      else Some q)"

definition Impl_MoveToBack ::
    "which_queue \<Rightarrow> int \<Rightarrow> int \<Rightarrow> nat \<Rightarrow> KPriorityQueue \<Rightarrow> (nat option \<times> KPriorityQueue) option" where
  "Impl_MoveToBack w priority core member q =
     (if priority \<le> LowestThreadPriority
      then if 0 \<le> priority \<and> IsValidCore core
           then
             let es1 = snd (KPerCoreQueue_Remove (pq_entries q) w (nat priority) (nat core) member);
                 es2 = snd (KPerCoreQueue_PushBack es1 w (nat priority) (nat core) member)
             in Some (KPerCoreQueue_GetFront es2 w (nat priority) (nat core), q\<lparr>pq_entries := es2\<rparr>)
           else None
      else Some (None, q))"

section \<open>Scheduled and suggested queues\<close>

record Member =
  mb_id :: nat
  mb_priority :: int
  mb_active_core :: int
  mb_affinity :: KAffinityMask
  mb_dummy :: bool

definition ClearAffinityBit :: "u64 \<Rightarrow> int \<Rightarrow> u64" where
  "ClearAffinityBit affinity core = affinity AND NOT (push_bit (nat core) 1)"

definition GetNextCore :: "u64 \<Rightarrow> int \<times> u64" where
  "GetNextCore affinity =
     (let core = int (countr_zero affinity) in (core, ClearAffinityBit affinity core))"

lemma GetNextCore_less:
  assumes "affinity \<noteq> 0" shows "unat (snd (GetNextCore affinity)) < unat affinity"
proof -
  let ?k = "countr_zero affinity" and ?a = "snd (GetNextCore affinity)"
  have "?a = affinity AND NOT (push_bit ?k 1)" by (simp add: GetNextCore_def ClearAffinityBit_def Let_def)
  moreover have "bit affinity ?k" "?k < 64" using countr_zero [OF assms] by simp_all
  ultimately have "?a \<le> affinity" "bit ?a ?k \<noteq> bit affinity ?k"
    by (simp_all add: word_and_le2 bit_and_iff bit_not_iff bit_exp_iff)
  then have "?a < affinity" by (metis order_le_less)
  then show ?thesis by (simp add: word_less_nat_alt)
qed

text \<open>The loop \<^verbatim>\<open>while (affinity)\<close> over the cores of a mask, lowest first.\<close>

function affinity_loop ::
    "(int \<Rightarrow> KPriorityQueue \<Rightarrow> KPriorityQueue option) \<Rightarrow> u64 \<Rightarrow> KPriorityQueue \<Rightarrow> KPriorityQueue option" where
  "affinity_loop f affinity q =
     (if affinity = 0 then Some q
      else f (fst (GetNextCore affinity)) q \<bind> affinity_loop f (snd (GetNextCore affinity)))"
  by pat_completeness auto
termination
  by (relation "measure (\<lambda>(f, affinity, q). unat affinity)") (simp_all add: GetNextCore_less)

declare affinity_loop.simps [simp del]

definition PushBack_at :: "int \<Rightarrow> Member \<Rightarrow> KPriorityQueue \<Rightarrow> KPriorityQueue option" where
  "PushBack_at priority member q =
     (let affinity = KAffinityMask_GetAffinityMask (mb_affinity member);
          core = mb_active_core member
      in do {
           q1 \<leftarrow> (if core \<ge> 0 then Impl_PushBack Scheduled priority core (mb_id member) q else Some q);
           let affinity1 = (if core \<ge> 0 then ClearAffinityBit affinity core else affinity);
           affinity_loop (\<lambda>c. Impl_PushBack Suggested priority c (mb_id member)) affinity1 q1
         })"

definition PushFront_at :: "int \<Rightarrow> Member \<Rightarrow> KPriorityQueue \<Rightarrow> KPriorityQueue option" where
  "PushFront_at priority member q =
     (let affinity = KAffinityMask_GetAffinityMask (mb_affinity member);
          core = mb_active_core member
      in do {
           q1 \<leftarrow> (if core \<ge> 0 then Impl_PushFront Scheduled priority core (mb_id member) q else Some q);
           let affinity1 = (if core \<ge> 0 then ClearAffinityBit affinity core else affinity);
           affinity_loop (\<lambda>c. Impl_PushBack Suggested priority c (mb_id member)) affinity1 q1
         })"

definition Remove_at :: "int \<Rightarrow> Member \<Rightarrow> KPriorityQueue \<Rightarrow> KPriorityQueue option" where
  "Remove_at priority member q =
     (let affinity = KAffinityMask_GetAffinityMask (mb_affinity member);
          core = mb_active_core member
      in do {
           q1 \<leftarrow> (if core \<ge> 0 then Impl_Remove Scheduled priority core (mb_id member) q else Some q);
           let affinity1 = (if core \<ge> 0 then ClearAffinityBit affinity core else affinity);
           affinity_loop (\<lambda>c. Impl_Remove Suggested priority c (mb_id member)) affinity1 q1
         })"

definition GetScheduledFront :: "int \<Rightarrow> KPriorityQueue \<Rightarrow> nat option option" where
  "GetScheduledFront core q = Impl_GetFront Scheduled core q"

definition GetScheduledFront_priority :: "int \<Rightarrow> int \<Rightarrow> KPriorityQueue \<Rightarrow> nat option option" where
  "GetScheduledFront_priority core priority q = Impl_GetFront_priority Scheduled priority core q"

definition GetSuggestedFront :: "int \<Rightarrow> KPriorityQueue \<Rightarrow> nat option option" where
  "GetSuggestedFront core q = Impl_GetFront Suggested core q"

definition GetSuggestedFront_priority :: "int \<Rightarrow> int \<Rightarrow> KPriorityQueue \<Rightarrow> nat option option" where
  "GetSuggestedFront_priority core priority q = Impl_GetFront_priority Suggested priority core q"

definition GetScheduledNext :: "int \<Rightarrow> Member \<Rightarrow> KPriorityQueue \<Rightarrow> nat option option" where
  "GetScheduledNext core member q = Impl_GetNext Scheduled core (mb_id member) (mb_priority member) q"

definition GetSuggestedNext :: "int \<Rightarrow> Member \<Rightarrow> KPriorityQueue \<Rightarrow> nat option option" where
  "GetSuggestedNext core member q = Impl_GetNext Suggested core (mb_id member) (mb_priority member) q"

definition GetSamePriorityNext :: "int \<Rightarrow> Member \<Rightarrow> KPriorityQueue \<Rightarrow> nat option option" where
  "GetSamePriorityNext core member q =
     (if IsValidCore core then Some (e_next (pq_entries q (EntryOf (mb_id member) (nat core)))) else None)"

definition KPriorityQueue_PushBack :: "Member \<Rightarrow> KPriorityQueue \<Rightarrow> KPriorityQueue option" where
  "KPriorityQueue_PushBack member q =
     (if mb_dummy member then Some q else PushBack_at (mb_priority member) member q)"

definition KPriorityQueue_Remove :: "Member \<Rightarrow> KPriorityQueue \<Rightarrow> KPriorityQueue option" where
  "KPriorityQueue_Remove member q =
     (if mb_dummy member then Some q else Remove_at (mb_priority member) member q)"

definition MoveToScheduledFront :: "Member \<Rightarrow> KPriorityQueue \<Rightarrow> KPriorityQueue option" where
  "MoveToScheduledFront member q =
     (if mb_dummy member then Some q
      else Impl_MoveToFront Scheduled (mb_priority member) (mb_active_core member) (mb_id member) q)"

definition MoveToScheduledBack :: "Member \<Rightarrow> KPriorityQueue \<Rightarrow> (nat option \<times> KPriorityQueue) option" where
  "MoveToScheduledBack member q =
     (if mb_dummy member then Some (None, q)
      else Impl_MoveToBack Scheduled (mb_priority member) (mb_active_core member) (mb_id member) q)"

definition KPriorityQueue_ChangePriority ::
    "int \<Rightarrow> bool \<Rightarrow> Member \<Rightarrow> KPriorityQueue \<Rightarrow> KPriorityQueue option" where
  "KPriorityQueue_ChangePriority prev_priority is_running member q =
     (if mb_dummy member then Some q
      else do {
             let new_priority = mb_priority member;
             q1 \<leftarrow> Remove_at prev_priority member q;
             if is_running then PushFront_at new_priority member q1 else PushBack_at new_priority member q1
           })"

fun for_cores ::
    "(int \<Rightarrow> KPriorityQueue \<Rightarrow> KPriorityQueue option) \<Rightarrow> int list \<Rightarrow> KPriorityQueue \<Rightarrow> KPriorityQueue option" where
  "for_cores f [] q = Some q"
| "for_cores f (core # cores) q = f core q \<bind> for_cores f cores"

definition KPriorityQueue_ChangeAffinityMask ::
    "int \<Rightarrow> KAffinityMask \<Rightarrow> Member \<Rightarrow> KPriorityQueue \<Rightarrow> KPriorityQueue option" where
  "KPriorityQueue_ChangeAffinityMask prev_core prev_affinity member q =
     (if mb_dummy member then Some q
      else
        let priority = mb_priority member;
            new_affinity = mb_affinity member;
            new_core = mb_active_core member;
            cores = [0..int NUM_CPU_CORES - 1]
        in do {
             q1 \<leftarrow> for_cores (\<lambda>core q.
                     if KAffinityMask_GetAffinity prev_affinity core
                     then if core = prev_core then Impl_Remove Scheduled priority core (mb_id member) q
                          else Impl_Remove Suggested priority core (mb_id member) q
                     else Some q) cores q;
             for_cores (\<lambda>core q.
               if KAffinityMask_GetAffinity new_affinity core
               then if core = new_core then Impl_PushBack Scheduled priority core (mb_id member) q
                    else Impl_PushBack Suggested priority core (mb_id member) q
               else Some q) cores q1
           })"

definition KPriorityQueue_ChangeCore ::
    "int \<Rightarrow> Member \<Rightarrow> bool \<Rightarrow> KPriorityQueue \<Rightarrow> KPriorityQueue option" where
  "KPriorityQueue_ChangeCore prev_core member to_front q =
     (if mb_dummy member then Some q
      else
        let new_core = mb_active_core member;
            priority = mb_priority member;
            m = mb_id member
        in if prev_core \<noteq> new_core
           then do {
             q1 \<leftarrow> (if prev_core \<ge> 0 then Impl_Remove Scheduled priority prev_core m q else Some q);
             q2 \<leftarrow> (if new_core \<ge> 0
                    then do {
                      q1' \<leftarrow> Impl_Remove Suggested priority new_core m q1;
                      if to_front then Impl_PushFront Scheduled priority new_core m q1'
                      else Impl_PushBack Scheduled priority new_core m q1'
                    }
                    else Some q1);
             if prev_core \<ge> 0 then Impl_PushBack Suggested priority prev_core m q2 else Some q2
           }
           else Some q)"

section \<open>A linked queue as a list\<close>

fun links :: "entries \<Rightarrow> nat \<Rightarrow> nat option \<Rightarrow> nat list \<Rightarrow> nat option \<Rightarrow> bool" where
  "links es c p [] n = True"
| "links es c p (m # ms) n \<longleftrightarrow>
     es (EntryOf m c) = \<lparr>e_prev = p, e_next = (if ms = [] then n else Some (hd ms))\<rparr> \<and> links es c (Some m) ms n"

definition hd_opt :: "nat list \<Rightarrow> nat option" where
  "hd_opt xs = (if xs = [] then None else Some (hd xs))"

definition last_opt :: "nat list \<Rightarrow> nat option" where
  "last_opt xs = (if xs = [] then None else Some (last xs))"

definition linked :: "entries \<Rightarrow> which_queue \<Rightarrow> nat \<Rightarrow> nat \<Rightarrow> nat list \<Rightarrow> bool" where
  "linked es w p c xs \<longleftrightarrow>
     distinct xs \<and> es (Root w p c) = \<lparr>e_prev = last_opt xs, e_next = hd_opt xs\<rparr> \<and> links es c None xs None"

lemma links_append:
  "links es c p (xs @ ys) n \<longleftrightarrow>
     links es c p xs (if ys = [] then n else Some (hd ys)) \<and> links es c (if xs = [] then p else Some (last xs)) ys n"
  by (induction xs arbitrary: p) auto

lemma links_cong:
  "(\<And>m. m \<in> set xs \<Longrightarrow> es' (EntryOf m c) = es (EntryOf m c)) \<Longrightarrow> links es' c p xs n = links es c p xs n"
  by (induction xs arbitrary: p) auto

lemma links_other [simp]:
  "links (es(Root w q d := v)) c p xs n = links es c p xs n"
  "m \<notin> set xs \<Longrightarrow> links (es(EntryOf m c := v)) c p xs n = links es c p xs n"
  by (rule links_cong; auto)+

lemma linked_cong:
  assumes "es' (Root w p c) = es (Root w p c)" and "\<And>m. m \<in> set xs \<Longrightarrow> es' (EntryOf m c) = es (EntryOf m c)"
  shows "linked es' w p c xs = linked es w p c xs"
  unfolding linked_def using links_cong [of xs es' c es, OF assms(2)] assms(1) by simp

lemma both_links [simp]: "(e :: QueueEntry)\<lparr>e_prev := a, e_next := b\<rparr> = \<lparr>e_prev = a, e_next = b\<rparr>"
  by simp

lemmas link_defs = Let_def SetPrev_def SetNext_def entry_or_root_def

lemma PushBack_store:
  assumes "es (Root w p c) = \<lparr>e_prev = Some t, e_next = h\<rparr>" and "es (EntryOf t c) = \<lparr>e_prev = q, e_next = n\<rparr>" and "m \<noteq> t"
  shows "KPerCoreQueue_PushBack es w p c m = (False, es(EntryOf m c := \<lparr>e_prev = Some t, e_next = None\<rparr>,
     EntryOf t c := \<lparr>e_prev = q, e_next = Some m\<rparr>, Root w p c := \<lparr>e_prev = Some m, e_next = h\<rparr>))"
  using assms(3) by (simp add: KPerCoreQueue_PushBack_def link_defs assms(1,2))

lemma PushBack_store_Nil:
  assumes "es (Root w p c) = \<lparr>e_prev = None, e_next = h\<rparr>"
  shows "KPerCoreQueue_PushBack es w p c m = (True, es(EntryOf m c := \<lparr>e_prev = None, e_next = None\<rparr>,
     Root w p c := \<lparr>e_prev = Some m, e_next = Some m\<rparr>))"
  by (simp add: KPerCoreQueue_PushBack_def link_defs assms)

lemma linked_snoc:
  "linked es w p c (as @ [t]) \<longleftrightarrow> distinct (as @ [t]) \<and>
     es (Root w p c) = \<lparr>e_prev = Some t, e_next = hd_opt (as @ [t])\<rparr> \<and> links es c None as (Some t) \<and>
     es (EntryOf t c) = \<lparr>e_prev = last_opt as, e_next = None\<rparr>"
  by (auto simp: linked_def links_append last_opt_def)

lemma PushBack_linked:
  assumes "linked es w p c xs" and "m \<notin> set xs"
  shows "linked (snd (KPerCoreQueue_PushBack es w p c m)) w p c (xs @ [m])"
    and "fst (KPerCoreQueue_PushBack es w p c m) \<longleftrightarrow> xs = []"
    and "r \<noteq> Root w p c \<Longrightarrow> r \<notin> (\<lambda>k. EntryOf k c) ` set (m # xs) \<Longrightarrow> snd (KPerCoreQueue_PushBack es w p c m) r = es r"
proof -
  have "linked (snd (KPerCoreQueue_PushBack es w p c m)) w p c (xs @ [m]) \<and>
    (fst (KPerCoreQueue_PushBack es w p c m) \<longleftrightarrow> xs = []) \<and>
    (r \<noteq> Root w p c \<longrightarrow> r \<notin> (\<lambda>k. EntryOf k c) ` set (m # xs) \<longrightarrow> snd (KPerCoreQueue_PushBack es w p c m) r = es r)"
  proof (cases xs rule: rev_cases)
    case Nil
    have "es (Root w p c) = \<lparr>e_prev = None, e_next = None\<rparr>"
      using assms(1) Nil by (simp add: linked_def last_opt_def hd_opt_def)
    then show ?thesis using Nil by (simp add: PushBack_store_Nil linked_def last_opt_def hd_opt_def)
  next
    case (snoc as t)
    have t: "distinct (as @ [t])" "es (Root w p c) = \<lparr>e_prev = Some t, e_next = hd_opt (as @ [t])\<rparr>"
      "links es c None as (Some t)" "es (EntryOf t c) = \<lparr>e_prev = last_opt as, e_next = None\<rparr>"
      using assms(1) unfolding snoc linked_snoc by blast+
    have n: "m \<noteq> t" "t \<noteq> m" "m \<notin> set as" "t \<notin> set as" "distinct as" using t(1) assms(2) snoc by auto
    have h: "hd_opt ((as @ [t]) @ [m]) = hd_opt (as @ [t])" by (cases as) (simp_all add: hd_opt_def)
    show ?thesis
      unfolding snoc PushBack_store [OF t(2,4) n(1)] linked_snoc h using n t(3)
      by (simp add: links_append last_opt_def)
  qed
  then show "linked (snd (KPerCoreQueue_PushBack es w p c m)) w p c (xs @ [m])"
    "fst (KPerCoreQueue_PushBack es w p c m) \<longleftrightarrow> xs = []"
    "r \<noteq> Root w p c \<Longrightarrow> r \<notin> (\<lambda>k. EntryOf k c) ` set (m # xs) \<Longrightarrow> snd (KPerCoreQueue_PushBack es w p c m) r = es r"
    by blast+
qed

lemma PushFront_store:
  assumes "es (Root w p c) = \<lparr>e_prev = l, e_next = Some h\<rparr>" and "es (EntryOf h c) = \<lparr>e_prev = q, e_next = n\<rparr>" and "m \<noteq> h"
  shows "KPerCoreQueue_PushFront es w p c m = (False, es(EntryOf m c := \<lparr>e_prev = None, e_next = Some h\<rparr>,
     EntryOf h c := \<lparr>e_prev = Some m, e_next = n\<rparr>, Root w p c := \<lparr>e_prev = l, e_next = Some m\<rparr>))"
  using assms(3) by (simp add: KPerCoreQueue_PushFront_def link_defs assms(1,2))

lemma PushFront_store_Nil:
  assumes "es (Root w p c) = \<lparr>e_prev = l, e_next = None\<rparr>"
  shows "KPerCoreQueue_PushFront es w p c m = (True, es(EntryOf m c := \<lparr>e_prev = None, e_next = None\<rparr>,
     Root w p c := \<lparr>e_prev = Some m, e_next = Some m\<rparr>))"
  by (simp add: KPerCoreQueue_PushFront_def link_defs assms)

lemma PushFront_linked:
  assumes "linked es w p c xs" and "m \<notin> set xs"
  shows "linked (snd (KPerCoreQueue_PushFront es w p c m)) w p c (m # xs)"
    and "fst (KPerCoreQueue_PushFront es w p c m) \<longleftrightarrow> xs = []"
    and "r \<noteq> Root w p c \<Longrightarrow> r \<notin> (\<lambda>k. EntryOf k c) ` set (m # xs) \<Longrightarrow> snd (KPerCoreQueue_PushFront es w p c m) r = es r"
proof -
  have "linked (snd (KPerCoreQueue_PushFront es w p c m)) w p c (m # xs) \<and>
    (fst (KPerCoreQueue_PushFront es w p c m) \<longleftrightarrow> xs = []) \<and>
    (r \<noteq> Root w p c \<longrightarrow> r \<notin> (\<lambda>k. EntryOf k c) ` set (m # xs) \<longrightarrow> snd (KPerCoreQueue_PushFront es w p c m) r = es r)"
  proof (cases xs)
    case Nil
    have "es (Root w p c) = \<lparr>e_prev = None, e_next = None\<rparr>"
      using assms(1) Nil by (simp add: linked_def last_opt_def hd_opt_def)
    then show ?thesis using Nil by (simp add: PushFront_store_Nil linked_def last_opt_def hd_opt_def)
  next
    case (Cons h xs')
    have r: "es (Root w p c) = \<lparr>e_prev = last_opt (h # xs'), e_next = Some h\<rparr>"
      and e: "es (EntryOf h c) = \<lparr>e_prev = None, e_next = hd_opt xs'\<rparr>" and l: "links es c (Some h) xs' None"
      and n: "m \<noteq> h" "h \<noteq> m" "m \<notin> set xs'" "h \<notin> set xs'" "distinct xs'"
      using assms unfolding Cons by (auto simp: linked_def hd_opt_def)
    show ?thesis
      unfolding Cons PushFront_store [OF r e n(1)] using n l by (simp add: linked_def last_opt_def hd_opt_def)
  qed
  then show "linked (snd (KPerCoreQueue_PushFront es w p c m)) w p c (m # xs)"
    "fst (KPerCoreQueue_PushFront es w p c m) \<longleftrightarrow> xs = []"
    "r \<noteq> Root w p c \<Longrightarrow> r \<notin> (\<lambda>k. EntryOf k c) ` set (m # xs) \<Longrightarrow> snd (KPerCoreQueue_PushFront es w p c m) r = es r"
    by blast+
qed

lemma Remove_store:
  assumes "es (EntryOf m c) = \<lparr>e_prev = Some t, e_next = Some b\<rparr>" and "es (EntryOf t c) = \<lparr>e_prev = q, e_next = Some m\<rparr>"
    and "es (EntryOf b c) = \<lparr>e_prev = Some m, e_next = n\<rparr>" and "t \<noteq> b"
  shows "snd (KPerCoreQueue_Remove es w p c m)
    = es(EntryOf t c := \<lparr>e_prev = q, e_next = Some b\<rparr>, EntryOf b c := \<lparr>e_prev = Some t, e_next = n\<rparr>)"
  using assms(4) by (simp add: KPerCoreQueue_Remove_def link_defs assms(1-3))

lemma Remove_store_last:
  assumes "es (EntryOf m c) = \<lparr>e_prev = Some t, e_next = None\<rparr>" and "es (EntryOf t c) = \<lparr>e_prev = q, e_next = Some m\<rparr>"
    and "es (Root w p c) = \<lparr>e_prev = l, e_next = h\<rparr>"
  shows "snd (KPerCoreQueue_Remove es w p c m)
    = es(EntryOf t c := \<lparr>e_prev = q, e_next = None\<rparr>, Root w p c := \<lparr>e_prev = Some t, e_next = h\<rparr>)"
  by (simp add: KPerCoreQueue_Remove_def link_defs assms)

lemma Remove_store_first:
  assumes "es (EntryOf m c) = \<lparr>e_prev = None, e_next = Some b\<rparr>" and "es (EntryOf b c) = \<lparr>e_prev = Some m, e_next = n\<rparr>"
    and "es (Root w p c) = \<lparr>e_prev = l, e_next = h\<rparr>"
  shows "snd (KPerCoreQueue_Remove es w p c m)
    = es(Root w p c := \<lparr>e_prev = l, e_next = Some b\<rparr>, EntryOf b c := \<lparr>e_prev = None, e_next = n\<rparr>)"
  by (simp add: KPerCoreQueue_Remove_def link_defs assms)

lemma Remove_store_only:
  assumes "es (EntryOf m c) = \<lparr>e_prev = None, e_next = None\<rparr>" and "es (Root w p c) = \<lparr>e_prev = l, e_next = h\<rparr>"
  shows "snd (KPerCoreQueue_Remove es w p c m) = es(Root w p c := \<lparr>e_prev = None, e_next = None\<rparr>)"
  by (simp add: KPerCoreQueue_Remove_def link_defs assms)

lemma Remove_list:
  assumes "linked es w p c (as @ m # bs)"
  shows "linked (snd (KPerCoreQueue_Remove es w p c m)) w p c (as @ bs) \<and>
    (\<forall>r. r \<noteq> Root w p c \<and> r \<notin> (\<lambda>k. EntryOf k c) ` set (as @ m # bs) \<longrightarrow> snd (KPerCoreQueue_Remove es w p c m) r = es r)"
proof -
  have d: "distinct (as @ m # bs)" and r: "es (Root w p c) = \<lparr>e_prev = last_opt (as @ m # bs), e_next = hd_opt (as @ m # bs)\<rparr>"
    and l: "links es c None (as @ m # bs) None" using assms by (simp_all add: linked_def)
  show ?thesis
  proof (cases as rule: rev_cases)
    case Nil
    show ?thesis
    proof (cases bs)
      case bs: Nil
      have e: "es (EntryOf m c) = \<lparr>e_prev = None, e_next = None\<rparr>" using l Nil bs by simp
      show ?thesis unfolding Remove_store_only [of es m c, OF e r] by (simp add: Nil bs linked_def last_opt_def hd_opt_def)
    next
      case (Cons b bs')
      have e: "es (EntryOf m c) = \<lparr>e_prev = None, e_next = Some b\<rparr>" "es (EntryOf b c) = \<lparr>e_prev = Some m, e_next = hd_opt bs'\<rparr>"
        "links es c (Some b) bs' None" using l unfolding Nil Cons by (simp_all add: hd_opt_def)
      show ?thesis unfolding Remove_store_first [of es m c, OF e(1,2) r]
        using d e(3) unfolding Nil Cons by (simp add: linked_def last_opt_def hd_opt_def)
    qed
  next
    case (snoc as' t)
    have nt: "t \<notin> set as'" "distinct as'" "t \<notin> set bs" "set as' \<inter> set bs = {}" "distinct bs" using d snoc by auto
    have a: "links es c None as' (Some t)" using l unfolding snoc by (simp add: links_append)
    have et: "es (EntryOf t c) = \<lparr>e_prev = last_opt as', e_next = Some m\<rparr>"
      using l unfolding snoc by (simp add: links_append last_opt_def)
    show ?thesis
    proof (cases bs)
      case Nil
      have e: "es (EntryOf m c) = \<lparr>e_prev = Some t, e_next = None\<rparr>" using l unfolding snoc Nil by (simp add: links_append)
      have h: "hd_opt ((as' @ [t]) @ [m]) = hd_opt (as' @ [t])" by (cases as') (simp_all add: hd_opt_def)
      show ?thesis unfolding Remove_store_last [of es m c, OF e et r]
        using nt a unfolding snoc Nil append_Nil2 linked_snoc h by simp
    next
      case (Cons b bs')
      have e: "es (EntryOf m c) = \<lparr>e_prev = Some t, e_next = Some b\<rparr>" "es (EntryOf b c) = \<lparr>e_prev = Some m, e_next = hd_opt bs'\<rparr>"
        "links es c (Some b) bs' None" using l unfolding snoc Cons by (simp_all add: links_append hd_opt_def)
      have nb: "t \<noteq> b" "b \<notin> set as'" "b \<notin> set bs'" "t \<notin> set bs'" "set as' \<inter> set bs' = {}" "distinct bs'"
        using nt unfolding Cons by auto
      have h: "hd_opt ((as' @ [t]) @ m # b # bs') = hd_opt (as' @ t # b # bs')" by (cases as') (simp_all add: hd_opt_def)
      show ?thesis unfolding Remove_store [of es m c, OF e(1) et e(2) nb(1)]
        using nt(1,2) nb a e(3) r unfolding snoc Cons h by (simp add: linked_def links_append last_opt_def hd_opt_def)
    qed
  qed
qed

lemma Remove_linked:
  assumes "linked es w p c xs" and "m \<in> set xs"
  shows "linked (snd (KPerCoreQueue_Remove es w p c m)) w p c (remove1 m xs)"
    and "fst (KPerCoreQueue_Remove es w p c m) \<longleftrightarrow> remove1 m xs = []"
    and "r \<noteq> Root w p c \<Longrightarrow> r \<notin> (\<lambda>k. EntryOf k c) ` set xs \<Longrightarrow> snd (KPerCoreQueue_Remove es w p c m) r = es r"
proof -
  obtain as bs where xs: "xs = as @ m # bs" "m \<notin> set as" using assms(2) by (meson split_list_first)
  have x: "remove1 m xs = as @ bs" by (simp add: xs remove1_append)
  note l = Remove_list [OF assms(1) [unfolded xs(1)]]
  show lk: "linked (snd (KPerCoreQueue_Remove es w p c m)) w p c (remove1 m xs)" unfolding x using l by blast
  show "r \<noteq> Root w p c \<Longrightarrow> r \<notin> (\<lambda>k. EntryOf k c) ` set xs \<Longrightarrow> snd (KPerCoreQueue_Remove es w p c m) r = es r"
    unfolding xs(1) using l by blast
  have "fst (KPerCoreQueue_Remove es w p c m) \<longleftrightarrow> e_next (snd (KPerCoreQueue_Remove es w p c m) (Root w p c)) = None"
    by (simp add: KPerCoreQueue_Remove_def KPerCoreQueue_GetFront_def Let_def)
  then show "fst (KPerCoreQueue_Remove es w p c m) \<longleftrightarrow> remove1 m xs = []"
    using lk by (simp add: linked_def hd_opt_def)
qed

section \<open>All queues as lists\<close>

text \<open>
  The abstract state: for every core the list of threads of each kind and priority.  \<open>core_rep\<close> relates
  the entries of one core to its lists; the threads of a core are in one of its lists each.
\<close>

type_synonym core_queues = "which_queue \<Rightarrow> nat \<Rightarrow> nat list"

definition on_core :: "core_queues \<Rightarrow> nat set" where
  "on_core qs = {m. \<exists>w p. m \<in> set (qs w p)}"

definition core_rep :: "KPriorityQueue \<Rightarrow> nat \<Rightarrow> core_queues \<Rightarrow> bool" where
  "core_rep q c qs \<longleftrightarrow>
     (\<forall>w p. if p < NumPriority
            then linked (pq_entries q) w p c (qs w p) \<and> (bit (m_available_priorities q w c) p \<longleftrightarrow> qs w p \<noteq> [])
            else qs w p = []) \<and>
     (\<forall>w p w' p'. (w, p) \<noteq> (w', p') \<longrightarrow> set (qs w p) \<inter> set (qs w' p') = {})"

definition pq_rep :: "KPriorityQueue \<Rightarrow> (nat \<Rightarrow> core_queues) \<Rightarrow> bool" where
  "pq_rep q Q \<longleftrightarrow> (\<forall>c. if c < NUM_CPU_CORES then core_rep q c (Q c) else Q c = (\<lambda>_ _. []))"

definition set_queue :: "core_queues \<Rightarrow> which_queue \<Rightarrow> nat \<Rightarrow> nat list \<Rightarrow> core_queues" where
  "set_queue qs w p xs = qs(w := (qs w)(p := xs))"

lemma set_queue_apply: "set_queue qs w p xs w' p' = (if w' = w \<and> p' = p then xs else qs w' p')"
  by (simp add: set_queue_def)

lemma NumPriority_64: "NumPriority = 64"
  by (simp add: NumPriority_def LowestThreadPriority_def HighestThreadPriority_def)

lemma new_rep: "pq_rep KPriorityQueue_new (\<lambda>_ _ _. [])"
  by (simp add: pq_rep_def core_rep_def KPriorityQueue_new_def linked_def hd_opt_def last_opt_def QueueEntry_Initialize_def)

text \<open>What any change of one queue has to satisfy.\<close>

definition level_change :: "KPriorityQueue \<Rightarrow> which_queue \<Rightarrow> nat \<Rightarrow> nat \<Rightarrow> nat list \<Rightarrow> nat list \<Rightarrow> KPriorityQueue \<Rightarrow> bool" where
  "level_change q w c p xs xs' q' \<longleftrightarrow>
     linked (pq_entries q') w p c xs' \<and>
     (\<forall>r. r \<noteq> Root w p c \<and> r \<notin> (\<lambda>k. EntryOf k c) ` (set xs \<union> set xs') \<longrightarrow> pq_entries q' r = pq_entries q r) \<and>
     (\<forall>w' c' p'. bit (m_available_priorities q' w' c') p' \<longleftrightarrow>
        (if w' = w \<and> c' = c \<and> p' = p then xs' \<noteq> [] else bit (m_available_priorities q w' c') p'))"

lemma core_rep_other:
  assumes "core_rep q d qs" and "level_change q w c p xs xs' q'" and "d \<noteq> c"
  shows "core_rep q' d qs"
proof -
  have e: "pq_entries q' (Root w' p' d) = pq_entries q (Root w' p' d)" "pq_entries q' (EntryOf m d) = pq_entries q (EntryOf m d)"
    for w' p' m using assms(2,3) unfolding level_change_def by auto
  have l: "linked (pq_entries q') w' p' d ys = linked (pq_entries q) w' p' d ys" for w' p' ys by (rule linked_cong) (rule e)+
  have b: "bit (m_available_priorities q' w' d) p' = bit (m_available_priorities q w' d) p'" for w' p'
    using assms(2,3) unfolding level_change_def by simp
  show ?thesis using assms(1) unfolding core_rep_def l b .
qed

lemma core_rep_change:
  assumes "core_rep q c qs" and "level_change q w c p (qs w p) xs' q'" and "p < NumPriority"
    and "\<And>w' p' m. (w', p') \<noteq> (w, p) \<Longrightarrow> m \<in> set xs' \<Longrightarrow> m \<notin> set (qs w' p')"
  shows "core_rep q' c (set_queue qs w p xs')"
proof -
  have disj: "set (qs w1 p1) \<inter> set (qs w2 p2) = {}" if "(w1, p1) \<noteq> (w2, p2)" for w1 p1 w2 p2
    using assms(1) that unfolding core_rep_def by blast
  have lk: "linked (pq_entries q) w' p' c (qs w' p')" "bit (m_available_priorities q w' c) p' \<longleftrightarrow> qs w' p' \<noteq> []"
    if "p' < NumPriority" for w' p' using assms(1) that unfolding core_rep_def by metis+
  have e: "pq_entries q' (Root w' p' c) = pq_entries q (Root w' p' c)"
    "\<And>m. m \<in> set (qs w' p') \<Longrightarrow> pq_entries q' (EntryOf m c) = pq_entries q (EntryOf m c)" if n: "(w', p') \<noteq> (w, p)" for w' p'
  proof -
    show "pq_entries q' (Root w' p' c) = pq_entries q (Root w' p' c)" using assms(2) n unfolding level_change_def by auto
    fix m assume m: "m \<in> set (qs w' p')"
    then have "m \<notin> set (qs w p) \<union> set xs'" using disj [OF n] assms(4) [OF n] by blast
    then have "EntryOf m c \<notin> (\<lambda>k. EntryOf k c) ` (set (qs w p) \<union> set xs')" by blast
    then show "pq_entries q' (EntryOf m c) = pq_entries q (EntryOf m c)"
      using assms(2) unfolding level_change_def by blast
  qed
  have one: "if p' < NumPriority
      then linked (pq_entries q') w' p' c (set_queue qs w p xs' w' p') \<and>
        (bit (m_available_priorities q' w' c) p' \<longleftrightarrow> set_queue qs w p xs' w' p' \<noteq> [])
      else set_queue qs w p xs' w' p' = []" for w' p'
  proof (cases "w' = w \<and> p' = p")
    case True
    then show ?thesis using assms(2,3) by (simp add: level_change_def set_queue_apply)
  next
    case False
    then have n: "(w', p') \<noteq> (w, p)" by simp
    have "linked (pq_entries q') w' p' c (qs w' p') = linked (pq_entries q) w' p' c (qs w' p')"
      by (rule linked_cong) (use e [OF n] in auto)
    moreover have "bit (m_available_priorities q' w' c) p' = bit (m_available_priorities q w' c) p'"
      using assms(2) False unfolding level_change_def by auto
    moreover have "\<not> p' < NumPriority \<Longrightarrow> qs w' p' = []" using assms(1) unfolding core_rep_def by metis
    ultimately show ?thesis using lk [of p' w'] False by (auto simp: set_queue_apply)
  qed
  moreover have "set (set_queue qs w p xs' w1 p1) \<inter> set (set_queue qs w p xs' w2 p2) = {}" if n: "(w1, p1) \<noteq> (w2, p2)" for w1 p1 w2 p2
    using disj [OF n] assms(4) [of w1 p1] assms(4) [of w2 p2] n by (auto simp: set_queue_apply)
  ultimately show ?thesis unfolding core_rep_def by blast
qed

lemma pq_rep_change:
  assumes "pq_rep q Q" and "c < NUM_CPU_CORES" and "level_change q w c p (Q c w p) xs' q'" and "p < NumPriority"
    and "\<And>w' p' m. (w', p') \<noteq> (w, p) \<Longrightarrow> m \<in> set xs' \<Longrightarrow> m \<notin> set (Q c w' p')"
  shows "pq_rep q' (Q(c := set_queue (Q c) w p xs'))"
  unfolding pq_rep_def
proof (intro allI)
  fix d
  have d: "if d < NUM_CPU_CORES then core_rep q d (Q d) else Q d = (\<lambda>_ _. [])" using assms(1) unfolding pq_rep_def by blast
  show "if d < NUM_CPU_CORES then core_rep q' d ((Q(c := set_queue (Q c) w p xs')) d)
      else (Q(c := set_queue (Q c) w p xs')) d = (\<lambda>_ _. [])"
  proof (cases "d = c")
    case True
    then have "core_rep q c (Q c)" using d assms(2) by simp
    then have "core_rep q' c (set_queue (Q c) w p xs')" using assms(3-5) by (rule core_rep_change)
    then show ?thesis using True assms(2) by simp
  next
    case False
    then show ?thesis using core_rep_other [OF _ assms(3) False] d by simp
  qed
qed

section \<open>The operations on one core\<close>

lemma set_available_bits:
  assumes "p < NumPriority"
  shows "bit (m_available_priorities (set_available q w c p on) w' c') p' \<longleftrightarrow>
    (if w' = w \<and> c' = c \<and> p' = p then on else bit (m_available_priorities q w' c') p')"
  using assms by (auto simp: set_available_def NumPriority_64 bit_set_bit_iff bit_unset_bit_iff)

lemma set_available_entries [simp]: "pq_entries (set_available q w c p on) = pq_entries q"
  by (simp add: set_available_def)

definition on_level :: "int \<Rightarrow> (nat list \<Rightarrow> nat list) \<Rightarrow> which_queue \<Rightarrow> core_queues \<Rightarrow> core_queues" where
  "on_level priority f w qs =
     (if priority \<le> LowestThreadPriority then set_queue qs w (nat priority) (f (qs w (nat priority))) else qs)"

lemma rep_level:
  assumes "pq_rep q Q" and "c < NUM_CPU_CORES" and "p < NumPriority"
  shows "linked (pq_entries q) w p c (Q c w p)" and "bit (m_available_priorities q w c) p \<longleftrightarrow> Q c w p \<noteq> []"
    and "(w, p) \<noteq> (w', p') \<Longrightarrow> set (Q c w p) \<inter> set (Q c w' p') = {}"
proof -
  have "core_rep q c (Q c)" using assms(1,2) unfolding pq_rep_def by metis
  then show "linked (pq_entries q) w p c (Q c w p)" "bit (m_available_priorities q w c) p \<longleftrightarrow> Q c w p \<noteq> []"
    "(w, p) \<noteq> (w', p') \<Longrightarrow> set (Q c w p) \<inter> set (Q c w' p') = {}"
    using assms(3) unfolding core_rep_def by metis+
qed

lemma valid_core: "IsValidCore (int c) \<longleftrightarrow> c < NUM_CPU_CORES"
  by (simp add: IsValidCore_def)

lemma priority_bound: "0 \<le> priority \<Longrightarrow> priority \<le> LowestThreadPriority \<Longrightarrow> nat priority < NumPriority"
  by (simp add: NumPriority_64 LowestThreadPriority_def)

lemma disjointD: "A \<inter> B = {} \<Longrightarrow> x \<in> A \<Longrightarrow> x \<notin> B"
  by blast

lemma push_change:
  assumes "pq_rep q Q" and "c < NUM_CPU_CORES" and "p < NumPriority" and "m \<notin> on_core (Q c)"
    and "linked es w p c xs'" and "first \<longleftrightarrow> Q c w p = []" and "set xs' = insert m (set (Q c w p))"
    and "\<And>r. r \<noteq> Root w p c \<Longrightarrow> r \<notin> (\<lambda>k. EntryOf k c) ` set (m # Q c w p) \<Longrightarrow> es r = pq_entries q r"
  shows "pq_rep (if first then set_available (q\<lparr>pq_entries := es\<rparr>) w c p True else q\<lparr>pq_entries := es\<rparr>)
    (Q(c := set_queue (Q c) w p xs'))"
proof (rule pq_rep_change [OF assms(1,2) _ assms(3)])
  note lv = rep_level [OF assms(1-3), of w]
  have ne: "xs' \<noteq> []" using assms(7) by auto
  have b: "bit (m_available_priorities (if first then set_available (q\<lparr>pq_entries := es\<rparr>) w c p True else q\<lparr>pq_entries := es\<rparr>) w' c') p'
      \<longleftrightarrow> (if w' = w \<and> c' = c \<and> p' = p then xs' \<noteq> [] else bit (m_available_priorities q w' c') p')" for w' c' p'
    using lv(2) ne assms(6) by (cases first) (simp_all add: set_available_bits [OF assms(3)])
  have un: "set (Q c w p) \<union> set xs' = set (m # Q c w p)" using assms(7) by auto
  have en: "pq_entries (if first then set_available (q\<lparr>pq_entries := es\<rparr>) w c p True else q\<lparr>pq_entries := es\<rparr>) = es"
    by (cases first) simp_all
  show "level_change q w c p (Q c w p) xs'
      (if first then set_available (q\<lparr>pq_entries := es\<rparr>) w c p True else q\<lparr>pq_entries := es\<rparr>)"
    unfolding level_change_def b un en using assms(5,8) by blast
  show "k \<notin> set (Q c w' p')" if n: "(w', p') \<noteq> (w, p)" and k: "k \<in> set xs'" for w' p' k
  proof -
    have m: "m \<notin> set (Q c w' p')" using assms(4) unfolding on_core_def by blast
    have "k = m \<or> k \<in> set (Q c w p)" using k unfolding assms(7) by simp
    then show ?thesis using m disjointD [OF lv(3) [OF n [symmetric]]] by metis
  qed
qed

lemma Impl_PushBack_rep:
  assumes "pq_rep q Q" and "c < NUM_CPU_CORES" and "0 \<le> priority" and "m \<notin> on_core (Q c)"
  shows "\<exists>q'. Impl_PushBack w priority (int c) m q = Some q' \<and>
    pq_rep q' (Q(c := on_level priority (\<lambda>xs. xs @ [m]) w (Q c)))"
proof (cases "priority \<le> LowestThreadPriority")
  case True
  let ?p = "nat priority"
  note p = priority_bound [OF assms(3) True]
  have n: "m \<notin> set (Q c w ?p)" using assms(4) unfolding on_core_def by blast
  obtain first es where e: "KPerCoreQueue_PushBack (pq_entries q) w ?p c m = (first, es)" by fastforce
  note l = PushBack_linked [OF rep_level(1) [OF assms(1,2) p] n, unfolded e fst_conv snd_conv]
  have "pq_rep (if first then set_available (q\<lparr>pq_entries := es\<rparr>) w c ?p True else q\<lparr>pq_entries := es\<rparr>)
      (Q(c := set_queue (Q c) w ?p (Q c w ?p @ [m])))"
    using assms(1,2) p assms(4) l(1,2) _ l(3) by (rule push_change) simp
  then show ?thesis using True assms(2,3) e by (cases first) (simp_all add: Impl_PushBack_def valid_core on_level_def Let_def)
qed (use assms in \<open>simp add: Impl_PushBack_def on_level_def\<close>)

lemma Impl_PushFront_rep:
  assumes "pq_rep q Q" and "c < NUM_CPU_CORES" and "0 \<le> priority" and "m \<notin> on_core (Q c)"
  shows "\<exists>q'. Impl_PushFront w priority (int c) m q = Some q' \<and>
    pq_rep q' (Q(c := on_level priority (\<lambda>xs. m # xs) w (Q c)))"
proof (cases "priority \<le> LowestThreadPriority")
  case True
  let ?p = "nat priority"
  note p = priority_bound [OF assms(3) True]
  have n: "m \<notin> set (Q c w ?p)" using assms(4) unfolding on_core_def by blast
  obtain first es where e: "KPerCoreQueue_PushFront (pq_entries q) w ?p c m = (first, es)" by fastforce
  note l = PushFront_linked [OF rep_level(1) [OF assms(1,2) p] n, unfolded e fst_conv snd_conv]
  have "pq_rep (if first then set_available (q\<lparr>pq_entries := es\<rparr>) w c ?p True else q\<lparr>pq_entries := es\<rparr>)
      (Q(c := set_queue (Q c) w ?p (m # Q c w ?p)))"
    using assms(1,2) p assms(4) l(1,2) _ l(3) by (rule push_change) simp
  then show ?thesis using True assms(2,3) e by (cases first) (simp_all add: Impl_PushFront_def valid_core on_level_def Let_def)
qed (use assms in \<open>simp add: Impl_PushFront_def on_level_def\<close>)

lemma Impl_Remove_rep:
  assumes "pq_rep q Q" and "c < NUM_CPU_CORES" and "0 \<le> priority"
    and "priority \<le> LowestThreadPriority \<Longrightarrow> m \<in> set (Q c w (nat priority))"
  shows "\<exists>q'. Impl_Remove w priority (int c) m q = Some q' \<and>
    pq_rep q' (Q(c := on_level priority (remove1 m) w (Q c)))"
proof (cases "priority \<le> LowestThreadPriority")
  case True
  let ?p = "nat priority" and ?xs = "Q c w (nat priority)"
  note p = priority_bound [OF assms(3) True]
  obtain e es where r: "KPerCoreQueue_Remove (pq_entries q) w ?p c m = (e, es)" by fastforce
  note lv = rep_level [OF assms(1,2) p, of w]
  note l = Remove_linked [OF lv(1) assms(4) [OF True], unfolded r fst_conv snd_conv]
  let ?q = "if e then set_available (q\<lparr>pq_entries := es\<rparr>) w c ?p False else q\<lparr>pq_entries := es\<rparr>"
  have ne: "?xs \<noteq> []" using assms(4) [OF True] by auto
  have b: "bit (m_available_priorities ?q w' c') p'
      \<longleftrightarrow> (if w' = w \<and> c' = c \<and> p' = ?p then remove1 m ?xs \<noteq> [] else bit (m_available_priorities q w' c') p')" for w' c' p'
    using lv(2) ne l(2) by (cases e) (simp_all add: set_available_bits [OF p])
  have sub: "set (remove1 m ?xs) \<subseteq> set ?xs" by (rule set_remove1_subset)
  then have un: "set ?xs \<union> set (remove1 m ?xs) = set ?xs" by blast
  have "pq_rep ?q (Q(c := set_queue (Q c) w ?p (remove1 m ?xs)))"
  proof (rule pq_rep_change [OF assms(1,2) _ p])
    have en: "pq_entries ?q = es" by (cases e) simp_all
    show "level_change q w c ?p ?xs (remove1 m ?xs) ?q" unfolding level_change_def b un en using l(1,3) by blast
    show "k \<notin> set (Q c w' p')" if "(w', p') \<noteq> (w, ?p)" "k \<in> set (remove1 m ?xs)" for w' p' k
      using disjointD [OF lv(3) [OF that(1) [symmetric]]] that(2) sub by (meson subsetD)
  qed
  then show ?thesis using True assms(2,3) r by (cases e) (simp_all add: Impl_Remove_def valid_core on_level_def Let_def)
qed (use assms in \<open>simp add: Impl_Remove_def on_level_def\<close>)

end
