(* ===== verification/Priority_Queue_Ops.thy ===== *)
theory Priority_Queue_Ops
  imports Priority_Queue
begin

text \<open>
  The operations of \<^verbatim>\<open>KPriorityQueue\<close> on all cores of a thread: loops over an affinity mask, the queues
  a thread belongs to (\<open>wants\<close>), pushing, removing and moving it, and the order in which a core runs its
  threads.
\<close>

section \<open>Loops over cores\<close>

lemma ClearAffinityBit_bits: "bit (ClearAffinityBit affinity (int c)) d \<longleftrightarrow> bit affinity d \<and> d \<noteq> c"
  using bit_imp_le_length [of affinity d]
  by (auto simp: ClearAffinityBit_def bit_and_iff bit_not_iff bit_exp_iff)

lemma GetNextCore_bits:
  assumes "affinity \<noteq> 0"
  obtains c where "GetNextCore affinity = (int c, ClearAffinityBit affinity (int c))" "bit affinity c"
    "\<forall>d. bit (ClearAffinityBit affinity (int c)) d \<longleftrightarrow> bit affinity d \<and> d \<noteq> c"
proof
  let ?c = "countr_zero affinity"
  show "GetNextCore affinity = (int ?c, ClearAffinityBit affinity (int ?c))" by (simp add: GetNextCore_def Let_def)
  show "bit affinity ?c" by (rule countr_zero(1) [OF assms])
  show "\<forall>d. bit (ClearAffinityBit affinity (int ?c)) d \<longleftrightarrow> bit affinity d \<and> d \<noteq> ?c"
    by (simp add: ClearAffinityBit_bits)
qed

text \<open>A loop that changes each core of the mask by \<open>g\<close>.\<close>

lemma affinity_loop_rep:
  assumes "\<And>q Q c. pq_rep q Q \<Longrightarrow> bit affinity c \<Longrightarrow> P c (Q c) \<Longrightarrow>
      \<exists>q'. f (int c) q = Some q' \<and> pq_rep q' (Q(c := g c (Q c)))"
    and "pq_rep q Q" and "\<And>c. bit affinity c \<Longrightarrow> P c (Q c)"
  shows "\<exists>q'. affinity_loop f affinity q = Some q' \<and> pq_rep q' (\<lambda>c. if bit affinity c then g c (Q c) else Q c)"
  using assms
proof (induction "unat affinity" arbitrary: affinity q Q rule: less_induct)
  case less
  show ?case
  proof (cases "affinity = 0")
    case True
    then show ?thesis using less.prems(2) by (simp add: affinity_loop.simps [of f 0])
  next
    case False
    obtain c where c: "GetNextCore affinity = (int c, ClearAffinityBit affinity (int c))" "bit affinity c"
      "\<forall>d. bit (ClearAffinityBit affinity (int c)) d \<longleftrightarrow> bit affinity d \<and> d \<noteq> c"
      using False by (rule GetNextCore_bits)
    let ?a = "ClearAffinityBit affinity (int c)"
    obtain q1 where q1: "f (int c) q = Some q1" "pq_rep q1 (Q(c := g c (Q c)))"
      using less.prems(1) [OF less.prems(2) c(2) less.prems(3) [OF c(2)]] by blast
    have lt: "unat ?a < unat affinity" using GetNextCore_less [OF False] c(1) by simp
    have "\<exists>q'. affinity_loop f ?a q1 = Some q' \<and>
        pq_rep q' (\<lambda>d. if bit ?a d then g d ((Q(c := g c (Q c))) d) else (Q(c := g c (Q c))) d)"
    proof (rule less.hyps [OF lt _ q1(2)])
      show "\<exists>q'. f (int d) r = Some q' \<and> pq_rep q' (R(d := g d (R d)))" if "pq_rep r R" "bit ?a d" "P d (R d)" for r R d
        using less.prems(1) that c(3) by blast
      show "P d ((Q(c := g c (Q c))) d)" if "bit ?a d" for d using less.prems(3) that c(3) by simp
    qed
    moreover have "(\<lambda>d. if bit ?a d then g d ((Q(c := g c (Q c))) d) else (Q(c := g c (Q c))) d)
        = (\<lambda>d. if bit affinity d then g d (Q d) else Q d)" using c(2,3) by (auto simp: fun_eq_iff)
    ultimately show ?thesis using False c(1) q1(1) by (simp add: affinity_loop.simps [of f affinity])
  qed
qed

lemma for_cores_rep:
  assumes "\<And>q Q c. pq_rep q Q \<Longrightarrow> c \<in> set cs \<Longrightarrow> P c (Q c) \<Longrightarrow>
      \<exists>q'. f (int c) q = Some q' \<and> pq_rep q' (Q(c := g c (Q c)))"
    and "pq_rep q Q" and "\<And>c. c \<in> set cs \<Longrightarrow> P c (Q c)" and "distinct cs"
  shows "\<exists>q'. for_cores f (map int cs) q = Some q' \<and> pq_rep q' (\<lambda>c. if c \<in> set cs then g c (Q c) else Q c)"
  using assms
proof (induction cs arbitrary: q Q)
  case (Cons c cs)
  have pc: "P c (Q c)" by (rule Cons.prems(3)) simp
  obtain q1 where q1: "f (int c) q = Some q1" "pq_rep q1 (Q(c := g c (Q c)))"
    using Cons.prems(1) [OF Cons.prems(2) list.set_intros(1) pc] by blast
  have "\<exists>q'. for_cores f (map int cs) q1 = Some q' \<and>
      pq_rep q' (\<lambda>d. if d \<in> set cs then g d ((Q(c := g c (Q c))) d) else (Q(c := g c (Q c))) d)"
  proof (rule Cons.IH [OF _ q1(2)])
    show "\<exists>q'. f (int d) r = Some q' \<and> pq_rep q' (R(d := g d (R d)))" if "pq_rep r R" "d \<in> set cs" "P d (R d)" for r R d
      using Cons.prems(1) [OF that(1) list.set_intros(2) [OF that(2)] that(3)] .
    show "P d ((Q(c := g c (Q c))) d)" if "d \<in> set cs" for d
      using Cons.prems(3) [OF list.set_intros(2) [OF that]] Cons.prems(4) that by (cases "d = c") simp_all
    show "distinct cs" using Cons.prems(4) by simp
  qed
  moreover have "(\<lambda>d. if d \<in> set cs then g d ((Q(c := g c (Q c))) d) else (Q(c := g c (Q c))) d)
      = (\<lambda>d. if d \<in> set (c # cs) then g d (Q d) else Q d)" using Cons.prems(4) by (auto simp: fun_eq_iff)
  ultimately show ?case using q1(1) by simp
qed simp

section \<open>Where a thread is queued\<close>

definition has_core :: "Member \<Rightarrow> nat \<Rightarrow> bool" where
  "has_core t c \<longleftrightarrow> bit (m_mask (mb_affinity t)) c"

definition queue_kind :: "Member \<Rightarrow> nat \<Rightarrow> which_queue option" where
  "queue_kind t c =
     (if mb_active_core t = int c then Some Scheduled else if has_core t c then Some Suggested else None)"

definition member_ok :: "Member \<Rightarrow> bool" where
  "member_ok t \<longleftrightarrow>
     \<not> mb_dummy t \<and> IsValidPriority (mb_priority t) \<and>
     (\<forall>c. has_core t c \<longrightarrow> c < NUM_CPU_CORES) \<and>
     - 1 \<le> mb_active_core t \<and> (0 \<le> mb_active_core t \<longrightarrow> has_core t (nat (mb_active_core t)))"

definition wants :: "Member \<Rightarrow> nat \<Rightarrow> which_queue \<Rightarrow> nat \<Rightarrow> bool" where
  "wants t c w p \<longleftrightarrow> queue_kind t c = Some w \<and> int p = mb_priority t \<and> mb_priority t \<le> LowestThreadPriority"

definition enqueued :: "Member \<Rightarrow> (nat \<Rightarrow> core_queues) \<Rightarrow> bool" where
  "enqueued t Q \<longleftrightarrow> (\<forall>c w p. mb_id t \<in> set (Q c w p) \<longleftrightarrow> wants t c w p)"

definition absent :: "nat \<Rightarrow> (nat \<Rightarrow> core_queues) \<Rightarrow> bool" where
  "absent m Q \<longleftrightarrow> (\<forall>c. m \<notin> on_core (Q c))"

definition enqueue_back :: "Member \<Rightarrow> (nat \<Rightarrow> core_queues) \<Rightarrow> nat \<Rightarrow> core_queues" where
  "enqueue_back t Q c w p = (if wants t c w p then Q c w p @ [mb_id t] else Q c w p)"

definition enqueue_front :: "Member \<Rightarrow> (nat \<Rightarrow> core_queues) \<Rightarrow> nat \<Rightarrow> core_queues" where
  "enqueue_front t Q c w p =
     (if wants t c w p then if w = Scheduled then mb_id t # Q c w p else Q c w p @ [mb_id t] else Q c w p)"

definition dequeue :: "nat \<Rightarrow> (nat \<Rightarrow> core_queues) \<Rightarrow> nat \<Rightarrow> core_queues" where
  "dequeue m Q c w p = remove1 m (Q c w p)"

lemma member_core: "member_ok t \<Longrightarrow> queue_kind t c = Some w \<Longrightarrow> c < NUM_CPU_CORES"
  by (auto simp: member_ok_def queue_kind_def split: if_splits)

lemma member_priority: "member_ok t \<Longrightarrow> 0 \<le> mb_priority t"
  by (simp add: member_ok_def IsValidPriority_def HighestThreadPriority_def)

text \<open>One core of the thread's queues, changed by \<open>f\<close>.\<close>

definition at_core :: "Member \<Rightarrow> (which_queue \<Rightarrow> nat list \<Rightarrow> nat list) \<Rightarrow> (nat \<Rightarrow> core_queues) \<Rightarrow> nat \<Rightarrow> core_queues" where
  "at_core t f Q c =
     (case queue_kind t c of Some w \<Rightarrow> on_level (mb_priority t) (f w) w (Q c) | None \<Rightarrow> Q c)"

lemma at_core_apply:
  assumes "0 \<le> mb_priority t"
  shows "at_core t f Q c w p = (if wants t c w p then f w (Q c w p) else Q c w p)"
  using assms by (auto simp: at_core_def on_level_def wants_def set_queue_apply split: option.split)

lemma at_core_specs:
  assumes "0 \<le> mb_priority t"
  shows "at_core t (\<lambda>w xs. xs @ [mb_id t]) Q = enqueue_back t Q"
    and "at_core t (\<lambda>w xs. if w = Scheduled then mb_id t # xs else xs @ [mb_id t]) Q = enqueue_front t Q"
  by (auto simp: fun_eq_iff at_core_apply [OF assms] enqueue_back_def enqueue_front_def)

lemma at_core_dequeue:
  assumes "0 \<le> mb_priority t" and "enqueued t Q"
  shows "at_core t (\<lambda>w. remove1 (mb_id t)) Q = dequeue (mb_id t) Q"
  using assms(2)
  by (auto simp: fun_eq_iff at_core_apply [OF assms(1)] dequeue_def enqueued_def remove1_idem)

section \<open>Pushing and removing a thread\<close>

lemma all_cores_rep:
  assumes "member_ok t" and "pq_rep q Q" and "\<And>c. P c (Q c)"
    and "\<And>q Q c w. pq_rep q Q \<Longrightarrow> queue_kind t c = Some w \<Longrightarrow> P c (Q c) \<Longrightarrow>
      \<exists>q'. F w (int c) q = Some q' \<and> pq_rep q' (Q(c := on_level (mb_priority t) (f w) w (Q c)))"
  shows "\<exists>q'. (if mb_active_core t \<ge> 0 then F Scheduled (mb_active_core t) q else Some q) \<bind>
      (\<lambda>q1. affinity_loop (F Suggested)
        (if mb_active_core t \<ge> 0 then ClearAffinityBit (m_mask (mb_affinity t)) (mb_active_core t)
         else m_mask (mb_affinity t)) q1) = Some q' \<and>
    pq_rep q' (at_core t f Q)"
proof -
  let ?a = "if mb_active_core t \<ge> 0 then ClearAffinityBit (m_mask (mb_affinity t)) (mb_active_core t)
         else m_mask (mb_affinity t)" and ?g = "\<lambda>w. on_level (mb_priority t) (f w) w"
  let ?Q = "\<lambda>c. if queue_kind t c = Some Scheduled then ?g Scheduled (Q c) else Q c"
  have bits: "bit ?a c \<longleftrightarrow> queue_kind t c = Some Suggested" for c
    using ClearAffinityBit_bits [of "m_mask (mb_affinity t)" "nat (mb_active_core t)" c]
    by (auto simp: queue_kind_def has_core_def)
  obtain q1 where q1: "(if mb_active_core t \<ge> 0 then F Scheduled (mb_active_core t) q else Some q) = Some q1" "pq_rep q1 ?Q"
  proof (cases "mb_active_core t \<ge> 0")
    case True
    then obtain c where c: "mb_active_core t = int c" by (metis nat_0_le)
    then have k: "queue_kind t d = Some Scheduled \<longleftrightarrow> d = c" for d by (auto simp: queue_kind_def)
    obtain q' where q': "F Scheduled (int c) q = Some q'" "pq_rep q' (Q(c := ?g Scheduled (Q c)))"
      using assms(4) [OF assms(2) _ assms(3)] k by blast
    have "(Q(c := ?g Scheduled (Q c))) = ?Q" by (auto simp: fun_eq_iff k)
    then show thesis using that q' True c by simp
  next
    case False
    then have "?Q = Q" by (auto simp: fun_eq_iff queue_kind_def)
    then show thesis using that False assms(2) by simp
  qed
  have "\<exists>q'. affinity_loop (F Suggested) ?a q1 = Some q' \<and> pq_rep q' (\<lambda>c. if bit ?a c then ?g Suggested (?Q c) else ?Q c)"
  proof (rule affinity_loop_rep [OF _ q1(2), where P = P])
    show "\<exists>q'. F Suggested (int c) r = Some q' \<and> pq_rep q' (R(c := ?g Suggested (R c)))"
      if "pq_rep r R" "bit ?a c" "P c (R c)" for r R c
      using assms(4) [OF that(1) _ that(3)] that(2) unfolding bits by blast
    show "P c (?Q c)" if "bit ?a c" for c using assms(3) [of c] that unfolding bits by simp
  qed
  moreover have "(\<lambda>c. if bit ?a c then ?g Suggested (?Q c) else ?Q c) = at_core t f Q"
    unfolding bits by (auto simp: fun_eq_iff at_core_def queue_kind_def)
  ultimately show ?thesis using q1(1) by simp
qed

lemma PushBack_at_rep:
  assumes "member_ok t" and "pq_rep q Q" and "absent (mb_id t) Q"
  shows "\<exists>q'. PushBack_at (mb_priority t) t q = Some q' \<and> pq_rep q' (enqueue_back t Q)"
proof -
  have "\<exists>q'. Impl_PushBack w (mb_priority t) (int c) (mb_id t) r = Some q' \<and>
      pq_rep q' (R(c := on_level (mb_priority t) (\<lambda>xs. xs @ [mb_id t]) w (R c)))"
    if "pq_rep r R" "queue_kind t c = Some w" "mb_id t \<notin> on_core (R c)" for r R c w
    using Impl_PushBack_rep [OF that(1) member_core [OF assms(1) that(2)] member_priority [OF assms(1)] that(3)] .
  from all_cores_rep [OF assms(1,2), where P = "\<lambda>c qs. mb_id t \<notin> on_core qs"
      and F = "\<lambda>w c. Impl_PushBack w (mb_priority t) c (mb_id t)" and f = "\<lambda>w xs. xs @ [mb_id t]", OF _ this]
  show ?thesis using assms(3)
    by (simp add: PushBack_at_def KAffinityMask_GetAffinityMask_def Let_def absent_def at_core_specs(1) [OF member_priority [OF assms(1)]])
qed

lemma PushFront_at_rep:
  assumes "member_ok t" and "pq_rep q Q" and "absent (mb_id t) Q"
  shows "\<exists>q'. PushFront_at (mb_priority t) t q = Some q' \<and> pq_rep q' (enqueue_front t Q)"
proof -
  let ?F = "\<lambda>w c. if w = Scheduled then Impl_PushFront Scheduled (mb_priority t) c (mb_id t)
      else Impl_PushBack Suggested (mb_priority t) c (mb_id t)"
  let ?f = "\<lambda>w xs. if w = Scheduled then mb_id t # xs else xs @ [mb_id t]"
  have "\<exists>q'. ?F w (int c) r = Some q' \<and> pq_rep q' (R(c := on_level (mb_priority t) (?f w) w (R c)))"
    if "pq_rep r R" "queue_kind t c = Some w" "mb_id t \<notin> on_core (R c)" for r R c w
    using Impl_PushBack_rep [OF that(1) member_core [OF assms(1) that(2)] member_priority [OF assms(1)] that(3), of w]
      Impl_PushFront_rep [OF that(1) member_core [OF assms(1) that(2)] member_priority [OF assms(1)] that(3), of w]
    by (cases w) simp_all
  from all_cores_rep [OF assms(1,2), where P = "\<lambda>c qs. mb_id t \<notin> on_core qs" and F = ?F and f = ?f, OF _ this]
  show ?thesis using assms(3)
    by (cases "0 \<le> mb_active_core t")
      (simp_all add: PushFront_at_def KAffinityMask_GetAffinityMask_def Let_def absent_def at_core_specs(2) [OF member_priority [OF assms(1)]])
qed

lemma Remove_at_rep:
  assumes "member_ok t" and "pq_rep q Q" and "enqueued t Q"
  shows "\<exists>q'. Remove_at (mb_priority t) t q = Some q' \<and> pq_rep q' (dequeue (mb_id t) Q)"
proof -
  let ?P = "\<lambda>c qs. \<forall>w. queue_kind t c = Some w \<and> mb_priority t \<le> LowestThreadPriority \<longrightarrow> mb_id t \<in> set (qs w (nat (mb_priority t)))"
  have "\<exists>q'. Impl_Remove w (mb_priority t) (int c) (mb_id t) r = Some q' \<and>
      pq_rep q' (R(c := on_level (mb_priority t) (remove1 (mb_id t)) w (R c)))"
    if "pq_rep r R" "queue_kind t c = Some w" "?P c (R c)" for r R c w
    using Impl_Remove_rep [OF that(1) member_core [OF assms(1) that(2)] member_priority [OF assms(1)]] that(2,3) by blast
  moreover have "?P c (Q c)" for c
    using assms(3) member_priority [OF assms(1)] by (simp add: enqueued_def wants_def)
  ultimately show ?thesis
    using all_cores_rep [OF assms(1,2), where P = ?P and F = "\<lambda>w c. Impl_Remove w (mb_priority t) c (mb_id t)"
        and f = "\<lambda>w. remove1 (mb_id t)"]
    by (simp add: Remove_at_def KAffinityMask_GetAffinityMask_def Let_def at_core_dequeue [OF member_priority [OF assms(1)] assms(3)])
qed

section \<open>Queues after the operations\<close>

lemma rep_distinct: "pq_rep q Q \<Longrightarrow> distinct (Q c w p)"
proof (cases "c < NUM_CPU_CORES \<and> p < NumPriority")
  case True
  assume "pq_rep q Q"
  then show ?thesis using rep_level(1) True unfolding linked_def by blast
next
  case False
  assume r: "pq_rep q Q"
  have "Q c w p = []"
  proof (cases "c < NUM_CPU_CORES")
    case True
    then have "core_rep q c (Q c)" using r unfolding pq_rep_def by metis
    then show ?thesis using False True unfolding core_rep_def by metis
  next
    case c: False
    then have "Q c = (\<lambda>_ _. [])" using r unfolding pq_rep_def by metis
    then show ?thesis by simp
  qed
  then show ?thesis by simp
qed

lemma dequeue_absent: "pq_rep q Q \<Longrightarrow> absent m (dequeue m Q)"
  using rep_distinct by (simp add: absent_def on_core_def dequeue_def)

lemma enqueue_enqueued:
  assumes "absent (mb_id t) Q"
  shows "enqueued t (enqueue_back t Q)" and "enqueued t (enqueue_front t Q)"
  using assms by (auto simp: enqueued_def absent_def on_core_def enqueue_back_def enqueue_front_def)

lemma set_dequeue: "pq_rep q Q \<Longrightarrow> set (dequeue m Q c w p) = set (Q c w p) - {m}"
  using rep_distinct by (simp add: dequeue_def)

lemma PushBack_rep:
  assumes "member_ok t" and "pq_rep q Q" and "absent (mb_id t) Q"
  shows "\<exists>q'. KPriorityQueue_PushBack t q = Some q' \<and> pq_rep q' (enqueue_back t Q)"
  using PushBack_at_rep [OF assms] assms(1) by (simp add: KPriorityQueue_PushBack_def member_ok_def)

lemma Remove_rep:
  assumes "member_ok t" and "pq_rep q Q" and "enqueued t Q"
  shows "\<exists>q'. KPriorityQueue_Remove t q = Some q' \<and> pq_rep q' (dequeue (mb_id t) Q)"
  using Remove_at_rep [OF assms] assms(1) by (simp add: KPriorityQueue_Remove_def member_ok_def)

lemma ChangePriority_rep:
  assumes "member_ok t" and "member_ok (t\<lparr>mb_priority := prev\<rparr>)" and "pq_rep q Q" and "enqueued (t\<lparr>mb_priority := prev\<rparr>) Q"
  shows "\<exists>q'. KPriorityQueue_ChangePriority prev running t q = Some q' \<and>
    pq_rep q' ((if running then enqueue_front t else enqueue_back t) (dequeue (mb_id t) Q))"
proof -
  have "Remove_at prev (t\<lparr>mb_priority := prev\<rparr>) q = Remove_at prev t q" by (simp add: Remove_at_def Let_def)
  then obtain q1 where q1: "Remove_at prev t q = Some q1" "pq_rep q1 (dequeue (mb_id t) Q)"
    using Remove_at_rep [OF assms(2-4)] by auto
  note a = dequeue_absent [OF assms(3), of "mb_id t"]
  have "\<not> mb_dummy t" using assms(1) by (simp add: member_ok_def)
  then show ?thesis
    using q1(1) PushFront_at_rep [OF assms(1) q1(2) a] PushBack_at_rep [OF assms(1) q1(2) a]
    by (simp add: KPriorityQueue_ChangePriority_def)
qed

lemma GetAffinity_bit: "0 \<le> core \<Longrightarrow> KAffinityMask_GetAffinity a core \<longleftrightarrow> bit (m_mask a) (nat core)"
  using bit_imp_le_length [of "m_mask a" "nat core"]
  by (auto simp: KAffinityMask_GetAffinity_def GetCoreBit_def and_exp_eq_0_iff_not_bit)

lemma affinity_kind:
  assumes "member_ok t"
  shows "queue_kind t c = (if KAffinityMask_GetAffinity (mb_affinity t) (int c)
    then Some (if int c = mb_active_core t then Scheduled else Suggested) else None)"
  using assms by (auto simp: queue_kind_def GetAffinity_bit has_core_def member_ok_def)

lemma core_list: "[0..int NUM_CPU_CORES - 1] = map int [0..<NUM_CPU_CORES]"
  by (simp add: NUM_CPU_CORES_def upto.simps upt_rec numeral_eq_Suc)

lemma for_all_cores_rep:
  assumes "member_ok t" and "pq_rep q Q" and "\<And>c. P c (Q c)"
    and "\<And>q Q c w. pq_rep q Q \<Longrightarrow> queue_kind t c = Some w \<Longrightarrow> P c (Q c) \<Longrightarrow>
      \<exists>q'. F w (int c) q = Some q' \<and> pq_rep q' (Q(c := on_level (mb_priority t) (f w) w (Q c)))"
  shows "\<exists>q'. for_cores (\<lambda>core q. if KAffinityMask_GetAffinity (mb_affinity t) core
       then if core = mb_active_core t then F Scheduled core q else F Suggested core q else Some q)
      [0..int NUM_CPU_CORES - 1] q = Some q' \<and>
    pq_rep q' (at_core t f Q)"
proof -
  let ?f = "\<lambda>core q. if KAffinityMask_GetAffinity (mb_affinity t) core
       then if core = mb_active_core t then F Scheduled core q else F Suggested core q else Some q"
  have "\<exists>q'. for_cores ?f (map int [0..<NUM_CPU_CORES]) q = Some q' \<and>
      pq_rep q' (\<lambda>c. if c \<in> set [0..<NUM_CPU_CORES] then at_core t f Q c else Q c)"
  proof (rule for_cores_rep [where P = "\<lambda>c qs. P c qs \<and> at_core t f (\<lambda>_. qs) c = at_core t f Q c"
        and g = "\<lambda>c qs. at_core t f Q c", OF _ assms(2)])
    fix r R c assume r: "pq_rep r R" and c: "P c (R c) \<and> at_core t f (\<lambda>_. R c) c = at_core t f Q c"
    show "\<exists>q'. ?f (int c) r = Some q' \<and> pq_rep q' (R(c := at_core t f Q c))"
    proof (cases "queue_kind t c")
      case None
      then have "at_core t f Q c = R c" using c by (simp add: at_core_def)
      moreover have "\<not> KAffinityMask_GetAffinity (mb_affinity t) (int c)"
        using None affinity_kind [OF assms(1), of c] by (simp split: if_splits)
      ultimately show ?thesis using r by (simp only: if_False fun_upd_triv) simp
    next
      case (Some w)
      then have "at_core t f Q c = on_level (mb_priority t) (f w) w (R c)" using c by (simp add: at_core_def)
      then show ?thesis using assms(4) [OF r Some conjunct1 [OF c]] Some affinity_kind [OF assms(1), of c] by (auto split: if_splits)
    qed
  qed (use assms(3) in \<open>simp_all add: at_core_def\<close>)
  moreover have "(\<lambda>c. if c \<in> set [0..<NUM_CPU_CORES] then at_core t f Q c else Q c) = at_core t f Q"
  proof
    fix c show "(if c \<in> set [0..<NUM_CPU_CORES] then at_core t f Q c else Q c) = at_core t f Q c"
      using member_core [OF assms(1), of c] by (cases "queue_kind t c") (auto simp: at_core_def)
  qed
  ultimately show ?thesis unfolding core_list by simp
qed

lemma ChangeAffinityMask_rep:
  assumes "member_ok t" and "member_ok (t\<lparr>mb_active_core := prev_core, mb_affinity := prev_affinity\<rparr>)" and "pq_rep q Q"
    and "enqueued (t\<lparr>mb_active_core := prev_core, mb_affinity := prev_affinity\<rparr>) Q"
  shows "\<exists>q'. KPriorityQueue_ChangeAffinityMask prev_core prev_affinity t q = Some q' \<and>
    pq_rep q' (enqueue_back t (dequeue (mb_id t) Q))"
proof -
  let ?t = "t\<lparr>mb_active_core := prev_core, mb_affinity := prev_affinity\<rparr>"
  let ?P = "\<lambda>c qs. \<forall>w. queue_kind ?t c = Some w \<and> mb_priority t \<le> LowestThreadPriority \<longrightarrow> mb_id t \<in> set (qs w (nat (mb_priority t)))"
  note pr = member_priority [OF assms(1)]
  have rm: "\<exists>q'. Impl_Remove w (mb_priority t) (int c) (mb_id t) r = Some q' \<and>
      pq_rep q' (R(c := on_level (mb_priority ?t) (remove1 (mb_id t)) w (R c)))"
    if "pq_rep r R" "queue_kind ?t c = Some w" "?P c (R c)" for r R c w
    using Impl_Remove_rep [OF that(1) member_core [OF assms(2) that(2)] pr] that(2,3) by simp
  have P: "?P c (Q c)" for c using assms(4) pr by (simp add: enqueued_def wants_def)
  have eqs: "mb_affinity ?t = prev_affinity" "mb_active_core ?t = prev_core" by simp_all
  have at: "at_core ?t (\<lambda>w. remove1 (mb_id t)) Q = dequeue (mb_id t) Q"
    using at_core_dequeue [OF _ assms(4)] pr by simp
  have "\<exists>q1. for_cores (\<lambda>core q. if KAffinityMask_GetAffinity prev_affinity core
       then if core = prev_core then Impl_Remove Scheduled (mb_priority t) core (mb_id t) q
         else Impl_Remove Suggested (mb_priority t) core (mb_id t) q else Some q)
      [0..int NUM_CPU_CORES - 1] q = Some q1 \<and> pq_rep q1 (dequeue (mb_id t) Q)"
    using for_all_cores_rep [OF assms(2,3), where P = ?P and F = "\<lambda>w c. Impl_Remove w (mb_priority t) c (mb_id t)"
        and f = "\<lambda>w. remove1 (mb_id t)", OF P rm] unfolding at eqs .
  then obtain q1 where q1: "for_cores (\<lambda>core q. if KAffinityMask_GetAffinity prev_affinity core
       then if core = prev_core then Impl_Remove Scheduled (mb_priority t) core (mb_id t) q
         else Impl_Remove Suggested (mb_priority t) core (mb_id t) q else Some q)
      [0..int NUM_CPU_CORES - 1] q = Some q1" "pq_rep q1 (dequeue (mb_id t) Q)" by blast
  have push: "\<exists>q'. Impl_PushBack w (mb_priority t) (int c) (mb_id t) r = Some q' \<and>
      pq_rep q' (R(c := on_level (mb_priority t) (\<lambda>xs. xs @ [mb_id t]) w (R c)))"
    if "pq_rep r R" "queue_kind t c = Some w" "mb_id t \<notin> on_core (R c)" for r R c w
    using Impl_PushBack_rep [OF that(1) member_core [OF assms(1) that(2)] pr that(3)] .
  have "mb_id t \<notin> on_core (dequeue (mb_id t) Q c)" for c using dequeue_absent [OF assms(3)] by (simp add: absent_def)
  from for_all_cores_rep [OF assms(1) q1(2), where P = "\<lambda>c qs. mb_id t \<notin> on_core qs"
      and F = "\<lambda>w c. Impl_PushBack w (mb_priority t) c (mb_id t)" and f = "\<lambda>w xs. xs @ [mb_id t]", OF this push]
  show ?thesis using q1(1) assms(1)
    by (simp add: KPriorityQueue_ChangeAffinityMask_def Let_def at_core_specs(1) [OF pr] member_ok_def)
qed

section \<open>Moving a thread to another core\<close>

definition change_core :: "Member \<Rightarrow> int \<Rightarrow> bool \<Rightarrow> (nat \<Rightarrow> core_queues) \<Rightarrow> nat \<Rightarrow> core_queues" where
  "change_core t prev_core to_front Q c =
     (if int c = prev_core \<or> int c = mb_active_core t
      then (if to_front then enqueue_front t else enqueue_back t) (dequeue (mb_id t) Q) c else Q c)"

lemma on_core_level:
  assumes "mb_priority t \<le> LowestThreadPriority \<Longrightarrow> mb_id t \<in> set (qs w (nat (mb_priority t)))"
    and "\<And>w' p. mb_id t \<in> set (qs w' p) \<Longrightarrow> w' = w \<and> p = nat (mb_priority t) \<and> mb_priority t \<le> LowestThreadPriority"
    and "\<And>w' p. distinct (qs w' p)"
  shows "on_level (mb_priority t) (remove1 (mb_id t)) w qs = (\<lambda>w p. remove1 (mb_id t) (qs w p))"
    and "mb_id t \<notin> on_core (\<lambda>w p. remove1 (mb_id t) (qs w p))"
proof -
  show "on_level (mb_priority t) (remove1 (mb_id t)) w qs = (\<lambda>w p. remove1 (mb_id t) (qs w p))"
  proof (intro ext)
    fix v p
    show "on_level (mb_priority t) (remove1 (mb_id t)) w qs v p = remove1 (mb_id t) (qs v p)"
    proof (cases "mb_id t \<in> set (qs v p)")
      case True
      then show ?thesis using assms(2) [OF True] by (simp add: on_level_def set_queue_apply)
    next
      case False
      then show ?thesis by (auto simp: on_level_def set_queue_apply remove1_idem)
    qed
  qed
  show "mb_id t \<notin> on_core (\<lambda>w p. remove1 (mb_id t) (qs w p))"
    using assms(3) by (simp add: on_core_def)
qed

lemma remove_from_core:
  assumes "member_ok t" and "pq_rep q Q" and "enqueued t' Q" and "mb_id t' = mb_id t" and "mb_priority t' = mb_priority t"
    and "queue_kind t' c = Some w" and "c < NUM_CPU_CORES"
    and "pq_rep r R" and "R c = Q c"
  shows "\<exists>r'. Impl_Remove w (mb_priority t) (int c) (mb_id t) r = Some r' \<and> pq_rep r' (R(c := dequeue (mb_id t) Q c))"
proof -
  note pr = member_priority [OF assms(1)]
  have mem: "mb_priority t \<le> LowestThreadPriority \<Longrightarrow> mb_id t \<in> set (Q c w (nat (mb_priority t)))"
    and only: "\<And>w' p. mb_id t \<in> set (Q c w' p) \<Longrightarrow> w' = w \<and> p = nat (mb_priority t) \<and> mb_priority t \<le> LowestThreadPriority"
    using assms(3-6) pr by (auto simp: enqueued_def wants_def)
  have "on_level (mb_priority t) (remove1 (mb_id t)) w (Q c) = (\<lambda>w p. remove1 (mb_id t) (Q c w p))"
    using mem only rep_distinct [OF assms(2)] by (rule on_core_level(1))
  then have "dequeue (mb_id t) Q c = on_level (mb_priority t) (remove1 (mb_id t)) w (R c)"
    unfolding assms(9) by (simp add: dequeue_def fun_eq_iff)
  then show ?thesis using Impl_Remove_rep [OF assms(8,7) pr, of "mb_id t" w] mem assms(9) by simp
qed

lemma push_on_core:
  assumes "member_ok t" and "queue_kind t c = Some w" and "pq_rep q Q" and "pq_rep r R" and "R c = dequeue (mb_id t) Q c"
  shows "\<exists>r'. Impl_PushBack w (mb_priority t) (int c) (mb_id t) r = Some r' \<and>
      pq_rep r' (R(c := enqueue_back t (dequeue (mb_id t) Q) c))"
    and "w = Scheduled \<Longrightarrow> \<exists>r'. Impl_PushFront w (mb_priority t) (int c) (mb_id t) r = Some r' \<and>
      pq_rep r' (R(c := enqueue_front t (dequeue (mb_id t) Q) c))"
proof -
  note pr = member_priority [OF assms(1)] and c = member_core [OF assms(1,2)]
  have a: "mb_id t \<notin> on_core (R c)" using dequeue_absent [OF assms(3)] assms(5) by (simp add: absent_def)
  let ?D = "dequeue (mb_id t) Q"
  have b: "on_level (mb_priority t) (\<lambda>xs. xs @ [mb_id t]) w (R c) = enqueue_back t ?D c"
    using fun_cong [OF at_core_specs(1) [OF pr, of ?D], of c] assms(2,5) by (simp add: at_core_def)
  show "\<exists>r'. Impl_PushBack w (mb_priority t) (int c) (mb_id t) r = Some r' \<and> pq_rep r' (R(c := enqueue_back t ?D c))"
    using Impl_PushBack_rep [OF assms(4) c pr a, of w] unfolding b .
  show "\<exists>r'. Impl_PushFront w (mb_priority t) (int c) (mb_id t) r = Some r' \<and> pq_rep r' (R(c := enqueue_front t ?D c))"
    if w: "w = Scheduled"
  proof -
    have "on_level (mb_priority t) (\<lambda>xs. mb_id t # xs) w (R c) = enqueue_front t ?D c"
      using fun_cong [OF at_core_specs(2) [OF pr, of ?D], of c] assms(2,5) w by (simp add: at_core_def)
    then show ?thesis using Impl_PushFront_rep [OF assms(4) c pr a, of w] by simp
  qed
qed

lemma enqueue_suggested:
  "queue_kind t c = Some Suggested \<Longrightarrow> enqueue_front t Q c = enqueue_back t Q c"
  by (auto simp: fun_eq_iff enqueue_front_def enqueue_back_def wants_def)

lemma ChangeCore_rep:
  assumes "member_ok t" and "member_ok (t\<lparr>mb_active_core := prev_core\<rparr>)" and "pq_rep q Q"
    and "enqueued (t\<lparr>mb_active_core := prev_core\<rparr>) Q" and "prev_core \<noteq> mb_active_core t"
  shows "\<exists>q'. KPriorityQueue_ChangeCore prev_core t to_front q = Some q' \<and> pq_rep q' (change_core t prev_core to_front Q)"
proof -
  let ?t = "t\<lparr>mb_active_core := prev_core\<rparr>" and ?D = "dequeue (mb_id t) Q" and ?n = "mb_active_core t"
  let ?E = "(if to_front then enqueue_front t else enqueue_back t) ?D"
  have sim: "mb_id ?t = mb_id t" "mb_priority ?t = mb_priority t" by simp_all
  note rm = remove_from_core [OF assms(1,3,4) sim]
  define Q1 where "Q1 = (if prev_core \<ge> 0 then Q(nat prev_core := ?D (nat prev_core)) else Q)"
  obtain q1 where q1: "(if prev_core \<ge> 0 then Impl_Remove Scheduled (mb_priority t) prev_core (mb_id t) q else Some q) = Some q1"
    "pq_rep q1 Q1"
  proof (cases "prev_core \<ge> 0")
    case True
    then have k: "queue_kind ?t (nat prev_core) = Some Scheduled" by (simp add: queue_kind_def)
    show thesis using rm [OF k member_core [OF assms(2) k] assms(3) refl] True that unfolding Q1_def by auto
  next
    case False
    then show thesis using that assms(3) by (simp add: Q1_def)
  qed
  define Q2 where "Q2 = (if ?n \<ge> 0 then Q1(nat ?n := ?E (nat ?n)) else Q1)"
  obtain q2 where q2: "(if ?n \<ge> 0
      then Impl_Remove Suggested (mb_priority t) ?n (mb_id t) q1 \<bind>
        (\<lambda>q1'. if to_front then Impl_PushFront Scheduled (mb_priority t) ?n (mb_id t) q1'
           else Impl_PushBack Scheduled (mb_priority t) ?n (mb_id t) q1')
      else Some q1) = Some q2" "pq_rep q2 Q2"
  proof (cases "?n \<ge> 0")
    case True
    have n: "int (nat ?n) = ?n" using True by simp
    have k: "queue_kind t (nat ?n) = Some Scheduled" using True by (simp add: queue_kind_def)
    have "has_core t (nat ?n)" using assms(1) True by (simp add: member_ok_def)
    then have k': "queue_kind ?t (nat ?n) = Some Suggested" using True assms(5) by (auto simp: queue_kind_def has_core_def)
    have Qn: "Q1 (nat ?n) = Q (nat ?n)" using assms(5) True by (auto simp: Q1_def)
    obtain r where r: "Impl_Remove Suggested (mb_priority t) ?n (mb_id t) q1 = Some r" "pq_rep r (Q1(nat ?n := ?D (nat ?n)))"
      using rm [OF k' member_core [OF assms(2) k'] q1(2) Qn] n by auto
    note push = push_on_core [OF assms(1) k assms(3) r(2), simplified]
    show thesis
    proof (cases to_front)
      case f: True
      obtain r' where "Impl_PushFront Scheduled (mb_priority t) ?n (mb_id t) r = Some r'"
        "pq_rep r' (Q1(nat ?n := enqueue_front t ?D (nat ?n)))" using push(2) n by auto
      then show thesis using r(1) True f by (intro that) (simp_all add: Q2_def)
    next
      case f: False
      obtain r' where "Impl_PushBack Scheduled (mb_priority t) ?n (mb_id t) r = Some r'"
        "pq_rep r' (Q1(nat ?n := enqueue_back t ?D (nat ?n)))" using push(1) n by auto
      then show thesis using r(1) True f by (intro that) (simp_all add: Q2_def)
    qed
  next
    case False
    then show thesis using that q1(2) by (simp add: Q2_def)
  qed
  have "\<exists>q3. (if prev_core \<ge> 0 then Impl_PushBack Suggested (mb_priority t) prev_core (mb_id t) q2 else Some q2) = Some q3 \<and>
      pq_rep q3 (change_core t prev_core to_front Q)"
  proof (cases "prev_core \<ge> 0")
    case True
    have "has_core t (nat prev_core)" using assms(2) True by (simp add: member_ok_def has_core_def)
    then have k: "queue_kind t (nat prev_core) = Some Suggested" using True assms(5) by (auto simp: queue_kind_def)
    have Qp: "Q2 (nat prev_core) = ?D (nat prev_core)" using True assms(5) by (auto simp: Q2_def Q1_def)
    have "Q2(nat prev_core := enqueue_back t ?D (nat prev_core)) = change_core t prev_core to_front Q"
      using True assms(5) enqueue_suggested [OF k] by (auto simp: fun_eq_iff Q2_def Q1_def change_core_def)
    then show ?thesis using push_on_core(1) [OF assms(1) k assms(3) q2(2) Qp] True by simp
  next
    case False
    then have "Q2 = change_core t prev_core to_front Q" by (auto simp: fun_eq_iff Q2_def Q1_def change_core_def)
    then show ?thesis using False q2(2) by simp
  qed
  moreover have "\<not> mb_dummy t" using assms(1) by (simp add: member_ok_def)
  ultimately show ?thesis using q1(1) q2(1) assms(5) by (simp add: KPriorityQueue_ChangeCore_def Let_def)
qed

lemma change_core_enqueued:
  assumes "pq_rep q Q" and "enqueued (t\<lparr>mb_active_core := prev_core\<rparr>) Q"
  shows "enqueued t (change_core t prev_core to_front Q)"
proof -
  note e = enqueue_enqueued [OF dequeue_absent [OF assms(1), of "mb_id t"]]
  have "mb_id t \<in> set (change_core t prev_core to_front Q c w p) \<longleftrightarrow> wants t c w p" for c w p
  proof (cases "int c = prev_core \<or> int c = mb_active_core t")
    case True
    then show ?thesis using e unfolding change_core_def enqueued_def by simp
  next
    case False
    then have "wants (t\<lparr>mb_active_core := prev_core\<rparr>) c w p = wants t c w p"
      by (auto simp: wants_def queue_kind_def has_core_def)
    then show ?thesis using assms(2) False by (simp add: change_core_def enqueued_def)
  qed
  then show ?thesis by (simp add: enqueued_def)
qed

lemma removeAll_enqueue:
  "removeAll (mb_id t) (enqueue_back t Q c w p) = removeAll (mb_id t) (Q c w p)"
  "removeAll (mb_id t) (enqueue_front t Q c w p) = removeAll (mb_id t) (Q c w p)"
  by (simp_all add: enqueue_back_def enqueue_front_def)

lemma removeAll_remove1: "removeAll m (remove1 m xs) = removeAll m xs"
  by (induction xs) auto

lemma removeAll_dequeue: "removeAll m (dequeue m Q c w p) = removeAll m (Q c w p)"
  by (simp add: dequeue_def removeAll_remove1)

lemma change_core_others: "removeAll (mb_id t) (change_core t prev_core to_front Q c w p) = removeAll (mb_id t) (Q c w p)"
  by (simp add: change_core_def removeAll_enqueue removeAll_dequeue)

section \<open>Rotating a queue\<close>

lemma move_change:
  assumes "pq_rep q Q" and "c < NUM_CPU_CORES" and "p < NumPriority" and "m \<in> set (Q c w p)"
    and "linked es' w p c xs'" and "set xs' = set (Q c w p)"
    and "\<And>r. r \<noteq> Root w p c \<Longrightarrow> r \<notin> (\<lambda>k. EntryOf k c) ` set (Q c w p) \<Longrightarrow> es' r = pq_entries q r"
  shows "pq_rep (q\<lparr>pq_entries := es'\<rparr>) (Q(c := set_queue (Q c) w p xs'))"
proof (rule pq_rep_change [OF assms(1,2) _ assms(3)])
  have "xs' \<noteq> []" using assms(4,6) by force
  moreover have "bit (m_available_priorities q w c) p" using rep_level(2) [OF assms(1-3)] assms(4) by force
  moreover have "set (Q c w p) \<union> set xs' = set (Q c w p)" using assms(6) by simp
  ultimately show "level_change q w c p (Q c w p) xs' (q\<lparr>pq_entries := es'\<rparr>)"
    using assms(5,7) by (simp add: level_change_def)
  show "k \<notin> set (Q c w' p')" if "(w', p') \<noteq> (w, p)" "k \<in> set xs'" for w' p' k
    using disjointD [OF rep_level(3) [OF assms(1-3) that(1) [symmetric]]] that(2) assms(6) by simp
qed

lemma rep_front:
  assumes "linked es w p c xs" shows "KPerCoreQueue_GetFront es w p c = hd_opt xs"
  using assms by (simp add: KPerCoreQueue_GetFront_def linked_def)

lemma MoveToBack_rep:
  assumes "pq_rep q Q" and "c < NUM_CPU_CORES" and "0 \<le> priority" and "priority \<le> LowestThreadPriority"
    and "m \<in> set (Q c w (nat priority))"
  defines "xs' \<equiv> remove1 m (Q c w (nat priority)) @ [m]"
  shows "\<exists>q'. Impl_MoveToBack w priority (int c) m q = Some (hd_opt xs', q') \<and>
    pq_rep q' (Q(c := set_queue (Q c) w (nat priority) xs'))"
proof -
  let ?p = "nat priority" and ?xs = "Q c w (nat priority)"
  note p = priority_bound [OF assms(3,4)]
  note d = rep_distinct [OF assms(1), of c w ?p]
  define es1 where "es1 = snd (KPerCoreQueue_Remove (pq_entries q) w ?p c m)"
  define es2 where "es2 = snd (KPerCoreQueue_PushBack es1 w ?p c m)"
  note r = Remove_linked [OF rep_level(1) [OF assms(1,2) p] assms(5), folded es1_def]
  have m: "m \<notin> set (remove1 m ?xs)" using d by simp
  note l = PushBack_linked [OF r(1) m, folded es2_def xs'_def]
  have s: "set xs' = set ?xs" using d assms(5) by (auto simp: xs'_def)
  have f: "es2 x = pq_entries q x" if "x \<noteq> Root w ?p c" "x \<notin> (\<lambda>k. EntryOf k c) ` set ?xs" for x
  proof -
    have "x \<notin> (\<lambda>k. EntryOf k c) ` set (m # remove1 m ?xs)" using that(2) assms(5) set_remove1_subset [of m ?xs] by auto
    then show ?thesis using l(3) [OF that(1)] r(3) [OF that] by simp
  qed
  have "Impl_MoveToBack w priority (int c) m q = Some (hd_opt xs', q\<lparr>pq_entries := es2\<rparr>)"
    using assms(2-4) rep_front [OF l(1)] by (simp add: Impl_MoveToBack_def valid_core Let_def es1_def [symmetric] es2_def [symmetric])
  moreover have "pq_rep (q\<lparr>pq_entries := es2\<rparr>) (Q(c := set_queue (Q c) w ?p xs'))"
    by (rule move_change [OF assms(1,2) p assms(5) l(1) s f])
  ultimately show ?thesis by blast
qed

lemma MoveToFront_rep:
  assumes "pq_rep q Q" and "c < NUM_CPU_CORES" and "0 \<le> priority" and "priority \<le> LowestThreadPriority"
    and "m \<in> set (Q c w (nat priority))"
  defines "xs' \<equiv> m # remove1 m (Q c w (nat priority))"
  shows "\<exists>q'. Impl_MoveToFront w priority (int c) m q = Some q' \<and>
    pq_rep q' (Q(c := set_queue (Q c) w (nat priority) xs'))"
proof -
  let ?p = "nat priority" and ?xs = "Q c w (nat priority)"
  note p = priority_bound [OF assms(3,4)]
  note d = rep_distinct [OF assms(1), of c w ?p]
  define es1 where "es1 = snd (KPerCoreQueue_Remove (pq_entries q) w ?p c m)"
  define es2 where "es2 = snd (KPerCoreQueue_PushFront es1 w ?p c m)"
  note r = Remove_linked [OF rep_level(1) [OF assms(1,2) p] assms(5), folded es1_def]
  have m: "m \<notin> set (remove1 m ?xs)" using d by simp
  note l = PushFront_linked [OF r(1) m, folded es2_def xs'_def]
  have s: "set xs' = set ?xs" using d assms(5) by (auto simp: xs'_def)
  have f: "es2 x = pq_entries q x" if "x \<noteq> Root w ?p c" "x \<notin> (\<lambda>k. EntryOf k c) ` set ?xs" for x
  proof -
    have "x \<notin> (\<lambda>k. EntryOf k c) ` set (m # remove1 m ?xs)" using that(2) assms(5) set_remove1_subset [of m ?xs] by auto
    then show ?thesis using l(3) [OF that(1)] r(3) [OF that] by (simp add: xs'_def)
  qed
  have "Impl_MoveToFront w priority (int c) m q = Some (q\<lparr>pq_entries := es2\<rparr>)"
    using assms(2-4) by (simp add: Impl_MoveToFront_def valid_core Let_def es1_def [symmetric] es2_def [symmetric])
  moreover have "pq_rep (q\<lparr>pq_entries := es2\<rparr>) (Q(c := set_queue (Q c) w ?p xs'))"
    by (rule move_change [OF assms(1,2) p assms(5) l(1) s f])
  ultimately show ?thesis by blast
qed

section \<open>The order of a core\<close>

text \<open>The threads of a core in the order they are to run: by priority, then first come first served.\<close>

definition run_order :: "core_queues \<Rightarrow> which_queue \<Rightarrow> nat \<Rightarrow> nat list" where
  "run_order qs w p = concat (map (qs w) [p..<NumPriority])"

lemma first_set_front:
  assumes "\<forall>p\<in>set ps. p < NumPriority \<and> (bit b p \<longleftrightarrow> f p \<noteq> [])"
  shows "hd_opt (concat (map f ps)) = (if first_set b ps < NumPriority then hd_opt (f (first_set b ps)) else None)"
  using assms
proof (induction ps)
  case (Cons p ps)
  then show ?case by (cases "f p = []") (simp_all add: hd_opt_def)
qed (simp add: hd_opt_def)

lemma front_rep:
  assumes "pq_rep q Q" and "c < NUM_CPU_CORES"
  shows "hd_opt (run_order (Q c) w p) =
    (let i = first_set (m_available_priorities q w c) [p..<NumPriority]
     in if int i \<le> LowestThreadPriority then KPerCoreQueue_GetFront (pq_entries q) w i c else None)"
proof -
  let ?i = "first_set (m_available_priorities q w c) [p..<NumPriority]"
  have "int ?i \<le> LowestThreadPriority \<longleftrightarrow> ?i < NumPriority" unfolding LowestThreadPriority_def NumPriority_64 by linarith
  moreover have "?i < NumPriority \<Longrightarrow> KPerCoreQueue_GetFront (pq_entries q) w ?i c = hd_opt (Q c w ?i)"
    using rep_level(1) [OF assms] by (rule rep_front)
  moreover have "\<forall>p\<in>set [p..<NumPriority]. p < NumPriority \<and> (bit (m_available_priorities q w c) p \<longleftrightarrow> Q c w p \<noteq> [])"
    using rep_level(2) [OF assms] by simp
  note first_set_front [OF this]
  ultimately show ?thesis by (simp add: run_order_def Let_def)
qed

lemma GetFront_rep:
  assumes "pq_rep q Q" and "c < NUM_CPU_CORES"
  shows "Impl_GetFront w (int c) q = Some (hd_opt (run_order (Q c) w 0))"
  unfolding front_rep [OF assms] using assms(2) by (simp add: Impl_GetFront_def valid_core Let_def)

lemma links_next: "links es c p (as @ m # bs) n \<Longrightarrow> e_next (es (EntryOf m c)) = (if bs = [] then n else Some (hd bs))"
  by (simp add: links_append)

lemma GetNext_rep:
  assumes "pq_rep q Q" and "c < NUM_CPU_CORES" and "p < NumPriority" and "Q c w p = as @ m # bs"
  shows "Impl_GetNext w (int c) m (int p) q = Some (hd_opt (bs @ run_order (Q c) w (Suc p)))"
proof -
  have "links (pq_entries q) c None (as @ m # bs) None"
    using rep_level(1) [OF assms(1-3), of w] assms(4) by (simp add: linked_def)
  then have n: "e_next (pq_entries q (EntryOf m c)) = hd_opt bs" by (simp add: links_next hd_opt_def)
  have "p < 2 ^ 64" using assms(3) by (simp add: NumPriority_64)
  then have "nat (int p mod 2 ^ 64) = p" by simp
  moreover have "add64 p 1 = Suc p" using assms(3) by (simp add: add64_eq NumPriority_64)
  ultimately show ?thesis
    using assms(2) front_rep [OF assms(1,2), of w "Suc p"] n
    by (cases bs) (simp_all add: Impl_GetNext_def valid_core Let_def GetNextSet_def hd_opt_def)
qed

section \<open>Theorems\<close>

text \<open>
  C9: the doubly linked queues implement lists.  Pushing a thread puts it at the end of exactly the
  queues its priority, active core and affinity call for, removing it takes it out of all of them, and
  changing its priority does one after the other, to the front of its own core when it is running.
  Every call has a result, all links and the bitmaps of nonempty queues stay right, and the other
  threads keep their places.
\<close>

theorem KPriorityQueue_refines_lists:
  assumes "member_ok t" and "pq_rep q Q"
  shows "(absent (mb_id t) Q \<longrightarrow>
      (\<exists>q'. KPriorityQueue_PushBack t q = Some q' \<and> pq_rep q' (enqueue_back t Q) \<and> enqueued t (enqueue_back t Q))) \<and>
    (enqueued t Q \<longrightarrow>
      (\<exists>q'. KPriorityQueue_Remove t q = Some q' \<and> pq_rep q' (dequeue (mb_id t) Q) \<and> absent (mb_id t) (dequeue (mb_id t) Q))) \<and>
    (\<forall>prev running. member_ok (t\<lparr>mb_priority := prev\<rparr>) \<and> enqueued (t\<lparr>mb_priority := prev\<rparr>) Q \<longrightarrow>
      (\<exists>q'. KPriorityQueue_ChangePriority prev running t q = Some q' \<and>
         pq_rep q' ((if running then enqueue_front t else enqueue_back t) (dequeue (mb_id t) Q)) \<and>
         enqueued t ((if running then enqueue_front t else enqueue_back t) (dequeue (mb_id t) Q))))"
proof (intro conjI allI impI)
  assume "absent (mb_id t) Q"
  then show "\<exists>q'. KPriorityQueue_PushBack t q = Some q' \<and> pq_rep q' (enqueue_back t Q) \<and> enqueued t (enqueue_back t Q)"
    using PushBack_rep [OF assms] enqueue_enqueued(1) by blast
next
  assume "enqueued t Q"
  then show "\<exists>q'. KPriorityQueue_Remove t q = Some q' \<and> pq_rep q' (dequeue (mb_id t) Q) \<and> absent (mb_id t) (dequeue (mb_id t) Q)"
    using Remove_rep [OF assms] dequeue_absent [OF assms(2)] by blast
next
  fix prev running
  assume "member_ok (t\<lparr>mb_priority := prev\<rparr>) \<and> enqueued (t\<lparr>mb_priority := prev\<rparr>) Q"
  then have "\<exists>q'. KPriorityQueue_ChangePriority prev running t q = Some q' \<and>
      pq_rep q' ((if running then enqueue_front t else enqueue_back t) (dequeue (mb_id t) Q))"
    using ChangePriority_rep [OF assms(1) _ assms(2)] by blast
  moreover have "enqueued t ((if running then enqueue_front t else enqueue_back t) (dequeue (mb_id t) Q))"
    using enqueue_enqueued [OF dequeue_absent [OF assms(2), of "mb_id t"]] by simp
  ultimately show "\<exists>q'. KPriorityQueue_ChangePriority prev running t q = Some q' \<and>
      pq_rep q' ((if running then enqueue_front t else enqueue_back t) (dequeue (mb_id t) Q)) \<and>
      enqueued t ((if running then enqueue_front t else enqueue_back t) (dequeue (mb_id t) Q))" by blast
qed

definition example_thread :: Member where
  "example_thread =
     \<lparr>mb_id = 7, mb_priority = 44, mb_active_core = 1, mb_affinity = \<lparr>m_mask = 6\<rparr>, mb_dummy = False\<rparr>"

definition example_queues :: "nat \<Rightarrow> core_queues" where
  "example_queues = enqueue_back example_thread (\<lambda>_ _ _. [])"

definition example_pq :: KPriorityQueue where
  "example_pq = the (KPriorityQueue_PushBack example_thread KPriorityQueue_new)"

lemma mask_6: "bit (6 :: u64) c \<longleftrightarrow> c = 1 \<or> c = 2"
proof -
  have "(6 :: u64) = set_bit 1 (set_bit 2 0)" by (simp add: set_bit_eq_or)
  then have "bit (6 :: u64) c \<longleftrightarrow> bit (set_bit 1 (set_bit 2 (0 :: u64))) c" by (rule arg_cong)
  also have "\<dots> \<longleftrightarrow> c = 1 \<or> c = 2" unfolding bit_set_bit_iff by auto
  finally show ?thesis .
qed

lemma has_core_6: "m_mask (mb_affinity t) = 6 \<Longrightarrow> has_core t c \<longleftrightarrow> c = 1 \<or> c = 2"
  unfolding has_core_def by (simp only: mask_6)

lemma example_thread_ok:
  "member_ok example_thread" "member_ok (example_thread\<lparr>mb_active_core := 2\<rparr>)" "member_ok (example_thread\<lparr>mb_priority := 20\<rparr>)"
  by (auto simp: member_ok_def example_thread_def IsValidPriority_def HighestThreadPriority_def LowestThreadPriority_def
      has_core_6 NUM_CPU_CORES_def)

lemma example_rep: "pq_rep example_pq example_queues" "enqueued example_thread example_queues"
proof -
  have a: "absent (mb_id example_thread) (\<lambda>_ _ _. [])" by (simp add: absent_def on_core_def)
  show "enqueued example_thread example_queues" unfolding example_queues_def by (rule enqueue_enqueued(1) [OF a])
  show "pq_rep example_pq example_queues"
    using PushBack_rep [OF example_thread_ok(1) new_rep a] by (auto simp: example_pq_def example_queues_def)
qed

theorem KPriorityQueue_refines_lists_witness:
  "\<exists>q'. KPriorityQueue_Remove example_thread example_pq = Some q' \<and>
    pq_rep q' (dequeue (mb_id example_thread) example_queues)"
  using KPriorityQueue_refines_lists [OF example_thread_ok(1) example_rep(1)] example_rep(2) by blast

text \<open>
  C17: migration.  When the affinity of a queued thread or the core it runs on has changed, the queue
  ends with the thread in exactly the queues its new affinity and core call for, and for every other
  thread nothing changes: leaving this thread out, every queue is the same list as before.
\<close>

theorem migration_correct:
  assumes "member_ok t" and "member_ok (t\<lparr>mb_active_core := prev_core, mb_affinity := prev_affinity\<rparr>)" and "pq_rep q Q"
    and "enqueued (t\<lparr>mb_active_core := prev_core, mb_affinity := prev_affinity\<rparr>) Q"
  shows "(\<exists>q' Q'. KPriorityQueue_ChangeAffinityMask prev_core prev_affinity t q = Some q' \<and> pq_rep q' Q' \<and> enqueued t Q' \<and>
      (\<forall>c w p. removeAll (mb_id t) (Q' c w p) = removeAll (mb_id t) (Q c w p))) \<and>
    (prev_affinity = mb_affinity t \<longrightarrow>
      (\<exists>q' Q'. KPriorityQueue_ChangeCore prev_core t to_front q = Some q' \<and> pq_rep q' Q' \<and> enqueued t Q' \<and>
        (\<forall>c w p. removeAll (mb_id t) (Q' c w p) = removeAll (mb_id t) (Q c w p))))"
proof (intro conjI impI)
  show "\<exists>q' Q'. KPriorityQueue_ChangeAffinityMask prev_core prev_affinity t q = Some q' \<and> pq_rep q' Q' \<and> enqueued t Q' \<and>
      (\<forall>c w p. removeAll (mb_id t) (Q' c w p) = removeAll (mb_id t) (Q c w p))"
    using ChangeAffinityMask_rep [OF assms] enqueue_enqueued(1) [OF dequeue_absent [OF assms(3), of "mb_id t"]]
      removeAll_enqueue(1) [of t "dequeue (mb_id t) Q"] removeAll_dequeue [of "mb_id t" Q] by metis
next
  assume "prev_affinity = mb_affinity t"
  then have t: "t\<lparr>mb_active_core := prev_core, mb_affinity := prev_affinity\<rparr> = t\<lparr>mb_active_core := prev_core\<rparr>" by simp
  show "\<exists>q' Q'. KPriorityQueue_ChangeCore prev_core t to_front q = Some q' \<and> pq_rep q' Q' \<and> enqueued t Q' \<and>
      (\<forall>c w p. removeAll (mb_id t) (Q' c w p) = removeAll (mb_id t) (Q c w p))"
  proof (cases "prev_core = mb_active_core t")
    case True
    then have "t\<lparr>mb_active_core := prev_core\<rparr> = t" by simp
    moreover have "KPriorityQueue_ChangeCore prev_core t to_front q = Some q" using True by (simp add: KPriorityQueue_ChangeCore_def Let_def)
    ultimately show ?thesis using assms(3,4) t by auto
  next
    case False
    show ?thesis
      using ChangeCore_rep [OF assms(1) _ assms(3) _ False] assms(2,4) change_core_enqueued [OF assms(3)] change_core_others
      unfolding t by metis
  qed
qed

theorem migration_correct_witness:
  "\<exists>q' Q'. KPriorityQueue_ChangeCore 1 (example_thread\<lparr>mb_active_core := 2\<rparr>) True example_pq = Some q' \<and>
    pq_rep q' Q' \<and> enqueued (example_thread\<lparr>mb_active_core := 2\<rparr>) Q'"
proof -
  have e: "example_thread\<lparr>mb_active_core := 2, mb_active_core := 1, mb_affinity := mb_affinity example_thread\<rparr> = example_thread"
    by (simp add: example_thread_def)
  show ?thesis
    using migration_correct [where t = "example_thread\<lparr>mb_active_core := 2\<rparr>" and prev_core = 1
          and prev_affinity = "mb_affinity example_thread" and q = example_pq and Q = example_queues and to_front = True]
      example_thread_ok(1,2) example_rep unfolding e by auto
qed

text \<open>
  C34: choosing a thread.  The front of a core is the first thread of its order (highest priority
  first, then first come first served), absent exactly when no thread is queued for the core; and the
  successor of a thread is the one that follows it in that order.  Moving a thread to the back of its
  queue makes it the last of its priority and answers who is first now.
\<close>

theorem run_order_correct:
  assumes "pq_rep q Q" and "c < NUM_CPU_CORES"
  shows "GetScheduledFront (int c) q = Some (hd_opt (run_order (Q c) Scheduled 0)) \<and>
    GetSuggestedFront (int c) q = Some (hd_opt (run_order (Q c) Suggested 0)) \<and>
    (\<forall>t as bs. \<not> mb_dummy t \<and> 0 \<le> mb_priority t \<and> mb_priority t \<le> LowestThreadPriority \<and>
       Q c Scheduled (nat (mb_priority t)) = as @ mb_id t # bs \<longrightarrow>
       GetScheduledNext (int c) t q = Some (hd_opt (bs @ run_order (Q c) Scheduled (Suc (nat (mb_priority t))))) \<and>
       (mb_active_core t = int c \<longrightarrow>
         (\<exists>q'. MoveToScheduledBack t q = Some (hd_opt (as @ bs @ [mb_id t]), q') \<and>
           pq_rep q' (Q(c := set_queue (Q c) Scheduled (nat (mb_priority t)) (as @ bs @ [mb_id t]))))))"
proof (intro conjI allI impI)
  fix t :: Member and as bs
  assume t: "\<not> mb_dummy t \<and> 0 \<le> mb_priority t \<and> mb_priority t \<le> LowestThreadPriority \<and>
       Q c Scheduled (nat (mb_priority t)) = as @ mb_id t # bs"
  then have p: "nat (mb_priority t) < NumPriority" "int (nat (mb_priority t)) = mb_priority t"
    using priority_bound by simp_all
  show "GetScheduledNext (int c) t q = Some (hd_opt (bs @ run_order (Q c) Scheduled (Suc (nat (mb_priority t)))))"
    using GetNext_rep [OF assms p(1), of Scheduled as "mb_id t" bs] t p(2) by (simp add: GetScheduledNext_def)
  assume a: "mb_active_core t = int c"
  have "distinct (as @ mb_id t # bs)" using rep_distinct [OF assms(1), of c Scheduled "nat (mb_priority t)"] t by simp
  then have r: "remove1 (mb_id t) (Q c Scheduled (nat (mb_priority t))) = as @ bs" using t by (simp add: remove1_append)
  show "\<exists>q'. MoveToScheduledBack t q = Some (hd_opt (as @ bs @ [mb_id t]), q') \<and>
      pq_rep q' (Q(c := set_queue (Q c) Scheduled (nat (mb_priority t)) (as @ bs @ [mb_id t])))"
    using MoveToBack_rep [OF assms, of "mb_priority t" "mb_id t" Scheduled] t a unfolding r
    by (simp add: MoveToScheduledBack_def)
qed (simp_all add: GetScheduledFront_def GetSuggestedFront_def GetFront_rep [OF assms])

theorem run_order_correct_witness:
  "GetScheduledFront 1 example_pq = Some (hd_opt (run_order (example_queues 1) Scheduled 0)) \<and>
   GetScheduledFront 3 example_pq = Some (hd_opt (run_order (example_queues 3) Scheduled 0))"
  using run_order_correct [OF example_rep(1), of 1] run_order_correct [OF example_rep(1), of 3] by (simp add: NUM_CPU_CORES_def)

end
