(* ===== verification/Scheduler.thy ===== *)
theory Scheduler
  imports Priority_Queue_Ops
begin

text \<open>
  The scheduler (\<^verbatim>\<open>k_scheduler.cpp\<close>, \<^verbatim>\<open>global_scheduler_context.cpp\<close>) over the priority queue.  The kernel state
  holds the threads, the processes, one scheduler per core and the global context with the queue; a pointer
  to a thread is its number, the null pointer \<open>None\<close>.  An operation that dereferences the null pointer or
  indexes out of range has the result \<open>None\<close>.  The scheduler lock is held throughout, so each operation is one
  state transformer.

  The loops that follow the links of a queue are \<open>partial_function\<close>s; they are shown to return by the locale
  \<open>queue_walk\<close>, of which each loop is an interpretation.  The invariant \<open>sched_ok\<close> ties the queues to the
  threads: a thread is queued exactly where its state, priority, core and affinity put it.
\<close>

section \<open>Threads, processes and schedulers\<close>

datatype ThreadType = Main_thread | Kernel_thread | HighPriority_thread | User_thread | Dummy_thread

datatype ThreadWaitReasonForDebugging =
  Reason_None | Reason_Sleep | Reason_IPC | Reason_Synchronization | Reason_ConditionVar | Reason_Arbitration | Reason_Suspended

definition ThreadState_Initialized :: u16 where "ThreadState_Initialized = 0"
definition ThreadState_Waiting :: u16 where "ThreadState_Waiting = 1"
definition ThreadState_Runnable :: u16 where "ThreadState_Runnable = 2"
definition ThreadState_Terminated :: u16 where "ThreadState_Terminated = 3"
definition SuspendShift :: nat where "SuspendShift = 4"
definition ThreadState_Mask :: u16 where "ThreadState_Mask = push_bit SuspendShift 1 - 1"

definition HighestCoreMigrationAllowedPriority :: int where "HighestCoreMigrationAllowedPriority = 2"

record KThread =
  m_priority :: int
  m_base_priority :: int
  m_core_id :: int
  m_physical_affinity_mask :: KAffinityMask
  m_physical_ideal_core_id :: int
  m_virtual_affinity_mask :: u64
  m_virtual_ideal_core_id :: int
  m_original_physical_affinity_mask :: KAffinityMask
  m_original_physical_ideal_core_id :: int
  m_num_core_migration_disables :: int
  m_is_pinned :: bool
  m_thread_type :: ThreadType
  m_thread_state :: u16
  m_suspend_request_flags :: u32
  m_suspend_allowed_flags :: u32
  m_termination_requested :: bool
  m_parent :: "nat option"
  m_last_scheduled_tick :: int
  m_num_kernel_waiters :: int
  m_yield_schedule_count :: int
  m_dummy_thread_runnable :: bool
  m_address_key :: nat
  m_is_kernel_address_key :: bool
  m_held_lock_info_list :: "nat list"
  m_waiting_lock_info :: "nat option"
  m_condvar_tree :: "nat option"
  m_condvar_key :: nat
  m_wait_reason_for_debugging :: ThreadWaitReasonForDebugging

record KProcess =
  p_schedule_count :: int
  m_pinned_threads :: "nat \<Rightarrow> nat option"
  m_running_threads :: "nat \<Rightarrow> nat option"
  m_running_thread_idle_counts :: "nat \<Rightarrow> u64"
  m_running_thread_switch_counts :: "nat \<Rightarrow> u64"

record KScheduler =
  s_core_id :: nat
  needs_scheduling :: bool
  interrupt_task_runnable :: bool
  should_count_idle :: bool
  idle_count :: u64
  highest_priority_thread :: "nat option"
  prev_thread :: "nat option"

record LockInfo =
  l_tree :: "nat list"
  l_address_key :: nat
  l_owner :: "nat option"
  l_waiter_count :: u32
  l_is_kernel_address_key :: bool

record KernelCore =
  threads :: "nat \<Rightarrow> KThread"
  processes :: "nat \<Rightarrow> KProcess"
  schedulers :: "nat \<Rightarrow> KScheduler"
  m_priority_queue :: KPriorityQueue
  m_scheduler_update_needed :: bool
  m_woken_dummy_threads :: "nat list"
  m_thread_list :: "nat list"
  current_thread :: nat
  clock_ticks :: int
  lock_infos :: "nat \<Rightarrow> LockInfo"
  lock_slab :: "nat list"
  condvar_trees :: "nat \<Rightarrow> nat list"

definition set_thread :: "nat \<Rightarrow> (KThread \<Rightarrow> KThread) \<Rightarrow> KernelCore \<Rightarrow> KernelCore" where
  "set_thread t f k = k\<lparr>threads := (threads k)(t := f (threads k t))\<rparr>"

definition set_process :: "nat \<Rightarrow> (KProcess \<Rightarrow> KProcess) \<Rightarrow> KernelCore \<Rightarrow> KernelCore" where
  "set_process p f k = k\<lparr>processes := (processes k)(p := f (processes k p))\<rparr>"

definition set_scheduler :: "nat \<Rightarrow> (KScheduler \<Rightarrow> KScheduler) \<Rightarrow> KernelCore \<Rightarrow> KernelCore" where
  "set_scheduler c f k = k\<lparr>schedulers := (schedulers k)(c := f (schedulers k c))\<rparr>"

text \<open>What the queue sees of a thread.\<close>

definition IsDummyThread :: "KThread \<Rightarrow> bool" where
  "IsDummyThread t \<longleftrightarrow> m_thread_type t = Dummy_thread"

definition member_of :: "KernelCore \<Rightarrow> nat \<Rightarrow> Member" where
  "member_of k t =
     \<lparr>mb_id = t, mb_priority = m_priority (threads k t), mb_active_core = m_core_id (threads k t),
      mb_affinity = m_physical_affinity_mask (threads k t), mb_dummy = IsDummyThread (threads k t)\<rparr>"

definition on_queue :: "(KPriorityQueue \<Rightarrow> KPriorityQueue option) \<Rightarrow> KernelCore \<Rightarrow> KernelCore option" where
  "on_queue f k = do { q \<leftarrow> f (m_priority_queue k); Some (k\<lparr>m_priority_queue := q\<rparr>) }"

definition SetActiveCore :: "nat \<Rightarrow> int \<Rightarrow> KernelCore \<Rightarrow> KernelCore" where
  "SetActiveCore t core k = set_thread t (m_core_id_update (\<lambda>_. core)) k"

definition SetYieldScheduleCount :: "nat \<Rightarrow> int \<Rightarrow> KernelCore \<Rightarrow> KernelCore" where
  "SetYieldScheduleCount t count k = set_thread t (m_yield_schedule_count_update (\<lambda>_. count)) k"

definition SetLastScheduledTick :: "nat \<Rightarrow> int \<Rightarrow> KernelCore \<Rightarrow> KernelCore" where
  "SetLastScheduledTick t tick k = set_thread t (m_last_scheduled_tick_update (\<lambda>_. tick)) k"

definition GetRawState :: "KernelCore \<Rightarrow> nat \<Rightarrow> u16" where
  "GetRawState k t = m_thread_state (threads k t)"

definition GetState :: "KernelCore \<Rightarrow> nat \<Rightarrow> u16" where
  "GetState k t = m_thread_state (threads k t) AND ThreadState_Mask"

definition KProcess_IncrementScheduledCount :: "KProcess \<Rightarrow> KProcess" where
  "KProcess_IncrementScheduledCount p = p\<lparr>p_schedule_count := p_schedule_count p + 1\<rparr>"

definition SetRunningThread :: "nat \<Rightarrow> nat option \<Rightarrow> u64 \<Rightarrow> u64 \<Rightarrow> KProcess \<Rightarrow> KProcess" where
  "SetRunningThread core thread idle switch p =
     p\<lparr>m_running_threads := (m_running_threads p)(core := thread),
       m_running_thread_idle_counts := (m_running_thread_idle_counts p)(core := idle),
       m_running_thread_switch_counts := (m_running_thread_switch_counts p)(core := switch)\<rparr>"

definition SetSchedulerUpdateNeeded :: "KernelCore \<Rightarrow> KernelCore" where
  "SetSchedulerUpdateNeeded k = k\<lparr>m_scheduler_update_needed := True\<rparr>"

definition ClearSchedulerUpdateNeeded :: "KernelCore \<Rightarrow> KernelCore" where
  "ClearSchedulerUpdateNeeded k = k\<lparr>m_scheduler_update_needed := False\<rparr>"

section \<open>The global context\<close>

definition AddThread :: "nat \<Rightarrow> KernelCore \<Rightarrow> KernelCore" where
  "AddThread thread k = k\<lparr>m_thread_list := m_thread_list k @ [thread]\<rparr>"

definition RemoveThread :: "nat \<Rightarrow> KernelCore \<Rightarrow> KernelCore option" where
  "RemoveThread thread k =
     (if thread \<in> set (m_thread_list k)
      then Some (k\<lparr>m_thread_list := remove1 thread (m_thread_list k)\<rparr>) else None)"

definition RegisterDummyThreadForWakeup :: "nat \<Rightarrow> KernelCore \<Rightarrow> KernelCore" where
  "RegisterDummyThreadForWakeup thread k = k\<lparr>m_woken_dummy_threads := m_woken_dummy_threads k @ [thread]\<rparr>"

text \<open>The last element takes the place of the first occurrence.\<close>

fun swap_remove :: "nat \<Rightarrow> nat \<Rightarrow> nat list \<Rightarrow> nat list" where
  "swap_remove x l [] = []"
| "swap_remove x l (y # ys) = (if y = x then l # ys else y # swap_remove x l ys)"

definition UnregisterDummyThreadForWakeup :: "nat \<Rightarrow> KernelCore \<Rightarrow> KernelCore" where
  "UnregisterDummyThreadForWakeup thread k =
     (let ts = m_woken_dummy_threads k
      in if thread \<in> set ts then k\<lparr>m_woken_dummy_threads := butlast (swap_remove thread (last ts) ts)\<rparr> else k)"

definition DummyThreadEndWait :: "nat \<Rightarrow> KernelCore \<Rightarrow> KernelCore" where
  "DummyThreadEndWait t k = set_thread t (m_dummy_thread_runnable_update (\<lambda>_. True)) k"

definition RequestDummyThreadWait :: "nat \<Rightarrow> KernelCore \<Rightarrow> KernelCore" where
  "RequestDummyThreadWait t k = set_thread t (m_dummy_thread_runnable_update (\<lambda>_. False)) k"

definition WakeupWaitingDummyThreads :: "KernelCore \<Rightarrow> KernelCore" where
  "WakeupWaitingDummyThreads k =
     (if m_woken_dummy_threads k \<noteq> []
      then (fold DummyThreadEndWait (m_woken_dummy_threads k) k)\<lparr>m_woken_dummy_threads := []\<rparr> else k)"

section \<open>Notifications\<close>

definition IncrementScheduledCount :: "nat \<Rightarrow> KernelCore \<Rightarrow> KernelCore" where
  "IncrementScheduledCount thread k =
     (case m_parent (threads k thread) of
        Some process \<Rightarrow> set_process process KProcess_IncrementScheduledCount k
      | None \<Rightarrow> k)"

definition ClearPreviousThread :: "nat \<Rightarrow> KernelCore \<Rightarrow> KernelCore" where
  "ClearPreviousThread thread k =
     fold (\<lambda>i. set_scheduler i (\<lambda>s. if prev_thread s = Some thread then s\<lparr>prev_thread := None\<rparr> else s))
       [0..<NUM_CPU_CORES] k"

definition OnThreadStateChanged :: "nat \<Rightarrow> u16 \<Rightarrow> KernelCore \<Rightarrow> KernelCore option" where
  "OnThreadStateChanged thread old_state k =
     (let cur_state = GetRawState k thread
      in if cur_state \<noteq> old_state
         then if old_state = ThreadState_Runnable
              then do {
                k1 \<leftarrow> on_queue (KPriorityQueue_Remove (member_of k thread)) k;
                let k2 = SetSchedulerUpdateNeeded (IncrementScheduledCount thread k1);
                Some (if IsDummyThread (threads k thread) then UnregisterDummyThreadForWakeup thread k2 else k2)
              }
              else if cur_state = ThreadState_Runnable
              then do {
                k1 \<leftarrow> on_queue (KPriorityQueue_PushBack (member_of k thread)) k;
                let k2 = SetSchedulerUpdateNeeded (IncrementScheduledCount thread k1);
                Some (if IsDummyThread (threads k thread) then RegisterDummyThreadForWakeup thread k2 else k2)
              }
              else Some k
         else Some k)"

definition OnThreadPriorityChanged :: "nat \<Rightarrow> int \<Rightarrow> KernelCore \<Rightarrow> KernelCore option" where
  "OnThreadPriorityChanged thread old_priority k =
     (if GetRawState k thread = ThreadState_Runnable
      then do {
        k1 \<leftarrow> on_queue (KPriorityQueue_ChangePriority old_priority (thread = current_thread k) (member_of k thread)) k;
        Some (SetSchedulerUpdateNeeded (IncrementScheduledCount thread k1))
      }
      else Some k)"

definition OnThreadAffinityMaskChanged ::
    "nat \<Rightarrow> KAffinityMask \<Rightarrow> int \<Rightarrow> KernelCore \<Rightarrow> KernelCore option" where
  "OnThreadAffinityMaskChanged thread old_affinity old_core k =
     (if GetRawState k thread = ThreadState_Runnable
      then do {
        k1 \<leftarrow> on_queue (KPriorityQueue_ChangeAffinityMask old_core old_affinity (member_of k thread)) k;
        Some (SetSchedulerUpdateNeeded (IncrementScheduledCount thread k1))
      }
      else Some k)"

section \<open>Rotating a queue\<close>

text \<open>\<^verbatim>\<open>SetActiveCore\<close> followed by \<^verbatim>\<open>ChangeCore\<close>, as in every migration.\<close>

definition migrate :: "int \<Rightarrow> nat \<Rightarrow> bool \<Rightarrow> KernelCore \<Rightarrow> KernelCore option" where
  "migrate core_id thread to_front k =
     (let prev_core = m_core_id (threads k thread);
          k1 = SetActiveCore thread core_id k
      in on_queue (KPriorityQueue_ChangeCore prev_core (member_of k1 thread) to_front) k1)"

definition top_on_core :: "int \<Rightarrow> KernelCore \<Rightarrow> nat option option" where
  "top_on_core core k = (if core \<ge> 0 then GetScheduledFront core (m_priority_queue k) else Some None)"

definition migration_allowed :: "nat option \<Rightarrow> KernelCore \<Rightarrow> bool" where
  "migration_allowed top_on k \<longleftrightarrow>
     (case top_on of None \<Rightarrow> True | Some t \<Rightarrow> m_priority (threads k t) \<ge> HighestCoreMigrationAllowedPriority)"

definition waited_longer :: "nat option \<Rightarrow> nat \<Rightarrow> KernelCore \<Rightarrow> bool" where
  "waited_longer next_thread suggested k \<longleftrightarrow>
     (case next_thread of None \<Rightarrow> False
      | Some n \<Rightarrow> m_last_scheduled_tick (threads k n) < m_last_scheduled_tick (threads k suggested))"

partial_function (option) rotate_same ::
    "int \<Rightarrow> nat option \<Rightarrow> nat option \<Rightarrow> nat option \<Rightarrow> KernelCore \<Rightarrow> KernelCore option" where
  "rotate_same core_id top_thread next_thread suggested k =
     (case suggested of None \<Rightarrow> Some k
      | Some s \<Rightarrow> do {
          top_on \<leftarrow> top_on_core (m_core_id (threads k s)) k;
          if top_on \<noteq> Some s \<and> top_thread \<noteq> next_thread \<and> waited_longer next_thread s k then Some k
          else if top_on \<noteq> Some s \<and> migration_allowed top_on k
          then do { k1 \<leftarrow> migrate core_id s True k; Some (IncrementScheduledCount s k1) }
          else do {
            n \<leftarrow> GetSamePriorityNext core_id (member_of k s) (m_priority_queue k);
            rotate_same core_id top_thread next_thread n k
          }
        })"

partial_function (option) rotate_better ::
    "int \<Rightarrow> nat \<Rightarrow> nat option \<Rightarrow> KernelCore \<Rightarrow> KernelCore option" where
  "rotate_better core_id best_thread suggested k =
     (case suggested of None \<Rightarrow> Some k
      | Some s \<Rightarrow>
          if m_priority (threads k s) \<ge> m_priority (threads k best_thread) then Some k
          else do {
            top_on \<leftarrow> top_on_core (m_core_id (threads k s)) k;
            if top_on \<noteq> Some s \<and> migration_allowed top_on k
            then do { k1 \<leftarrow> migrate core_id s True k; Some (IncrementScheduledCount s k1) }
            else do {
              n \<leftarrow> GetSuggestedNext core_id (member_of k s) (m_priority_queue k);
              rotate_better core_id best_thread n k
            }
          })"

definition rotate_front :: "int \<Rightarrow> int \<Rightarrow> KernelCore \<Rightarrow> (nat option \<times> nat option \<times> KernelCore) option" where
  "rotate_front core_id priority k = do {
     top_thread \<leftarrow> GetScheduledFront_priority core_id priority (m_priority_queue k);
     case top_thread of None \<Rightarrow> Some (None, None, k)
     | Some top_on \<Rightarrow> do {
         (next_thread, q) \<leftarrow> MoveToScheduledBack (member_of k top_on) (m_priority_queue k);
         let k1 = k\<lparr>m_priority_queue := q\<rparr>;
         if next_thread \<noteq> Some top_on
         then case next_thread of None \<Rightarrow> None
              | Some n \<Rightarrow> Some (top_thread, next_thread, IncrementScheduledCount n (IncrementScheduledCount top_on k1))
         else Some (top_thread, next_thread, k1)
       }
   }"

definition RotateScheduledQueue :: "int \<Rightarrow> int \<Rightarrow> KernelCore \<Rightarrow> KernelCore option" where
  "RotateScheduledQueue core_id priority k = do {
     (top_thread, next_thread, k1) \<leftarrow> rotate_front core_id priority k;
     suggested \<leftarrow> GetSuggestedFront_priority core_id priority (m_priority_queue k1);
     k2 \<leftarrow> rotate_same core_id top_thread next_thread suggested k1;
     front \<leftarrow> GetScheduledFront core_id (m_priority_queue k2);
     best_thread \<leftarrow> (if front = Some (current_thread k2)
       then GetScheduledNext core_id (member_of k2 (current_thread k2)) (m_priority_queue k2) else Some front);
     k3 \<leftarrow> (case best_thread of None \<Rightarrow> Some k2
       | Some best \<Rightarrow>
           if m_priority (threads k2 best) \<ge> priority
           then do {
             suggested \<leftarrow> GetSuggestedFront core_id (m_priority_queue k2);
             rotate_better core_id best suggested k2
           }
           else Some k2);
     Some (SetSchedulerUpdateNeeded k3)
   }"

definition preemption_priorities :: "int list" where
  "preemption_priorities = [59, 59, 59, 63]"

fun rotate_cores :: "(int \<times> int) list \<Rightarrow> KernelCore \<Rightarrow> KernelCore option" where
  "rotate_cores [] k = Some k"
| "rotate_cores ((core, priority) # cs) k = RotateScheduledQueue core priority k \<bind> rotate_cores cs"

definition PreemptThreads :: "KernelCore \<Rightarrow> KernelCore option" where
  "PreemptThreads k = rotate_cores (zip [0..int NUM_CPU_CORES - 1] preemption_priorities) k"

section \<open>Yielding\<close>

definition YieldWithoutCoreMigration :: "KernelCore \<Rightarrow> KernelCore option" where
  "YieldWithoutCoreMigration k = (
     let cur_thread = current_thread k
     in do {
       cur_process \<leftarrow> m_parent (threads k cur_thread);
       if m_yield_schedule_count (threads k cur_thread) = p_schedule_count (processes k cur_process) then Some k
       else if GetRawState k cur_thread = ThreadState_Runnable
       then do {
         (next_thread, q) \<leftarrow> MoveToScheduledBack (member_of k cur_thread) (m_priority_queue k);
         let k1 = IncrementScheduledCount cur_thread (k\<lparr>m_priority_queue := q\<rparr>);
         Some (if next_thread \<noteq> Some cur_thread then SetSchedulerUpdateNeeded k1
               else SetYieldScheduleCount cur_thread (p_schedule_count (processes k1 cur_process)) k1)
       }
       else Some k
     })"

definition running_on :: "int \<Rightarrow> KernelCore \<Rightarrow> nat option option" where
  "running_on core k =
     (if core \<ge> 0
      then if IsValidCore core then Some (highest_priority_thread (schedulers k (nat core))) else None
      else Some None)"

definition prefers_next :: "nat \<Rightarrow> nat option \<Rightarrow> nat \<Rightarrow> KernelCore \<Rightarrow> bool option" where
  "prefers_next cur_thread next_thread s k =
     (if m_priority (threads k s) > m_priority (threads k cur_thread) then Some True
      else if m_priority (threads k s) = m_priority (threads k cur_thread) \<and> next_thread \<noteq> Some cur_thread
      then (case next_thread of None \<Rightarrow> None
            | Some n \<Rightarrow> Some (m_last_scheduled_tick (threads k n) < m_last_scheduled_tick (threads k s)))
      else Some False)"

partial_function (option) yield_migrate ::
    "int \<Rightarrow> nat \<Rightarrow> nat option \<Rightarrow> bool \<Rightarrow> nat option \<Rightarrow> KernelCore \<Rightarrow> (nat option \<times> bool \<times> KernelCore) option" where
  "yield_migrate core_id cur_thread next_thread recheck suggested k =
     (case suggested of None \<Rightarrow> Some (None, recheck, k)
      | Some s \<Rightarrow> do {
          running \<leftarrow> running_on (m_core_id (threads k s)) k;
          if running \<noteq> Some s
          then do {
            prefer_next \<leftarrow> prefers_next cur_thread next_thread s k;
            if prefer_next then Some (None, recheck, k)
            else if migration_allowed running k
            then do { k1 \<leftarrow> migrate core_id s True k; Some (Some s, recheck, IncrementScheduledCount s k1) }
            else do {
              n \<leftarrow> GetSuggestedNext core_id (member_of k s) (m_priority_queue k);
              yield_migrate core_id cur_thread next_thread True n k
            }
          }
          else do {
            n \<leftarrow> GetSuggestedNext core_id (member_of k s) (m_priority_queue k);
            yield_migrate core_id cur_thread next_thread recheck n k
          }
        })"

definition YieldWithCoreMigration :: "KernelCore \<Rightarrow> KernelCore option" where
  "YieldWithCoreMigration k = (
     let cur_thread = current_thread k
     in do {
       cur_process \<leftarrow> m_parent (threads k cur_thread);
       if m_yield_schedule_count (threads k cur_thread) = p_schedule_count (processes k cur_process) then Some k
       else if GetRawState k cur_thread = ThreadState_Runnable
       then do {
         let core_id = m_core_id (threads k cur_thread);
         (next_thread, q) \<leftarrow> MoveToScheduledBack (member_of k cur_thread) (m_priority_queue k);
         let k1 = IncrementScheduledCount cur_thread (k\<lparr>m_priority_queue := q\<rparr>);
         front \<leftarrow> GetSuggestedFront core_id (m_priority_queue k1);
         (suggested, recheck, k2) \<leftarrow> yield_migrate core_id cur_thread next_thread False front k1;
         Some (if suggested \<noteq> None \<or> next_thread \<noteq> Some cur_thread then SetSchedulerUpdateNeeded k2
               else if \<not> recheck
               then SetYieldScheduleCount cur_thread (p_schedule_count (processes k2 cur_process)) k2
               else k2)
       }
       else Some k
     })"

partial_function (option) yield_any ::
    "int \<Rightarrow> nat option \<Rightarrow> KernelCore \<Rightarrow> (nat option \<times> KernelCore) option" where
  "yield_any core_id suggested k =
     (case suggested of None \<Rightarrow> Some (None, k)
      | Some s \<Rightarrow> do {
          top_on \<leftarrow> top_on_core (m_core_id (threads k s)) k;
          if top_on \<noteq> Some s
          then if migration_allowed top_on k
               then do { k1 \<leftarrow> migrate core_id s False k; Some (Some s, IncrementScheduledCount s k1) }
               else Some (Some s, k)
          else do {
            n \<leftarrow> GetSuggestedNext core_id (member_of k s) (m_priority_queue k);
            yield_any core_id n k
          }
        })"

definition YieldToAnyThread :: "KernelCore \<Rightarrow> KernelCore option" where
  "YieldToAnyThread k = (
     let cur_thread = current_thread k
     in do {
       cur_process \<leftarrow> m_parent (threads k cur_thread);
       if m_yield_schedule_count (threads k cur_thread) = p_schedule_count (processes k cur_process) then Some k
       else if GetRawState k cur_thread = ThreadState_Runnable
       then do {
         let core_id = m_core_id (threads k cur_thread);
         k1 \<leftarrow> migrate (- 1) cur_thread False k;
         let k2 = IncrementScheduledCount cur_thread k1;
         front \<leftarrow> GetScheduledFront core_id (m_priority_queue k2);
         if front = None
         then do {
           first \<leftarrow> GetSuggestedFront core_id (m_priority_queue k2);
           (suggested, k3) \<leftarrow> yield_any core_id first k2;
           Some (if suggested \<noteq> Some cur_thread then SetSchedulerUpdateNeeded k3
                 else SetYieldScheduleCount cur_thread (p_schedule_count (processes k3 cur_process)) k3)
         }
         else Some (SetSchedulerUpdateNeeded k2)
       }
       else Some k
     })"

section \<open>Choosing the threads to run\<close>

definition UpdateHighestPriorityThread :: "nat \<Rightarrow> nat option \<Rightarrow> KernelCore \<Rightarrow> u64 \<times> KernelCore" where
  "UpdateHighestPriorityThread core highest_thread k =
     (let prev_highest_thread = highest_priority_thread (schedulers k core);
          core_id = s_core_id (schedulers k core)
      in if prev_highest_thread \<noteq> highest_thread
         then
           let k1 = (case prev_highest_thread of
                       Some t \<Rightarrow> SetLastScheduledTick t (clock_ticks k) (IncrementScheduledCount t k)
                     | None \<Rightarrow> k);
               k2 = (if should_count_idle (schedulers k1 core)
                     then case highest_thread of
                            Some t \<Rightarrow>
                              (case m_parent (threads k1 t) of
                                 Some process \<Rightarrow>
                                   set_process process
                                     (SetRunningThread core_id highest_thread (idle_count (schedulers k1 core)) 0) k1
                               | None \<Rightarrow> k1)
                          | None \<Rightarrow> set_scheduler core (\<lambda>s. s\<lparr>idle_count := idle_count s + 1\<rparr>) k1
                     else k1)
           in (push_bit core_id 1,
               set_scheduler core (\<lambda>s. s\<lparr>highest_priority_thread := highest_thread, needs_scheduling := True\<rparr>) k2)
         else (0, k))"

definition GetPinnedThread :: "KernelCore \<Rightarrow> nat \<Rightarrow> nat \<Rightarrow> nat option" where
  "GetPinnedThread k process core = m_pinned_threads (processes k process) core"

text \<open>The thread to run on a core: the front of its queue, unless a pinned thread of the same process takes its place.\<close>

definition select_top :: "nat \<Rightarrow> KernelCore \<Rightarrow> (nat option \<times> bool) option" where
  "select_top core k = do {
     top_on \<leftarrow> GetScheduledFront (int core) (m_priority_queue k);
     Some (case top_on of
       None \<Rightarrow> (None, True)
     | Some top_thread \<Rightarrow>
         (case m_parent (threads k top_thread) of
            None \<Rightarrow> (top_on, False)
          | Some parent \<Rightarrow>
              (case GetPinnedThread k parent core of
                 None \<Rightarrow> (top_on, False)
               | Some pinned \<Rightarrow>
                   if pinned \<noteq> top_thread \<and> m_num_kernel_waiters (threads k top_thread) = 0
                   then if GetRawState k pinned = ThreadState_Runnable then (Some pinned, False) else (None, False)
                   else (top_on, False))))
   }"

type_synonym update_state = "u64 \<times> (nat \<Rightarrow> nat option) \<times> KernelCore"

text \<open>\<^verbatim>\<open>top_threads[core] = thread\<close> and the update of the core's scheduler that always follows.\<close>

definition set_top :: "nat \<Rightarrow> nat option \<Rightarrow> update_state \<Rightarrow> update_state" where
  "set_top core thread st =
     (case st of (cores_needing_scheduling, top_threads, k) \<Rightarrow>
        (case UpdateHighestPriorityThread core thread k of (needing, k') \<Rightarrow>
           (cores_needing_scheduling OR needing, top_threads(core := thread), k')))"

fun update_cores :: "nat list \<Rightarrow> u64 \<Rightarrow> update_state \<Rightarrow> (u64 \<times> update_state) option" where
  "update_cores [] idle_cores st = Some (idle_cores, st)"
| "update_cores (core # cores) idle_cores st = do {
     (top_thread, idle) \<leftarrow> select_top core (snd (snd st));
     update_cores cores (if idle then idle_cores OR push_bit core 1 else idle_cores) (set_top core top_thread st)
   }"

definition top_of :: "(nat \<Rightarrow> nat option) \<Rightarrow> int \<Rightarrow> nat option option" where
  "top_of top_threads core =
     (if core \<ge> 0 then if IsValidCore core then Some (top_threads (nat core)) else None else Some None)"

text \<open>Walks the suggestions of an idle core; the last component tells that the walk ended with the null pointer.\<close>

partial_function (option) migrate_suggested ::
    "nat \<Rightarrow> nat list \<Rightarrow> nat option \<Rightarrow> update_state \<Rightarrow> (update_state \<times> nat list \<times> bool) option" where
  "migrate_suggested core_id candidates suggested st =
     (case suggested of None \<Rightarrow> Some (st, candidates, True)
      | Some s \<Rightarrow> (case st of (needing, top_threads, k) \<Rightarrow> do {
          let suggested_core = m_core_id (threads k s);
          top_thread \<leftarrow> top_of top_threads suggested_core;
          if top_thread \<noteq> Some s
          then if \<not> migration_allowed top_thread k then Some (st, candidates, False)
               else do {
                 k1 \<leftarrow> migrate (int core_id) s False k;
                 Some (set_top core_id (Some s) (needing, top_threads, k1), candidates, False)
               }
          else if length candidates \<ge> NUM_CPU_CORES then None
          else do {
            n \<leftarrow> GetSuggestedNext (int core_id) (member_of k s) (m_priority_queue k);
            migrate_suggested core_id (candidates @ [nat suggested_core]) n st
          }
        }))"

fun migrate_candidates :: "nat \<Rightarrow> nat list \<Rightarrow> update_state \<Rightarrow> update_state option" where
  "migrate_candidates core_id [] st = Some st"
| "migrate_candidates core_id (candidate_core # cs) st =
     (case st of (needing, top_threads, k) \<Rightarrow>
        (case top_threads candidate_core of
           None \<Rightarrow> None
         | Some suggested \<Rightarrow> do {
             next_on \<leftarrow> GetScheduledNext (int candidate_core) (member_of k suggested) (m_priority_queue k);
             case next_on of
               None \<Rightarrow> migrate_candidates core_id cs st
             | Some n \<Rightarrow>
                 (case set_top candidate_core (Some n) st of (needing1, tops1, k1) \<Rightarrow> do {
                    k2 \<leftarrow> on_queue (KPriorityQueue_ChangeCore (int candidate_core)
                           (member_of (SetActiveCore suggested (int core_id) k1) suggested) False)
                           (SetActiveCore suggested (int core_id) k1);
                    Some (set_top core_id (Some suggested) (needing1, tops1, k2))
                  })
           }))"

definition fill_core :: "nat \<Rightarrow> update_state \<Rightarrow> update_state option" where
  "fill_core core_id st = do {
     front \<leftarrow> GetSuggestedFront (int core_id) (m_priority_queue (snd (snd st)));
     if front = None then Some st
     else do {
       (st1, candidates, failed) \<leftarrow> migrate_suggested core_id [] front st;
       if failed then migrate_candidates core_id candidates st1 else Some st1
     }
   }"

function fill_idle_cores :: "u64 \<Rightarrow> update_state \<Rightarrow> update_state option" where
  "fill_idle_cores idle_cores st =
     (if idle_cores = 0 then Some st
      else fill_core (countr_zero idle_cores) st \<bind> fill_idle_cores (snd (GetNextCore idle_cores)))"
  by pat_completeness auto
termination
  by (relation "measure (\<lambda>(idle_cores, st). unat idle_cores)") (simp_all add: GetNextCore_less)

declare fill_idle_cores.simps [simp del]

definition UpdateHighestPriorityThreadsImpl :: "KernelCore \<Rightarrow> (u64 \<times> KernelCore) option" where
  "UpdateHighestPriorityThreadsImpl k0 = do {
     (idle_cores, st) \<leftarrow> update_cores [0..<NUM_CPU_CORES] 0 (0, \<lambda>_. None, ClearSchedulerUpdateNeeded k0);
     (needing, top_threads, k) \<leftarrow> fill_idle_cores idle_cores st;
     let k1 = WakeupWaitingDummyThreads k;
     let cur_thread = current_thread k1;
     Some (needing,
       if IsDummyThread (threads k1 cur_thread) \<and> GetState k1 cur_thread \<noteq> ThreadState_Runnable
       then RequestDummyThreadWait cur_thread k1 else k1)
   }"

definition UpdateHighestPriorityThreads :: "KernelCore \<Rightarrow> (u64 \<times> KernelCore) option" where
  "UpdateHighestPriorityThreads k =
     (if m_scheduler_update_needed k then UpdateHighestPriorityThreadsImpl k else Some (0, k))"

section \<open>The invariant\<close>

text \<open>
  A thread belongs into the queues when it is runnable and not a dummy.  The invariant: the queues are well
  linked, and every thread is in exactly the queues its state, priority, core and affinity call for.
\<close>

definition queued :: "KernelCore \<Rightarrow> nat \<Rightarrow> bool" where
  "queued k t \<longleftrightarrow> GetRawState k t = ThreadState_Runnable \<and> \<not> IsDummyThread (threads k t)"

definition sched_ok :: "KernelCore \<Rightarrow> (nat \<Rightarrow> core_queues) \<Rightarrow> bool" where
  "sched_ok k Q \<longleftrightarrow>
     pq_rep (m_priority_queue k) Q \<and>
     (\<forall>t. if queued k t then member_ok (member_of k t) \<and> enqueued (member_of k t) Q else absent t Q)"

definition same_view :: "KernelCore \<Rightarrow> KernelCore \<Rightarrow> bool" where
  "same_view k k' \<longleftrightarrow> (\<forall>t. member_of k' t = member_of k t \<and> queued k' t = queued k t)"

definition others_kept :: "nat \<Rightarrow> (nat \<Rightarrow> core_queues) \<Rightarrow> (nat \<Rightarrow> core_queues) \<Rightarrow> bool" where
  "others_kept t Q Q' \<longleftrightarrow> (\<forall>c w p. removeAll t (Q' c w p) = removeAll t (Q c w p))"

lemma sched_okD:
  assumes "sched_ok k Q"
  shows "pq_rep (m_priority_queue k) Q"
    and "queued k t \<Longrightarrow> member_ok (member_of k t)" and "queued k t \<Longrightarrow> enqueued (member_of k t) Q"
    and "\<not> queued k t \<Longrightarrow> absent t Q"
proof -
  have a: "if queued k t then member_ok (member_of k t) \<and> enqueued (member_of k t) Q else absent t Q"
    using assms unfolding sched_ok_def by blast
  show "pq_rep (m_priority_queue k) Q" using assms by (simp add: sched_ok_def)
  show "queued k t \<Longrightarrow> member_ok (member_of k t)" "queued k t \<Longrightarrow> enqueued (member_of k t) Q" "\<not> queued k t \<Longrightarrow> absent t Q"
    using a by (simp_all split: if_splits)
qed

lemma sched_ok_view:
  assumes "same_view k k'" and "m_priority_queue k' = m_priority_queue k"
  shows "sched_ok k' Q \<longleftrightarrow> sched_ok k Q"
  using assms unfolding same_view_def sched_ok_def by simp

lemma others_kept_mem:
  assumes "others_kept t Q Q'" and "s \<noteq> t"
  shows "s \<in> set (Q' c w p) \<longleftrightarrow> s \<in> set (Q c w p)"
proof -
  have "s \<in> set (removeAll t (Q' c w p)) \<longleftrightarrow> s \<in> set (removeAll t (Q c w p))" using assms(1) by (simp add: others_kept_def)
  then show ?thesis using assms(2) by simp
qed

lemma sched_ok_change:
  assumes "sched_ok k Q" and "pq_rep (m_priority_queue k') Q'" and "others_kept t Q Q'"
    and "\<And>s. s \<noteq> t \<Longrightarrow> member_of k' s = member_of k s \<and> queued k' s = queued k s"
    and "queued k' t \<Longrightarrow> member_ok (member_of k' t) \<and> enqueued (member_of k' t) Q'"
    and "\<not> queued k' t \<Longrightarrow> absent t Q'"
  shows "sched_ok k' Q'"
proof -
  have "if queued k' s then member_ok (member_of k' s) \<and> enqueued (member_of k' s) Q' else absent s Q'" for s
  proof (cases "s = t")
    case True
    then show ?thesis using assms(5,6) by simp
  next
    case False
    have mem: "s \<in> set (Q' c w p) \<longleftrightarrow> s \<in> set (Q c w p)" for c w p by (rule others_kept_mem [OF assms(3) False])
    have "mb_id (member_of k s) = s" by (simp add: member_of_def)
    then have "enqueued (member_of k s) Q' = enqueued (member_of k s) Q" "absent s Q' = absent s Q"
      by (simp_all add: enqueued_def absent_def on_core_def mem)
    then show ?thesis using assms(4) [OF False] sched_okD(2-4) [OF assms(1), of s] by simp
  qed
  then show ?thesis using assms(2) by (simp add: sched_ok_def)
qed

section \<open>Updates the queues do not see\<close>

named_theorems kernel_simps

lemma set_simps [kernel_simps]:
  "threads (set_process p g k) = threads k" "threads (set_scheduler c h k) = threads k"
  "m_priority_queue (set_process p g k) = m_priority_queue k" "m_priority_queue (set_scheduler c h k) = m_priority_queue k"
  "m_priority_queue (set_thread t f k) = m_priority_queue k" "schedulers (set_thread t f k) = schedulers k"
  "schedulers (set_process p g k) = schedulers k" "current_thread (set_thread t f k) = current_thread k"
  "current_thread (set_process p g k) = current_thread k" "current_thread (set_scheduler c h k) = current_thread k"
  "threads (set_thread t f k) = (threads k)(t := f (threads k t))" "processes (set_thread t f k) = processes k"
  "processes (set_scheduler c h k) = processes k"
  by (simp_all add: set_process_def set_scheduler_def set_thread_def)

lemma IncrementScheduledCount_simps [kernel_simps]:
  "threads (IncrementScheduledCount t k) = threads k" "m_priority_queue (IncrementScheduledCount t k) = m_priority_queue k"
  "schedulers (IncrementScheduledCount t k) = schedulers k" "current_thread (IncrementScheduledCount t k) = current_thread k"
  by (simp_all add: IncrementScheduledCount_def kernel_simps split: option.split)

lemma update_needed_simps [kernel_simps]:
  "threads (SetSchedulerUpdateNeeded k) = threads k" "m_priority_queue (SetSchedulerUpdateNeeded k) = m_priority_queue k"
  "schedulers (SetSchedulerUpdateNeeded k) = schedulers k" "current_thread (SetSchedulerUpdateNeeded k) = current_thread k"
  "threads (ClearSchedulerUpdateNeeded k) = threads k" "m_priority_queue (ClearSchedulerUpdateNeeded k) = m_priority_queue k"
  "schedulers (ClearSchedulerUpdateNeeded k) = schedulers k" "current_thread (ClearSchedulerUpdateNeeded k) = current_thread k"
  "m_scheduler_update_needed (SetSchedulerUpdateNeeded k)"
  by (simp_all add: SetSchedulerUpdateNeeded_def ClearSchedulerUpdateNeeded_def)

lemma dummy_simps [kernel_simps]:
  "threads (RegisterDummyThreadForWakeup t k) = threads k" "m_priority_queue (RegisterDummyThreadForWakeup t k) = m_priority_queue k"
  "schedulers (RegisterDummyThreadForWakeup t k) = schedulers k"
  "m_scheduler_update_needed (RegisterDummyThreadForWakeup t k) = m_scheduler_update_needed k"
  "threads (UnregisterDummyThreadForWakeup t k) = threads k" "m_priority_queue (UnregisterDummyThreadForWakeup t k) = m_priority_queue k"
  "schedulers (UnregisterDummyThreadForWakeup t k) = schedulers k"
  "m_scheduler_update_needed (UnregisterDummyThreadForWakeup t k) = m_scheduler_update_needed k"
  by (simp_all add: RegisterDummyThreadForWakeup_def UnregisterDummyThreadForWakeup_def Let_def)

lemma same_view_threads: "threads k' = threads k \<Longrightarrow> same_view k k'"
  by (simp add: same_view_def member_of_def queued_def GetRawState_def)

lemma same_view_set:
  assumes "f (threads k t) = (threads k t)\<lparr>m_last_scheduled_tick := tick, m_yield_schedule_count := n, m_dummy_thread_runnable := b\<rparr>"
  shows "same_view k (set_thread t f k)"
  using assms by (simp add: same_view_def member_of_def queued_def GetRawState_def IsDummyThread_def kernel_simps)

lemma same_view_SetYieldScheduleCount: "same_view k (SetYieldScheduleCount t n k)"
  unfolding SetYieldScheduleCount_def by (rule same_view_set [where tick = "m_last_scheduled_tick (threads k t)"
      and n = n and b = "m_dummy_thread_runnable (threads k t)"]) simp

lemma same_view_SetLastScheduledTick: "same_view k (SetLastScheduledTick t tick k)"
  unfolding SetLastScheduledTick_def by (rule same_view_set [where tick = tick
      and n = "m_yield_schedule_count (threads k t)" and b = "m_dummy_thread_runnable (threads k t)"]) simp

lemma same_view_DummyThread: "same_view k (DummyThreadEndWait t k)" "same_view k (RequestDummyThreadWait t k)"
  unfolding DummyThreadEndWait_def RequestDummyThreadWait_def
  by (rule same_view_set [where tick = "m_last_scheduled_tick (threads k t)" and n = "m_yield_schedule_count (threads k t)"]; simp)+

lemma same_view_trans: "same_view k k1 \<Longrightarrow> same_view k1 k2 \<Longrightarrow> same_view k k2"
  by (simp add: same_view_def)

lemma sched_ok_simps [simp]:
  "sched_ok (IncrementScheduledCount t k) Q = sched_ok k Q" "sched_ok (SetSchedulerUpdateNeeded k) Q = sched_ok k Q"
  "sched_ok (ClearSchedulerUpdateNeeded k) Q = sched_ok k Q" "sched_ok (SetYieldScheduleCount t n k) Q = sched_ok k Q"
  "sched_ok (SetLastScheduledTick t tick k) Q = sched_ok k Q" "sched_ok (RegisterDummyThreadForWakeup t k) Q = sched_ok k Q"
  "sched_ok (UnregisterDummyThreadForWakeup t k) Q = sched_ok k Q" "sched_ok (set_process p g k) Q = sched_ok k Q"
  "sched_ok (set_scheduler c h k) Q = sched_ok k Q" "sched_ok (DummyThreadEndWait t k) Q = sched_ok k Q"
  "sched_ok (RequestDummyThreadWait t k) Q = sched_ok k Q"
  by (rule sched_ok_view;
      simp add: kernel_simps same_view_threads same_view_SetYieldScheduleCount same_view_SetLastScheduledTick
        same_view_DummyThread SetYieldScheduleCount_def [THEN arg_cong [where f = m_priority_queue]]
        SetLastScheduledTick_def [THEN arg_cong [where f = m_priority_queue]]
        DummyThreadEndWait_def [THEN arg_cong [where f = m_priority_queue]]
        RequestDummyThreadWait_def [THEN arg_cong [where f = m_priority_queue]])+

section \<open>Notifications keep the invariant\<close>

lemma member_of_simps [simp]:
  "mb_id (member_of k t) = t" "mb_priority (member_of k t) = m_priority (threads k t)"
  "mb_active_core (member_of k t) = m_core_id (threads k t)" "mb_dummy (member_of k t) = IsDummyThread (threads k t)"
  "mb_affinity (member_of k t) = m_physical_affinity_mask (threads k t)"
  by (simp_all add: member_of_def)

lemma on_queue_Some: "f (m_priority_queue k) = Some q \<Longrightarrow> on_queue f k = Some (k\<lparr>m_priority_queue := q\<rparr>)"
  by (simp add: on_queue_def)

lemma view_queue [simp]:
  "member_of (k\<lparr>m_priority_queue := q\<rparr>) t = member_of k t" "queued (k\<lparr>m_priority_queue := q\<rparr>) t = queued k t"
  "GetRawState (k\<lparr>m_priority_queue := q\<rparr>) t = GetRawState k t"
  by (simp_all add: member_of_def queued_def GetRawState_def)

lemma others_kept_ops:
  "others_kept t Q (dequeue t Q)" "mb_id m = t \<Longrightarrow> others_kept t Q (enqueue_back m Q)"
  "mb_id m = t \<Longrightarrow> others_kept t Q (enqueue_front m Q)" "others_kept t Q Q"
  "mb_id m = t \<Longrightarrow> others_kept t Q (change_core m prev_core to_front Q)"
  using removeAll_enqueue [of m] change_core_others [of m] by (auto simp: others_kept_def removeAll_dequeue)

lemma others_kept_trans: "others_kept t Q Q1 \<Longrightarrow> others_kept t Q1 Q2 \<Longrightarrow> others_kept t Q Q2"
  by (simp add: others_kept_def)

lemma queued_iff: "queued k t \<longleftrightarrow> GetRawState k t = ThreadState_Runnable \<and> \<not> mb_dummy (member_of k t)"
  by (simp add: queued_def)

lemma OnThreadStateChanged_ok:
  assumes "sched_ok k Q" and "\<And>s. member_of k1 s = member_of k s"
    and "\<And>s. s \<noteq> t \<Longrightarrow> GetRawState k1 s = GetRawState k s"
    and "m_priority_queue k1 = m_priority_queue k" and "queued k1 t \<Longrightarrow> member_ok (member_of k t)"
  shows "\<exists>k' Q'. OnThreadStateChanged t (GetRawState k t) k1 = Some k' \<and> sched_ok k' Q' \<and> others_kept t Q Q' \<and>
    threads k' = threads k1 \<and> (queued k1 t \<noteq> queued k t \<longrightarrow> m_scheduler_update_needed k')"
proof -
  have d: "IsDummyThread (threads k1 s) = IsDummyThread (threads k s)" for s
    using arg_cong [OF assms(2) [of s], of mb_dummy] by simp
  have others: "member_of k1 s = member_of k s \<and> queued k1 s = queued k s" if "s \<noteq> t" for s
    using assms(2,3) that d by (simp add: queued_def)
  note rep = sched_okD(1) [OF assms(1)]
  have same: "sched_ok k1 Q" if "queued k1 t = queued k t"
  proof (rule sched_ok_change [OF assms(1), where t = t])
    show "pq_rep (m_priority_queue k1) Q" using rep assms(4) by simp
    show "queued k1 t \<Longrightarrow> member_ok (member_of k1 t) \<and> enqueued (member_of k1 t) Q" "\<not> queued k1 t \<Longrightarrow> absent t Q"
      using sched_okD(2-4) [OF assms(1), of t] that assms(2) by simp_all
  qed (use others in \<open>simp_all add: others_kept_ops\<close>)
  let ?done = "\<lambda>k2 Q2. OnThreadStateChanged t (GetRawState k t) k1 = Some k2 \<and> sched_ok k2 Q2 \<and> others_kept t Q Q2 \<and>
    threads k2 = threads k1 \<and> (queued k1 t \<noteq> queued k t \<longrightarrow> m_scheduler_update_needed k2)"
  consider (same) "GetRawState k1 t = GetRawState k t \<or> GetRawState k t \<noteq> ThreadState_Runnable \<and> GetRawState k1 t \<noteq> ThreadState_Runnable"
    | (dummy) "IsDummyThread (threads k1 t)" "GetRawState k1 t \<noteq> GetRawState k t"
    | (leave) "\<not> IsDummyThread (threads k1 t)" "GetRawState k t = ThreadState_Runnable" "GetRawState k1 t \<noteq> ThreadState_Runnable"
    | (enter) "\<not> IsDummyThread (threads k1 t)" "GetRawState k t \<noteq> ThreadState_Runnable" "GetRawState k1 t = ThreadState_Runnable"
    by metis
  then show ?thesis
  proof cases
    case same
    then have "queued k1 t = queued k t" using d by (auto simp: queued_def)
    moreover have "OnThreadStateChanged t (GetRawState k t) k1 = Some k1" using same by (auto simp: OnThreadStateChanged_def Let_def)
    ultimately have "?done k1 Q" using same_view_def \<open>queued k1 t = queued k t \<Longrightarrow> sched_ok k1 Q\<close> others_kept_ops(4) by simp
    then show ?thesis by blast
  next
    case dummy
    then have q: "queued k1 t = queued k t" using d by (simp add: queued_def)
    have "on_queue (KPriorityQueue_Remove (member_of k1 t)) k1 = Some k1" "on_queue (KPriorityQueue_PushBack (member_of k1 t)) k1 = Some k1"
      using dummy by (simp_all add: on_queue_def KPriorityQueue_Remove_def KPriorityQueue_PushBack_def)
    then have "\<exists>k2. OnThreadStateChanged t (GetRawState k t) k1 = Some k2 \<and> threads k2 = threads k1 \<and> sched_ok k2 Q"
      using dummy same [OF q] by (simp add: OnThreadStateChanged_def Let_def kernel_simps)
    then show ?thesis using q others_kept_ops(4) by blast
  next
    case leave
    then have q: "queued k t" "\<not> queued k1 t" using d by (simp_all add: queued_def)
    obtain q' where q': "KPriorityQueue_Remove (member_of k1 t) (m_priority_queue k1) = Some q'" "pq_rep q' (dequeue t Q)"
      using Remove_rep [OF sched_okD(2) [OF assms(1) q(1)] rep sched_okD(3) [OF assms(1) q(1)]] assms(2,4) by auto
    have "sched_ok (k1\<lparr>m_priority_queue := q'\<rparr>) (dequeue t Q)"
      by (rule sched_ok_change [OF assms(1), where t = t])
        (use q'(2) others q(2) dequeue_absent [OF rep] in \<open>simp_all add: others_kept_ops\<close>)
    then have "?done (SetSchedulerUpdateNeeded (IncrementScheduledCount t (k1\<lparr>m_priority_queue := q'\<rparr>))) (dequeue t Q)"
      using leave q'(1) by (simp add: on_queue_def OnThreadStateChanged_def Let_def kernel_simps others_kept_ops)
    then show ?thesis by blast
  next
    case enter
    then have q: "\<not> queued k t" "queued k1 t" using d by (simp_all add: queued_def)
    let ?m = "member_of k t"
    have a: "absent (mb_id ?m) Q" using sched_okD(4) [OF assms(1) q(1)] by simp
    obtain q' where q': "KPriorityQueue_PushBack (member_of k1 t) (m_priority_queue k1) = Some q'" "pq_rep q' (enqueue_back ?m Q)"
      using PushBack_rep [OF assms(5) [OF q(2)] rep a] assms(2,4) by auto
    have "sched_ok (k1\<lparr>m_priority_queue := q'\<rparr>) (enqueue_back ?m Q)"
      by (rule sched_ok_change [OF assms(1), where t = t])
        (use q'(2) others q(2) assms(2,5) enqueue_enqueued(1) [OF a] in \<open>simp_all add: others_kept_ops\<close>)
    then have "?done (SetSchedulerUpdateNeeded (IncrementScheduledCount t (k1\<lparr>m_priority_queue := q'\<rparr>))) (enqueue_back ?m Q)"
      using enter q'(1) by (simp add: on_queue_def OnThreadStateChanged_def Let_def kernel_simps others_kept_ops)
    then show ?thesis by blast
  qed
qed

lemma OnThreadPriorityChanged_ok:
  assumes "sched_ok k Q" and "member_of k1 = (member_of k)(t := (member_of k t)\<lparr>mb_priority := p\<rparr>)"
    and "\<And>s. GetRawState k1 s = GetRawState k s" and "m_priority_queue k1 = m_priority_queue k"
    and "queued k t \<Longrightarrow> IsValidPriority p"
  shows "\<exists>k' Q'. OnThreadPriorityChanged t (m_priority (threads k t)) k1 = Some k' \<and> sched_ok k' Q' \<and> others_kept t Q Q' \<and>
    threads k' = threads k1 \<and> (queued k t \<longrightarrow> m_scheduler_update_needed k')"
proof -
  let ?m = "member_of k1 t" and ?old = "m_priority (threads k t)"
  have m: "?m = (member_of k t)\<lparr>mb_priority := p\<rparr>" using assms(2) by simp
  have d: "IsDummyThread (threads k1 s) = IsDummyThread (threads k s)" for s
    using arg_cong [OF fun_cong [OF assms(2), of s], of mb_dummy] by (simp split: if_splits)
  have qd: "queued k1 s = queued k s" for s using assms(3) d by (simp add: queued_def)
  have restored: "?m\<lparr>mb_priority := ?old\<rparr> = member_of k t" unfolding m by (simp add: member_of_def)
  note rep = sched_okD(1) [OF assms(1)]
  show ?thesis
  proof (cases "queued k t")
    case True
    note mk = sched_okD(2,3) [OF assms(1) True]
    have ok: "member_ok ?m" using mk(1) assms(5) [OF True] unfolding m by (simp add: member_ok_def has_core_def)
    define running where "running \<longleftrightarrow> t = current_thread k1"
    let ?Q = "(if running then enqueue_front ?m else enqueue_back ?m) (dequeue t Q)"
    obtain q' where q': "KPriorityQueue_ChangePriority ?old running ?m (m_priority_queue k1) = Some q'" "pq_rep q' ?Q"
      using ChangePriority_rep [OF ok, of ?old "m_priority_queue k" Q running] mk rep unfolding restored assms(4) by auto
    have a: "absent (mb_id ?m) (dequeue t Q)" using dequeue_absent [OF rep] by simp
    have "others_kept t Q (enqueue_front ?m (dequeue t Q))" "others_kept t Q (enqueue_back ?m (dequeue t Q))"
      by (rule others_kept_trans [OF others_kept_ops(1)], simp add: others_kept_ops(2,3))+
    then have kept: "others_kept t Q ?Q" by simp
    have "sched_ok (k1\<lparr>m_priority_queue := q'\<rparr>) ?Q"
      by (rule sched_ok_change [OF assms(1) _ kept])
        (use q'(2) assms(2) qd True ok enqueue_enqueued [OF a] in \<open>simp_all split del: if_split\<close>, simp)
    then have "OnThreadPriorityChanged t ?old k1 = Some (SetSchedulerUpdateNeeded (IncrementScheduledCount t (k1\<lparr>m_priority_queue := q'\<rparr>)))"
      "sched_ok (SetSchedulerUpdateNeeded (IncrementScheduledCount t (k1\<lparr>m_priority_queue := q'\<rparr>))) ?Q"
      using True q'(1) assms(3)
      by (simp_all add: on_queue_def OnThreadPriorityChanged_def queued_def running_def)
    moreover have "threads (SetSchedulerUpdateNeeded (IncrementScheduledCount t (k1\<lparr>m_priority_queue := q'\<rparr>))) = threads k1"
      "m_scheduler_update_needed (SetSchedulerUpdateNeeded (IncrementScheduledCount t (k1\<lparr>m_priority_queue := q'\<rparr>)))"
      by (simp_all add: kernel_simps)
    ultimately show ?thesis using kept by blast
  next
    case False
    have "sched_ok k1 Q"
      by (rule sched_ok_change [OF assms(1), where t = t])
        (use rep assms(2,4) qd False sched_okD(4) [OF assms(1)] in \<open>simp_all add: others_kept_ops\<close>)
    moreover have "OnThreadPriorityChanged t ?old k1 = Some k1 \<or>
        OnThreadPriorityChanged t ?old k1 = Some (SetSchedulerUpdateNeeded (IncrementScheduledCount t k1))"
      using False assms(3) d by (auto simp: OnThreadPriorityChanged_def queued_def on_queue_def KPriorityQueue_ChangePriority_def)
    ultimately show ?thesis using False others_kept_ops(4) kernel_simps by (metis sched_ok_simps(1,2))
  qed
qed

lemma OnThreadAffinityMaskChanged_ok:
  assumes "sched_ok k Q"
    and "member_of k1 = (member_of k)(t := (member_of k t)\<lparr>mb_active_core := core, mb_affinity := affinity\<rparr>)"
    and "\<And>s. GetRawState k1 s = GetRawState k s" and "m_priority_queue k1 = m_priority_queue k"
    and "queued k t \<Longrightarrow> member_ok (member_of k1 t)"
  shows "\<exists>k' Q'. OnThreadAffinityMaskChanged t (m_physical_affinity_mask (threads k t)) (m_core_id (threads k t)) k1 = Some k' \<and>
    sched_ok k' Q' \<and> others_kept t Q Q' \<and> threads k' = threads k1 \<and> (queued k t \<longrightarrow> m_scheduler_update_needed k')"
proof -
  let ?m = "member_of k1 t" and ?oa = "m_physical_affinity_mask (threads k t)" and ?oc = "m_core_id (threads k t)"
  have m: "?m = (member_of k t)\<lparr>mb_active_core := core, mb_affinity := affinity\<rparr>" using assms(2) by simp
  have d: "IsDummyThread (threads k1 s) = IsDummyThread (threads k s)" for s
    using arg_cong [OF fun_cong [OF assms(2), of s], of mb_dummy] by (simp split: if_splits)
  have qd: "queued k1 s = queued k s" for s using assms(3) d by (simp add: queued_def)
  have restored: "?m\<lparr>mb_active_core := ?oc, mb_affinity := ?oa\<rparr> = member_of k t" unfolding m by (simp add: member_of_def)
  note rep = sched_okD(1) [OF assms(1)]
  show ?thesis
  proof (cases "queued k t")
    case True
    note mk = sched_okD(2,3) [OF assms(1) True] and ok = assms(5) [OF True]
    let ?Q = "enqueue_back ?m (dequeue t Q)"
    obtain q' where q': "KPriorityQueue_ChangeAffinityMask ?oc ?oa ?m (m_priority_queue k1) = Some q'" "pq_rep q' ?Q"
      using ChangeAffinityMask_rep [OF ok, where prev_core = ?oc and prev_affinity = ?oa and q = "m_priority_queue k" and Q = Q] mk rep unfolding restored assms(4) by auto
    have a: "absent (mb_id ?m) (dequeue t Q)" using dequeue_absent [OF rep] by simp
    have kept: "others_kept t Q ?Q"
      by (rule others_kept_trans [OF others_kept_ops(1)]) (simp add: others_kept_ops(2))
    let ?K = "SetSchedulerUpdateNeeded (IncrementScheduledCount t (k1\<lparr>m_priority_queue := q'\<rparr>))"
    have "sched_ok (k1\<lparr>m_priority_queue := q'\<rparr>) ?Q"
      by (rule sched_ok_change [OF assms(1) _ kept])
        (use q'(2) assms(2) qd True ok enqueue_enqueued(1) [OF a] in simp_all)
    then have "sched_ok ?K ?Q" "threads ?K = threads k1" "m_scheduler_update_needed ?K" by (simp_all add: kernel_simps)
    moreover have "OnThreadAffinityMaskChanged t ?oa ?oc k1 = Some ?K"
      using True q'(1) assms(3) by (simp add: on_queue_def OnThreadAffinityMaskChanged_def queued_def)
    ultimately show ?thesis using kept by blast
  next
    case False
    have "sched_ok k1 Q"
      by (rule sched_ok_change [OF assms(1), where t = t])
        (use rep assms(2,4) qd False sched_okD(4) [OF assms(1)] in \<open>simp_all add: others_kept_ops\<close>)
    moreover have "OnThreadAffinityMaskChanged t ?oa ?oc k1 = Some k1 \<or>
        OnThreadAffinityMaskChanged t ?oa ?oc k1 = Some (SetSchedulerUpdateNeeded (IncrementScheduledCount t k1))"
      using False assms(3) d by (auto simp: OnThreadAffinityMaskChanged_def queued_def on_queue_def KPriorityQueue_ChangeAffinityMask_def)
    ultimately show ?thesis using False others_kept_ops(4) kernel_simps by (metis sched_ok_simps(1,2))
  qed
qed

section \<open>Migration\<close>

lemma migrate_member:
  "member_of (SetActiveCore t core k) s = (if s = t then (member_of k t)\<lparr>mb_active_core := core\<rparr> else member_of k s)"
  "queued (SetActiveCore t core k) s = queued k s" "GetRawState (SetActiveCore t core k) s = GetRawState k s"
  by (simp_all add: member_of_def SetActiveCore_def kernel_simps queued_def GetRawState_def IsDummyThread_def)

lemma migrate_ok:
  fixes to_front :: bool
  assumes "sched_ok k Q" and "queued k t" and "core = - 1 \<or> 0 \<le> core \<and> has_core (member_of k t) (nat core)"
    and "m_core_id (threads k t) \<noteq> core"
  defines "Q' \<equiv> change_core ((member_of k t)\<lparr>mb_active_core := core\<rparr>) (m_core_id (threads k t)) to_front Q"
  shows "\<exists>q'. migrate core t to_front k = Some ((SetActiveCore t core k)\<lparr>m_priority_queue := q'\<rparr>) \<and>
    sched_ok ((SetActiveCore t core k)\<lparr>m_priority_queue := q'\<rparr>) Q' \<and> others_kept t Q Q'"
proof -
  let ?m = "(member_of k t)\<lparr>mb_active_core := core\<rparr>" and ?oc = "m_core_id (threads k t)"
  note mk = sched_okD(2,3) [OF assms(1,2)] and rep = sched_okD(1) [OF assms(1)]
  have ok: "member_ok ?m" using mk(1) assms(3) by (auto simp: member_ok_def has_core_def)
  have restored: "?m\<lparr>mb_active_core := ?oc\<rparr> = member_of k t" by (simp add: member_of_def)
  obtain q' where q': "KPriorityQueue_ChangeCore ?oc ?m to_front (m_priority_queue k) = Some q'" "pq_rep q' Q'"
    using ChangeCore_rep [OF ok, where prev_core = ?oc and q = "m_priority_queue k" and Q = Q and to_front = to_front] mk rep assms(4) unfolding restored Q'_def by auto
  have kept: "others_kept t Q Q'" unfolding Q'_def by (simp add: others_kept_ops(5))
  have e: "enqueued ?m Q'" unfolding Q'_def by (rule change_core_enqueued [OF rep]) (simp only: restored mk)
  have pq: "m_priority_queue (SetActiveCore t core k) = m_priority_queue k" by (simp add: SetActiveCore_def kernel_simps)
  have "sched_ok ((SetActiveCore t core k)\<lparr>m_priority_queue := q'\<rparr>) Q'"
    by (rule sched_ok_change [OF assms(1) _ kept]) (use q'(2) ok e assms(2) in \<open>simp_all add: migrate_member\<close>)
  moreover have "migrate core t to_front k = Some ((SetActiveCore t core k)\<lparr>m_priority_queue := q'\<rparr>)"
    using q'(1) by (simp add: migrate_def Let_def migrate_member on_queue_def pq)
  ultimately show ?thesis using kept by blast
qed

section \<open>Walking a queue\<close>

text \<open>
  The loops that look for a thread to migrate follow the links of a queue: a thread is visited, which may end
  the loop, and then its successor.  If the successors are those of a list, the loop visits the list in order
  and returns.
\<close>

locale queue_walk =
  fixes walk :: "nat option \<Rightarrow> 's \<Rightarrow> 'r option"
    and visit :: "nat \<Rightarrow> 's \<Rightarrow> ('r + 's) option"
    and succ_of :: "nat \<Rightarrow> 's \<Rightarrow> nat option option"
    and finish :: "'s \<Rightarrow> 'r"
  assumes walk_None: "walk None st = Some (finish st)"
    and walk_Some: "walk (Some m) st = visit m st \<bind>
      (\<lambda>r. case r of Inl res \<Rightarrow> Some res | Inr st' \<Rightarrow> succ_of m st' \<bind> (\<lambda>n. walk n st'))"
begin

lemma walk_from:
  assumes "\<And>as m bs st. xs = as @ m # bs \<Longrightarrow> I as st \<Longrightarrow>
      (\<exists>res. visit m st = Some (Inl res) \<and> R res) \<or>
      (\<exists>st'. visit m st = Some (Inr st') \<and> I (as @ [m]) st' \<and> succ_of m st' = Some (hd_opt bs))"
    and "\<And>st. I xs st \<Longrightarrow> R (finish st)"
    and "xs = as @ bs" and "I as st"
  shows "\<exists>res. walk (hd_opt bs) st = Some res \<and> R res"
  using assms(3,4)
proof (induction bs arbitrary: as st)
  case Nil
  then show ?case using assms(2) by (simp add: hd_opt_def walk_None)
next
  case (Cons m bs)
  from assms(1) [OF Cons.prems] show ?case
  proof
    assume "\<exists>res. visit m st = Some (Inl res) \<and> R res"
    then show ?thesis by (auto simp: hd_opt_def walk_Some)
  next
    assume "\<exists>st'. visit m st = Some (Inr st') \<and> I (as @ [m]) st' \<and> succ_of m st' = Some (hd_opt bs)"
    then obtain st' where st': "visit m st = Some (Inr st')" "I (as @ [m]) st'" "succ_of m st' = Some (hd_opt bs)" by blast
    have "walk (hd_opt (m # bs)) st = walk (hd_opt bs) st'" using st' by (simp add: hd_opt_def walk_Some)
    then show ?thesis using Cons.IH [of "as @ [m]" st'] Cons.prems(1) st'(2) by simp
  qed
qed

lemmas walk_list = walk_from [OF _ _ append.append_Nil [symmetric]]

end

section \<open>The members of the queues\<close>

lemma distinct_levels:
  assumes "distinct ps" and "\<And>i. distinct (f i)" and "\<And>i j. i \<noteq> j \<Longrightarrow> set (f i) \<inter> set (f j) = {}"
  shows "distinct (concat (map f ps))"
  using assms(1)
proof (induction ps)
  case (Cons p ps)
  have "set (f p) \<inter> set (f i) = {}" if "i \<in> set ps" for i using assms(3) [of p i] Cons.prems that by auto
  then have "set (f p) \<inter> set (concat (map f ps)) = {}" by auto
  then show ?case using Cons assms(2) by simp
qed simp

lemma rep_levels_disjoint:
  assumes "pq_rep q Q" and "c < NUM_CPU_CORES" and "i \<noteq> j"
  shows "set (Q c w i) \<inter> set (Q c w j) = {}"
proof -
  have "core_rep q c (Q c)" using assms(1,2) unfolding pq_rep_def by metis
  then show ?thesis using assms(3) unfolding core_rep_def by blast
qed

lemma distinct_run_order:
  assumes "pq_rep q Q" and "c < NUM_CPU_CORES"
  shows "distinct (run_order (Q c) w p)"
  unfolding run_order_def
  by (rule distinct_levels) (use rep_distinct [OF assms(1)] rep_levels_disjoint [OF assms] in simp_all)

lemma in_run_order: "t \<in> set (run_order qs w p) \<longleftrightarrow> (\<exists>i. p \<le> i \<and> i < NumPriority \<and> t \<in> set (qs w i))"
  by (auto simp: run_order_def)

lemma run_order_split:
  assumes "p \<le> i" and "i < NumPriority"
  shows "run_order qs w p = concat (map (qs w) [p..<i]) @ qs w i @ run_order qs w (Suc i)"
proof -
  have "[p..<NumPriority] = [p..<i] @ i # [Suc i..<NumPriority]" 
    using assms upt_add_eq_append [of p i "NumPriority - i"] upt_conv_Cons [of i NumPriority] by simp
  then show ?thesis by (simp add: run_order_def)
qed

lemma queue_member:
  assumes "sched_ok k Q" and "t \<in> set (Q c w i)"
  shows "queued k t" and "queue_kind (member_of k t) c = Some w" and "int i = m_priority (threads k t)"
    and "m_priority (threads k t) \<le> LowestThreadPriority"
proof -
  show q: "queued k t" using sched_okD(4) [OF assms(1), of t] assms(2) by (auto simp: absent_def on_core_def)
  have "wants (member_of k t) c w i" using sched_okD(3) [OF assms(1) q] assms(2) by (simp add: enqueued_def)
  then show "queue_kind (member_of k t) c = Some w" "int i = m_priority (threads k t)"
    "m_priority (threads k t) \<le> LowestThreadPriority" by (simp_all add: wants_def)
qed

lemma member_queue:
  assumes "sched_ok k Q" and "queued k t" and "queue_kind (member_of k t) c = Some w" and "m_priority (threads k t) \<le> LowestThreadPriority"
  shows "t \<in> set (Q c w (nat (m_priority (threads k t))))" and "nat (m_priority (threads k t)) < NumPriority"
proof -
  have p: "0 \<le> m_priority (threads k t)" using member_priority [OF sched_okD(2) [OF assms(1,2)]] by simp
  then show "nat (m_priority (threads k t)) < NumPriority" using assms(4) by (intro priority_bound) simp_all
  have "wants (member_of k t) c w (nat (m_priority (threads k t)))" using assms(3,4) p by (simp add: wants_def)
  then show "t \<in> set (Q c w (nat (m_priority (threads k t))))" using sched_okD(3) [OF assms(1,2)] by (simp add: enqueued_def)
qed

lemma run_order_member:
  assumes "sched_ok k Q"
  shows "t \<in> set (run_order (Q c) w 0) \<longleftrightarrow>
    queued k t \<and> queue_kind (member_of k t) c = Some w \<and> m_priority (threads k t) \<le> LowestThreadPriority"
proof
  assume "t \<in> set (run_order (Q c) w 0)"
  then obtain i where "t \<in> set (Q c w i)" by (auto simp: in_run_order)
  then show "queued k t \<and> queue_kind (member_of k t) c = Some w \<and> m_priority (threads k t) \<le> LowestThreadPriority"
    using queue_member [OF assms] by blast
next
  assume "queued k t \<and> queue_kind (member_of k t) c = Some w \<and> m_priority (threads k t) \<le> LowestThreadPriority"
  then show "t \<in> set (run_order (Q c) w 0)" using member_queue [OF assms, of t c w] unfolding in_run_order by blast
qed

lemma next_in_order:
  assumes "sched_ok k Q" and "c < NUM_CPU_CORES" and "run_order (Q c) w 0 = as @ t # bs"
  shows "Impl_GetNext w (int c) t (m_priority (threads k t)) (m_priority_queue k) = Some (hd_opt bs)"
proof -
  note rep = sched_okD(1) [OF assms(1)]
  have "t \<in> set (run_order (Q c) w 0)" using assms(3) by simp
  then obtain i where i: "i < NumPriority" "t \<in> set (Q c w i)" by (auto simp: in_run_order)
  then obtain as' bs' where s: "Q c w i = as' @ t # bs'" by (meson split_list)
  note d = distinct_run_order [OF rep assms(2), of w 0]
  have "as @ t # bs = (concat (map (Q c w) [0..<i]) @ as') @ t # (bs' @ run_order (Q c) w (Suc i))"
    using run_order_split [of 0 i "Q c" w] i(1) s assms(3) by simp
  moreover have "t \<notin> set as" "t \<notin> set bs" using d assms(3) by simp_all
  ultimately have "bs = bs' @ run_order (Q c) w (Suc i)" using append_Cons_eq_iff by metis
  then show ?thesis using GetNext_rep [OF rep assms(2) i(1) s] queue_member(3) [OF assms(1) i(2)] by simp
qed

lemma next_same_priority:
  assumes "sched_ok k Q" and "c < NUM_CPU_CORES" and "p < NumPriority" and "Q c w p = as @ t # bs"
  shows "GetSamePriorityNext (int c) (member_of k t) (m_priority_queue k) = Some (hd_opt bs)"
proof -
  have "links (pq_entries (m_priority_queue k)) c None (as @ t # bs) None"
    using rep_level(1) [OF sched_okD(1) [OF assms(1)] assms(2,3), of w] assms(4) by (simp add: linked_def)
  then show ?thesis using assms(2) by (simp add: GetSamePriorityNext_def valid_core links_next hd_opt_def)
qed

lemma top_on_core_ok:
  assumes "sched_ok k Q" and "queued k t"
  shows "\<exists>x. top_on_core (m_core_id (threads k t)) k = Some x"
proof (cases "m_core_id (threads k t) \<ge> 0")
  case True
  have "has_core (member_of k t) (nat (m_core_id (threads k t)))" "\<forall>c. has_core (member_of k t) c \<longrightarrow> c < NUM_CPU_CORES"
    using sched_okD(2) [OF assms] True by (simp_all add: member_ok_def)
  then have c: "nat (m_core_id (threads k t)) < NUM_CPU_CORES" by blast
  show ?thesis using GetFront_rep [OF sched_okD(1) [OF assms(1)] c, of Scheduled] True
    by (simp add: top_on_core_def GetScheduledFront_def)
qed (simp add: top_on_core_def)

section \<open>The loops as walks\<close>

lemma bind_if: "Option.bind (if b then x else y) f = (if b then Option.bind x f else Option.bind y f)"
  by simp

definition visit_same :: "int \<Rightarrow> nat option \<Rightarrow> nat option \<Rightarrow> nat \<Rightarrow> KernelCore \<Rightarrow> (KernelCore + KernelCore) option" where
  "visit_same core_id top_thread next_thread s k = do {
     top_on \<leftarrow> top_on_core (m_core_id (threads k s)) k;
     if top_on \<noteq> Some s \<and> top_thread \<noteq> next_thread \<and> waited_longer next_thread s k then Some (Inl k)
     else if top_on \<noteq> Some s \<and> migration_allowed top_on k
     then do { k1 \<leftarrow> migrate core_id s True k; Some (Inl (IncrementScheduledCount s k1)) }
     else Some (Inr k)
   }"

interpretation same_walk: queue_walk "rotate_same core_id top_thread next_thread" "visit_same core_id top_thread next_thread"
    "\<lambda>s k. GetSamePriorityNext core_id (member_of k s) (m_priority_queue k)" "\<lambda>k. k" for core_id top_thread next_thread
proof unfold_locales
  fix m k
  show "rotate_same core_id top_thread next_thread None k = Some k" by (subst rotate_same.simps) simp
  show "rotate_same core_id top_thread next_thread (Some m) k = visit_same core_id top_thread next_thread m k \<bind>
      (\<lambda>r. case r of Inl res \<Rightarrow> Some res
       | Inr st' \<Rightarrow> GetSamePriorityNext core_id (member_of st' m) (m_priority_queue st') \<bind>
           (\<lambda>n. rotate_same core_id top_thread next_thread n st'))"
    by (subst rotate_same.simps) (simp add: visit_same_def Option.bind_assoc bind_if cong: if_cong)
qed

definition visit_better :: "int \<Rightarrow> nat \<Rightarrow> nat \<Rightarrow> KernelCore \<Rightarrow> (KernelCore + KernelCore) option" where
  "visit_better core_id best_thread s k =
     (if m_priority (threads k s) \<ge> m_priority (threads k best_thread) then Some (Inl k)
      else do {
        top_on \<leftarrow> top_on_core (m_core_id (threads k s)) k;
        if top_on \<noteq> Some s \<and> migration_allowed top_on k
        then do { k1 \<leftarrow> migrate core_id s True k; Some (Inl (IncrementScheduledCount s k1)) }
        else Some (Inr k)
      })"

interpretation better_walk: queue_walk "rotate_better core_id best_thread" "visit_better core_id best_thread"
    "\<lambda>s k. GetSuggestedNext core_id (member_of k s) (m_priority_queue k)" "\<lambda>k. k" for core_id best_thread
proof unfold_locales
  fix m k
  show "rotate_better core_id best_thread None k = Some k" by (subst rotate_better.simps) simp
  show "rotate_better core_id best_thread (Some m) k = visit_better core_id best_thread m k \<bind>
      (\<lambda>r. case r of Inl res \<Rightarrow> Some res
       | Inr st' \<Rightarrow> GetSuggestedNext core_id (member_of st' m) (m_priority_queue st') \<bind>
           (\<lambda>n. rotate_better core_id best_thread n st'))"
    by (subst rotate_better.simps) (simp add: visit_better_def Option.bind_assoc bind_if cong: if_cong)
qed

definition visit_any :: "int \<Rightarrow> nat \<Rightarrow> KernelCore \<Rightarrow> ((nat option \<times> KernelCore) + KernelCore) option" where
  "visit_any core_id s k = do {
     top_on \<leftarrow> top_on_core (m_core_id (threads k s)) k;
     if top_on \<noteq> Some s
     then if migration_allowed top_on k
          then do { k1 \<leftarrow> migrate core_id s False k; Some (Inl (Some s, IncrementScheduledCount s k1)) }
          else Some (Inl (Some s, k))
     else Some (Inr k)
   }"

interpretation any_walk: queue_walk "yield_any core_id" "visit_any core_id"
    "\<lambda>s k. GetSuggestedNext core_id (member_of k s) (m_priority_queue k)" "\<lambda>k. (None, k)" for core_id
proof unfold_locales
  fix m k
  show "yield_any core_id None k = Some (None, k)" by (subst yield_any.simps) simp
  show "yield_any core_id (Some m) k = visit_any core_id m k \<bind>
      (\<lambda>r. case r of Inl res \<Rightarrow> Some res
       | Inr st' \<Rightarrow> GetSuggestedNext core_id (member_of st' m) (m_priority_queue st') \<bind> (\<lambda>n. yield_any core_id n st'))"
    by (subst yield_any.simps) (simp add: visit_any_def Option.bind_assoc bind_if cong: if_cong)
qed

definition visit_migrate ::
    "int \<Rightarrow> nat \<Rightarrow> nat option \<Rightarrow> nat \<Rightarrow> bool \<times> KernelCore \<Rightarrow> ((nat option \<times> bool \<times> KernelCore) + (bool \<times> KernelCore)) option" where
  "visit_migrate core_id cur_thread next_thread s st =
     (case st of (recheck, k) \<Rightarrow> do {
        running \<leftarrow> running_on (m_core_id (threads k s)) k;
        if running \<noteq> Some s
        then do {
          prefer_next \<leftarrow> prefers_next cur_thread next_thread s k;
          if prefer_next then Some (Inl (None, recheck, k))
          else if migration_allowed running k
          then do { k1 \<leftarrow> migrate core_id s True k; Some (Inl (Some s, recheck, IncrementScheduledCount s k1)) }
          else Some (Inr (True, k))
        }
        else Some (Inr (recheck, k))
      })"

interpretation migrate_walk: queue_walk "\<lambda>s st. yield_migrate core_id cur_thread next_thread (fst st) s (snd st)"
    "visit_migrate core_id cur_thread next_thread"
    "\<lambda>s st. GetSuggestedNext core_id (member_of (snd st) s) (m_priority_queue (snd st))" "\<lambda>st. (None, st)"
  for core_id cur_thread next_thread
proof unfold_locales
  fix m and st :: "bool \<times> KernelCore"
  show "yield_migrate core_id cur_thread next_thread (fst st) None (snd st) = Some (None, st)" by (subst yield_migrate.simps) simp
  show "yield_migrate core_id cur_thread next_thread (fst st) (Some m) (snd st) = visit_migrate core_id cur_thread next_thread m st \<bind>
      (\<lambda>r. case r of Inl res \<Rightarrow> Some res
       | Inr st' \<Rightarrow> GetSuggestedNext core_id (member_of (snd st') m) (m_priority_queue (snd st')) \<bind>
           (\<lambda>n. yield_migrate core_id cur_thread next_thread (fst st') n (snd st')))"
    by (subst yield_migrate.simps)
      (simp add: visit_migrate_def split_beta Option.bind_assoc bind_if cong: if_cong)
qed

section \<open>What the loops do\<close>

text \<open>Thread \<open>s\<close> was suggested for the core and is now scheduled on it; nothing else has changed.\<close>

definition migrated ::
    "nat \<Rightarrow> bool \<Rightarrow> nat \<Rightarrow> KernelCore \<Rightarrow> (nat \<Rightarrow> core_queues) \<Rightarrow> KernelCore \<Rightarrow> (nat \<Rightarrow> core_queues) \<Rightarrow> bool" where
  "migrated c to_front s k Q k' Q' \<longleftrightarrow>
     queued k s \<and> queue_kind (member_of k s) c = Some Suggested \<and>
     threads k' = threads (SetActiveCore s (int c) k) \<and> current_thread k' = current_thread k \<and>
     schedulers k' = schedulers k \<and>
     Q' = change_core ((member_of k s)\<lparr>mb_active_core := int c\<rparr>) (m_core_id (threads k s)) to_front Q \<and> sched_ok k' Q'"

lemma suggested_kind:
  "queue_kind (member_of k s) c = Some Suggested \<longleftrightarrow> m_core_id (threads k s) \<noteq> int c \<and> has_core (member_of k s) c"
  by (auto simp: queue_kind_def)

lemma migrate_result:
  assumes "sched_ok k Q" and "queued k s" and "queue_kind (member_of k s) c = Some Suggested"
  shows "\<exists>k1 Q1. migrate (int c) s to_front k = Some k1 \<and> migrated c to_front s k Q k1 Q1 \<and>
    migrated c to_front s k Q (IncrementScheduledCount s k1) Q1"
proof -
  have c: "int c = - 1 \<or> 0 \<le> int c \<and> has_core (member_of k s) (nat (int c))" "m_core_id (threads k s) \<noteq> int c"
    using assms(3) by (simp_all add: suggested_kind)
  from migrate_ok [OF assms(1,2) c, of to_front] assms show ?thesis
    by (auto simp: migrated_def kernel_simps SetActiveCore_def)
qed

lemma rotate_same_ok:
  assumes "sched_ok k Q" and "c < NUM_CPU_CORES" and "p < NumPriority"
  shows "\<exists>k' Q'. rotate_same (int c) top_thread next_thread (hd_opt (Q c Suggested p)) k = Some k' \<and>
    (k' = k \<and> Q' = Q \<or> (\<exists>s\<in>set (Q c Suggested p). migrated c True s k Q k' Q'))"
proof -
  let ?R = "\<lambda>k'. k' = k \<or> (\<exists>s\<in>set (Q c Suggested p). \<exists>Q'. migrated c True s k Q k' Q')"
  have "\<exists>k'. rotate_same (int c) top_thread next_thread (hd_opt (Q c Suggested p)) k = Some k' \<and> ?R k'"
  proof (rule same_walk.walk_list [where I = "\<lambda>as st. st = k"])
    fix as s bs st assume xs: "Q c Suggested p = as @ s # bs" and st: "st = k"
    have "s \<in> set (Q c Suggested p)" using xs by simp
    note mem = queue_member [OF assms(1) this]
    obtain x where x: "top_on_core (m_core_id (threads k s)) k = Some x" using top_on_core_ok [OF assms(1) mem(1)] by blast
    obtain k1 Q1 where k1: "migrate (int c) s True k = Some k1" "migrated c True s k Q (IncrementScheduledCount s k1) Q1"
      using migrate_result [OF assms(1) mem(1,2)] by blast
    show "(\<exists>res. visit_same (int c) top_thread next_thread s st = Some (Inl res) \<and> ?R res) \<or>
       (\<exists>st'. visit_same (int c) top_thread next_thread s st = Some (Inr st') \<and> st' = k \<and>
          GetSamePriorityNext (int c) (member_of st' s) (m_priority_queue st') = Some (hd_opt bs))"
      using x k1 next_same_priority [OF assms xs] xs unfolding st visit_same_def by auto
  qed simp_all
  then show ?thesis by blast
qed

lemma suggested_next:
  assumes "sched_ok k Q" and "c < NUM_CPU_CORES" and "run_order (Q c) Suggested 0 = as @ s # bs"
  shows "GetSuggestedNext (int c) (member_of k s) (m_priority_queue k) = Some (hd_opt bs)"
  using next_in_order [OF assms] by (simp add: GetSuggestedNext_def)

lemma rotate_better_ok:
  assumes "sched_ok k Q" and "c < NUM_CPU_CORES"
  shows "\<exists>k' Q'. rotate_better (int c) best (hd_opt (run_order (Q c) Suggested 0)) k = Some k' \<and>
    (k' = k \<and> Q' = Q \<or> (\<exists>s. m_priority (threads k s) < m_priority (threads k best) \<and> migrated c True s k Q k' Q'))"
proof -
  let ?R = "\<lambda>k'. k' = k \<or> (\<exists>s. m_priority (threads k s) < m_priority (threads k best) \<and> (\<exists>Q'. migrated c True s k Q k' Q'))"
  have "\<exists>k'. rotate_better (int c) best (hd_opt (run_order (Q c) Suggested 0)) k = Some k' \<and> ?R k'"
  proof (rule better_walk.walk_list [where I = "\<lambda>as st. st = k"])
    fix as s bs st assume xs: "run_order (Q c) Suggested 0 = as @ s # bs" and st: "st = k"
    have mem: "queued k s" "queue_kind (member_of k s) c = Some Suggested" using run_order_member [OF assms(1), of s c Suggested] xs by simp_all
    obtain x where x: "top_on_core (m_core_id (threads k s)) k = Some x" using top_on_core_ok [OF assms(1) mem(1)] by blast
    obtain k1 Q1 where k1: "migrate (int c) s True k = Some k1" "migrated c True s k Q (IncrementScheduledCount s k1) Q1"
      using migrate_result [OF assms(1) mem] by blast
    show "(\<exists>res. visit_better (int c) best s st = Some (Inl res) \<and> ?R res) \<or>
       (\<exists>st'. visit_better (int c) best s st = Some (Inr st') \<and> st' = k \<and>
          GetSuggestedNext (int c) (member_of st' s) (m_priority_queue st') = Some (hd_opt bs))"
      using x k1 suggested_next [OF assms xs] unfolding st visit_better_def by (cases "m_priority (threads k best) \<le> m_priority (threads k s)") auto
  qed simp_all
  then show ?thesis by blast
qed

lemma yield_any_ok:
  assumes "sched_ok k Q" and "c < NUM_CPU_CORES"
  shows "\<exists>suggested k' Q'. yield_any (int c) (hd_opt (run_order (Q c) Suggested 0)) k = Some (suggested, k') \<and>
    (k' = k \<and> Q' = Q \<or> (\<exists>s. suggested = Some s \<and> migrated c False s k Q k' Q'))"
proof -
  let ?R = "\<lambda>(suggested, k'). k' = k \<or> (\<exists>s. suggested = Some s \<and> (\<exists>Q'. migrated c False s k Q k' Q'))"
  have "\<exists>res. yield_any (int c) (hd_opt (run_order (Q c) Suggested 0)) k = Some res \<and> ?R res"
  proof (rule any_walk.walk_list [where I = "\<lambda>as st. st = k"])
    fix as s bs st assume xs: "run_order (Q c) Suggested 0 = as @ s # bs" and st: "st = k"
    have mem: "queued k s" "queue_kind (member_of k s) c = Some Suggested" using run_order_member [OF assms(1), of s c Suggested] xs by simp_all
    obtain x where x: "top_on_core (m_core_id (threads k s)) k = Some x" using top_on_core_ok [OF assms(1) mem(1)] by blast
    obtain k1 Q1 where k1: "migrate (int c) s False k = Some k1" "migrated c False s k Q (IncrementScheduledCount s k1) Q1"
      using migrate_result [OF assms(1) mem] by blast
    show "(\<exists>res. visit_any (int c) s st = Some (Inl res) \<and> ?R res) \<or>
       (\<exists>st'. visit_any (int c) s st = Some (Inr st') \<and> st' = k \<and>
          GetSuggestedNext (int c) (member_of st' s) (m_priority_queue st') = Some (hd_opt bs))"
      using x k1 suggested_next [OF assms xs] unfolding st visit_any_def by auto
  qed simp_all
  then show ?thesis by auto
qed

lemma running_on_ok:
  assumes "sched_ok k Q" and "queued k t"
  shows "\<exists>x. running_on (m_core_id (threads k t)) k = Some x"
proof -
  have "\<forall>c. has_core (member_of k t) c \<longrightarrow> c < NUM_CPU_CORES"
    "m_core_id (threads k t) \<ge> 0 \<longrightarrow> has_core (member_of k t) (nat (m_core_id (threads k t)))"
    using sched_okD(2) [OF assms] by (simp_all add: member_ok_def)
  then have "m_core_id (threads k t) \<ge> 0 \<longrightarrow> nat (m_core_id (threads k t)) < NUM_CPU_CORES" by blast
  then show ?thesis by (auto simp: running_on_def IsValidCore_def)
qed

lemma yield_migrate_ok:
  assumes "sched_ok k Q" and "c < NUM_CPU_CORES"
    and "next_thread = None \<Longrightarrow> m_priority (threads k cur) > LowestThreadPriority"
  shows "\<exists>suggested r k' Q'.
    yield_migrate (int c) cur next_thread recheck (hd_opt (run_order (Q c) Suggested 0)) k = Some (suggested, r, k') \<and>
    (suggested = None \<and> k' = k \<and> Q' = Q \<or> (\<exists>s. suggested = Some s \<and> migrated c True s k Q k' Q'))"
proof -
  let ?R = "\<lambda>(suggested, r :: bool, k'). suggested = None \<and> k' = k \<or> (\<exists>s. suggested = Some s \<and> (\<exists>Q'. migrated c True s k Q k' Q'))"
  have "\<exists>res. yield_migrate (int c) cur next_thread (fst (recheck, k)) (hd_opt (run_order (Q c) Suggested 0)) (snd (recheck, k)) = Some res \<and> ?R res"
  proof (rule migrate_walk.walk_list [where I = "\<lambda>as st. snd st = k"])
    fix as s bs and st :: "bool \<times> KernelCore" assume xs: "run_order (Q c) Suggested 0 = as @ s # bs" and st: "snd st = k"
    have mem: "queued k s" "queue_kind (member_of k s) c = Some Suggested" "m_priority (threads k s) \<le> LowestThreadPriority"
      using run_order_member [OF assms(1), of s c Suggested] xs by simp_all
    obtain x where x: "running_on (m_core_id (threads k s)) k = Some x" using running_on_ok [OF assms(1) mem(1)] by blast
    obtain k1 Q1 where k1: "migrate (int c) s True k = Some k1" "migrated c True s k Q (IncrementScheduledCount s k1) Q1"
      using migrate_result [OF assms(1) mem(1,2)] by blast
    have "prefers_next cur next_thread s k \<noteq> None"
      using assms(3) mem(3) by (cases next_thread) (auto simp: prefers_next_def)
    then obtain b where b: "prefers_next cur next_thread s k = Some b" by blast
    show "(\<exists>res. visit_migrate (int c) cur next_thread s st = Some (Inl res) \<and> ?R res) \<or>
       (\<exists>st'. visit_migrate (int c) cur next_thread s st = Some (Inr st') \<and> snd st' = k \<and>
          GetSuggestedNext (int c) (member_of (snd st') s) (m_priority_queue (snd st')) = Some (hd_opt bs))"
      using x k1 b suggested_next [OF assms(1,2) xs] st unfolding visit_migrate_def split_beta by auto
  qed auto
  then show ?thesis by auto
qed

section \<open>Rotation\<close>

lemma sched_ok_perm:
  assumes "sched_ok k Q" and "pq_rep q' Q'" and "\<And>c w p. set (Q' c w p) = set (Q c w p)"
  shows "sched_ok (k\<lparr>m_priority_queue := q'\<rparr>) Q'"
proof -
  have "enqueued m Q' = enqueued m Q" "absent t Q' = absent t Q" for m t
    by (simp_all add: enqueued_def absent_def on_core_def assms(3))
  then show ?thesis using assms(1,2) by (simp add: sched_ok_def)
qed

text \<open>Some runnable threads that may run on the core have been moved to it; no thread has changed otherwise.\<close>

definition pulls :: "nat \<Rightarrow> KernelCore \<Rightarrow> KernelCore \<Rightarrow> bool" where
  "pulls c k k' \<longleftrightarrow>
     (\<forall>t. threads k' t = threads k t \<or>
        queued k t \<and> has_core (member_of k t) c \<and> threads k' t = (threads k t)\<lparr>m_core_id := int c\<rparr>)"

lemma pulls_refl: "threads k' = threads k \<Longrightarrow> pulls c k k'"
  by (simp add: pulls_def)

lemma pulls_queued: "pulls c k k' \<Longrightarrow> queued k' t = queued k t \<and> has_core (member_of k' t) d = has_core (member_of k t) d"
proof -
  assume "pulls c k k'"
  then have "threads k' t = threads k t \<or> threads k' t = (threads k t)\<lparr>m_core_id := int c\<rparr>" unfolding pulls_def by blast
  then show ?thesis by (auto simp: queued_def GetRawState_def IsDummyThread_def has_core_def)
qed

lemma pulls_trans: "pulls c k k1 \<Longrightarrow> pulls c k1 k2 \<Longrightarrow> pulls c k k2"
proof (unfold pulls_def [of c k k2], intro allI)
  fix t assume a: "pulls c k k1" "pulls c k1 k2"
  from a(2) have "threads k2 t = threads k1 t \<or>
      queued k1 t \<and> has_core (member_of k1 t) c \<and> threads k2 t = (threads k1 t)\<lparr>m_core_id := int c\<rparr>" unfolding pulls_def by blast
  moreover from a(1) have "threads k1 t = threads k t \<or>
      queued k t \<and> has_core (member_of k t) c \<and> threads k1 t = (threads k t)\<lparr>m_core_id := int c\<rparr>" unfolding pulls_def by blast
  ultimately show "threads k2 t = threads k t \<or>
      queued k t \<and> has_core (member_of k t) c \<and> threads k2 t = (threads k t)\<lparr>m_core_id := int c\<rparr>"
    using pulls_queued [OF a(1)] by auto
qed

lemma migrated_pulls: "migrated c f s k Q k' Q' \<Longrightarrow> pulls c k k'"
  by (auto simp: migrated_def pulls_def SetActiveCore_def kernel_simps suggested_kind)

lemma migrated_front:
  assumes "sched_ok k Q" and "migrated c True s k Q k' Q'" and "p < NumPriority"
  shows "Q' c Scheduled p = (if int p = m_priority (threads k s) then s # Q c Scheduled p else Q c Scheduled p)"
proof -
  have "queue_kind (member_of k s) c = Some Suggested" using assms(2) by (simp add: migrated_def)
  then have "s \<notin> set (Q c Scheduled p)" using queue_member(2) [OF assms(1), of s c Scheduled p] by auto
  moreover have "int p \<le> LowestThreadPriority" using assms(3) by (simp add: NumPriority_64 LowestThreadPriority_def)
  ultimately show ?thesis using assms(2)
    by (auto simp: migrated_def change_core_def enqueue_front_def wants_def queue_kind_def dequeue_def remove1_idem)
qed

lemma MoveToScheduledBack_ok:
  assumes "sched_ok k Q" and "t \<in> set (Q c Scheduled p)" and "c < NUM_CPU_CORES"
  defines "xs' \<equiv> remove1 t (Q c Scheduled p) @ [t]"
  shows "\<exists>q'. MoveToScheduledBack (member_of k t) (m_priority_queue k) = Some (hd_opt xs', q') \<and>
    sched_ok (k\<lparr>m_priority_queue := q'\<rparr>) (Q(c := set_queue (Q c) Scheduled p xs'))"
proof -
  note mem = queue_member [OF assms(1,2)]
  have core: "m_core_id (threads k t) = int c" using mem(2) by (auto simp: queue_kind_def split: if_splits)
  have p: "0 \<le> m_priority (threads k t)" "nat (m_priority (threads k t)) = p" using mem(3) by simp_all
  have t: "t \<in> set (Q c Scheduled (nat (m_priority (threads k t))))" using assms(2) p(2) by simp
  obtain q' where q': "Impl_MoveToBack Scheduled (m_priority (threads k t)) (int c) t (m_priority_queue k) = Some (hd_opt xs', q')"
    "pq_rep q' (Q(c := set_queue (Q c) Scheduled p xs'))"
    using MoveToBack_rep [OF sched_okD(1) [OF assms(1)] assms(3) p(1) mem(4) t] unfolding p(2) xs'_def by blast
  have "distinct (Q c Scheduled p)" by (rule rep_distinct [OF sched_okD(1) [OF assms(1)]])
  then have "set xs' = set (Q c Scheduled p)" using assms(2) by (auto simp: xs'_def)
  then have "sched_ok (k\<lparr>m_priority_queue := q'\<rparr>) (Q(c := set_queue (Q c) Scheduled p xs'))"
    by (intro sched_ok_perm [OF assms(1) q'(2)]) (simp add: set_queue_apply)
  moreover have "\<not> IsDummyThread (threads k t)" using mem(1) by (simp add: queued_def)
  ultimately show ?thesis using q'(1) core by (simp add: MoveToScheduledBack_def)
qed

lemma rotate_front_ok:
  assumes "sched_ok k Q" and "c < NUM_CPU_CORES" and "0 \<le> priority" and "priority \<le> LowestThreadPriority"
  defines "p \<equiv> nat priority"
  shows "\<exists>t n k1. rotate_front (int c) priority k = Some (t, n, k1) \<and> threads k1 = threads k \<and>
    schedulers k1 = schedulers k \<and> current_thread k1 = current_thread k \<and>
    sched_ok k1 (Q(c := set_queue (Q c) Scheduled p (rotate1 (Q c Scheduled p))))"
proof -
  note pb = priority_bound [OF assms(3,4), folded p_def]
  have f: "GetScheduledFront_priority (int c) priority (m_priority_queue k) = Some (hd_opt (Q c Scheduled p))"
    using rep_front [OF rep_level(1) [OF sched_okD(1) [OF assms(1)] assms(2) pb]] assms(2-4)
    by (simp add: GetScheduledFront_priority_def Impl_GetFront_priority_def valid_core p_def)
  show ?thesis
  proof (cases "Q c Scheduled p")
    case Nil
    have "Q(c := set_queue (Q c) Scheduled p []) = Q" using Nil by (auto simp: fun_eq_iff set_queue_apply)
    then show ?thesis using f assms(1) Nil by (simp add: rotate_front_def hd_opt_def)
  next
    case (Cons t ys)
    let ?xs = "rotate1 (Q c Scheduled p)"
    have "t \<in> set (Q c Scheduled p)" using Cons by simp
    from MoveToScheduledBack_ok [OF assms(1) this assms(2)] Cons obtain q'
      where q': "MoveToScheduledBack (member_of k t) (m_priority_queue k) = Some (hd_opt ?xs, q')"
        "sched_ok (k\<lparr>m_priority_queue := q'\<rparr>) (Q(c := set_queue (Q c) Scheduled p ?xs))" by auto
    then show ?thesis using f Cons q'
      by (cases ys) (auto simp: rotate_front_def hd_opt_def kernel_simps Let_def cong: if_cong)
  qed
qed

lemma best_thread_ok:
  assumes "sched_ok k Q" and "c < NUM_CPU_CORES"
  shows "\<exists>best. GetScheduledFront (int c) (m_priority_queue k) \<bind>
      (\<lambda>front. if front = Some t then GetScheduledNext (int c) (member_of k t) (m_priority_queue k) else Some front) = Some best"
proof -
  have f: "GetScheduledFront (int c) (m_priority_queue k) = Some (hd_opt (run_order (Q c) Scheduled 0))"
    using GetFront_rep [OF sched_okD(1) [OF assms(1)] assms(2)] by (simp add: GetScheduledFront_def)
  show ?thesis
  proof (cases "run_order (Q c) Scheduled 0")
    case Nil
    then show ?thesis using f by (simp add: hd_opt_def)
  next
    case (Cons x xs)
    then have "GetScheduledNext (int c) (member_of k x) (m_priority_queue k) = Some (hd_opt xs)"
      using next_in_order [OF assms, of Scheduled "[]" x xs] by (simp add: GetScheduledNext_def)
    then show ?thesis using f Cons by (auto simp: hd_opt_def)
  qed
qed

lemma one_migration:
  assumes "sched_ok k Q" and "k' = k \<and> Q' = Q \<or> (\<exists>s. migrated c True s k Q k' Q')"
  shows "sched_ok k' Q'" and "pulls c k k'"
    and "p < NumPriority \<Longrightarrow> \<exists>ys. length ys \<le> 1 \<and> Q' c Scheduled p = ys @ Q c Scheduled p"
proof -
  show "sched_ok k' Q'" "pulls c k k'" using assms migrated_pulls pulls_refl unfolding migrated_def by blast+
  assume p: "p < NumPriority"
  from assms(2) show "\<exists>ys. length ys \<le> 1 \<and> Q' c Scheduled p = ys @ Q c Scheduled p"
  proof
    assume "\<exists>s. migrated c True s k Q k' Q'"
    then obtain s where "migrated c True s k Q k' Q'" by blast
    from migrated_front [OF assms(1) this p]
    show ?thesis by (intro exI [of _ "if int p = m_priority (threads k s) then [s] else []"]) simp
  qed (auto intro: exI [of _ "[]"])
qed

lemma RotateScheduledQueue_ok:
  assumes "sched_ok k Q" and "c < NUM_CPU_CORES" and "0 \<le> priority" and "priority \<le> LowestThreadPriority"
  shows "\<exists>k' Q' ys. RotateScheduledQueue (int c) priority k = Some k' \<and> sched_ok k' Q' \<and> pulls c k k' \<and>
    m_scheduler_update_needed k' \<and> length ys \<le> 2 \<and>
    Q' c Scheduled (nat priority) = ys @ rotate1 (Q c Scheduled (nat priority))"
proof -
  let ?p = "nat priority"
  note pb = priority_bound [OF assms(3,4)]
  define Q1 where "Q1 = Q(c := set_queue (Q c) Scheduled ?p (rotate1 (Q c Scheduled ?p)))"
  obtain t n k1 where k1: "rotate_front (int c) priority k = Some (t, n, k1)" "threads k1 = threads k" "sched_ok k1 Q1"
    using rotate_front_ok [OF assms] unfolding Q1_def by blast
  have f1: "GetSuggestedFront_priority (int c) priority (m_priority_queue k1) = Some (hd_opt (Q1 c Suggested ?p))"
    using rep_front [OF rep_level(1) [OF sched_okD(1) [OF k1(3)] assms(2) pb]] assms(2-4)
    by (simp add: GetSuggestedFront_priority_def Impl_GetFront_priority_def valid_core)
  obtain k2 Q2 where k2: "rotate_same (int c) t n (hd_opt (Q1 c Suggested ?p)) k1 = Some k2"
    "k2 = k1 \<and> Q2 = Q1 \<or> (\<exists>s. migrated c True s k1 Q1 k2 Q2)"
    using rotate_same_ok [OF k1(3) assms(2) pb] by blast
  note ok2 = one_migration [OF k1(3) k2(2)]
  obtain best where best: "GetScheduledFront (int c) (m_priority_queue k2) \<bind> (\<lambda>front. if front = Some (current_thread k2)
      then GetScheduledNext (int c) (member_of k2 (current_thread k2)) (m_priority_queue k2) else Some front) = Some best"
    using best_thread_ok [OF ok2(1) assms(2)] by blast
  define step3 where "step3 = (case best of None \<Rightarrow> Some k2
    | Some b \<Rightarrow> if m_priority (threads k2 b) \<ge> priority
        then GetSuggestedFront (int c) (m_priority_queue k2) \<bind> (\<lambda>suggested. rotate_better (int c) b suggested k2) else Some k2)"
  have f2: "GetSuggestedFront (int c) (m_priority_queue k2) = Some (hd_opt (run_order (Q2 c) Suggested 0))"
    using GetFront_rep [OF sched_okD(1) [OF ok2(1)] assms(2)] by (simp add: GetSuggestedFront_def)
  have "\<exists>k3 Q3. step3 = Some k3 \<and> (k3 = k2 \<and> Q3 = Q2 \<or> (\<exists>s. migrated c True s k2 Q2 k3 Q3))"
  proof (cases best)
    case (Some b)
    then show ?thesis using rotate_better_ok [OF ok2(1) assms(2), of b] f2 unfolding step3_def by auto
  qed (auto simp: step3_def)
  then obtain k3 Q3 where k3: "step3 = Some k3" "k3 = k2 \<and> Q3 = Q2 \<or> (\<exists>s. migrated c True s k2 Q2 k3 Q3)" by blast
  note ok3 = one_migration [OF ok2(1) k3(2)]
  have "Q1 c Scheduled ?p = rotate1 (Q c Scheduled ?p)" by (simp add: Q1_def set_queue_apply)
  with ok2(3) [OF pb] ok3(3) [OF pb] obtain ys zs where "Q3 c Scheduled ?p = (zs @ ys) @ rotate1 (Q c Scheduled ?p)" "length (zs @ ys) \<le> 2" by fastforce
  moreover have "RotateScheduledQueue (int c) priority k = Some (SetSchedulerUpdateNeeded k3)"
    using best k3(1) unfolding step3_def RotateScheduledQueue_def k1(1)
    by (auto simp: f1 k2(1) Option.bind_eq_Some_conv)
  moreover have "pulls c k (SetSchedulerUpdateNeeded k3)"
    using pulls_trans [OF pulls_refl [OF k1(2)] pulls_trans [OF ok2(2) ok3(2)]] by (simp add: pulls_def kernel_simps)
  moreover have "sched_ok (SetSchedulerUpdateNeeded k3) Q3" "m_scheduler_update_needed (SetSchedulerUpdateNeeded k3)"
    using ok3(1) by (simp_all add: kernel_simps)
  ultimately show ?thesis by blast
qed

section \<open>Preemption\<close>

lemma rotate_cores_ok:
  assumes "sched_ok k Q" and "\<forall>(core, priority)\<in>set cs. IsValidCore core \<and> 0 \<le> priority \<and> priority \<le> LowestThreadPriority"
  shows "\<exists>k' Q'. rotate_cores cs k = Some k' \<and> sched_ok k' Q'"
  using assms
proof (induction cs arbitrary: k Q)
  case (Cons cp cs)
  obtain core priority where cp: "cp = (core, priority)" by (cases cp)
  have v: "IsValidCore core" "0 \<le> priority" "priority \<le> LowestThreadPriority" using Cons.prems(2) cp by auto
  then obtain c where c: "core = int c" "c < NUM_CPU_CORES" by (auto simp: IsValidCore_def intro: that [of "nat core"])
  obtain k1 Q1 where k1: "RotateScheduledQueue core priority k = Some k1" "sched_ok k1 Q1"
    using RotateScheduledQueue_ok [OF Cons.prems(1) c(2) v(2,3)] c(1) by blast
  show ?case using Cons.IH [OF k1(2)] Cons.prems(2) k1(1) cp by simp
qed auto

lemma PreemptThreads_ok:
  assumes "sched_ok k Q"
  shows "\<exists>k' Q'. PreemptThreads k = Some k' \<and> sched_ok k' Q'"
proof -
  have "zip [0..int NUM_CPU_CORES - 1] preemption_priorities = [(0, 59), (1, 59), (2, 59), (3, 63)]"
    by (simp add: NUM_CPU_CORES_def preemption_priorities_def upto.simps)
  then show ?thesis unfolding PreemptThreads_def
    by (simp only:) (rule rotate_cores_ok [OF assms], simp add: IsValidCore_def NUM_CPU_CORES_def LowestThreadPriority_def)
qed

section \<open>Yielding\<close>

lemma scheduled_at:
  assumes "sched_ok k Q" and "queued k t" and "m_core_id (threads k t) = int c" and "m_priority (threads k t) \<le> LowestThreadPriority"
  shows "t \<in> set (Q c Scheduled (nat (m_priority (threads k t))))" and "c < NUM_CPU_CORES"
    and "nat (m_priority (threads k t)) < NumPriority"
proof -
  have kd: "queue_kind (member_of k t) c = Some Scheduled" using assms(3) by (simp add: queue_kind_def)
  show "t \<in> set (Q c Scheduled (nat (m_priority (threads k t))))" "nat (m_priority (threads k t)) < NumPriority"
    using member_queue [OF assms(1,2) kd assms(4)] by simp_all
  show "c < NUM_CPU_CORES" by (rule member_core [OF sched_okD(2) [OF assms(1,2)] kd])
qed

lemma alone_iff:
  assumes "distinct xs" and "t \<in> set xs"
  shows "hd_opt (remove1 t xs @ [t]) = Some t \<longleftrightarrow> xs = [t]"
proof
  assume h: "hd_opt (remove1 t xs @ [t]) = Some t"
  show "xs = [t]"
  proof (cases "remove1 t xs")
    case Nil
    then show ?thesis using assms(2) by (cases xs) (auto split: if_splits)
  next
    case (Cons x ys)
    then have "t \<in> set (remove1 t xs)" using h by (simp add: hd_opt_def)
    then show ?thesis using assms(1) by simp
  qed
qed (simp add: hd_opt_def)

text \<open>The caller of a yield: a runnable thread of a process, on a core, that has not been told to skip yields.\<close>

definition can_yield :: "KernelCore \<Rightarrow> nat \<Rightarrow> nat \<Rightarrow> bool" where
  "can_yield k process c \<longleftrightarrow>
     queued k (current_thread k) \<and> m_parent (threads k (current_thread k)) = Some process \<and>
     m_core_id (threads k (current_thread k)) = int c \<and> m_priority (threads k (current_thread k)) \<le> LowestThreadPriority \<and>
     m_yield_schedule_count (threads k (current_thread k)) \<noteq> p_schedule_count (processes k process)"

lemma can_yieldD:
  assumes "can_yield k process c"
  shows "queued k (current_thread k)" "m_parent (threads k (current_thread k)) = Some process"
    "m_core_id (threads k (current_thread k)) = int c" "m_priority (threads k (current_thread k)) \<le> LowestThreadPriority"
    "GetRawState k (current_thread k) = ThreadState_Runnable"
    "m_yield_schedule_count (threads k (current_thread k)) \<noteq> p_schedule_count (processes k process)"
  using assms by (simp_all add: can_yield_def queued_def)

lemma SetYieldScheduleCount_simps [kernel_simps]:
  "current_thread (SetYieldScheduleCount t n k) = current_thread k" "processes (SetYieldScheduleCount t n k) = processes k"
  "m_yield_schedule_count (threads (SetYieldScheduleCount t n k) t) = n"
  "m_parent (threads (SetYieldScheduleCount t n k) s) = m_parent (threads k s)"
  by (simp_all add: SetYieldScheduleCount_def kernel_simps)

lemma YieldWithoutCoreMigration_ok:
  assumes "sched_ok k Q" and "can_yield k process c"
  defines "t \<equiv> current_thread k"
  defines "p \<equiv> nat (m_priority (threads k t))"
  shows "\<exists>k'. YieldWithoutCoreMigration k = Some k' \<and>
    sched_ok k' (Q(c := set_queue (Q c) Scheduled p (remove1 t (Q c Scheduled p) @ [t]))) \<and>
    (if Q c Scheduled p = [t] then YieldWithoutCoreMigration k' = Some k' else m_scheduler_update_needed k')"
proof -
  note y = can_yieldD [OF assms(2), folded t_def]
  note at = scheduled_at [OF assms(1) y(1,3,4), folded p_def]
  let ?xs = "remove1 t (Q c Scheduled p) @ [t]" and ?Q = "Q(c := set_queue (Q c) Scheduled p (remove1 t (Q c Scheduled p) @ [t]))"
  obtain q' where q': "MoveToScheduledBack (member_of k t) (m_priority_queue k) = Some (hd_opt ?xs, q')"
    "sched_ok (k\<lparr>m_priority_queue := q'\<rparr>) ?Q" using MoveToScheduledBack_ok [OF assms(1) at(1,2)] by blast
  let ?k1 = "IncrementScheduledCount t (k\<lparr>m_priority_queue := q'\<rparr>)"
  let ?k' = "if hd_opt ?xs \<noteq> Some t then SetSchedulerUpdateNeeded ?k1
    else SetYieldScheduleCount t (p_schedule_count (processes ?k1 process)) ?k1"
  have "YieldWithoutCoreMigration k = Some ?k'"
    using y q'(1) by (simp add: YieldWithoutCoreMigration_def t_def [symmetric] Let_def)
  moreover have "sched_ok ?k' ?Q" using q'(2) by simp
  moreover have alone: "hd_opt ?xs = Some t \<longleftrightarrow> Q c Scheduled p = [t]"
    by (rule alone_iff [OF rep_distinct [OF sched_okD(1) [OF assms(1)]] at(1)])
  moreover have "YieldWithoutCoreMigration (SetYieldScheduleCount t (p_schedule_count (processes ?k1 process)) ?k1)
      = Some (SetYieldScheduleCount t (p_schedule_count (processes ?k1 process)) ?k1)"
    using y(2) by (simp add: YieldWithoutCoreMigration_def kernel_simps t_def [symmetric] Let_def)
  ultimately show ?thesis by (auto simp: kernel_simps)
qed

lemma YieldWithCoreMigration_ok:
  assumes "sched_ok k Q" and "can_yield k process c"
  defines "t \<equiv> current_thread k"
  defines "p \<equiv> nat (m_priority (threads k t))"
  shows "\<exists>k' Q' ys. YieldWithCoreMigration k = Some k' \<and> sched_ok k' Q' \<and> length ys \<le> 1 \<and>
    Q' c Scheduled p = ys @ remove1 t (Q c Scheduled p) @ [t] \<and>
    (Q c Scheduled p \<noteq> [t] \<or> (\<exists>s. m_core_id (threads k' s) \<noteq> m_core_id (threads k s)) \<longrightarrow> m_scheduler_update_needed k') \<and>
    (\<exists>k2 n. pulls c k k2 \<and> (threads k' = threads k2 \<or> threads k' = threads (SetYieldScheduleCount t n k2)))"
proof -
  note y = can_yieldD [OF assms(2), folded t_def]
  note at = scheduled_at [OF assms(1) y(1,3,4), folded p_def]
  let ?xs = "remove1 t (Q c Scheduled p) @ [t]"
  define Q1 where "Q1 = Q(c := set_queue (Q c) Scheduled p ?xs)"
  obtain q' where q': "MoveToScheduledBack (member_of k t) (m_priority_queue k) = Some (hd_opt ?xs, q')"
    "sched_ok (k\<lparr>m_priority_queue := q'\<rparr>) Q1" using MoveToScheduledBack_ok [OF assms(1) at(1,2)] unfolding Q1_def by blast
  define k1 where "k1 = IncrementScheduledCount t (k\<lparr>m_priority_queue := q'\<rparr>)"
  have k1: "sched_ok k1 Q1" "threads k1 = threads k" using q'(2) by (simp_all add: k1_def kernel_simps)
  have f: "GetSuggestedFront (int c) (m_priority_queue k1) = Some (hd_opt (run_order (Q1 c) Suggested 0))"
    using GetFront_rep [OF sched_okD(1) [OF k1(1)] at(2)] by (simp add: GetSuggestedFront_def)
  have "hd_opt ?xs = None \<Longrightarrow> m_priority (threads k1 t) > LowestThreadPriority" by (simp add: hd_opt_def)
  from yield_migrate_ok [OF k1(1) at(2) this, where recheck = False] obtain suggested r k2 Q2
    where k2: "yield_migrate (int c) t (hd_opt ?xs) False (hd_opt (run_order (Q1 c) Suggested 0)) k1 = Some (suggested, r, k2)"
      "suggested = None \<and> k2 = k1 \<and> Q2 = Q1 \<or> (\<exists>s. suggested = Some s \<and> migrated c True s k1 Q1 k2 Q2)" by blast
  then have "k2 = k1 \<and> Q2 = Q1 \<or> (\<exists>s. migrated c True s k1 Q1 k2 Q2)" by blast
  note ok2 = one_migration [OF k1(1) this]
  let ?n = "p_schedule_count (processes k2 process)"
  let ?k' = "if suggested \<noteq> None \<or> hd_opt ?xs \<noteq> Some t then SetSchedulerUpdateNeeded k2
    else if \<not> r then SetYieldScheduleCount t ?n k2 else k2"
  have "YieldWithCoreMigration k = Some ?k'"
    using y q'(1) k2(1) f by (simp add: YieldWithCoreMigration_def t_def [symmetric] k1_def [symmetric] Let_def)
  moreover have "sched_ok ?k' Q2" using ok2(1) by simp
  moreover obtain ys where "length ys \<le> 1" "Q2 c Scheduled p = ys @ remove1 t (Q c Scheduled p) @ [t]"
    using ok2(3) [OF at(3)] by (auto simp: Q1_def set_queue_apply)
  moreover have "suggested \<noteq> None" if "m_core_id (threads ?k' s) \<noteq> m_core_id (threads k s)" for s
    using that k1(2) k2(2) by (auto simp: kernel_simps SetYieldScheduleCount_def split: if_splits)
  then have "suggested \<noteq> None \<or> hd_opt ?xs \<noteq> Some t"
    if "Q c Scheduled p \<noteq> [t] \<or> (\<exists>s. m_core_id (threads ?k' s) \<noteq> m_core_id (threads k s))"
    using that alone_iff [OF rep_distinct [OF sched_okD(1) [OF assms(1)]] at(1)] by blast
  then have "Q c Scheduled p \<noteq> [t] \<or> (\<exists>s. m_core_id (threads ?k' s) \<noteq> m_core_id (threads k s)) \<longrightarrow> m_scheduler_update_needed ?k'"
    by (simp add: kernel_simps split del: if_split)
  moreover have "pulls c k k2" by (rule pulls_trans [OF pulls_refl [OF k1(2)] ok2(2)])
  moreover have "threads ?k' = threads k2 \<or> threads ?k' = threads (SetYieldScheduleCount t ?n k2)" by (simp add: kernel_simps)
  ultimately show ?thesis by blast
qed

lemma run_order_others:
  assumes "others_kept t Q Q'" and "\<And>p. t \<notin> set (Q' c w p)"
  shows "run_order (Q' c) w 0 = removeAll t (run_order (Q c) w 0)"
proof -
  have "Q' c w p = removeAll t (Q c w p)" for p
    using assms(1) removeAll_id [OF assms(2) [of p]] by (simp add: others_kept_def)
  then have eq: "Q' c w = (\<lambda>p. removeAll t (Q c w p))" by (rule ext)
  show ?thesis unfolding run_order_def eq by (simp add: removeAll_filter_not_eq filter_concat comp_def)
qed

lemma YieldToAnyThread_ok:
  assumes "sched_ok k Q" and "can_yield k process c"
  defines "t \<equiv> current_thread k"
  shows "\<exists>k' Q'. YieldToAnyThread k = Some k' \<and> sched_ok k' Q' \<and>
    (run_order (Q c) Scheduled 0 \<noteq> [t] \<longrightarrow> m_core_id (threads k' t) = - 1 \<and> m_scheduler_update_needed k') \<and>
    ((\<exists>s. s \<noteq> t \<and> m_core_id (threads k' s) \<noteq> m_core_id (threads k s)) \<longrightarrow> m_scheduler_update_needed k')"
proof -
  note y = can_yieldD [OF assms(2), folded t_def]
  note at = scheduled_at [OF assms(1) y(1,3,4)]
  let ?m = "(member_of k t)\<lparr>mb_active_core := - 1\<rparr>"
  define Q1 where "Q1 = change_core ?m (int c) False Q"
  have n: "m_core_id (threads k t) \<noteq> - 1" using y(3) by simp
  obtain k1 where k1: "migrate (- 1) t False k = Some k1" "sched_ok k1 Q1" "others_kept t Q Q1" "threads k1 = threads (SetActiveCore t (- 1) k)"
    using migrate_ok [OF assms(1) y(1) disjI1 [OF refl] n, of False] unfolding Q1_def y(3) by auto
  define k2 where "k2 = IncrementScheduledCount t k1"
  have k2: "sched_ok k2 Q1" "m_core_id (threads k2 t) = - 1" using k1 by (simp_all add: k2_def kernel_simps SetActiveCore_def)
  have "t \<notin> set (Q1 c Scheduled p)" for p
    using queue_member(2) [OF k2(1), of t c Scheduled p] k2(2) by (auto simp: queue_kind_def split: if_splits)
  from run_order_others [OF k1(3) this] have ro: "run_order (Q1 c) Scheduled 0 = removeAll t (run_order (Q c) Scheduled 0)" .
  have f: "GetScheduledFront (int c) (m_priority_queue k2) = Some (hd_opt (run_order (Q1 c) Scheduled 0))"
    "GetSuggestedFront (int c) (m_priority_queue k2) = Some (hd_opt (run_order (Q1 c) Suggested 0))"
    using GetFront_rep [OF sched_okD(1) [OF k2(1)] at(2)] by (simp_all add: GetScheduledFront_def GetSuggestedFront_def)
  show ?thesis
  proof (cases "run_order (Q1 c) Scheduled 0 = []")
    case False
    then have "YieldToAnyThread k = Some (SetSchedulerUpdateNeeded k2)"
      using y k1(1) f by (simp add: YieldToAnyThread_def t_def [symmetric] k2_def [symmetric] Let_def hd_opt_def)
    then show ?thesis using k2 by (auto simp: kernel_simps)
  next
    case True
    have "t \<in> set (run_order (Q c) Scheduled 0)"
      unfolding run_order_member [OF assms(1)] using y by (simp add: queue_kind_def)
    moreover have "set (run_order (Q c) Scheduled 0) \<subseteq> {t}" using True ro by (auto simp: removeAll_filter_not_eq filter_empty_conv)
    moreover have "distinct (run_order (Q c) Scheduled 0)" by (rule distinct_run_order [OF sched_okD(1) [OF assms(1)] at(2)])
    ultimately have alone: "run_order (Q c) Scheduled 0 = [t]" 
      by (metis distinct_singleton empty_iff set_ConsD set_empty subset_singletonD distinct_length_2_or_more insert_iff list.set(2) neq_Nil_conv singletonD)
    obtain suggested k3 Q3 where k3: "yield_any (int c) (hd_opt (run_order (Q1 c) Suggested 0)) k2 = Some (suggested, k3)"
      "k3 = k2 \<and> Q3 = Q1 \<or> (\<exists>s. suggested = Some s \<and> migrated c False s k2 Q1 k3 Q3)" using yield_any_ok [OF k2(1) at(2)] by blast
    then have "sched_ok k3 Q3" using k2(1) unfolding migrated_def by blast
    let ?r = "if suggested \<noteq> Some t then SetSchedulerUpdateNeeded k3
        else SetYieldScheduleCount t (p_schedule_count (processes k3 process)) k3"
    have "YieldToAnyThread k = Some ?r"
      using y k1(1) f True k3(1) by (simp add: YieldToAnyThread_def t_def [symmetric] k2_def [symmetric] Let_def hd_opt_def)
    moreover have "m_core_id (threads k3 s) = m_core_id (threads k s)" if "s \<noteq> t" "suggested = Some t" for s
      using k3(2) that k1(4) by (auto simp: migrated_def SetActiveCore_def kernel_simps k2_def)
    then have "(\<exists>s. s \<noteq> t \<and> m_core_id (threads ?r s) \<noteq> m_core_id (threads k s)) \<longrightarrow> m_scheduler_update_needed ?r"
      by (auto simp: SetYieldScheduleCount_def kernel_simps split: if_splits)
    moreover have "sched_ok ?r Q3" using \<open>sched_ok k3 Q3\<close> by (simp add: kernel_simps)
    ultimately show ?thesis using alone by blast
  qed
qed

end
