(* ===== verification/Scheduler_Update.thy ===== *)
theory Scheduler_Update
  imports Scheduler
begin

text \<open>
  \<^verbatim>\<open>KScheduler::UpdateHighestPriorityThreads\<close>: the choice of the thread each core runs, and the migration of
  threads to idle cores.  Shown: the choice matches the queues, the mask of cores to reschedule is right, and no
  core is left idle while a thread waits that could run on it.
\<close>

section \<open>Selecting the thread of a core\<close>

lemma UpdateHighestPriorityThread_ok:
  fixes k k' :: KernelCore
  assumes "UpdateHighestPriorityThread core h k = (needed, k')"
  shows "same_view k k'" and "m_priority_queue k' = m_priority_queue k" and "current_thread k' = current_thread k"
    and "highest_priority_thread (schedulers k' d) = (if d = core then h else highest_priority_thread (schedulers k d))"
    and "s_core_id (schedulers k' d) = s_core_id (schedulers k d)"
    and "needed = (if highest_priority_thread (schedulers k core) = h then 0 else push_bit (s_core_id (schedulers k core)) 1)"
    and "needs_scheduling (schedulers k' d) \<longleftrightarrow>
      needs_scheduling (schedulers k d) \<or> d = core \<and> highest_priority_thread (schedulers k core) \<noteq> h"
    and "m_parent (threads k' t) = m_parent (threads k t)" and "m_num_kernel_waiters (threads k' t) = m_num_kernel_waiters (threads k t)"
    and "m_pinned_threads (processes k' p) = m_pinned_threads (processes k p)"
proof -
  let ?prev = "highest_priority_thread (schedulers k core)"
  define k1 where "k1 = (case ?prev of Some t \<Rightarrow> SetLastScheduledTick t (clock_ticks k) (IncrementScheduledCount t k) | None \<Rightarrow> k)"
  define k2 where "k2 = (if should_count_idle (schedulers k1 core)
      then case h of
        Some t \<Rightarrow> (case m_parent (threads k1 t) of
            Some process \<Rightarrow> set_process process (SetRunningThread (s_core_id (schedulers k core)) h (idle_count (schedulers k1 core)) 0) k1
          | None \<Rightarrow> k1)
      | None \<Rightarrow> set_scheduler core (\<lambda>s. s\<lparr>idle_count := idle_count s + 1\<rparr>) k1
      else k1)"
  have step: "(needed, k') = (if ?prev \<noteq> h then (push_bit (s_core_id (schedulers k core)) 1,
      set_scheduler core (\<lambda>s. s\<lparr>highest_priority_thread := h, needs_scheduling := True\<rparr>) k2) else (0, k))"
    using assms unfolding UpdateHighestPriorityThread_def Let_def k1_def [symmetric] k2_def [symmetric] by simp
  have v1: "same_view k k1"
    unfolding k1_def using same_view_trans [OF same_view_threads [of "IncrementScheduledCount _ k" k] same_view_SetLastScheduledTick]
    by (auto simp: kernel_simps same_view_threads split: option.split)
  have s1: "m_priority_queue k1 = m_priority_queue k" "schedulers k1 = schedulers k" "current_thread k1 = current_thread k"
    "m_parent (threads k1 t) = m_parent (threads k t)" "m_num_kernel_waiters (threads k1 t) = m_num_kernel_waiters (threads k t)"
    "m_pinned_threads (processes k1 p) = m_pinned_threads (processes k p)" for t p
    by (auto simp: k1_def kernel_simps SetLastScheduledTick_def IncrementScheduledCount_def set_process_def KProcess_IncrementScheduledCount_def
        split: option.split)
  have t2: "threads k2 = threads k1" by (simp add: k2_def kernel_simps split: option.split)
  have s2: "m_priority_queue k2 = m_priority_queue k1" "current_thread k2 = current_thread k1"
    "highest_priority_thread (schedulers k2 d) = highest_priority_thread (schedulers k1 d)"
    "s_core_id (schedulers k2 d) = s_core_id (schedulers k1 d)" "needs_scheduling (schedulers k2 d) = needs_scheduling (schedulers k1 d)"
    "m_pinned_threads (processes k2 p) = m_pinned_threads (processes k1 p)" for d p
    by (auto simp: k2_def kernel_simps set_scheduler_def set_process_def SetRunningThread_def split: option.split)
  have v2: "same_view k k2" by (rule same_view_trans [OF v1 same_view_threads [OF t2]])
  have v3: "same_view k (set_scheduler core f k2)" for f by (rule same_view_trans [OF v2 same_view_threads]) (simp add: kernel_simps)
  show "same_view k k'" using step v3 by (auto simp: same_view_threads split: if_splits)
  show "m_priority_queue k' = m_priority_queue k" "current_thread k' = current_thread k"
    "highest_priority_thread (schedulers k' d) = (if d = core then h else highest_priority_thread (schedulers k d))"
    "s_core_id (schedulers k' d) = s_core_id (schedulers k d)"
    "needed = (if highest_priority_thread (schedulers k core) = h then 0 else push_bit (s_core_id (schedulers k core)) 1)"
    "needs_scheduling (schedulers k' d) \<longleftrightarrow>
      needs_scheduling (schedulers k d) \<or> d = core \<and> highest_priority_thread (schedulers k core) \<noteq> h"
    "m_parent (threads k' t) = m_parent (threads k t)" "m_num_kernel_waiters (threads k' t) = m_num_kernel_waiters (threads k t)"
    "m_pinned_threads (processes k' p) = m_pinned_threads (processes k p)"
    using step s1 s2 t2 by (auto simp: kernel_simps set_scheduler_def split: if_splits)
qed

text \<open>
  The bookkeeping of an update that started in \<open>k0\<close>: the schedulers hold the chosen threads, a core outside
  the mask has kept its thread, and a core in the mask is marked for scheduling.
\<close>

definition update_ok :: "KernelCore \<Rightarrow> update_state \<Rightarrow> bool" where
  "update_ok k0 st \<longleftrightarrow>
     (case st of (needing, tops, k) \<Rightarrow>
        current_thread k = current_thread k0 \<and>
        (\<forall>c<NUM_CPU_CORES. s_core_id (schedulers k c) = c \<and>
           (\<not> bit needing c \<longrightarrow> highest_priority_thread (schedulers k c) = highest_priority_thread (schedulers k0 c)) \<and>
           (bit needing c \<longrightarrow> needs_scheduling (schedulers k c))))"

lemma set_top_ok:
  assumes "set_top core h st = (needing', tops', k')" and "st = (needing, tops, k)"
  shows "same_view k k'" and "m_priority_queue k' = m_priority_queue k" and "tops' = tops(core := h)"
    and "highest_priority_thread (schedulers k' d) = (if d = core then h else highest_priority_thread (schedulers k d))"
    and "m_parent (threads k' t) = m_parent (threads k t)" and "m_num_kernel_waiters (threads k' t) = m_num_kernel_waiters (threads k t)"
    and "m_pinned_threads (processes k' p) = m_pinned_threads (processes k p)"
    and "update_ok k0 st \<Longrightarrow> core < NUM_CPU_CORES \<Longrightarrow> update_ok k0 (needing', tops', k')"
proof -
  obtain needed where u: "UpdateHighestPriorityThread core h k = (needed, k')" and n: "needing' = needing OR needed" "tops' = tops(core := h)"
    using assms by (auto simp: set_top_def split: prod.splits)
  note U = UpdateHighestPriorityThread_ok [OF u]
  show "same_view k k'" "m_priority_queue k' = m_priority_queue k" "tops' = tops(core := h)"
    "highest_priority_thread (schedulers k' d) = (if d = core then h else highest_priority_thread (schedulers k d))"
    "m_parent (threads k' t) = m_parent (threads k t)" "m_num_kernel_waiters (threads k' t) = m_num_kernel_waiters (threads k t)"
    "m_pinned_threads (processes k' p) = m_pinned_threads (processes k p)"
    using U(1,2,4,8-10) n(2) by simp_all
  assume ok: "update_ok k0 st" and core: "core < NUM_CPU_CORES"
  then have id: "s_core_id (schedulers k core) = core" using assms(2) by (simp add: update_ok_def)
  have bits: "bit needing' d \<longleftrightarrow> bit needing d \<or> d = core \<and> highest_priority_thread (schedulers k core) \<noteq> h" if "d < NUM_CPU_CORES" for d
    using that core by (auto simp: n(1) U(6) id bit_or_iff bit_exp_iff NUM_CPU_CORES_def)
  show "update_ok k0 (needing', tops', k')"
    using ok bits U(3-5,7) unfolding assms(2) update_ok_def prod.case by auto
qed

section \<open>The first pass over the cores\<close>

text \<open>The thread the first pass chooses for a core, and whether the core has nothing to run.\<close>

definition chosen :: "KernelCore \<Rightarrow> (nat \<Rightarrow> core_queues) \<Rightarrow> nat \<Rightarrow> nat option" where
  "chosen k Q c =
     (case run_order (Q c) Scheduled 0 of
        [] \<Rightarrow> None
      | t # _ \<Rightarrow>
          (case m_parent (threads k t) of
             None \<Rightarrow> Some t
           | Some parent \<Rightarrow>
               (case m_pinned_threads (processes k parent) c of
                  None \<Rightarrow> Some t
                | Some pinned \<Rightarrow>
                    if pinned \<noteq> t \<and> m_num_kernel_waiters (threads k t) = 0
                    then if GetRawState k pinned = ThreadState_Runnable then Some pinned else None
                    else Some t)))"

lemma select_top_ok:
  assumes "sched_ok k Q" and "c < NUM_CPU_CORES"
  shows "select_top c k = Some (chosen k Q c, run_order (Q c) Scheduled 0 = [])"
proof -
  have "GetScheduledFront (int c) (m_priority_queue k) = Some (hd_opt (run_order (Q c) Scheduled 0))"
    using GetFront_rep [OF sched_okD(1) [OF assms(1)] assms(2)] by (simp add: GetScheduledFront_def)
  then show ?thesis
    by (cases "run_order (Q c) Scheduled 0")
      (simp_all add: select_top_def chosen_def hd_opt_def GetPinnedThread_def split: option.split)
qed

definition same_choice :: "KernelCore \<Rightarrow> KernelCore \<Rightarrow> bool" where
  "same_choice k k' \<longleftrightarrow>
     (\<forall>t. m_parent (threads k' t) = m_parent (threads k t) \<and>
        m_num_kernel_waiters (threads k' t) = m_num_kernel_waiters (threads k t) \<and> GetRawState k' t = GetRawState k t) \<and>
     (\<forall>p. m_pinned_threads (processes k' p) = m_pinned_threads (processes k p))"

lemma chosen_cong: "same_choice k k' \<Longrightarrow> chosen k' Q c = chosen k Q c"
  unfolding same_choice_def chosen_def by (auto split: list.split option.split)

lemma UpdateHighestPriorityThread_state:
  "GetRawState (snd (UpdateHighestPriorityThread core h k)) t = GetRawState k t"
  by (auto simp: UpdateHighestPriorityThread_def Let_def GetRawState_def kernel_simps SetLastScheduledTick_def
      split: option.split)

lemma set_top_choice:
  assumes "set_top core h (needing, tops, k) = (needing', tops', k')"
  shows "same_choice k k'" and "sched_ok k' Q = sched_ok k Q"
proof -
  note S = set_top_ok [OF assms refl]
  have "k' = snd (UpdateHighestPriorityThread core h k)" using assms by (simp add: set_top_def split: prod.splits)
  then show "same_choice k k'" using S(5-7) UpdateHighestPriorityThread_state by (simp add: same_choice_def)
  show "sched_ok k' Q = sched_ok k Q" using S(1,2) by (rule sched_ok_view)
qed

lemma same_choice_trans: "same_choice k k1 \<Longrightarrow> same_choice k1 k2 \<Longrightarrow> same_choice k k2"
  by (simp add: same_choice_def)

lemma update_cores_ok:
  assumes "sched_ok k Q" and "update_ok k0 (needing, tops, k)" and "\<forall>c\<in>set cores. c < NUM_CPU_CORES" and "distinct cores"
  shows "\<exists>idle' needing' tops' k'. update_cores cores idle (needing, tops, k) = Some (idle', needing', tops', k') \<and>
    sched_ok k' Q \<and> same_view k k' \<and> same_choice k k' \<and> update_ok k0 (needing', tops', k') \<and>
    (\<forall>d. tops' d = (if d \<in> set cores then chosen k Q d else tops d)) \<and>
    (\<forall>d. highest_priority_thread (schedulers k' d) =
       (if d \<in> set cores then chosen k Q d else highest_priority_thread (schedulers k d))) \<and>
    (\<forall>d. bit idle' d \<longleftrightarrow> bit idle d \<or> d \<in> set cores \<and> run_order (Q d) Scheduled 0 = [])"
  using assms
proof (induction cores arbitrary: idle needing tops k)
  case Nil
  then show ?case by (simp add: same_view_def same_choice_def)
next
  case (Cons c cores)
  have c: "c < NUM_CPU_CORES" using Cons.prems(3) by simp
  let ?idle = "if run_order (Q c) Scheduled 0 = [] then idle OR push_bit c 1 else idle"
  obtain needing1 tops1 k1 where st1: "set_top c (chosen k Q c) (needing, tops, k) = (needing1, tops1, k1)" by (metis prod_cases3)
  note S = set_top_ok [OF st1 refl] and C = set_top_choice [OF st1]
  have "update_ok k0 (needing1, tops1, k1)" using S(8) [OF Cons.prems(2) c] .
  with Cons.IH [of k1 needing1 tops1 ?idle] C(2) Cons.prems obtain idle' needing' tops' k'
    where k': "update_cores cores ?idle (needing1, tops1, k1) = Some (idle', needing', tops', k')"
      "sched_ok k' Q" "same_view k1 k'" "same_choice k1 k'" "update_ok k0 (needing', tops', k')"
      "\<forall>d. tops' d = (if d \<in> set cores then chosen k1 Q d else tops1 d)"
      "\<forall>d. highest_priority_thread (schedulers k' d) =
        (if d \<in> set cores then chosen k1 Q d else highest_priority_thread (schedulers k1 d))"
      "\<forall>d. bit idle' d \<longleftrightarrow> bit ?idle d \<or> d \<in> set cores \<and> run_order (Q d) Scheduled 0 = []" by auto
  have "update_cores (c # cores) idle (needing, tops, k) = Some (idle', needing', tops', k')"
    using k'(1) select_top_ok [OF Cons.prems(1) c] st1 by simp
  moreover have bits: "bit ?idle d \<longleftrightarrow> bit idle d \<or> d = c \<and> run_order (Q c) Scheduled 0 = []" for d
    using c by (auto simp: bit_or_iff bit_exp_iff NUM_CPU_CORES_def)
  have same: "chosen k1 Q d = chosen k Q d" for d by (rule chosen_cong [OF C(1)])
  have "\<forall>d. tops' d = (if d \<in> set (c # cores) then chosen k Q d else tops d)" using k'(6) S(3) same by simp
  moreover have "\<forall>d. highest_priority_thread (schedulers k' d) =
      (if d \<in> set (c # cores) then chosen k Q d else highest_priority_thread (schedulers k d))" using k'(7) S(4) same by simp
  moreover have "\<forall>d. bit idle' d \<longleftrightarrow> bit idle d \<or> d \<in> set (c # cores) \<and> run_order (Q d) Scheduled 0 = []"
    using k'(8) bits by auto
  ultimately show ?case using k'(2,5) same_view_trans [OF S(1) k'(3)] same_choice_trans [OF C(1) k'(4)] by blast
qed

section \<open>Filling an idle core\<close>

definition visit_suggested ::
    "nat \<Rightarrow> nat \<Rightarrow> nat list \<times> update_state \<Rightarrow> ((update_state \<times> nat list \<times> bool) + (nat list \<times> update_state)) option" where
  "visit_suggested core_id s w =
     (case w of (candidates, needing, top_threads, k) \<Rightarrow> do {
        top_thread \<leftarrow> top_of top_threads (m_core_id (threads k s));
        if top_thread \<noteq> Some s
        then if \<not> migration_allowed top_thread k then Some (Inl ((needing, top_threads, k), candidates, False))
             else do {
               k1 \<leftarrow> migrate (int core_id) s False k;
               Some (Inl (set_top core_id (Some s) (needing, top_threads, k1), candidates, False))
             }
        else if length candidates \<ge> NUM_CPU_CORES then None
        else Some (Inr (candidates @ [nat (m_core_id (threads k s))], needing, top_threads, k))
      })"

interpretation suggested_walk: queue_walk "\<lambda>s w. migrate_suggested core_id (fst w) s (snd w)" "visit_suggested core_id"
    "\<lambda>s w. GetSuggestedNext (int core_id) (member_of (snd (snd (snd w))) s) (m_priority_queue (snd (snd (snd w))))"
    "\<lambda>w. (snd w, fst w, True)" for core_id
proof unfold_locales
  fix m and w :: "nat list \<times> update_state"
  show "migrate_suggested core_id (fst w) None (snd w) = Some (snd w, fst w, True)" by (subst migrate_suggested.simps) simp
  show "migrate_suggested core_id (fst w) (Some m) (snd w) = visit_suggested core_id m w \<bind>
      (\<lambda>r. case r of Inl res \<Rightarrow> Some res
       | Inr w' \<Rightarrow> GetSuggestedNext (int core_id) (member_of (snd (snd (snd w'))) m) (m_priority_queue (snd (snd (snd w')))) \<bind>
           (\<lambda>n. migrate_suggested core_id (fst w') n (snd w')))"
    by (subst migrate_suggested.simps)
      (simp add: visit_suggested_def split_beta Let_def Option.bind_assoc bind_if cong: if_cong)
qed

lemma core_valid:
  assumes "sched_ok k Q" and "queued k t" and "m_core_id (threads k t) \<ge> 0"
  shows "nat (m_core_id (threads k t)) < NUM_CPU_CORES" and "IsValidCore (m_core_id (threads k t))"
proof -
  have "has_core (member_of k t) (nat (m_core_id (threads k t)))" "\<forall>c. has_core (member_of k t) c \<longrightarrow> c < NUM_CPU_CORES"
    using sched_okD(2) [OF assms(1,2)] assms(3) by (simp_all add: member_ok_def)
  then show c: "nat (m_core_id (threads k t)) < NUM_CPU_CORES" by blast
  then show "IsValidCore (m_core_id (threads k t))" using assms(3) by (simp add: IsValidCore_def)
qed

text \<open>The thread is the one chosen for the core it is on.\<close>

definition is_top :: "KernelCore \<Rightarrow> (nat \<Rightarrow> nat option) \<Rightarrow> nat \<Rightarrow> bool" where
  "is_top k tops s \<longleftrightarrow> m_core_id (threads k s) \<ge> 0 \<and> tops (nat (m_core_id (threads k s))) = Some s"

lemma few_candidates:
  assumes "distinct xs" and "\<forall>s\<in>set xs. is_top k tops s \<and> nat (m_core_id (threads k s)) < NUM_CPU_CORES \<and> m_core_id (threads k s) \<noteq> int c"
    and "c < NUM_CPU_CORES"
  shows "length xs < NUM_CPU_CORES"
proof -
  let ?f = "\<lambda>s. nat (m_core_id (threads k s))"
  have "inj_on ?f (set xs)"
  proof (rule inj_onI)
    fix s t assume "s \<in> set xs" "t \<in> set xs" "?f s = ?f t"
    then have "tops (?f s) = Some s" "tops (?f s) = Some t" using assms(2) unfolding is_top_def by (metis, metis)
    then show "s = t" by simp
  qed
  moreover have "?f ` set xs \<subseteq> {..<NUM_CPU_CORES} - {c}" using assms(2) by (auto simp: is_top_def)
  ultimately have "card (set xs) \<le> card ({..<NUM_CPU_CORES} - {c})" by (metis card_inj_on_le finite_Diff finite_lessThan)
  also have "\<dots> < NUM_CPU_CORES" using assms(3) by simp
  finally show ?thesis using assms(1) by (simp add: distinct_card)
qed

text \<open>A core runs a thread that is too important to have its queue rearranged.\<close>

definition blocked :: "KernelCore \<Rightarrow> (nat \<Rightarrow> nat option) \<Rightarrow> bool" where
  "blocked k tops \<longleftrightarrow>
     (\<exists>c<NUM_CPU_CORES. \<exists>t. tops c = Some t \<and> m_priority (threads k t) < HighestCoreMigrationAllowedPriority)"

lemma top_of_ok:
  assumes "sched_ok k Q" and "queued k s"
  shows "\<exists>x. top_of tops (m_core_id (threads k s)) = Some x \<and> (x = Some s \<longleftrightarrow> is_top k tops s) \<and>
    (\<not> migration_allowed x k \<longrightarrow> blocked k tops)"
proof (cases "m_core_id (threads k s) \<ge> 0")
  case True
  note c = core_valid [OF assms True]
  have "\<not> migration_allowed (tops (nat (m_core_id (threads k s)))) k \<longrightarrow> blocked k tops"
    using c(1) by (auto simp: migration_allowed_def blocked_def split: option.splits)
  then show ?thesis using True c(2) by (simp add: top_of_def is_top_def)
qed (simp add: top_of_def is_top_def migration_allowed_def)

lemma migrate_suggested_ok:
  assumes "sched_ok k Q" and "c < NUM_CPU_CORES"
  defines "xs \<equiv> run_order (Q c) Suggested 0"
  defines "cores \<equiv> map (\<lambda>s. nat (m_core_id (threads k s)))"
  shows "\<exists>st' candidates failed. migrate_suggested c [] (hd_opt xs) (needing, tops, k) = Some (st', candidates, failed) \<and>
    (if failed then st' = (needing, tops, k) \<and> candidates = cores xs \<and> (\<forall>s\<in>set xs. is_top k tops s)
     else st' = (needing, tops, k) \<and> blocked k tops \<or>
       (\<exists>s k1 Q1. migrated c False s k Q k1 Q1 \<and> s \<in> set xs \<and> \<not> is_top k tops s \<and> st' = set_top c (Some s) (needing, tops, k1)))"
proof -
  let ?R = "\<lambda>(st', candidates, failed).
    if failed then st' = (needing, tops, k) \<and> candidates = cores xs \<and> (\<forall>s\<in>set xs. is_top k tops s)
     else st' = (needing, tops, k) \<and> blocked k tops \<or>
       (\<exists>s k1 Q1. migrated c False s k Q k1 Q1 \<and> s \<in> set xs \<and> \<not> is_top k tops s \<and> st' = set_top c (Some s) (needing, tops, k1))"
  let ?I = "\<lambda>as w. w = (cores as, needing, tops, k) \<and> (\<forall>s\<in>set as. is_top k tops s)"
  have "\<exists>res. migrate_suggested c (fst ([] :: nat list, needing, tops, k)) (hd_opt xs) (snd ([] :: nat list, needing, tops, k)) = Some res \<and> ?R res"
  proof (rule suggested_walk.walk_list [where I = ?I])
    fix as s bs w assume split: "xs = as @ s # bs" and w: "?I as w"
    have mem: "queued k t \<and> queue_kind (member_of k t) c = Some Suggested" if "t \<in> set xs" for t
      using run_order_member [OF assms(1), of t c Suggested] that by (simp add: xs_def)
    have s: "queued k s" "queue_kind (member_of k s) c = Some Suggested" using mem split by simp_all
    obtain x where x: "top_of tops (m_core_id (threads k s)) = Some x" "x = Some s \<longleftrightarrow> is_top k tops s"
      "\<not> migration_allowed x k \<longrightarrow> blocked k tops"
      using top_of_ok [OF assms(1) s(1)] by blast
    obtain k1 Q1 where k1: "migrate (int c) s False k = Some k1" "migrated c False s k Q k1 Q1" using migrate_result [OF assms(1) s] by blast
    have nxt: "GetSuggestedNext (int c) (member_of k s) (m_priority_queue k) = Some (hd_opt bs)"
      using suggested_next [OF assms(1,2) split [unfolded xs_def]] .
    have len: "length (cores as) < NUM_CPU_CORES"
    proof -
      have "distinct as" using distinct_run_order [OF sched_okD(1) [OF assms(1)] assms(2), of Suggested 0] split by (simp add: xs_def)
      moreover have "\<forall>t\<in>set as. is_top k tops t \<and> nat (m_core_id (threads k t)) < NUM_CPU_CORES \<and> m_core_id (threads k t) \<noteq> int c"
        using w mem split core_valid(1) [OF assms(1)] by (simp add: is_top_def suggested_kind)
      ultimately show ?thesis using few_candidates [OF _ _ assms(2)] by (simp add: cores_def)
    qed
    show "(\<exists>res. visit_suggested c s w = Some (Inl res) \<and> ?R res) \<or>
      (\<exists>w'. visit_suggested c s w = Some (Inr w') \<and> ?I (as @ [s]) w' \<and>
        GetSuggestedNext (int c) (member_of (snd (snd (snd w'))) s) (m_priority_queue (snd (snd (snd w')))) = Some (hd_opt bs))"
    proof (cases "is_top k tops s")
      case True
      then have "visit_suggested c s w = Some (Inr (cores (as @ [s]), needing, tops, k))"
        using x w len by (simp add: visit_suggested_def cores_def)
      then show ?thesis using True w nxt by auto
    next
      case False
      show ?thesis
      proof (cases "migration_allowed x k")
        case True
        then have "visit_suggested c s w = Some (Inl (set_top c (Some s) (needing, tops, k1), cores as, False))"
          using x False w k1(1) by (simp add: visit_suggested_def)
        moreover have "s \<in> set xs" using split by simp
        ultimately show ?thesis using k1(2) False by auto
      next
        case na: False
        then have "visit_suggested c s w = Some (Inl ((needing, tops, k), cores as, False))" "blocked k tops"
          using x False w by (auto simp: visit_suggested_def)
        then show ?thesis by simp
      qed
    qed
  qed (auto simp: cores_def)
  then show ?thesis by auto
qed

lemma same_viewD:
  assumes "same_view k k'"
  shows "member_of k' t = member_of k t" "queued k' t = queued k t" "m_core_id (threads k' t) = m_core_id (threads k t)"
    "m_priority (threads k' t) = m_priority (threads k t)"
proof -
  show m: "member_of k' t = member_of k t" and "queued k' t = queued k t" using assms by (simp_all add: same_view_def)
  show "m_core_id (threads k' t) = m_core_id (threads k t)" using arg_cong [OF m, of mb_active_core] by simp
  show "m_priority (threads k' t) = m_priority (threads k t)" using arg_cong [OF m, of mb_priority] by simp
qed

text \<open>
  The chosen thread \<open>s\<close> of core \<open>d\<close> goes to the idle core \<open>c\<close>, and its successor on \<open>d\<close> takes its place.
\<close>

definition swapped ::
    "nat \<Rightarrow> nat \<Rightarrow> nat \<Rightarrow> nat \<Rightarrow> update_state \<Rightarrow> (nat \<Rightarrow> core_queues) \<Rightarrow> update_state \<Rightarrow> (nat \<Rightarrow> core_queues) \<Rightarrow> bool" where
  "swapped c d s n st Q st' Q' \<longleftrightarrow>
     (\<exists>as bs. run_order (Q d) Scheduled 0 = as @ s # n # bs) \<and>
     (\<exists>needing1 tops1 k1 k2. set_top d (Some n) st = (needing1, tops1, k1) \<and> migrated c False s k1 Q k2 Q' \<and>
        st' = set_top c (Some s) (needing1, tops1, k2))"

lemma migrate_candidates_ok:
  assumes "sched_ok k Q" and "c < NUM_CPU_CORES"
    and "\<forall>s\<in>set xs. is_top k tops s \<and> s \<in> set (run_order (Q c) Suggested 0)"
  defines "core \<equiv> \<lambda>s. nat (m_core_id (threads k s))"
  shows "\<exists>st'. migrate_candidates c (map core xs) (needing, tops, k) = Some st' \<and>
    (st' = (needing, tops, k) \<and> (\<forall>s\<in>set xs. \<exists>as. run_order (Q (core s)) Scheduled 0 = as @ [s]) \<or>
     (\<exists>s\<in>set xs. \<exists>n Q'. swapped c (core s) s n (needing, tops, k) Q st' Q'))"
  using assms(3)
proof (induction xs)
  case (Cons s xs)
  have top: "m_core_id (threads k s) = int (core s)" "tops (core s) = Some s" using Cons.prems by (simp_all add: is_top_def core_def)
  have mem: "queued k s" "queue_kind (member_of k s) c = Some Suggested" "m_priority (threads k s) \<le> LowestThreadPriority"
    using Cons.prems run_order_member [OF assms(1), of s c Suggested] by simp_all
  have kd: "queue_kind (member_of k s) (core s) = Some Scheduled" using top(1) by (simp add: queue_kind_def)
  have d: "core s < NUM_CPU_CORES" by (rule member_core [OF sched_okD(2) [OF assms(1) mem(1)] kd])
  have "s \<in> set (run_order (Q (core s)) Scheduled 0)" unfolding run_order_member [OF assms(1)] using mem kd by simp
  then obtain as bs where ro: "run_order (Q (core s)) Scheduled 0 = as @ s # bs" by (meson split_list)
  have nxt: "GetScheduledNext (int (core s)) (member_of k s) (m_priority_queue k) = Some (hd_opt bs)"
    using next_in_order [OF assms(1) d ro] by (simp add: GetScheduledNext_def)
  show ?case
  proof (cases bs)
    case Nil
    then have "migrate_candidates c (map core (s # xs)) (needing, tops, k) = migrate_candidates c (map core xs) (needing, tops, k)"
      using nxt top(2) by (simp add: hd_opt_def)
    then show ?thesis using Cons.IH Cons.prems ro Nil by auto
  next
    case (Cons n bs')
    obtain needing1 tops1 k1 where st1: "set_top (core s) (Some n) (needing, tops, k) = (needing1, tops1, k1)" by (metis prod_cases3)
    note v = same_viewD [OF set_top_ok(1) [OF st1 refl], of s]
    have ok1: "sched_ok k1 Q" using set_top_choice(2) [OF st1] assms(1) by simp
    obtain k2 Q2 where k2: "migrate (int c) s False k1 = Some k2" "migrated c False s k1 Q k2 Q2"
      using migrate_result [OF ok1, of s c False] mem v by auto
    have "on_queue (KPriorityQueue_ChangeCore (int (core s)) (member_of (SetActiveCore s (int c) k1) s) False) (SetActiveCore s (int c) k1) = Some k2"
      using k2(1) v(3) top(1) by (simp add: migrate_def Let_def)
    then have "migrate_candidates c (map core (s # xs)) (needing, tops, k) = Some (set_top c (Some s) (needing1, tops1, k2))"
      using nxt top(2) st1 Cons by (simp add: hd_opt_def)
    moreover have "swapped c (core s) s n (needing, tops, k) Q (set_top c (Some s) (needing1, tops1, k2)) Q2"
      unfolding swapped_def using ro Cons st1 k2(2) by blast
    ultimately show ?thesis by auto
  qed
qed simp

lemma fill_core_cases:
  assumes "sched_ok k Q" and "c < NUM_CPU_CORES"
  shows "\<exists>st'. fill_core c (needing, tops, k) = Some st' \<and>
    (st' = (needing, tops, k) \<and>
       (blocked k tops \<or> (\<forall>s\<in>set (run_order (Q c) Suggested 0).
          is_top k tops s \<and> (\<exists>as. run_order (Q (nat (m_core_id (threads k s)))) Scheduled 0 = as @ [s]))) \<or>
     (\<exists>s k1 Q1. migrated c False s k Q k1 Q1 \<and> s \<in> set (run_order (Q c) Suggested 0) \<and> \<not> is_top k tops s \<and>
        st' = set_top c (Some s) (needing, tops, k1)) \<or>
     (\<exists>s n Q1. s \<in> set (run_order (Q c) Suggested 0) \<and> is_top k tops s \<and>
        swapped c (nat (m_core_id (threads k s))) s n (needing, tops, k) Q st' Q1))"
proof -
  let ?xs = "run_order (Q c) Suggested 0"
  have f: "GetSuggestedFront (int c) (m_priority_queue k) = Some (hd_opt ?xs)"
    using GetFront_rep [OF sched_okD(1) [OF assms(1)] assms(2)] by (simp add: GetSuggestedFront_def)
  show ?thesis
  proof (cases "?xs = []")
    case True
    then show ?thesis using f by (simp add: fill_core_def hd_opt_def)
  next
    case False
    then obtain x where ne: "hd_opt ?xs = Some x" by (simp add: hd_opt_def)
    obtain st' candidates failed where w: "migrate_suggested c [] (hd_opt ?xs) (needing, tops, k) = Some (st', candidates, failed)"
      "if failed then st' = (needing, tops, k) \<and> candidates = map (\<lambda>s. nat (m_core_id (threads k s))) ?xs \<and> (\<forall>s\<in>set ?xs. is_top k tops s)
       else st' = (needing, tops, k) \<and> blocked k tops \<or>
        (\<exists>s k1 Q1. migrated c False s k Q k1 Q1 \<and> s \<in> set ?xs \<and> \<not> is_top k tops s \<and> st' = set_top c (Some s) (needing, tops, k1))"
      using migrate_suggested_ok [OF assms, of needing tops] by blast
    show ?thesis
    proof (cases failed)
      case True
      then have r: "st' = (needing, tops, k)" "candidates = map (\<lambda>s. nat (m_core_id (threads k s))) ?xs" "\<forall>s\<in>set ?xs. is_top k tops s"
        using w(2) by simp_all
      have "fill_core c (needing, tops, k) = migrate_candidates c candidates st'"
        using f w(1) ne True by (simp add: fill_core_def)
      then show ?thesis using migrate_candidates_ok [OF assms, of ?xs tops needing] r by auto
    next
      case F: False
      then have "fill_core c (needing, tops, k) = Some st'" using f w(1) ne by (simp add: fill_core_def)
      then show ?thesis using w(2) F by auto
    qed
  qed
qed

section \<open>The effect of filling a core\<close>

abbreviation sched :: "(nat \<Rightarrow> core_queues) \<Rightarrow> nat \<Rightarrow> nat list" where
  "sched Q c \<equiv> run_order (Q c) Scheduled 0"

abbreviation sug :: "(nat \<Rightarrow> core_queues) \<Rightarrow> nat \<Rightarrow> nat list" where
  "sug Q c \<equiv> run_order (Q c) Suggested 0"

definition fronts :: "(nat \<Rightarrow> nat option) \<Rightarrow> (nat \<Rightarrow> core_queues) \<Rightarrow> bool" where
  "fronts tops Q \<longleftrightarrow> (\<forall>c<NUM_CPU_CORES. tops c = hd_opt (sched Q c))"

text \<open>Thread \<open>s\<close>, which was not alone on its core, has become the only thread of core \<open>c\<close>.\<close>

definition moved_in :: "nat \<Rightarrow> nat \<Rightarrow> (nat \<Rightarrow> core_queues) \<Rightarrow> (nat \<Rightarrow> core_queues) \<Rightarrow> bool" where
  "moved_in c s Q Q' \<longleftrightarrow>
     sched Q' c = [s] \<and> (\<forall>d. d \<noteq> c \<longrightarrow> sched Q' d = removeAll s (sched Q d)) \<and> (\<forall>d<NUM_CPU_CORES. sched Q d \<noteq> [s]) \<and>
     (\<forall>d<NUM_CPU_CORES. d \<noteq> c \<and> sched Q d = [] \<longrightarrow> set (sug Q' d) = set (sug Q d))"

definition alone :: "(nat \<Rightarrow> core_queues) \<Rightarrow> nat \<Rightarrow> bool" where
  "alone Q s \<longleftrightarrow> (\<exists>d<NUM_CPU_CORES. sched Q d = [s])"

lemma sched_core: "sched_ok k Q \<Longrightarrow> t \<in> set (sched Q d) \<Longrightarrow> m_core_id (threads k t) = int d"
  using run_order_member [of k Q t d Scheduled] by (auto simp: queue_kind_def split: if_splits)

lemma migrated_orders:
  assumes "sched_ok k Q" and "migrated c f s k Q k1 Q1" and "s \<in> set (sug Q c)" and "c < NUM_CPU_CORES"
  shows "d \<noteq> c \<Longrightarrow> sched Q1 d = removeAll s (sched Q d)" and "sched Q c = [] \<Longrightarrow> sched Q1 c = [s]"
    and "d \<noteq> c \<Longrightarrow> sched Q d = [] \<Longrightarrow> set (sug Q1 d) = set (sug Q d)"
proof -
  have ok1: "sched_ok k1 Q1" and th: "threads k1 = threads (SetActiveCore s (int c) k)" using assms(2) unfolding migrated_def by blast+
  have kept: "others_kept s Q Q1" using assms(2) by (simp add: migrated_def others_kept_ops(5))
  have s1: "m_core_id (threads k1 s) = int c" "m_priority (threads k1 s) = m_priority (threads k s)"
    using th by (simp_all add: SetActiveCore_def kernel_simps)
  have view: "queued k1 t = queued k t" "has_core (member_of k1 t) e = has_core (member_of k t) e" for t e
    using th by (auto simp: queued_def GetRawState_def IsDummyThread_def SetActiveCore_def kernel_simps has_core_def)
  have q: "queued k s" "m_priority (threads k s) \<le> LowestThreadPriority" "has_core (member_of k s) c"
    using assms(3) run_order_member [OF assms(1), of s c Suggested] by (simp_all add: suggested_kind)
  show "sched Q1 d = removeAll s (sched Q d)" if "d \<noteq> c"
  proof (rule run_order_others [OF kept])
    show "s \<notin> set (Q1 d Scheduled p)" for p
      using queue_member(2) [OF ok1, of s d Scheduled p] s1(1) that by (auto simp: queue_kind_def split: if_splits)
  qed
  show "sched Q1 c = [s]" if "sched Q c = []"
  proof -
    have s: "s \<in> set (sched Q1 c)" unfolding run_order_member [OF ok1] using q s1 view by (simp add: queue_kind_def)
    have "t \<notin> set (sched Q1 c)" if "t \<noteq> s" for t
      using others_kept_mem [OF kept that] \<open>sched Q c = []\<close> by (auto simp: run_order_def)
    with s have "set (sched Q1 c) = {s}" by blast
    moreover have "distinct (sched Q1 c)" by (rule distinct_run_order [OF sched_okD(1) [OF ok1] assms(4)])
    ultimately show ?thesis by (metis distinct_card card_1_singleton_iff card_eq_0_iff empty_set length_0_conv length_Suc_conv list.set_intros(1) singletonD One_nat_def is_singletonI is_singleton_altdef)
  qed
  show "set (sug Q1 d) = set (sug Q d)" if "d \<noteq> c" "sched Q d = []"
  proof (rule set_eqI)
    fix t show "t \<in> set (sug Q1 d) \<longleftrightarrow> t \<in> set (sug Q d)"
    proof (cases "t = s")
      case True
      have "s \<notin> set (sched Q d)" using that(2) by simp
      then have "m_core_id (threads k s) \<noteq> int d" using q run_order_member [OF assms(1), of s d Scheduled] by (auto simp: queue_kind_def)
      then show ?thesis unfolding True run_order_member [OF ok1] run_order_member [OF assms(1)]
        using s1 view q that(1) by (simp add: suggested_kind)
    next
      case False
      then show ?thesis using others_kept_mem [OF kept False] by (simp add: in_run_order)
    qed
  qed
qed

lemma filled_by_migration:
  assumes "sched_ok k Q" and "migrated c f s k Q k1 Q1" and "s \<in> set (sug Q c)" and "c < NUM_CPU_CORES"
    and "\<not> is_top k tops s" and "fronts tops Q" and "sched Q c = []"
  shows "moved_in c s Q Q1" and "fronts (tops(c := Some s)) Q1"
proof -
  note O = migrated_orders [OF assms(1-4)]
  have not_top: "tops d \<noteq> Some s" if "d < NUM_CPU_CORES" for d
  proof
    assume t: "tops d = Some s"
    then have "s \<in> set (sched Q d)" using assms(6) that by (auto simp: fronts_def hd_opt_def split: if_splits)
    then have "m_core_id (threads k s) = int d" by (rule sched_core [OF assms(1)])
    then show False using t assms(5) by (simp add: is_top_def)
  qed
  have "sched Q d \<noteq> [s]" if "d < NUM_CPU_CORES" for d
  proof
    assume "sched Q d = [s]"
    then have "tops d = Some s" using assms(6) that by (simp add: fronts_def hd_opt_def)
    then show False using not_top that by blast
  qed
  then show "moved_in c s Q Q1" using O assms(7) by (simp add: moved_in_def)
  have "hd_opt (removeAll s (sched Q d)) = hd_opt (sched Q d)" if "d < NUM_CPU_CORES" for d
    using not_top [OF that] assms(6) that by (cases "sched Q d") (auto simp: fronts_def hd_opt_def)
  then have "(tops(c := Some s)) d = hd_opt (sched Q1 d)" if "d < NUM_CPU_CORES" for d
    using O(1) [of d] O(2) assms(6,7) that by (cases "d = c") (simp_all add: fronts_def hd_opt_def [of "[s]"])
  then show "fronts (tops(c := Some s)) Q1" by (simp add: fronts_def)
qed

lemma filled_by_swap:
  assumes "sched_ok k Q" and "migrated c f s k Q k1 Q1" and "s \<in> set (sug Q c)" and "c < NUM_CPU_CORES"
    and "sched Q d = as @ s # n # bs" and "d < NUM_CPU_CORES" and "tops d = Some s" and "fronts tops Q" and "sched Q c = []"
  shows "moved_in c s Q Q1" and "fronts (tops(d := Some n, c := Some s)) Q1"
proof -
  note O = migrated_orders [OF assms(1-4)]
  have dist: "distinct (sched Q d)" by (rule distinct_run_order [OF sched_okD(1) [OF assms(1)] assms(6)])
  have "hd (sched Q d) = s" using assms(5-8) by (simp add: fronts_def hd_opt_def)
  then have as: "as = []" using assms(5) dist by (cases as) auto
  have core: "m_core_id (threads k s) = int d" using sched_core [OF assms(1), of s d] assms(5) by simp
  have other: "s \<notin> set (sched Q e)" if "e \<noteq> d" for e using sched_core [OF assms(1), of s e] core that by auto
  have "sched Q e \<noteq> [s]" for e using other [of e] assms(5) as by (cases "e = d") auto
  then show "moved_in c s Q Q1" using O assms(9) by (simp add: moved_in_def)
  have "d \<noteq> c" using assms(5,9) by auto
  then have "sched Q1 d = n # bs" using O(1) [of d] assms(5) as dist by (auto simp: removeAll_id)
  moreover have "sched Q1 e = sched Q e" if "e \<noteq> d" "e \<noteq> c" for e using O(1) [of e] other [OF that(1)] that(2) by (simp add: removeAll_id)
  ultimately show "fronts (tops(d := Some n, c := Some s)) Q1" using O(2) assms(8,9) by (auto simp: fronts_def hd_opt_def)
qed

definition fill_inv :: "KernelCore \<Rightarrow> update_state \<Rightarrow> (nat \<Rightarrow> core_queues) \<Rightarrow> bool" where
  "fill_inv k0 st Q \<longleftrightarrow>
     (case st of (needing, tops, k) \<Rightarrow>
        sched_ok k Q \<and> update_ok k0 st \<and> (\<forall>d<NUM_CPU_CORES. highest_priority_thread (schedulers k d) = tops d) \<and>
        (\<forall>t. queued k t = queued k0 t \<and> m_priority (threads k t) = m_priority (threads k0 t)))"

lemma fill_inv_set_top:
  assumes "fill_inv k0 (needing, tops, k) Q" and "set_top c h (needing, tops, k) = (needing', tops', k')" and "c < NUM_CPU_CORES"
  shows "fill_inv k0 (needing', tops', k') Q"
proof -
  note S = set_top_ok [OF assms(2) refl]
  have "update_ok k0 (needing', tops', k')" using S(8) [OF _ assms(3)] assms(1) by (simp add: fill_inv_def)
  moreover have "sched_ok k' Q" using set_top_choice(2) [OF assms(2)] assms(1) by (simp add: fill_inv_def)
  ultimately show ?thesis using assms(1) S(3,4) same_viewD [OF S(1)] by (simp add: fill_inv_def)
qed

lemma fill_inv_migrated:
  assumes "fill_inv k0 (needing, tops, k) Q" and "migrated c f s k Q k1 Q1"
  shows "fill_inv k0 (needing, tops, k1) Q1"
proof -
  have m: "sched_ok k1 Q1" "threads k1 = threads (SetActiveCore s (int c) k)" "schedulers k1 = schedulers k" "current_thread k1 = current_thread k"
    using assms(2) unfolding migrated_def by blast+
  then have "queued k1 t = queued k t" "m_priority (threads k1 t) = m_priority (threads k t)" for t
    by (simp_all add: queued_def GetRawState_def IsDummyThread_def SetActiveCore_def kernel_simps)
  then show ?thesis using assms(1) m by (simp add: fill_inv_def update_ok_def)
qed

lemma alone_top:
  assumes "sched_ok k Q" and "fronts tops Q" and "is_top k tops s" and "queued k s"
    and "sched Q (nat (m_core_id (threads k s))) = as @ [s]"
  shows "alone Q s"
proof -
  let ?d = "nat (m_core_id (threads k s))"
  have d: "?d < NUM_CPU_CORES" using core_valid(1) [OF assms(1,4)] assms(3) by (simp add: is_top_def)
  then have "hd (sched Q ?d) = s" using assms(2,3,5) by (simp add: fronts_def is_top_def hd_opt_def split: if_splits)
  moreover have "distinct (sched Q ?d)" by (rule distinct_run_order [OF sched_okD(1) [OF assms(1)] d])
  ultimately have "as = []" using assms(5) by (cases as) auto
  then show ?thesis using d assms(5) by (auto simp: alone_def)
qed

lemma fill_core_ok:
  assumes "fill_inv k0 (needing, tops, k) Q" and "c < NUM_CPU_CORES"
  shows "\<exists>needing' tops' k' Q'. fill_core c (needing, tops, k) = Some (needing', tops', k') \<and> fill_inv k0 (needing', tops', k') Q' \<and>
    (fronts tops Q \<and> sched Q c = [] \<longrightarrow> fronts tops' Q' \<and>
      (Q' = Q \<and> (blocked k tops \<or> (\<forall>s\<in>set (sug Q c). alone Q s)) \<or> (\<exists>s. moved_in c s Q Q')))"
proof -
  have ok: "sched_ok k Q" using assms(1) by (simp add: fill_inv_def)
  obtain st' where st': "fill_core c (needing, tops, k) = Some st'" and cases:
    "st' = (needing, tops, k) \<and>
       (blocked k tops \<or> (\<forall>s\<in>set (sug Q c). is_top k tops s \<and> (\<exists>as. sched Q (nat (m_core_id (threads k s))) = as @ [s]))) \<or>
     (\<exists>s k1 Q1. migrated c False s k Q k1 Q1 \<and> s \<in> set (sug Q c) \<and> \<not> is_top k tops s \<and>
        st' = set_top c (Some s) (needing, tops, k1)) \<or>
     (\<exists>s n Q1. s \<in> set (sug Q c) \<and> is_top k tops s \<and> swapped c (nat (m_core_id (threads k s))) s n (needing, tops, k) Q st' Q1)"
    using fill_core_cases [OF ok assms(2), of needing tops] by blast
  have q: "queued k s" if "s \<in> set (sug Q c)" for s using run_order_member [OF ok, of s c Suggested] that by simp
  from cases consider (same) "st' = (needing, tops, k)"
      "blocked k tops \<or> (\<forall>s\<in>set (sug Q c). is_top k tops s \<and> (\<exists>as. sched Q (nat (m_core_id (threads k s))) = as @ [s]))"
    | (migr) s k1 Q1 where "migrated c False s k Q k1 Q1" "s \<in> set (sug Q c)" "\<not> is_top k tops s" "st' = set_top c (Some s) (needing, tops, k1)"
    | (swap) s n Q1 where "s \<in> set (sug Q c)" "is_top k tops s" "swapped c (nat (m_core_id (threads k s))) s n (needing, tops, k) Q st' Q1"
    by blast
  then show ?thesis
  proof cases
    case same
    then have "fronts tops Q \<longrightarrow> blocked k tops \<or> (\<forall>s\<in>set (sug Q c). alone Q s)" using alone_top [OF ok] q by blast
    then show ?thesis using st' same(1) assms(1) by auto
  next
    case (migr s k1 Q1)
    obtain needing' tops' k' where t: "set_top c (Some s) (needing, tops, k1) = (needing', tops', k')" by (metis prod_cases3)
    have "fill_inv k0 (needing', tops', k') Q1" using fill_inv_set_top [OF fill_inv_migrated [OF assms(1) migr(1)] t assms(2)] .
    moreover have "tops' = tops(c := Some s)" by (rule set_top_ok(3) [OF t refl])
    ultimately show ?thesis using st' migr(4) t filled_by_migration [OF ok migr(1,2) assms(2) migr(3)] by auto
  next
    case (swap s n Q1)
    let ?d = "nat (m_core_id (threads k s))"
    obtain as bs needing1 tops1 k1 k2 where w: "sched Q ?d = as @ s # n # bs" "set_top ?d (Some n) (needing, tops, k) = (needing1, tops1, k1)"
      "migrated c False s k1 Q k2 Q1" "st' = set_top c (Some s) (needing1, tops1, k2)" using swap(3) unfolding swapped_def by blast
    obtain needing' tops' k' where t: "set_top c (Some s) (needing1, tops1, k2) = (needing', tops', k')" by (metis prod_cases3)
    have d: "?d < NUM_CPU_CORES" "tops ?d = Some s" using core_valid(1) [OF ok q [OF swap(1)]] swap(2) by (simp_all add: is_top_def)
    have i1: "fill_inv k0 (needing1, tops1, k1) Q" by (rule fill_inv_set_top [OF assms(1) w(2) d(1)])
    then have ok1: "sched_ok k1 Q" by (simp add: fill_inv_def)
    have "fill_inv k0 (needing', tops', k') Q1" using fill_inv_set_top [OF fill_inv_migrated [OF i1 w(3)] t assms(2)] .
    moreover have "tops' = tops(?d := Some n, c := Some s)" using set_top_ok(3) [OF t refl] set_top_ok(3) [OF w(2) refl] by simp
    ultimately show ?thesis using st' w(4) t filled_by_swap [where tops = tops, OF ok1 w(3) swap(1) assms(2) w(1) d] by auto
  qed
qed

text \<open>Cores that have been left without work: every thread that could run there is the only thread of its core.\<close>

definition conserving :: "u64 \<Rightarrow> (nat \<Rightarrow> core_queues) \<Rightarrow> bool" where
  "conserving D Q \<longleftrightarrow> (\<forall>c<NUM_CPU_CORES. sched Q c = [] \<and> \<not> bit D c \<longrightarrow> (\<forall>s\<in>set (sug Q c). alone Q s))"

lemma conserving_step:
  assumes "conserving D Q" and "sched Q c = []" and "\<And>d. d < NUM_CPU_CORES \<Longrightarrow> distinct (sched Q d)"
    and "Q' = Q \<and> (\<forall>s\<in>set (sug Q c). alone Q s) \<or> (\<exists>s. moved_in c s Q Q')"
    and "\<And>d. bit D' d \<longleftrightarrow> bit D d \<and> d \<noteq> c"
  shows "conserving D' Q'"
  unfolding conserving_def
proof (intro allI impI ballI)
  fix e t assume e: "e < NUM_CPU_CORES" "sched Q' e = [] \<and> \<not> bit D' e" "t \<in> set (sug Q' e)"
  from assms(4) show "alone Q' t"
  proof
    assume "Q' = Q \<and> (\<forall>s\<in>set (sug Q c). alone Q s)"
    then show ?thesis using e assms(1,5) unfolding conserving_def by (cases "e = c") auto
  next
    assume "\<exists>s. moved_in c s Q Q'"
    then obtain s where m: "moved_in c s Q Q'" by blast
    have ne: "e \<noteq> c" using m e(2) by (auto simp: moved_in_def)
    then have "removeAll s (sched Q e) = []" "sched Q e \<noteq> [s]" using m e(1,2) by (auto simp: moved_in_def)
    then have idle: "sched Q e = []" using assms(3) [OF e(1)] by (cases "sched Q e") (auto split: if_splits simp: removeAll_id)
    then have "t \<in> set (sug Q e)" using m e(1,3) ne by (simp add: moved_in_def)
    then obtain d where d: "d < NUM_CPU_CORES" "sched Q d = [t]"
      using assms(1) e(1,2) idle ne assms(5) unfolding conserving_def alone_def by blast
    then have "t \<noteq> s" "d \<noteq> c" using m assms(2) by (auto simp: moved_in_def)
    then have "sched Q' d = [t]" using m d(2) by (simp add: moved_in_def)
    then show ?thesis using d(1) by (auto simp: alone_def)
  qed
qed

definition all_movable :: "KernelCore \<Rightarrow> bool" where
  "all_movable k \<longleftrightarrow> (\<forall>t. queued k t \<longrightarrow> HighestCoreMigrationAllowedPriority \<le> m_priority (threads k t))"

lemma not_blocked:
  assumes "sched_ok k Q" and "fronts tops Q" and "\<And>t. queued k t \<Longrightarrow> HighestCoreMigrationAllowedPriority \<le> m_priority (threads k t)"
  shows "\<not> blocked k tops"
proof
  assume "blocked k tops"
  then obtain c t where c: "c < NUM_CPU_CORES" "tops c = Some t" "m_priority (threads k t) < HighestCoreMigrationAllowedPriority"
    by (auto simp: blocked_def)
  then have "t \<in> set (sched Q c)" using assms(2) by (auto simp: fronts_def hd_opt_def split: if_splits)
  then have "queued k t" using run_order_member [OF assms(1), of t c Scheduled] by simp
  then show False using assms(3) c(3) by fastforce
qed

lemma fill_idle_cores_ok:
  assumes "fill_inv k0 (needing, tops, k) Q" and "\<And>c. bit D c \<Longrightarrow> c < NUM_CPU_CORES"
  shows "\<exists>needing' tops' k' Q'. fill_idle_cores D (needing, tops, k) = Some (needing', tops', k') \<and>
    fill_inv k0 (needing', tops', k') Q' \<and>
    (fronts tops Q \<and> (\<forall>c. bit D c \<longrightarrow> sched Q c = []) \<longrightarrow> fronts tops' Q' \<and>
      (all_movable k0 \<and> conserving D Q \<longrightarrow> conserving 0 Q'))"
  using assms
proof (induction "unat D" arbitrary: D needing tops k Q rule: less_induct)
  case less
  show ?case
  proof (cases "D = 0")
    case True
    then have "fill_idle_cores D (needing, tops, k) = Some (needing, tops, k)" by (simp add: fill_idle_cores.simps [of 0])
    then show ?thesis using True less.prems(1) by blast
  next
    case False
    obtain c where c: "GetNextCore D = (int c, ClearAffinityBit D (int c))" "bit D c"
      "\<forall>d. bit (ClearAffinityBit D (int c)) d \<longleftrightarrow> bit D d \<and> d \<noteq> c" using GetNextCore_bits [OF False] .
    have cz: "countr_zero D = c" using c(1) by (simp add: GetNextCore_def Let_def)
    let ?D = "ClearAffinityBit D (int c)"
    have lt: "unat ?D < unat D" using GetNextCore_less [OF False] c(1) by simp
    have c4: "c < NUM_CPU_CORES" using less.prems(2) c(2) by blast
    obtain needing1 tops1 k1 Q1 where s1: "fill_core c (needing, tops, k) = Some (needing1, tops1, k1)" "fill_inv k0 (needing1, tops1, k1) Q1"
      "fronts tops Q \<and> sched Q c = [] \<longrightarrow> fronts tops1 Q1 \<and>
        (Q1 = Q \<and> (blocked k tops \<or> (\<forall>s\<in>set (sug Q c). alone Q s)) \<or> (\<exists>s. moved_in c s Q Q1))"
      using fill_core_ok [OF less.prems(1) c4] by blast
    have D4: "\<And>d. bit ?D d \<Longrightarrow> d < NUM_CPU_CORES" using c(3) less.prems(2) by blast
    obtain needing' tops' k' Q' where s2: "fill_idle_cores ?D (needing1, tops1, k1) = Some (needing', tops', k')"
      "fill_inv k0 (needing', tops', k') Q'"
      "fronts tops1 Q1 \<and> (\<forall>c. bit ?D c \<longrightarrow> sched Q1 c = []) \<longrightarrow> fronts tops' Q' \<and>
        (all_movable k0 \<and> conserving ?D Q1 \<longrightarrow> conserving 0 Q')"
      using less.hyps [OF lt s1(2) D4] by blast
    have run: "fill_idle_cores D (needing, tops, k) = Some (needing', tops', k')"
      using s1(1) s2(1) False cz c(1) by (simp add: fill_idle_cores.simps [of D])
    have ok: "sched_ok k Q" and view: "\<And>t. queued k t = queued k0 t" "\<And>t. m_priority (threads k t) = m_priority (threads k0 t)"
      using less.prems(1) by (simp_all add: fill_inv_def)
    have "fronts tops' Q' \<and>
      (all_movable k0 \<and> conserving D Q \<longrightarrow> conserving 0 Q')"
      if f: "fronts tops Q" "\<forall>c. bit D c \<longrightarrow> sched Q c = []"
    proof -
      have idle: "sched Q c = []" using f(2) c(2) by blast
      have "sched Q1 d = []" if "bit ?D d" for d using s1(3) f idle c(3) that by (auto simp: moved_in_def)
      with s1(3) s2(3) f(1) idle have r: "fronts tops' Q' \<and>
        (all_movable k0 \<and> conserving ?D Q1 \<longrightarrow> conserving 0 Q')" by blast
      have "conserving ?D Q1" if "all_movable k0" "conserving D Q"
      proof (rule conserving_step [OF that(2) idle])
        show "distinct (sched Q d)" if "d < NUM_CPU_CORES" for d by (rule distinct_run_order [OF sched_okD(1) [OF ok] that])
        have "\<not> blocked k tops" by (rule not_blocked [OF ok f(1)]) (use that(1) view in \<open>simp add: all_movable_def\<close>)
        then show "Q1 = Q \<and> (\<forall>s\<in>set (sug Q c). alone Q s) \<or> (\<exists>s. moved_in c s Q Q1)" using s1(3) f(1) idle by blast
      qed (use c(3) in blast)
      with r show ?thesis by blast
    qed
    then show ?thesis using run s2(2) by blast
  qed
qed

section \<open>The whole update\<close>

lemma WakeupWaitingDummyThreads_ok:
  "sched_ok (WakeupWaitingDummyThreads k) Q = sched_ok k Q" "schedulers (WakeupWaitingDummyThreads k) = schedulers k"
  "current_thread (WakeupWaitingDummyThreads k) = current_thread k"
proof -
  have f: "sched_ok (fold DummyThreadEndWait ts k) Q = sched_ok k Q \<and> schedulers (fold DummyThreadEndWait ts k) = schedulers k \<and>
      current_thread (fold DummyThreadEndWait ts k) = current_thread k" for ts
    by (induction ts arbitrary: k) (simp_all add: DummyThreadEndWait_def [THEN arg_cong [where f = schedulers]]
        DummyThreadEndWait_def [THEN arg_cong [where f = current_thread]] kernel_simps)
  have "sched_ok (k'\<lparr>m_woken_dummy_threads := ts\<rparr>) Q = sched_ok k' Q" for k' ts
    by (rule sched_ok_view) (simp_all add: same_view_threads)
  then show "sched_ok (WakeupWaitingDummyThreads k) Q = sched_ok k Q" "schedulers (WakeupWaitingDummyThreads k) = schedulers k"
    "current_thread (WakeupWaitingDummyThreads k) = current_thread k"
    using f by (simp_all add: WakeupWaitingDummyThreads_def)
qed

definition unpinned :: "KernelCore \<Rightarrow> bool" where
  "unpinned k \<longleftrightarrow> (\<forall>p c. m_pinned_threads (processes k p) c = None)"

lemma chosen_unpinned: "unpinned k \<Longrightarrow> chosen k Q c = hd_opt (sched Q c)"
  by (auto simp: unpinned_def chosen_def hd_opt_def split: list.split option.split)

definition numbered :: "KernelCore \<Rightarrow> bool" where
  "numbered k \<longleftrightarrow> (\<forall>c<NUM_CPU_CORES. s_core_id (schedulers k c) = c)"

lemma UpdateHighestPriorityThreadsImpl_ok:
  assumes "sched_ok k Q" and "numbered k"
  shows "\<exists>needing k' Q'. UpdateHighestPriorityThreadsImpl k = Some (needing, k') \<and> sched_ok k' Q' \<and>
    (\<forall>c<NUM_CPU_CORES. (\<not> bit needing c \<longrightarrow> highest_priority_thread (schedulers k' c) = highest_priority_thread (schedulers k c)) \<and>
       (bit needing c \<longrightarrow> needs_scheduling (schedulers k' c))) \<and>
    (unpinned k \<longrightarrow> (\<forall>c<NUM_CPU_CORES. highest_priority_thread (schedulers k' c) = hd_opt (sched Q' c)) \<and>
       (all_movable k \<longrightarrow> conserving 0 Q'))"
proof -
  let ?k0 = "ClearSchedulerUpdateNeeded k"
  have ok0: "sched_ok ?k0 Q" using assms(1) by simp
  have u0: "update_ok k (0, \<lambda>_. None, ?k0)" using assms(2) by (simp add: update_ok_def numbered_def kernel_simps)
  obtain idle needing1 tops1 k1 where s1: "update_cores [0..<NUM_CPU_CORES] 0 (0, \<lambda>_. None, ?k0) = Some (idle, needing1, tops1, k1)"
    "sched_ok k1 Q" "same_view ?k0 k1" "update_ok k (needing1, tops1, k1)"
    "\<forall>d. tops1 d = (if d \<in> set [0..<NUM_CPU_CORES] then chosen ?k0 Q d else None)"
    "\<forall>d. highest_priority_thread (schedulers k1 d) =
       (if d \<in> set [0..<NUM_CPU_CORES] then chosen ?k0 Q d else highest_priority_thread (schedulers ?k0 d))"
    "\<forall>d. bit idle d \<longleftrightarrow> bit (0 :: u64) d \<or> d \<in> set [0..<NUM_CPU_CORES] \<and> sched Q d = []"
    using update_cores_ok [OF ok0 u0, of "[0..<NUM_CPU_CORES]" 0] by auto
  have v: "queued k1 t = queued k t" "m_priority (threads k1 t) = m_priority (threads k t)" for t
    using same_viewD [OF s1(3), of t] by (simp_all add: queued_def GetRawState_def kernel_simps)
  have i1: "fill_inv k (needing1, tops1, k1) Q" using s1(2,4-6) v by (simp add: fill_inv_def)
  have D4: "\<And>c. bit idle c \<Longrightarrow> c < NUM_CPU_CORES" and idle: "\<forall>c. bit idle c \<longrightarrow> sched Q c = []" using s1(7) by auto
  obtain needing tops k2 Q' where s2: "fill_idle_cores idle (needing1, tops1, k1) = Some (needing, tops, k2)"
    "fill_inv k (needing, tops, k2) Q'"
    "fronts tops1 Q \<and> (\<forall>c. bit idle c \<longrightarrow> sched Q c = []) \<longrightarrow> fronts tops Q' \<and> (all_movable k \<and> conserving idle Q \<longrightarrow> conserving 0 Q')"
    using fill_idle_cores_ok [OF i1 D4] by blast
  define k3 where "k3 = WakeupWaitingDummyThreads k2"
  define k' where "k' = (if IsDummyThread (threads k3 (current_thread k3)) \<and> GetState k3 (current_thread k3) \<noteq> ThreadState_Runnable
      then RequestDummyThreadWait (current_thread k3) k3 else k3)"
  have fin: "sched_ok k' Q'" "schedulers k' = schedulers k2"
    using s2(2) by (simp_all add: fill_inv_def k'_def k3_def WakeupWaitingDummyThreads_ok RequestDummyThreadWait_def [THEN arg_cong [where f = schedulers]] kernel_simps)
  have "UpdateHighestPriorityThreadsImpl k = Some (needing, k')"
    using s1(1) s2(1) by (simp add: UpdateHighestPriorityThreadsImpl_def k3_def [symmetric] k'_def Let_def)
  moreover have "(\<not> bit needing c \<longrightarrow> highest_priority_thread (schedulers k' c) = highest_priority_thread (schedulers k c)) \<and>
       (bit needing c \<longrightarrow> needs_scheduling (schedulers k' c))" if "c < NUM_CPU_CORES" for c
    using s2(2) fin(2) that by (simp add: fill_inv_def update_ok_def)
  moreover have "(\<forall>c<NUM_CPU_CORES. highest_priority_thread (schedulers k' c) = hd_opt (sched Q' c)) \<and> (all_movable k \<longrightarrow> conserving 0 Q')"
    if "unpinned k"
  proof -
    have "chosen ?k0 Q c = hd_opt (sched Q c)" for c
      using chosen_unpinned [of ?k0 Q c] that by (simp add: unpinned_def ClearSchedulerUpdateNeeded_def)
    then have "fronts tops1 Q" using s1(5) by (simp add: fronts_def)
    moreover have "conserving idle Q" using s1(7) by (simp add: conserving_def)
    ultimately have "fronts tops Q' \<and> (all_movable k \<longrightarrow> conserving 0 Q')" using s2(3) idle by blast
    then show ?thesis using s2(2) fin(2) by (simp add: fill_inv_def fronts_def)
  qed
  ultimately show ?thesis using fin(1) by blast
qed

section \<open>An example\<close>

text \<open>Threads 7 and 8 are runnable on core 1 and may also run on core 2; all cores are idle so far.\<close>

definition idle_thread_record :: KThread where
  "idle_thread_record =
     \<lparr>m_priority = 44, m_base_priority = 44, m_core_id = 1, m_physical_affinity_mask = \<lparr>m_mask = 6\<rparr>, m_physical_ideal_core_id = 1,
      m_virtual_affinity_mask = 6, m_virtual_ideal_core_id = 1, m_original_physical_affinity_mask = \<lparr>m_mask = 6\<rparr>,
      m_original_physical_ideal_core_id = 1, m_num_core_migration_disables = 0, m_is_pinned = False, m_thread_type = User_thread,
      m_thread_state = ThreadState_Initialized, m_suspend_request_flags = 0, m_suspend_allowed_flags = 0,
      m_termination_requested = False, m_parent = Some 0, m_last_scheduled_tick = 0, m_num_kernel_waiters = 0,
      m_yield_schedule_count = - 1, m_dummy_thread_runnable = True, m_address_key = 0, m_is_kernel_address_key = False,
      m_held_lock_info_list = [], m_waiting_lock_info = None,
      m_condvar_tree = None, m_condvar_key = 0, m_wait_reason_for_debugging = Reason_None\<rparr>"

definition second_thread :: Member where
  "second_thread = example_thread\<lparr>mb_id := 8\<rparr>"

definition two_queues :: "nat \<Rightarrow> core_queues" where
  "two_queues = enqueue_back second_thread example_queues"

definition two_threads :: KernelCore where
  "two_threads =
     \<lparr>threads = \<lambda>t. if t = 7 \<or> t = 8 then idle_thread_record\<lparr>m_thread_state := ThreadState_Runnable\<rparr> else idle_thread_record,
      processes = \<lambda>_. \<lparr>p_schedule_count = 0, m_pinned_threads = \<lambda>_. None, m_running_threads = \<lambda>_. None,
        m_running_thread_idle_counts = \<lambda>_. 0, m_running_thread_switch_counts = \<lambda>_. 0\<rparr>,
      schedulers = \<lambda>c. \<lparr>s_core_id = c, needs_scheduling = False, interrupt_task_runnable = False, should_count_idle = False,
        idle_count = 0, highest_priority_thread = None, prev_thread = None\<rparr>,
      m_priority_queue = the (KPriorityQueue_PushBack second_thread example_pq), m_scheduler_update_needed = True,
      m_woken_dummy_threads = [], m_thread_list = [7, 8], current_thread = 7, clock_ticks = 100,
      lock_infos = \<lambda>_. \<lparr>l_tree = [], l_address_key = 0, l_owner = None, l_waiter_count = 0, l_is_kernel_address_key = False\<rparr>,
      lock_slab = [0, 1, 2], condvar_trees = \<lambda>_. []\<rparr>"

lemma second_thread_ok: "member_ok second_thread" "absent (mb_id second_thread) example_queues"
  using example_thread_ok(1)
  by (auto simp: second_thread_def member_ok_def has_core_def absent_def on_core_def example_queues_def enqueue_back_def example_thread_def
      split: if_splits)

lemma two_threads_members:
  "member_of two_threads 7 = example_thread" "member_of two_threads 8 = second_thread" "queued two_threads t \<longleftrightarrow> t = 7 \<or> t = 8"
  by (simp_all add: member_of_def two_threads_def idle_thread_record_def example_thread_def second_thread_def IsDummyThread_def
      queued_def GetRawState_def ThreadState_Runnable_def ThreadState_Initialized_def)

lemma two_threads_ok: "sched_ok two_threads two_queues" "numbered two_threads" "unpinned two_threads" "all_movable two_threads"
proof -
  note push = PushBack_rep [OF second_thread_ok(1) example_rep(1) second_thread_ok(2)]
  then have "pq_rep (m_priority_queue two_threads) two_queues" by (auto simp: two_threads_def two_queues_def)
  moreover have "enqueued second_thread two_queues" unfolding two_queues_def by (rule enqueue_enqueued(1) [OF second_thread_ok(2)])
  moreover have mem: "t \<in> set (two_queues c w p) \<longleftrightarrow> (t = 7 \<or> t = 8) \<and> wants example_thread c w p" for t c w p
    by (auto simp: two_queues_def example_queues_def enqueue_back_def second_thread_def wants_def queue_kind_def has_core_def example_thread_def)
  then have "enqueued example_thread two_queues" "\<And>t. t \<noteq> 7 \<Longrightarrow> t \<noteq> 8 \<Longrightarrow> absent t two_queues"
    by (auto simp: enqueued_def absent_def on_core_def example_thread_def)
  ultimately show "sched_ok two_threads two_queues"
    unfolding sched_ok_def two_threads_members using two_threads_members(1,2) second_thread_ok(1) example_thread_ok(1) by auto
  show "numbered two_threads" "unpinned two_threads" by (simp_all add: numbered_def unpinned_def two_threads_def)
  show "all_movable two_threads" unfolding all_movable_def two_threads_members
    by (auto simp: two_threads_def idle_thread_record_def HighestCoreMigrationAllowedPriority_def)
qed

lemma two_threads_can_yield: "can_yield two_threads 0 1"
proof -
  have "current_thread two_threads = 7" by (simp add: two_threads_def)
  then show ?thesis unfolding can_yield_def two_threads_members
    by (simp add: two_threads_def idle_thread_record_def LowestThreadPriority_def)
qed

section \<open>Theorems\<close>

text \<open>
  C7: choosing what runs.  From a kernel whose queues match its threads, the update of the schedulers returns
  and the queues match the threads again.  The returned mask is exact enough to reschedule by: a core outside
  it keeps the thread it had, a core inside it is marked for scheduling.  When no thread is pinned, every core
  ends with the first thread of its own queue (highest priority, longest waiting) and with none exactly when
  nothing is scheduled on it.
\<close>

theorem UpdateHighestPriorityThreads_correct:
  assumes "sched_ok k Q" and "numbered k" and "m_scheduler_update_needed k"
  shows "\<exists>needing k' Q'. UpdateHighestPriorityThreads k = Some (needing, k') \<and> sched_ok k' Q' \<and>
    (\<forall>c<NUM_CPU_CORES. (\<not> bit needing c \<longrightarrow> highest_priority_thread (schedulers k' c) = highest_priority_thread (schedulers k c)) \<and>
       (bit needing c \<longrightarrow> needs_scheduling (schedulers k' c))) \<and>
    (unpinned k \<longrightarrow> (\<forall>c<NUM_CPU_CORES. highest_priority_thread (schedulers k' c) = hd_opt (run_order (Q' c) Scheduled 0)))"
  using UpdateHighestPriorityThreadsImpl_ok [OF assms(1,2)] assms(3) unfolding UpdateHighestPriorityThreads_def by (simp only: if_True) blast

theorem UpdateHighestPriorityThreads_correct_witness:
  "\<exists>needing k' Q'. UpdateHighestPriorityThreads two_threads = Some (needing, k') \<and> sched_ok k' Q' \<and>
    highest_priority_thread (schedulers k' 1) = hd_opt (run_order (Q' 1) Scheduled 0)"
proof -
  have "m_scheduler_update_needed two_threads" "(1 :: nat) < NUM_CPU_CORES" by (simp_all add: two_threads_def NUM_CPU_CORES_def)
  then show ?thesis using UpdateHighestPriorityThreads_correct [OF two_threads_ok(1,2)] two_threads_ok(3) by blast
qed

text \<open>
  C1: no core idles while work is waiting.  After an update with no thread pinned and every runnable thread of
  priority 2 or lower (the schedulers numbered as their cores), a core with nothing scheduled on it has no thread
  to take over: every thread that could run there is the only thread of the core it is on, and runs there.
\<close>

theorem update_work_conserving:
  assumes "sched_ok k Q" and "numbered k" and "unpinned k" and "all_movable k"
  shows "\<exists>needing k' Q'. UpdateHighestPriorityThreadsImpl k = Some (needing, k') \<and> sched_ok k' Q' \<and>
    (\<forall>c s. c < NUM_CPU_CORES \<and> run_order (Q' c) Scheduled 0 = [] \<and> s \<in> set (run_order (Q' c) Suggested 0) \<longrightarrow>
       (\<exists>d<NUM_CPU_CORES. run_order (Q' d) Scheduled 0 = [s] \<and> highest_priority_thread (schedulers k' d) = Some s))"
proof -
  obtain needing k' Q' where u: "UpdateHighestPriorityThreadsImpl k = Some (needing, k')" "sched_ok k' Q'"
    "\<forall>c<NUM_CPU_CORES. highest_priority_thread (schedulers k' c) = hd_opt (sched Q' c)" "conserving 0 Q'"
    using UpdateHighestPriorityThreadsImpl_ok [OF assms(1,2)] assms(3,4) by blast
  have "\<exists>d<NUM_CPU_CORES. sched Q' d = [s] \<and> highest_priority_thread (schedulers k' d) = Some s"
    if w: "c < NUM_CPU_CORES" "sched Q' c = []" "s \<in> set (sug Q' c)" for c s
  proof -
    have "\<not> bit (0 :: u64) c" by simp
    then obtain d where "d < NUM_CPU_CORES" "sched Q' d = [s]" using u(4) w unfolding conserving_def alone_def by blast
    then show ?thesis using u(3) by (auto simp: hd_opt_def)
  qed
  then show ?thesis using u(1,2) by blast
qed

theorem update_work_conserving_witness:
  "\<exists>needing k' Q'. UpdateHighestPriorityThreadsImpl two_threads = Some (needing, k') \<and> sched_ok k' Q' \<and>
    (\<forall>s. run_order (Q' 2) Scheduled 0 = [] \<and> s \<in> set (run_order (Q' 2) Suggested 0) \<longrightarrow>
       (\<exists>d<NUM_CPU_CORES. run_order (Q' d) Scheduled 0 = [s]))"
proof -
  have "(2 :: nat) < NUM_CPU_CORES" by (simp add: NUM_CPU_CORES_def)
  then show ?thesis using update_work_conserving [OF two_threads_ok] by blast
qed

text \<open>
  C19: rotation is fair.  Rotating a priority of a core returns with matching queues and asks for an update; the
  threads of that core and priority come out rotated by one, behind at most two threads that have been moved to
  the core; and no thread changes except by being moved to the core, which its affinity must allow.
\<close>

theorem RotateScheduledQueue_fair:
  assumes "sched_ok k Q" and "c < NUM_CPU_CORES" and "0 \<le> priority" and "priority \<le> LowestThreadPriority"
  shows "\<exists>k' Q' ys. RotateScheduledQueue (int c) priority k = Some k' \<and> sched_ok k' Q' \<and> pulls c k k' \<and>
    m_scheduler_update_needed k' \<and> length ys \<le> 2 \<and>
    Q' c Scheduled (nat priority) = ys @ rotate1 (Q c Scheduled (nat priority))"
  by (rule RotateScheduledQueue_ok [OF assms])

theorem RotateScheduledQueue_fair_witness:
  "\<exists>k' Q' ys. RotateScheduledQueue 1 44 two_threads = Some k' \<and> sched_ok k' Q' \<and> length ys \<le> 2 \<and>
    Q' 1 Scheduled 44 = ys @ [8, 7]"
proof -
  have "two_queues 1 Scheduled 44 = [7, 8]"
    by (simp add: two_queues_def example_queues_def enqueue_back_def second_thread_def example_thread_def wants_def queue_kind_def LowestThreadPriority_def)
  then show ?thesis using RotateScheduledQueue_fair [OF two_threads_ok(1), of 1 44] by (simp add: NUM_CPU_CORES_def LowestThreadPriority_def) blast
qed

text \<open>
  C20: yielding.  A runnable thread that yields, plainly or allowing migration, ends behind the other threads
  of its priority on its core; if there are any, an update is requested, and if there are none a repeated plain
  yield does nothing.  A yield that allows migration may put at most one thread of another core in front, and
  requests an update when it moves one.  A yield to any thread gives up the core when another thread is scheduled
  there, leaving the caller without a core, and then, or when it moves another thread, requests an update.  All
  three return with matching queues.
\<close>

theorem yields_correct:
  assumes "sched_ok k Q" and "can_yield k process c"
  shows "(\<exists>k'. YieldWithoutCoreMigration k = Some k' \<and>
      sched_ok k' (Q(c := set_queue (Q c) Scheduled (nat (m_priority (threads k (current_thread k))))
        (remove1 (current_thread k) (Q c Scheduled (nat (m_priority (threads k (current_thread k))))) @ [current_thread k]))) \<and>
      (if Q c Scheduled (nat (m_priority (threads k (current_thread k)))) = [current_thread k]
       then YieldWithoutCoreMigration k' = Some k' else m_scheduler_update_needed k')) \<and>
    (\<exists>k' Q' ys. YieldWithCoreMigration k = Some k' \<and> sched_ok k' Q' \<and> length ys \<le> 1 \<and>
      Q' c Scheduled (nat (m_priority (threads k (current_thread k)))) =
        ys @ remove1 (current_thread k) (Q c Scheduled (nat (m_priority (threads k (current_thread k))))) @ [current_thread k] \<and>
      (Q c Scheduled (nat (m_priority (threads k (current_thread k)))) \<noteq> [current_thread k] \<or>
         (\<exists>s. m_core_id (threads k' s) \<noteq> m_core_id (threads k s)) \<longrightarrow> m_scheduler_update_needed k')) \<and>
    (\<exists>k' Q'. YieldToAnyThread k = Some k' \<and> sched_ok k' Q' \<and>
      (run_order (Q c) Scheduled 0 \<noteq> [current_thread k] \<longrightarrow>
         m_core_id (threads k' (current_thread k)) = - 1 \<and> m_scheduler_update_needed k') \<and>
      ((\<exists>s. s \<noteq> current_thread k \<and> m_core_id (threads k' s) \<noteq> m_core_id (threads k s)) \<longrightarrow> m_scheduler_update_needed k'))"
  using YieldWithoutCoreMigration_ok [OF assms] YieldWithCoreMigration_ok [OF assms] YieldToAnyThread_ok [OF assms] by blast

theorem yields_correct_witness:
  "\<exists>k' Q'. YieldToAnyThread two_threads = Some k' \<and> sched_ok k' Q'"
  using yields_correct [OF two_threads_ok(1) two_threads_can_yield] by blast

end
