(* ===== verification/Priority_Inheritance.thy ===== *)
theory Priority_Inheritance
  imports Scheduler_Update
begin

text \<open>
  Waiting for a lock and inheriting priorities (\<^verbatim>\<open>k_thread.cpp\<close>, \<^verbatim>\<open>k_thread.h\<close>,
  \<^verbatim>\<open>k_condition_variable.h\<close>).  A thread that holds a lock runs at the best of its own base priority and
  the priorities of the threads waiting for the lock, so a waiter passes its priority on along the chain of owners.
  This theory holds the operations on the lock objects, the abstract notion of an inherited priority, and the
  lemmas that adding or removing one waiter keeps the structure of the locks.
\<close>

section \<open>Ordered trees\<close>

text \<open>
  A red-black tree is the list of its threads in order.  Inserting puts a thread before the first thread the
  comparison places it before, so it goes behind its equals.
\<close>

fun rb_insert :: "(nat \<Rightarrow> nat \<Rightarrow> bool) \<Rightarrow> nat \<Rightarrow> nat list \<Rightarrow> nat list" where
  "rb_insert before x [] = [x]"
| "rb_insert before x (y # ys) = (if before x y then x # y # ys else y # rb_insert before x ys)"

definition LockWithPriorityInheritanceComparator :: "KernelCore \<Rightarrow> nat \<Rightarrow> nat \<Rightarrow> bool" where
  "LockWithPriorityInheritanceComparator k lhs rhs \<longleftrightarrow> m_priority (threads k lhs) < m_priority (threads k rhs)"

definition ConditionVariableComparator :: "KernelCore \<Rightarrow> nat \<Rightarrow> nat \<Rightarrow> bool" where
  "ConditionVariableComparator k lhs rhs \<longleftrightarrow>
     m_condvar_key (threads k lhs) < m_condvar_key (threads k rhs) \<or>
     m_condvar_key (threads k lhs) = m_condvar_key (threads k rhs) \<and>
       m_priority (threads k lhs) < m_priority (threads k rhs)"

section \<open>Locks with waiters\<close>

definition set_lock :: "nat \<Rightarrow> (LockInfo \<Rightarrow> LockInfo) \<Rightarrow> KernelCore \<Rightarrow> KernelCore" where
  "set_lock l f k = k\<lparr>lock_infos := (lock_infos k)(l := f (lock_infos k l))\<rparr>"

definition LockInfo_Create :: "nat \<Rightarrow> bool \<Rightarrow> KernelCore \<Rightarrow> (nat \<times> KernelCore) option" where
  "LockInfo_Create address_key is_kernel_address_key k =
     (case lock_slab k of
        [] \<Rightarrow> None
      | l # ls \<Rightarrow>
          Some (l, set_lock l (\<lambda>_. \<lparr>l_tree = [], l_address_key = address_key, l_owner = None, l_waiter_count = 0,
                                    l_is_kernel_address_key = is_kernel_address_key\<rparr>) (k\<lparr>lock_slab := ls\<rparr>)))"

definition LockInfo_Free :: "nat \<Rightarrow> KernelCore \<Rightarrow> KernelCore" where
  "LockInfo_Free l k = k\<lparr>lock_slab := l # lock_slab k\<rparr>"

definition LockInfo_AddWaiter :: "nat \<Rightarrow> nat \<Rightarrow> KernelCore \<Rightarrow> KernelCore" where
  "LockInfo_AddWaiter l waiter k =
     set_thread waiter (m_waiting_lock_info_update (\<lambda>_. Some l))
       (set_lock l (\<lambda>i. i\<lparr>l_tree := rb_insert (LockWithPriorityInheritanceComparator k) waiter (l_tree i),
                         l_waiter_count := l_waiter_count i + 1\<rparr>) k)"

definition LockInfo_RemoveWaiter :: "nat \<Rightarrow> nat \<Rightarrow> KernelCore \<Rightarrow> (bool \<times> KernelCore) option" where
  "LockInfo_RemoveWaiter l waiter k =
     (if waiter \<in> set (l_tree (lock_infos k l))
      then
        let k1 = set_lock l (\<lambda>i. i\<lparr>l_tree := remove1 waiter (l_tree i), l_waiter_count := l_waiter_count i - 1\<rparr>) k;
            k2 = set_thread waiter (m_waiting_lock_info_update (\<lambda>_. None)) k1
        in Some (l_waiter_count (lock_infos k2 l) = 0, k2)
      else None)"

definition GetHighestPriorityWaiter :: "nat \<Rightarrow> KernelCore \<Rightarrow> nat option" where
  "GetHighestPriorityWaiter l k = hd_opt (l_tree (lock_infos k l))"

section \<open>Inheriting priorities\<close>

definition GetLockOwner :: "KernelCore \<Rightarrow> nat \<Rightarrow> nat option" where
  "GetLockOwner k t =
     (case m_waiting_lock_info (threads k t) of Some l \<Rightarrow> l_owner (lock_infos k l) | None \<Rightarrow> None)"

definition AddHeldLock :: "nat \<Rightarrow> nat \<Rightarrow> KernelCore \<Rightarrow> KernelCore" where
  "AddHeldLock this lock_info k =
     set_thread this (\<lambda>t. t\<lparr>m_held_lock_info_list := lock_info # m_held_lock_info_list t\<rparr>)
       (set_lock lock_info (\<lambda>i. i\<lparr>l_owner := Some this\<rparr>) k)"

definition FindHeldLock :: "nat \<Rightarrow> nat \<Rightarrow> bool \<Rightarrow> KernelCore \<Rightarrow> nat option" where
  "FindHeldLock this address_key is_kernel_address_key k =
     List.find (\<lambda>l. l_address_key (lock_infos k l) = address_key \<and>
                    l_is_kernel_address_key (lock_infos k l) = is_kernel_address_key)
       (m_held_lock_info_list (threads k this))"

definition AddWaiterImpl :: "nat \<Rightarrow> nat \<Rightarrow> KernelCore \<Rightarrow> KernelCore option" where
  "AddWaiterImpl this thread k = (
     let address_key = m_address_key (threads k thread);
         is_kernel = m_is_kernel_address_key (threads k thread);
         k1 = (if is_kernel
               then SetSchedulerUpdateNeeded
                      (set_thread this (\<lambda>t. t\<lparr>m_num_kernel_waiters := m_num_kernel_waiters t + 1\<rparr>) k)
               else k)
     in case FindHeldLock this address_key is_kernel k1 of
          Some lock_info \<Rightarrow> Some (LockInfo_AddWaiter lock_info thread k1)
        | None \<Rightarrow> do {
            (lock_info, k2) \<leftarrow> LockInfo_Create address_key is_kernel k1;
            Some (LockInfo_AddWaiter lock_info thread (AddHeldLock this lock_info k2))
          })"

definition erase_held :: "nat \<Rightarrow> nat \<Rightarrow> KernelCore \<Rightarrow> KernelCore" where
  "erase_held this lock_info k =
     set_thread this (\<lambda>t. t\<lparr>m_held_lock_info_list := remove1 lock_info (m_held_lock_info_list t)\<rparr>) k"

definition RemoveWaiterImpl :: "nat \<Rightarrow> nat \<Rightarrow> KernelCore \<Rightarrow> KernelCore option" where
  "RemoveWaiterImpl this thread k = (
     let k1 = (if m_is_kernel_address_key (threads k thread)
               then SetSchedulerUpdateNeeded
                      (set_thread this (\<lambda>t. t\<lparr>m_num_kernel_waiters := m_num_kernel_waiters t - 1\<rparr>) k)
               else k)
     in do {
          lock_info \<leftarrow> m_waiting_lock_info (threads k1 thread);
          (last_waiter, k2) \<leftarrow> LockInfo_RemoveWaiter lock_info thread k1;
          Some (if last_waiter then LockInfo_Free lock_info (erase_held this lock_info k2) else k2)
        })"

fun inherit_loop :: "nat list \<Rightarrow> int \<Rightarrow> KernelCore \<Rightarrow> int option" where
  "inherit_loop [] new_priority k = Some new_priority"
| "inherit_loop (l # ls) new_priority k = do {
     w \<leftarrow> GetHighestPriorityWaiter l k;
     inherit_loop ls (min new_priority (m_priority (threads k w))) k
   }"

definition BeforeUpdatePriority :: "nat \<Rightarrow> nat \<Rightarrow> KernelCore \<Rightarrow> KernelCore option" where
  "BeforeUpdatePriority tree thread k =
     (if thread \<in> set (condvar_trees k tree)
      then Some (k\<lparr>condvar_trees := (condvar_trees k)(tree := remove1 thread (condvar_trees k tree))\<rparr>) else None)"

definition AfterUpdatePriority :: "nat \<Rightarrow> nat \<Rightarrow> KernelCore \<Rightarrow> KernelCore" where
  "AfterUpdatePriority tree thread k =
     k\<lparr>condvar_trees := (condvar_trees k)
         (tree := rb_insert (ConditionVariableComparator k) thread (condvar_trees k tree))\<rparr>"

definition SetPriority :: "nat \<Rightarrow> int \<Rightarrow> KernelCore \<Rightarrow> KernelCore" where
  "SetPriority t value k = set_thread t (m_priority_update (\<lambda>_. value)) k"

text \<open>The body of the loop for one thread: the new priority has been computed and differs.\<close>

definition change_priority :: "nat \<Rightarrow> int \<Rightarrow> KernelCore \<Rightarrow> KernelCore option" where
  "change_priority thread new_priority k = (
     let lock_owner = GetLockOwner k thread
     in do {
          k1 \<leftarrow> (case lock_owner of Some ow \<Rightarrow> RemoveWaiterImpl ow thread k | None \<Rightarrow> Some k);
          k2 \<leftarrow> (case m_condvar_tree (threads k1 thread) of
                  Some cv_tree \<Rightarrow> BeforeUpdatePriority cv_tree thread k1 | None \<Rightarrow> Some k1);
          let old_priority = m_priority (threads k2 thread);
          let k3 = SetPriority thread new_priority k2;
          let k4 = (case m_condvar_tree (threads k3 thread) of
                      Some cv_tree \<Rightarrow> AfterUpdatePriority cv_tree thread k3 | None \<Rightarrow> k3);
          k5 \<leftarrow> (case lock_owner of Some ow \<Rightarrow> AddWaiterImpl ow thread k4 | None \<Rightarrow> Some k4);
          OnThreadPriorityChanged thread old_priority k5
        })"

partial_function (option) RestorePriority :: "nat option \<Rightarrow> KernelCore \<Rightarrow> KernelCore option" where
  "RestorePriority thread k =
     (case thread of
        None \<Rightarrow> Some k
      | Some t \<Rightarrow> do {
          new_priority \<leftarrow> inherit_loop (m_held_lock_info_list (threads k t)) (m_base_priority (threads k t)) k;
          if new_priority = m_priority (threads k t) then Some k
          else do {
            k1 \<leftarrow> change_priority t new_priority k;
            RestorePriority (GetLockOwner k t) k1
          }
        })"

definition AddWaiter :: "nat \<Rightarrow> nat \<Rightarrow> KernelCore \<Rightarrow> KernelCore option" where
  "AddWaiter this thread k = do {
     k1 \<leftarrow> AddWaiterImpl this thread k;
     if m_priority (threads k1 thread) < m_priority (threads k1 this) then RestorePriority (Some this) k1 else Some k1
   }"

definition RemoveWaiter :: "nat \<Rightarrow> nat \<Rightarrow> KernelCore \<Rightarrow> KernelCore option" where
  "RemoveWaiter this thread k = do {
     k1 \<leftarrow> RemoveWaiterImpl this thread k;
     if m_priority (threads k1 this) = m_priority (threads k1 thread) \<and>
        m_priority (threads k1 this) < m_base_priority (threads k1 this)
     then RestorePriority (Some this) k1 else Some k1
   }"

definition RemoveWaiterByKey :: "nat \<Rightarrow> nat \<Rightarrow> bool \<Rightarrow> KernelCore \<Rightarrow> (nat option \<times> bool \<times> KernelCore) option" where
  "RemoveWaiterByKey this key is_kernel_address_key k =
     (case FindHeldLock this key is_kernel_address_key k of
        None \<Rightarrow> Some (None, False, k)
      | Some lock_info \<Rightarrow> do {
          let k1 = erase_held this lock_info k;
          let k2 = (if l_is_kernel_address_key (lock_infos k1 lock_info)
                    then SetSchedulerUpdateNeeded (set_thread this (\<lambda>t. t\<lparr>m_num_kernel_waiters :=
                           m_num_kernel_waiters t - int (unat (l_waiter_count (lock_infos k1 lock_info)))\<rparr>) k1)
                    else k1);
          next_lock_owner \<leftarrow> GetHighestPriorityWaiter lock_info k2;
          (last_waiter, k3) \<leftarrow> LockInfo_RemoveWaiter lock_info next_lock_owner k2;
          let k4 = (if last_waiter then LockInfo_Free lock_info k3
                    else
                      let k4 = AddHeldLock next_lock_owner lock_info k3
                      in if l_is_kernel_address_key (lock_infos k4 lock_info)
                         then set_thread next_lock_owner (\<lambda>t. t\<lparr>m_num_kernel_waiters :=
                                m_num_kernel_waiters t + int (unat (l_waiter_count (lock_infos k4 lock_info)))\<rparr>) k4
                         else k4);
          k5 \<leftarrow> (if m_priority (threads k4 this) = m_priority (threads k4 next_lock_owner) \<and>
                    m_priority (threads k4 this) < m_base_priority (threads k4 this)
                 then RestorePriority (Some this) k4 else Some k4);
          Some (Some next_lock_owner, \<not> last_waiter, k5)
        })"

definition SetBasePriority :: "nat \<Rightarrow> int \<Rightarrow> KernelCore \<Rightarrow> KernelCore option" where
  "SetBasePriority this value k =
     RestorePriority (Some this) (set_thread this (m_base_priority_update (\<lambda>_. value)) k)"

definition IncreaseBasePriority :: "nat \<Rightarrow> int \<Rightarrow> KernelCore \<Rightarrow> KernelCore option" where
  "IncreaseBasePriority this priority k =
     (if m_base_priority (threads k this) > priority
      then RestorePriority (Some this) (set_thread this (m_base_priority_update (\<lambda>_. priority)) k)
      else Some k)"

section \<open>Inheritance, abstractly\<close>

text \<open>
  Abstractly every thread has a base priority, a priority, and possibly a thread it waits for.  A thread should
  run at the best of its base priority and the priorities of the threads waiting for it.
\<close>

definition inherited :: "(nat \<Rightarrow> nat option) \<Rightarrow> (nat \<Rightarrow> int) \<Rightarrow> (nat \<Rightarrow> int) \<Rightarrow> nat \<Rightarrow> int" where
  "inherited own base prio t = Min (insert (base t) (prio ` {w. own w = Some t}))"

definition acyclic_waits :: "(nat \<Rightarrow> nat option) \<Rightarrow> bool" where
  "acyclic_waits own \<longleftrightarrow> (\<exists>r :: nat \<Rightarrow> nat. \<forall>w t. own w = Some t \<longrightarrow> r t < r w)"

definition waiters_finite :: "(nat \<Rightarrow> nat option) \<Rightarrow> bool" where
  "waiters_finite own \<longleftrightarrow> finite (dom own)"

lemma waiters_finite_set: "waiters_finite own \<Longrightarrow> finite {w. own w = Some t}"
  unfolding waiters_finite_def by (rule finite_subset [of _ "dom own"]) auto

inductive waits_for :: "(nat \<Rightarrow> nat option) \<Rightarrow> nat \<Rightarrow> nat \<Rightarrow> bool" for own where
  refl: "waits_for own t t"
| step: "own w = Some s \<Longrightarrow> waits_for own s t \<Longrightarrow> waits_for own w t"

lemma waits_for_trans: "waits_for own a b \<Longrightarrow> waits_for own b c \<Longrightarrow> waits_for own a c"
  by (induction rule: waits_for.induct) (auto intro: waits_for.intros)

lemma waits_for_last: "waits_for own w t \<longleftrightarrow> w = t \<or> (\<exists>s. waits_for own w s \<and> own s = Some t)"
proof
  show "waits_for own w t \<Longrightarrow> w = t \<or> (\<exists>s. waits_for own w s \<and> own s = Some t)"
    by (induction rule: waits_for.induct) (auto intro: waits_for.intros)
  show "w = t \<or> (\<exists>s. waits_for own w s \<and> own s = Some t) \<Longrightarrow> waits_for own w t"
    using waits_for_trans waits_for.intros by metis
qed

lemma acyclic_irrefl: "acyclic_waits own \<Longrightarrow> own t \<noteq> Some t"
  unfolding acyclic_waits_def by blast

lemma acyclic_remove: "acyclic_waits own \<Longrightarrow> acyclic_waits (own(w := None))"
  unfolding acyclic_waits_def by (metis fun_upd_apply option.distinct(1))

text \<open>A new wait closes no cycle when the new owner does not itself wait for the new waiter.\<close>

lemma waits_for_rank:
  assumes "waits_for own w t" and "\<forall>w t. own w = Some t \<longrightarrow> (r t :: nat) < r w"
  shows "r t \<le> r w"
  using assms(1)
proof (induction rule: waits_for.induct)
  case (step w s t)
  have "r s < r w" using assms(2) step(1) by blast
  then show ?case using step(3) by linarith
qed simp

lemma acyclic_add:
  assumes "acyclic_waits own" and "own w = None" and "\<not> waits_for own t w"
  shows "acyclic_waits (own(w := Some t))"
proof -
  obtain r :: "nat \<Rightarrow> nat" where r: "\<forall>w t. own w = Some t \<longrightarrow> r t < r w" using assms(1) unfolding acyclic_waits_def by blast
  define q where "q s = (if waits_for own s w then r s + r t + 1 else r s)" for s
  have "q y < q x" if e: "(own(w := Some t)) x = Some y" for x y
  proof (cases "x = w")
    case True
    then have "y = t" using e by simp
    then show ?thesis using True assms(3) by (simp add: q_def waits_for.refl)
  next
    case False
    then have o: "own x = Some y" using e by simp
    then have "waits_for own x w = waits_for own y w"
      using False by (metis option.inject waits_for.cases waits_for.step)
    then show ?thesis using r o by (simp add: q_def)
  qed
  then show ?thesis unfolding acyclic_waits_def by blast
qed

text \<open>
  When every thread runs at the priority it should inherit and no threads wait in a circle, a thread runs at the
  best base priority of all threads that wait for it, directly or through others, itself included.
\<close>

lemma inherited_bounds:
  assumes "waiters_finite own"
  shows "inherited own base prio t \<le> base t" and "own w = Some t \<Longrightarrow> inherited own base prio t \<le> prio w"
  using waiters_finite_set [OF assms] by (simp_all add: inherited_def)

lemma inherited_cases:
  assumes "waiters_finite own"
  shows "inherited own base prio t = base t \<or> (\<exists>w. own w = Some t \<and> inherited own base prio t = prio w)"
proof -
  have "Min (insert (base t) (prio ` {w. own w = Some t})) \<in> insert (base t) (prio ` {w. own w = Some t})"
    by (rule Min_in) (use waiters_finite_set [OF assms] in simp_all)
  then show ?thesis by (auto simp: inherited_def)
qed

lemma inherited_eqI:
  assumes "waiters_finite own" and "p \<le> base t" and "\<And>w. own w = Some t \<Longrightarrow> p \<le> prio w"
    and "p = base t \<or> (\<exists>w. own w = Some t \<and> p = prio w)"
  shows "inherited own base prio t = p"
  unfolding inherited_def by (rule Min_eqI) (use assms(2-) waiters_finite_set [OF assms(1)] in auto)

lemma inherited_mono:
  assumes "waiters_finite own" and pi: "\<And>t. prio t = inherited own base prio t"
  shows "waits_for own w t \<Longrightarrow> prio t \<le> prio w"
proof (induction rule: waits_for.induct)
  case (step w s t)
  have "prio s \<le> prio w" using inherited_bounds(2) [OF assms(1) step(1)] pi [of s] by metis
  then show ?case using step(3) by linarith
qed simp

lemma inherited_reached:
  assumes fin: "waiters_finite own" and acy: "acyclic_waits own" and pi: "\<And>t. prio t = inherited own base prio t"
  shows "\<exists>w. waits_for own w t \<and> prio t = base w"
proof -
  obtain r :: "nat \<Rightarrow> nat" where r: "\<And>w t. own w = Some t \<Longrightarrow> r t < r w" using acy unfolding acyclic_waits_def by blast
  let ?N = "Max (r ` dom own)"
  have le: "r w \<le> ?N" if "own w = Some t" for w t using fin that by (auto simp: waiters_finite_def intro!: Max_ge)
  show ?thesis
  proof (induction "Suc ?N - r t" arbitrary: t rule: less_induct)
    case less
    consider "prio t = base t" | w where "own w = Some t" "prio t = prio w" using inherited_cases [OF fin, of base prio t] pi [of t] by metis
    then show ?case
    proof cases
      case 1
      then show ?thesis using waits_for.refl by blast
    next
      case 2
      have "Suc ?N - r w < Suc ?N - r t" using r [OF 2(1)] le [OF 2(1)] by linarith
      then obtain x where "waits_for own x w" "prio w = base x" using less by blast
      then show ?thesis using 2 waits_for_last by metis
    qed
  qed
qed

lemma inherited_global:
  assumes fin: "waiters_finite own" and acy: "acyclic_waits own" and pi: "\<And>t. prio t = inherited own base prio t"
  shows "(\<exists>w. waits_for own w t \<and> prio t = base w) \<and> (\<forall>w. waits_for own w t \<longrightarrow> prio t \<le> base w)"
  using inherited_reached [OF assms] inherited_mono [OF fin pi] inherited_bounds(1) [OF fin, of base prio] pi
  by (metis order_trans)

text \<open>How one change of the waiting relation or of one priority moves what others inherit.\<close>

lemma inherited_other:
  assumes "own w \<noteq> Some s" and "\<And>x. x \<noteq> w \<Longrightarrow> own' x = own x" and "own' w \<noteq> Some s" and "base' s = base s"
    and "\<And>x. x \<noteq> w \<Longrightarrow> prio' x = prio x"
  shows "inherited own' base' prio' s = inherited own base prio s"
proof -
  have "{x. own' x = Some s} = {x. own x = Some s}" using assms(1-3) by (metis (mono_tags, lifting))
  moreover have "prio' ` {x. own x = Some s} = prio ` {x. own x = Some s}"
    by (rule image_cong [OF HOL.refl]) (metis assms(1,5) mem_Collect_eq)
  ultimately show ?thesis using assms(4) by (simp add: inherited_def)
qed

lemma inherited_add:
  assumes "waiters_finite own" and "own w = None"
  shows "inherited (own(w := Some t)) base prio t = min (prio w) (inherited own base prio t)"
proof -
  have "{x. (own(w := Some t)) x = Some t} = insert w {x. own x = Some t}" using assms(2) by auto
  then have "inherited (own(w := Some t)) base prio t = Min (insert (prio w) (insert (base t) (prio ` {x. own x = Some t})))"
    by (simp add: inherited_def insert_commute)
  then show ?thesis using waiters_finite_set [OF assms(1)] by (simp add: inherited_def)
qed

text \<open>Who lost waiters still inherits the same when the best of them did not decide the priority.\<close>

lemma inherited_lose:
  assumes fin: "waiters_finite own" "waiters_finite own'" and pi: "prio t = inherited own base prio t"
    and sub: "\<And>w. own' w = Some t \<Longrightarrow> own w = Some t"
    and lost: "\<And>w. own w = Some t \<Longrightarrow> own' w \<noteq> Some t \<Longrightarrow> p \<le> prio w"
    and le: "prio t \<le> p" and cond: "\<not> (prio t = p \<and> prio t < base t)"
  shows "inherited own' base prio t = prio t"
proof (rule inherited_eqI [OF fin(2)])
  show low: "prio t \<le> base t" using inherited_bounds(1) [OF fin(1), of base prio t] pi by simp
  show "prio t \<le> prio w" if "own' w = Some t" for w using inherited_bounds(2) [OF fin(1) sub [OF that], of base prio] pi by simp
  show "prio t = base t \<or> (\<exists>w. own' w = Some t \<and> prio t = prio w)"
  proof (rule ccontr)
    assume c: "\<not> ?thesis"
    then obtain w where w: "own w = Some t" "prio t = prio w" using inherited_cases [OF fin(1), of base prio t] pi by auto
    then have "p \<le> prio t" using lost [of w] c by auto
    then show False using le low cond c by linarith
  qed
qed

section \<open>The lock invariant\<close>

definition lock_key :: "KernelCore \<Rightarrow> nat \<Rightarrow> nat \<times> bool" where
  "lock_key k l = (l_address_key (lock_infos k l), l_is_kernel_address_key (lock_infos k l))"

definition wait_key :: "KernelCore \<Rightarrow> nat \<Rightarrow> nat \<times> bool" where
  "wait_key k t = (m_address_key (threads k t), m_is_kernel_address_key (threads k t))"

definition held :: "KernelCore \<Rightarrow> nat \<Rightarrow> nat list" where
  "held k t = m_held_lock_info_list (threads k t)"

definition tree_of :: "KernelCore \<Rightarrow> nat \<Rightarrow> nat list" where
  "tree_of k l = l_tree (lock_infos k l)"

definition prio :: "KernelCore \<Rightarrow> nat \<Rightarrow> int" where
  "prio k t = m_priority (threads k t)"

definition lock_ok :: "KernelCore \<Rightarrow> nat \<Rightarrow> nat \<Rightarrow> bool" where
  "lock_ok k t l \<longleftrightarrow>
     l_owner (lock_infos k l) = Some t \<and> tree_of k l \<noteq> [] \<and> distinct (tree_of k l) \<and>
     sorted_wrt (\<lambda>x y. prio k x \<le> prio k y) (tree_of k l) \<and>
     l_waiter_count (lock_infos k l) = of_nat (length (tree_of k l)) \<and> l \<notin> set (lock_slab k) \<and>
     (\<forall>w \<in> set (tree_of k l). m_waiting_lock_info (threads k w) = Some l \<and> wait_key k w = lock_key k l \<and>
                               m_condvar_tree (threads k w) = None \<and> w < 2 ^ 32 - 1)"

text \<open>The structure of the locks, apart from the counts of kernel waiters.\<close>

definition locks_shape :: "KernelCore \<Rightarrow> bool" where
  "locks_shape k \<longleftrightarrow>
     distinct (lock_slab k) \<and>
     (\<forall>t. distinct (held k t) \<and> (\<forall>l \<in> set (held k t). lock_ok k t l)) \<and>
     (\<forall>w l. m_waiting_lock_info (threads k w) = Some l \<longrightarrow> w \<in> set (tree_of k l) \<and> (\<exists>t. l \<in> set (held k t)))"

definition kernel_waiters :: "KernelCore \<Rightarrow> nat \<Rightarrow> nat set" where
  "kernel_waiters k t = {w. GetLockOwner k w = Some t \<and> m_is_kernel_address_key (threads k w)}"

definition locks_ok :: "KernelCore \<Rightarrow> bool" where
  "locks_ok k \<longleftrightarrow>
     locks_shape k \<and> (\<forall>t. m_num_kernel_waiters (threads k t) = int (card (kernel_waiters k t)))"

lemma lock_okD:
  assumes "lock_ok k t l"
  shows "l_owner (lock_infos k l) = Some t" "tree_of k l \<noteq> []" "distinct (tree_of k l)"
    "sorted_wrt (\<lambda>x y. prio k x \<le> prio k y) (tree_of k l)" "l_waiter_count (lock_infos k l) = of_nat (length (tree_of k l))"
    "l \<notin> set (lock_slab k)"
    "w \<in> set (tree_of k l) \<Longrightarrow> m_waiting_lock_info (threads k w) = Some l \<and> wait_key k w = lock_key k l \<and>
       m_condvar_tree (threads k w) = None \<and> w < 2 ^ 32 - 1"
  using assms unfolding lock_ok_def by blast+

lemma locks_shapeD:
  assumes "locks_shape k"
  shows "distinct (lock_slab k)" "distinct (held k t)" "l \<in> set (held k t) \<Longrightarrow> lock_ok k t l"
    "m_waiting_lock_info (threads k w) = Some l \<Longrightarrow> w \<in> set (tree_of k l) \<and> (\<exists>t. l \<in> set (held k t))"
  using assms unfolding locks_shape_def by blast+

lemma GetLockOwner_iff:
  assumes "locks_shape k"
  shows "GetLockOwner k w = Some t \<longleftrightarrow> (\<exists>l \<in> set (held k t). w \<in> set (tree_of k l))"
proof
  assume "GetLockOwner k w = Some t"
  then obtain l where l: "m_waiting_lock_info (threads k w) = Some l" "l_owner (lock_infos k l) = Some t"
    by (auto simp: GetLockOwner_def split: option.splits)
  then obtain s where s: "w \<in> set (tree_of k l)" "l \<in> set (held k s)" using locks_shapeD(4) [OF assms] by blast
  then have "s = t" using lock_okD(1) [OF locks_shapeD(3) [OF assms s(2)]] l(2) by simp
  then show "\<exists>l \<in> set (held k t). w \<in> set (tree_of k l)" using s by blast
next
  assume "\<exists>l \<in> set (held k t). w \<in> set (tree_of k l)"
  then obtain l where "l \<in> set (held k t)" and w: "w \<in> set (tree_of k l)" by blast
  then have ok: "lock_ok k t l" using locks_shapeD(3) [OF assms] by blast
  then show "GetLockOwner k w = Some t" using lock_okD(1) [OF ok] lock_okD(7) [OF ok w] by (simp add: GetLockOwner_def)
qed

lemma held_owner:
  assumes "locks_shape k" and "l \<in> set (held k t)" and "l \<in> set (held k s)"
  shows "s = t"
  using assms lock_okD(1) locks_shapeD(3) [OF assms(1)] by (metis option.inject)

lemma waiters_small:
  assumes "locks_shape k"
  shows "dom (GetLockOwner k) \<subseteq> {..< 2 ^ 32 - 1}"
proof
  fix w assume "w \<in> dom (GetLockOwner k)"
  then obtain t where "GetLockOwner k w = Some t" by blast
  then obtain l where l: "l \<in> set (held k t)" "w \<in> set (tree_of k l)" using GetLockOwner_iff [OF assms] by blast
  show "w \<in> {..< 2 ^ 32 - 1}" using lock_okD(7) [OF locks_shapeD(3) [OF assms l(1)] l(2)] by simp
qed

lemma owners_finite: "locks_shape k \<Longrightarrow> waiters_finite (GetLockOwner k)"
  unfolding waiters_finite_def by (rule finite_subset [OF waiters_small]) simp_all

lemma tree_length:
  assumes "lock_ok k t l"
  shows "length (tree_of k l) < 2 ^ 32"
proof -
  have "set (tree_of k l) \<subseteq> {..< 2 ^ 32 - 1}" using lock_okD(7) [OF assms] by auto
  then have "card (set (tree_of k l)) \<le> card {..< (2 :: nat) ^ 32 - 1}" by (intro card_mono) simp_all
  then show ?thesis using distinct_card [OF lock_okD(3) [OF assms]] by simp
qed

text \<open>A lock loses its last waiter exactly when its count comes back to zero.\<close>

lemma count_zero:
  assumes "lock_ok k t l"
  shows "l_waiter_count (lock_infos k l) - 1 = 0 \<longleftrightarrow> length (tree_of k l) = 1"
proof -
  have "l_waiter_count (lock_infos k l) = 1 \<longleftrightarrow> unat (l_waiter_count (lock_infos k l)) = 1"
    by (metis unsigned_1 unsigned_word_eqI)
  also have "\<dots> \<longleftrightarrow> length (tree_of k l) = 1"
    using tree_length [OF assms] lock_okD(5) [OF assms] by (simp add: unat_of_nat take_bit_nat_def)
  finally show ?thesis by simp
qed

section \<open>Inserting into a sorted tree\<close>

lemma rb_insert_set [simp]: "set (rb_insert before x xs) = insert x (set xs)"
  by (induction xs) auto

lemma rb_insert_length [simp]: "length (rb_insert before x xs) = Suc (length xs)"
  by (induction xs) auto

lemma rb_insert_ne [simp]: "rb_insert before x xs \<noteq> []"
  by (cases xs) auto

lemma rb_insert_distinct [simp]: "distinct (rb_insert before x xs) \<longleftrightarrow> x \<notin> set xs \<and> distinct xs"
  by (induction xs) auto

lemma rb_insert_sorted:
  assumes "\<And>a b. before a b \<longleftrightarrow> \<not> le b a" and "\<And>a b. le a b \<or> le b a" and "\<And>a b c. le a b \<Longrightarrow> le b c \<Longrightarrow> le a c"
  shows "sorted_wrt le xs \<Longrightarrow> sorted_wrt le (rb_insert before x xs)"
proof (induction xs)
  case (Cons y ys)
  then show ?case using assms by (cases "before x y") (auto, blast+)
qed simp

section \<open>Attaching and detaching a waiter\<close>

text \<open>
  What adding a waiter does to the locks: either the lock exists, or the next free lock object becomes one.
\<close>

definition attached :: "nat \<Rightarrow> nat \<Rightarrow> nat \<Rightarrow> KernelCore \<Rightarrow> KernelCore \<Rightarrow> bool" where
  "attached t w l k k' \<longleftrightarrow>
     (if l \<in> set (held k t)
      then held k' = held k \<and> lock_slab k' = lock_slab k \<and>
           tree_of k' l = rb_insert (LockWithPriorityInheritanceComparator k) w (tree_of k l)
      else held k' = (held k)(t := l # held k t) \<and> lock_slab k = l # lock_slab k' \<and> tree_of k' l = [w]) \<and>
     l_owner (lock_infos k' l) = Some t \<and> lock_key k' l = wait_key k w \<and>
     l_waiter_count (lock_infos k' l) = of_nat (length (tree_of k' l)) \<and>
     (\<forall>l'. l' \<noteq> l \<longrightarrow> lock_infos k' l' = lock_infos k l') \<and>
     (\<forall>s. m_waiting_lock_info (threads k' s) = (if s = w then Some l else m_waiting_lock_info (threads k s)))"

definition detached :: "nat \<Rightarrow> nat \<Rightarrow> nat \<Rightarrow> KernelCore \<Rightarrow> KernelCore \<Rightarrow> bool" where
  "detached t w l k k' \<longleftrightarrow>
     l \<in> set (held k t) \<and> w \<in> set (tree_of k l) \<and>
     (if tree_of k l = [w]
      then held k' = (held k)(t := remove1 l (held k t)) \<and> lock_slab k' = l # lock_slab k
      else held k' = held k \<and> lock_slab k' = lock_slab k \<and>
           l_waiter_count (lock_infos k' l) = of_nat (length (tree_of k' l))) \<and>
     tree_of k' l = remove1 w (tree_of k l) \<and> l_owner (lock_infos k' l) = Some t \<and> lock_key k' l = lock_key k l \<and>
     (\<forall>l'. l' \<noteq> l \<longrightarrow> lock_infos k' l' = lock_infos k l') \<and>
     (\<forall>s. m_waiting_lock_info (threads k' s) = (if s = w then None else m_waiting_lock_info (threads k s)))"

text \<open>What both leave alone.\<close>

definition same_thread :: "KThread \<Rightarrow> KThread \<Rightarrow> bool" where
  "same_thread a b \<longleftrightarrow>
     b\<lparr>m_held_lock_info_list := [], m_waiting_lock_info := None, m_num_kernel_waiters := 0\<rparr> =
     a\<lparr>m_held_lock_info_list := [], m_waiting_lock_info := None, m_num_kernel_waiters := 0\<rparr>"

definition frame :: "KernelCore \<Rightarrow> KernelCore \<Rightarrow> bool" where
  "frame k k' \<longleftrightarrow>
     (\<forall>s. same_thread (threads k s) (threads k' s)) \<and> m_priority_queue k' = m_priority_queue k \<and>
     current_thread k' = current_thread k \<and> condvar_trees k' = condvar_trees k"

lemma same_threadD:
  assumes "same_thread a b"
  shows "m_priority b = m_priority a" "m_base_priority b = m_base_priority a" "m_core_id b = m_core_id a"
    "m_physical_affinity_mask b = m_physical_affinity_mask a" "m_thread_type b = m_thread_type a"
    "m_thread_state b = m_thread_state a" "m_condvar_tree b = m_condvar_tree a" "m_condvar_key b = m_condvar_key a"
    "m_address_key b = m_address_key a" "m_is_kernel_address_key b = m_is_kernel_address_key a"
proof -
  let ?f = "\<lambda>t. t\<lparr>m_held_lock_info_list := [], m_waiting_lock_info := None, m_num_kernel_waiters := 0\<rparr>"
  have e: "?f b = ?f a" using assms unfolding same_thread_def .
  show "m_priority b = m_priority a" using arg_cong [OF e, of m_priority] by simp
  show "m_base_priority b = m_base_priority a" using arg_cong [OF e, of m_base_priority] by simp
  show "m_core_id b = m_core_id a" using arg_cong [OF e, of m_core_id] by simp
  show "m_physical_affinity_mask b = m_physical_affinity_mask a" using arg_cong [OF e, of m_physical_affinity_mask] by simp
  show "m_thread_type b = m_thread_type a" using arg_cong [OF e, of m_thread_type] by simp
  show "m_thread_state b = m_thread_state a" using arg_cong [OF e, of m_thread_state] by simp
  show "m_condvar_tree b = m_condvar_tree a" using arg_cong [OF e, of m_condvar_tree] by simp
  show "m_condvar_key b = m_condvar_key a" using arg_cong [OF e, of m_condvar_key] by simp
  show "m_address_key b = m_address_key a" using arg_cong [OF e, of m_address_key] by simp
  show "m_is_kernel_address_key b = m_is_kernel_address_key a" using arg_cong [OF e, of m_is_kernel_address_key] by simp
qed

lemma frameD:
  assumes "frame k k'"
  shows "same_view k k'" "prio k' = prio k" "wait_key k' = wait_key k"
    "m_condvar_tree (threads k' s) = m_condvar_tree (threads k s)" "m_priority_queue k' = m_priority_queue k"
    "m_base_priority (threads k' s) = m_base_priority (threads k s)"
    "LockWithPriorityInheritanceComparator k' = LockWithPriorityInheritanceComparator k"
    "condvar_trees k' = condvar_trees k" "m_condvar_key (threads k' s) = m_condvar_key (threads k s)"
proof -
  have t: "same_thread (threads k s) (threads k' s)" for s using assms by (simp add: frame_def)
  note d = same_threadD [OF t]
  show "same_view k k'" by (simp add: same_view_def member_of_def queued_def GetRawState_def IsDummyThread_def d)
  show "prio k' = prio k" "wait_key k' = wait_key k"
    "m_condvar_tree (threads k' s) = m_condvar_tree (threads k s)" "m_base_priority (threads k' s) = m_base_priority (threads k s)"
    "LockWithPriorityInheritanceComparator k' = LockWithPriorityInheritanceComparator k"
    "m_condvar_key (threads k' s) = m_condvar_key (threads k s)"
    by (auto simp: prio_def wait_key_def LockWithPriorityInheritanceComparator_def d fun_eq_iff)
  show "m_priority_queue k' = m_priority_queue k" "condvar_trees k' = condvar_trees k" using assms by (simp_all add: frame_def)
qed

lemma lock_ok_kept:
  assumes "lock_ok k t l" and "lock_infos k' l = lock_infos k l" and "prio k' = prio k" and "wait_key k' = wait_key k"
    and "l \<notin> set (lock_slab k')" and "\<And>s. s \<in> set (tree_of k l) \<Longrightarrow> m_waiting_lock_info (threads k' s) = Some l"
    and "\<And>s. m_condvar_tree (threads k' s) = m_condvar_tree (threads k s)"
  shows "lock_ok k' t l"
  using assms unfolding lock_ok_def tree_of_def lock_key_def by simp

lemma insert_sorted_tree:
  assumes "sorted_wrt (\<lambda>x y. prio k x \<le> prio k y) xs"
  shows "sorted_wrt (\<lambda>x y. prio k x \<le> prio k y) (rb_insert (LockWithPriorityInheritanceComparator k) w xs)"
  by (rule rb_insert_sorted [OF _ _ _ assms]) (auto simp: LockWithPriorityInheritanceComparator_def prio_def)

lemma attachedD:
  assumes "attached t w l k k'"
  shows "l \<notin> set (held k t) \<Longrightarrow> lock_slab k = l # lock_slab k'" "l \<in> set (held k t) \<Longrightarrow> lock_slab k' = lock_slab k"
    "held k' s = (if s = t \<and> l \<notin> set (held k t) then l # held k t else held k s)"
    "tree_of k' l = (if l \<in> set (held k t) then rb_insert (LockWithPriorityInheritanceComparator k) w (tree_of k l) else [w])"
    "l_owner (lock_infos k' l) = Some t" "lock_key k' l = wait_key k w"
    "l_waiter_count (lock_infos k' l) = of_nat (length (tree_of k' l))"
    "l' \<noteq> l \<Longrightarrow> lock_infos k' l' = lock_infos k l'"
    "m_waiting_lock_info (threads k' s) = (if s = w then Some l else m_waiting_lock_info (threads k s))"
  using assms unfolding attached_def by (simp_all split: if_splits)

lemma attached_owner:
  assumes ok: "locks_shape k" and at: "attached t w l k k'" and "l \<in> set (held k s)"
  shows "s = t"
proof (cases "l \<in> set (held k t)")
  case True
  then show ?thesis using held_owner [OF ok True assms(3)] by simp
next
  case False
  then show ?thesis using attachedD(1) [OF at] lock_okD(6) [OF locks_shapeD(3) [OF ok assms(3)]] by simp
qed

lemma attached_lock:
  assumes ok: "locks_shape k" and at: "attached t w l k k'" and fr: "frame k k'"
    and free: "m_waiting_lock_info (threads k w) = None" "m_condvar_tree (threads k w) = None" "w < 2 ^ 32 - 1"
    and key: "l \<in> set (held k t) \<Longrightarrow> lock_key k l = wait_key k w"
  shows "lock_ok k' t l"
proof -
  note fr = frameD [OF fr] and sh = locks_shapeD [OF ok]
  have old: "x \<noteq> w \<and> m_waiting_lock_info (threads k x) = Some l \<and>
      wait_key k x = lock_key k l \<and> m_condvar_tree (threads k x) = None \<and> x < 2 ^ 32 - 1"
    if "l \<in> set (held k t)" "x \<in> set (tree_of k l)" for x
    using lock_okD(7) [OF sh(3) [OF that(1)] that(2)] free(1) by auto
  have slab: "l \<notin> set (lock_slab k')"
    using attachedD(1,2) [OF at] sh(1) lock_okD(6) [OF sh(3), of l t] by (cases "l \<in> set (held k t)") auto
  have order: "distinct (tree_of k' l) \<and> sorted_wrt (\<lambda>x y. prio k x \<le> prio k y) (tree_of k' l)"
  proof (cases "l \<in> set (held k t)")
    case True
    have "w \<notin> set (tree_of k l)" using old [OF True] by blast
    then show ?thesis using lock_okD(3,4) [OF sh(3) [OF True]] True insert_sorted_tree by (simp add: attachedD(4) [OF at])
  qed (simp add: attachedD(4) [OF at])
  have mem: "x = w \<or> l \<in> set (held k t) \<and> x \<in> set (tree_of k l)" if "x \<in> set (tree_of k' l)" for x
    using that by (simp add: attachedD(4) [OF at] split: if_splits)
  have each: "m_waiting_lock_info (threads k' x) = Some l \<and> wait_key k' x = lock_key k' l \<and>
      m_condvar_tree (threads k' x) = None \<and> x < 2 ^ 32 - 1" if "x \<in> set (tree_of k' l)" for x
    using mem [OF that] old [of x] key free(2,3) attachedD(6,9) [OF at] fr(3,4) by (cases "x = w") auto
  have "tree_of k' l \<noteq> []" by (simp add: attachedD(4) [OF at])
  then show ?thesis using order each slab attachedD(5,7) [OF at] fr(2) unfolding lock_ok_def by simp
qed

lemma attached_shape:
  assumes ok: "locks_shape k" and at: "attached t w l k k'" and fr: "frame k k'"
    and free: "m_waiting_lock_info (threads k w) = None" "m_condvar_tree (threads k w) = None" "w < 2 ^ 32 - 1"
    and key: "l \<in> set (held k t) \<Longrightarrow> lock_key k l = wait_key k w"
  shows "locks_shape k'"
proof -
  note sh = locks_shapeD [OF ok] and frd = frameD [OF fr]
  have "set (lock_slab k') \<subseteq> set (lock_slab k) \<and> distinct (lock_slab k')"
    using attachedD(1,2) [OF at] sh(1) by (cases "l \<in> set (held k t)") auto
  then have slab: "set (lock_slab k') \<subseteq> set (lock_slab k)" "distinct (lock_slab k')" by simp_all
  have other: "lock_ok k' s l'" if h: "l' \<in> set (held k s)" and ne: "l' \<noteq> l" for s l'
  proof (rule lock_ok_kept [OF sh(3) [OF h] attachedD(8) [OF at ne] frd(2,3) _ _ frd(4)])
    show "l' \<notin> set (lock_slab k')" using slab(1) lock_okD(6) [OF sh(3) [OF h]] by blast
    show "m_waiting_lock_info (threads k' x) = Some l'" if "x \<in> set (tree_of k l')" for x
      using lock_okD(7) [OF sh(3) [OF h] that] free(1) attachedD(9) [OF at, of x] by auto
  qed
  have locks: "lock_ok k' s l'" if "l' \<in> set (held k' s)" for s l'
  proof (cases "l' = l")
    case True
    then have "s = t" using that attached_owner [OF ok at] by (auto simp: attachedD(3) [OF at] split: if_splits)
    then show ?thesis using True attached_lock [OF assms] by simp
  next
    case False
    then show ?thesis using that other by (auto simp: attachedD(3) [OF at] split: if_splits)
  qed
  have wt: "x \<in> set (tree_of k' l') \<and> (\<exists>s. l' \<in> set (held k' s))" if x: "m_waiting_lock_info (threads k' x) = Some l'" for x l'
  proof (cases "x = w")
    case True
    then have "l' = l" using x attachedD(9) [OF at, of x] by simp
    moreover have "l \<in> set (held k' t)" by (simp add: attachedD(3) [OF at])
    ultimately show ?thesis using True by (auto simp: attachedD(4) [OF at])
  next
    case False
    then have "m_waiting_lock_info (threads k x) = Some l'" using x attachedD(9) [OF at, of x] by simp
    then obtain s where s: "x \<in> set (tree_of k l')" "l' \<in> set (held k s)" using sh(4) by blast
    have "x \<in> set (tree_of k' l')"
    proof (cases "l' = l")
      case True
      then have "l \<in> set (held k t)" using s(2) attached_owner [OF ok at] by blast
      then show ?thesis using True s(1) by (simp add: attachedD(4) [OF at])
    qed (use s(1) attachedD(8) [OF at, of l'] in \<open>simp add: tree_of_def\<close>)
    moreover have "l' \<in> set (held k' s)" using s(2) attachedD(3) [OF at, of s] by auto
    ultimately show ?thesis by blast
  qed
  have dist: "distinct (held k' s)" for s using sh(2) by (simp add: attachedD(3) [OF at])
  show ?thesis unfolding locks_shape_def using slab(2) dist locks wt by blast
qed

lemma detachedD:
  assumes "detached t w l k k'"
  shows "l \<in> set (held k t)" "w \<in> set (tree_of k l)"
    "lock_slab k' = (if tree_of k l = [w] then l # lock_slab k else lock_slab k)"
    "held k' s = (if s = t \<and> tree_of k l = [w] then remove1 l (held k t) else held k s)"
    "tree_of k l \<noteq> [w] \<Longrightarrow> l_waiter_count (lock_infos k' l) = of_nat (length (tree_of k' l))"
    "tree_of k' l = remove1 w (tree_of k l)" "l_owner (lock_infos k' l) = Some t" "lock_key k' l = lock_key k l"
    "l' \<noteq> l \<Longrightarrow> lock_infos k' l' = lock_infos k l'"
    "m_waiting_lock_info (threads k' s) = (if s = w then None else m_waiting_lock_info (threads k s))"
  using assms unfolding detached_def by (simp_all split: if_splits)

lemma sorted_wrt_remove1: "sorted_wrt P xs \<Longrightarrow> sorted_wrt P (remove1 x xs)"
  by (induction xs) (auto dest: set_remove1_subset [THEN subsetD])

lemma detached_lock:
  assumes ok: "locks_shape k" and de: "detached t w l k k'" and fr: "frame k k'" and more: "tree_of k l \<noteq> [w]"
  shows "lock_ok k' t l"
proof -
  note frd = frameD [OF fr] and lo = lock_okD [OF locks_shapeD(3) [OF ok detachedD(1) [OF de]]]
  have "tree_of k' l \<noteq> []" using more detachedD(2) [OF de] by (cases "tree_of k l") (auto simp: detachedD(6) [OF de])
  moreover have "distinct (tree_of k' l)" using lo(3) by (simp add: detachedD(6) [OF de])
  moreover have "sorted_wrt (\<lambda>x y. prio k' x \<le> prio k' y) (tree_of k' l)"
    unfolding detachedD(6) [OF de] frd(2) by (rule sorted_wrt_remove1 [OF lo(4)])
  moreover have "l \<notin> set (lock_slab k')" using lo(6) more by (simp add: detachedD(3) [OF de])
  moreover have "m_waiting_lock_info (threads k' x) = Some l \<and> wait_key k' x = lock_key k' l \<and>
      m_condvar_tree (threads k' x) = None \<and> x < 2 ^ 32 - 1" if "x \<in> set (tree_of k' l)" for x
  proof -
    have "x \<in> set (tree_of k l)" "x \<noteq> w" using that lo(3) by (auto simp: detachedD(6) [OF de])
    then show ?thesis using lo(7) [of x] detachedD(8,10) [OF de] frd(3,4) by simp
  qed
  ultimately show ?thesis using detachedD(5,7) [OF de] more unfolding lock_ok_def by simp
qed

lemma detached_held:
  assumes ok: "locks_shape k" and de: "detached t w l k k'" and "l' \<in> set (held k' s)"
  shows "l' \<in> set (held k s)" and "l' = l \<Longrightarrow> s = t \<and> tree_of k l \<noteq> [w]"
proof -
  note sh = locks_shapeD [OF ok]
  show h: "l' \<in> set (held k s)" using assms(3) set_remove1_subset by (fastforce simp: detachedD(4) [OF de] split: if_splits)
  show "s = t \<and> tree_of k l \<noteq> [w]" if "l' = l"
  proof -
    have "s = t" using held_owner [OF ok detachedD(1) [OF de], of s] h that by blast
    moreover have "l \<notin> set (remove1 l (held k t))" using sh(2) by simp
    ultimately show ?thesis using assms(3) that by (auto simp: detachedD(4) [OF de])
  qed
qed

lemma detached_shape:
  assumes ok: "locks_shape k" and de: "detached t w l k k'" and fr: "frame k k'"
  shows "locks_shape k'"
proof -
  note sh = locks_shapeD [OF ok] and frd = frameD [OF fr]
  have lo: "lock_ok k t l" by (rule sh(3) [OF detachedD(1) [OF de]])
  have slab: "distinct (lock_slab k')" using sh(1) lock_okD(6) [OF lo] by (simp add: detachedD(3) [OF de])
  have wl: "m_waiting_lock_info (threads k w) = Some l" using lock_okD(7) [OF lo detachedD(2) [OF de]] by simp
  have other: "lock_ok k' s l'" if h: "l' \<in> set (held k s)" and ne: "l' \<noteq> l" for s l'
  proof (rule lock_ok_kept [OF sh(3) [OF h] detachedD(9) [OF de ne] frd(2,3) _ _ frd(4)])
    show "l' \<notin> set (lock_slab k')" using ne lock_okD(6) [OF sh(3) [OF h]] by (simp add: detachedD(3) [OF de])
    show "m_waiting_lock_info (threads k' x) = Some l'" if "x \<in> set (tree_of k l')" for x
      using lock_okD(7) [OF sh(3) [OF h] that] wl ne detachedD(10) [OF de, of x] by auto
  qed
  have locks: "lock_ok k' s l'" if "l' \<in> set (held k' s)" for s l'
  proof (cases "l' = l")
    case True
    then show ?thesis using detached_held(2) [OF ok de that] detached_lock [OF ok de fr] by simp
  qed (use other detached_held(1) [OF ok de that] in blast)
  have "distinct (held k' s)" for s using sh(2) by (simp add: detachedD(4) [OF de])
  moreover have "x \<in> set (tree_of k' l') \<and> (\<exists>s. l' \<in> set (held k' s))" if x: "m_waiting_lock_info (threads k' x) = Some l'" for x l'
  proof -
    have ne: "x \<noteq> w" and "m_waiting_lock_info (threads k x) = Some l'" using x detachedD(10) [OF de, of x] by (auto split: if_splits)
    then obtain s where s: "x \<in> set (tree_of k l')" "l' \<in> set (held k s)" using sh(4) by blast
    have "x \<in> set (tree_of k' l')"
      using s(1) ne detachedD(6,9) [OF de] by (cases "l' = l") (simp_all add: tree_of_def)
    moreover have "l' \<in> set (held k' s)"
      using s ne by (cases "l' = l") (auto simp: detachedD(4) [OF de])
    ultimately show ?thesis by blast
  qed
  ultimately show ?thesis unfolding locks_shape_def using slab locks by blast
qed

text \<open>The effect on who waits for whom.\<close>

lemma attached_owners:
  assumes ok: "locks_shape k" and at: "attached t w l k k'"
  shows "GetLockOwner k' = (GetLockOwner k)(w := Some t)"
proof
  fix x
  show "GetLockOwner k' x = ((GetLockOwner k)(w := Some t)) x"
  proof (cases "x = w")
    case True
    then show ?thesis by (simp add: GetLockOwner_def attachedD(5,9) [OF at])
  next
    case False
    have "l_owner (lock_infos k' l') = l_owner (lock_infos k l')" if m: "m_waiting_lock_info (threads k x) = Some l'" for l'
    proof (cases "l' = l")
      case True
      obtain s where s: "l' \<in> set (held k s)" using locks_shapeD(4) [OF ok m] by blast
      then have "s = t" using True attached_owner [OF ok at] by blast
      then show ?thesis using True s lock_okD(1) [OF locks_shapeD(3) [OF ok s]] attachedD(5) [OF at] by simp
    qed (simp add: attachedD(8) [OF at])
    then show ?thesis using False by (simp add: GetLockOwner_def attachedD(9) [OF at] split: option.split)
  qed
qed

lemma detached_owners:
  assumes ok: "locks_shape k" and de: "detached t w l k k'"
  shows "GetLockOwner k' = (GetLockOwner k)(w := None)" and "GetLockOwner k w = Some t"
proof -
  have lo: "lock_ok k t l" by (rule locks_shapeD(3) [OF ok detachedD(1) [OF de]])
  have "l_owner (lock_infos k' l') = l_owner (lock_infos k l')" for l'
    using lock_okD(1) [OF lo] detachedD(7) [OF de] detachedD(9) [OF de, of l'] by (cases "l' = l") simp_all
  then show "GetLockOwner k' = (GetLockOwner k)(w := None)"
    by (auto simp: GetLockOwner_def detachedD(10) [OF de] fun_eq_iff split: option.split)
  show "GetLockOwner k w = Some t" using lock_okD(1) [OF lo] lock_okD(7) [OF lo detachedD(2) [OF de]] by (simp add: GetLockOwner_def)
qed

text \<open>The counts of kernel waiters follow.\<close>

lemma kernel_waiters_finite: "locks_shape k \<Longrightarrow> finite (kernel_waiters k t)"
  unfolding kernel_waiters_def by (rule finite_subset [OF _ waiters_finite_set [OF owners_finite]]) auto

lemma count_attached:
  assumes ok: "locks_ok k" and "GetLockOwner k w = None" and "GetLockOwner k' = (GetLockOwner k)(w := Some t)" and fr: "frame k k'"
    and "\<And>s. m_num_kernel_waiters (threads k' s) =
      m_num_kernel_waiters (threads k s) + (if s = t \<and> m_is_kernel_address_key (threads k w) then 1 else 0)"
  shows "m_num_kernel_waiters (threads k' s) = int (card (kernel_waiters k' s))"
proof -
  have same: "m_is_kernel_address_key (threads k' x) = m_is_kernel_address_key (threads k x)" for x
    using fun_cong [OF frameD(3) [OF fr], of x] by (simp add: wait_key_def)
  have "kernel_waiters k' s = (if s = t \<and> m_is_kernel_address_key (threads k w) then insert w (kernel_waiters k s) else kernel_waiters k s)"
    using assms(2) by (auto simp: kernel_waiters_def assms(3) same)
  moreover have "w \<notin> kernel_waiters k s" using assms(2) by (simp add: kernel_waiters_def)
  moreover have "finite (kernel_waiters k s)" using ok kernel_waiters_finite by (simp add: locks_ok_def)
  moreover have "m_num_kernel_waiters (threads k s) = int (card (kernel_waiters k s))" using ok by (simp add: locks_ok_def)
  ultimately show ?thesis by (cases "s = t \<and> m_is_kernel_address_key (threads k w)") (simp_all add: assms(5))
qed

lemma count_detached:
  assumes ok: "locks_ok k" and "GetLockOwner k w = Some t" and "GetLockOwner k' = (GetLockOwner k)(w := None)" and fr: "frame k k'"
    and "\<And>s. m_num_kernel_waiters (threads k' s) =
      m_num_kernel_waiters (threads k s) - (if s = t \<and> m_is_kernel_address_key (threads k w) then 1 else 0)"
  shows "m_num_kernel_waiters (threads k' s) = int (card (kernel_waiters k' s))"
proof -
  have same: "m_is_kernel_address_key (threads k' x) = m_is_kernel_address_key (threads k x)" for x
    using fun_cong [OF frameD(3) [OF fr], of x] by (simp add: wait_key_def)
  let ?b = "s = t \<and> m_is_kernel_address_key (threads k w)"
  have fin: "finite (kernel_waiters k s)" using ok kernel_waiters_finite by (simp add: locks_ok_def)
  have eq: "kernel_waiters k' s = kernel_waiters k s - {w}" by (auto simp: kernel_waiters_def assms(3) same)
  have mem: "w \<in> kernel_waiters k s \<longleftrightarrow> ?b" using assms(2) by (auto simp: kernel_waiters_def)
  have "int (card (kernel_waiters k' s)) = int (card (kernel_waiters k s)) - (if ?b then 1 else 0)"
  proof (cases ?b)
    case True
    then have "card (kernel_waiters k s) = Suc (card (kernel_waiters k s - {w}))" using mem fin by (metis card.remove)
    then show ?thesis unfolding eq using True by simp
  qed (use mem in \<open>simp add: eq\<close>)
  then show ?thesis using ok by (simp add: assms(5) locks_ok_def)
qed

section \<open>Adding and removing a waiter\<close>

lemma lock_simps [kernel_simps]:
  "threads (set_lock l g k) = threads k" "m_priority_queue (set_lock l g k) = m_priority_queue k"
  "current_thread (set_lock l g k) = current_thread k" "condvar_trees (set_lock l g k) = condvar_trees k"
  "lock_slab (set_lock l g k) = lock_slab k" "lock_infos (set_lock l g k) = (lock_infos k)(l := g (lock_infos k l))"
  "lock_infos (set_thread t f k) = lock_infos k" "lock_slab (set_thread t f k) = lock_slab k"
  "condvar_trees (set_thread t f k) = condvar_trees k"
  "lock_infos (SetSchedulerUpdateNeeded k) = lock_infos k" "lock_slab (SetSchedulerUpdateNeeded k) = lock_slab k"
  "condvar_trees (SetSchedulerUpdateNeeded k) = condvar_trees k"
  by (simp_all add: set_lock_def set_thread_def SetSchedulerUpdateNeeded_def)

definition can_add :: "KernelCore \<Rightarrow> nat \<Rightarrow> nat \<Rightarrow> bool" where
  "can_add k t w \<longleftrightarrow> wait_key k w \<in> lock_key k ` set (held k t) \<or> lock_slab k \<noteq> []"

lemma FindHeldLock_None:
  "FindHeldLock t (fst key) (snd key) k = None \<longleftrightarrow> key \<notin> lock_key k ` set (held k t)"
  by (cases key) (auto simp: FindHeldLock_def find_None_iff lock_key_def held_def)

lemma FindHeldLock_Some:
  assumes "FindHeldLock t a b k = Some l"
  shows "l \<in> set (held k t)" "lock_key k l = (a, b)"
  using assms unfolding FindHeldLock_def find_Some_iff by (auto simp: lock_key_def held_def)

definition count_kernel :: "nat \<Rightarrow> nat \<Rightarrow> int \<Rightarrow> KernelCore \<Rightarrow> KernelCore" where
  "count_kernel t w n k =
     (if m_is_kernel_address_key (threads k w)
      then SetSchedulerUpdateNeeded (set_thread t (\<lambda>x. x\<lparr>m_num_kernel_waiters := m_num_kernel_waiters x + n\<rparr>) k) else k)"

lemma count_kernel_simps [kernel_simps]:
  "threads (count_kernel t w n k) = (threads k)(t := (threads k t)\<lparr>m_num_kernel_waiters := m_num_kernel_waiters (threads k t) +
     (if m_is_kernel_address_key (threads k w) then n else 0)\<rparr>)"
  "lock_infos (count_kernel t w n k) = lock_infos k" "lock_slab (count_kernel t w n k) = lock_slab k"
  "m_priority_queue (count_kernel t w n k) = m_priority_queue k" "current_thread (count_kernel t w n k) = current_thread k"
  "condvar_trees (count_kernel t w n k) = condvar_trees k"
  by (simp_all add: count_kernel_def kernel_simps)

lemma count_kernel_views:
  "held (count_kernel t w n k) = held k" "lock_key (count_kernel t w n k) = lock_key k"
  "LockWithPriorityInheritanceComparator (count_kernel t w n k) = LockWithPriorityInheritanceComparator k"
  "m_waiting_lock_info (threads (count_kernel t w n k) s) = m_waiting_lock_info (threads k s)"
  "tree_of (count_kernel t w n k) = tree_of k"
  by (auto simp: held_def lock_key_def LockWithPriorityInheritanceComparator_def kernel_simps fun_eq_iff tree_of_def)

lemma AddWaiterImpl_attached:
  assumes ok: "locks_shape k" and "can_add k t w"
  shows "\<exists>k' l. AddWaiterImpl t w k = Some k' \<and> attached t w l k k' \<and> frame k k' \<and>
    (l \<in> set (held k t) \<longrightarrow> lock_key k l = wait_key k w) \<and>
    (\<forall>s. m_num_kernel_waiters (threads k' s) =
      m_num_kernel_waiters (threads k s) + (if s = t \<and> m_is_kernel_address_key (threads k w) then 1 else 0))"
proof -
  let ?k1 = "count_kernel t w 1 k" and ?a = "m_address_key (threads k w)" and ?b = "m_is_kernel_address_key (threads k w)"
  have impl: "AddWaiterImpl t w k = (case FindHeldLock t ?a ?b ?k1 of
      Some l \<Rightarrow> Some (LockInfo_AddWaiter l w ?k1)
    | None \<Rightarrow> do { (l, k2) \<leftarrow> LockInfo_Create ?a ?b ?k1; Some (LockInfo_AddWaiter l w (AddHeldLock t l k2)) })"
    by (simp only: AddWaiterImpl_def count_kernel_def Let_def)
  show ?thesis
  proof (cases "FindHeldLock t ?a ?b ?k1")
    case (Some l)
    have l: "l \<in> set (held k t)" "lock_key k l = wait_key k w"
      using FindHeldLock_Some [OF Some] by (simp_all add: count_kernel_views wait_key_def)
    have cnt: "l_waiter_count (lock_infos k l) = of_nat (length (l_tree (lock_infos k l)))"
      using lock_okD(5) [OF locks_shapeD(3) [OF ok l(1)]] by (simp add: tree_of_def)
    have own: "l_owner (lock_infos k l) = Some t" using lock_okD(1) [OF locks_shapeD(3) [OF ok l(1)]] .
    let ?k' = "LockInfo_AddWaiter l w ?k1"
    have "attached t w l k ?k'" using l cnt own
      by (auto simp: attached_def LockInfo_AddWaiter_def kernel_simps held_def tree_of_def lock_key_def wait_key_def
          LockWithPriorityInheritanceComparator_def fun_eq_iff count_kernel_views)
    moreover have "frame k ?k'" by (auto simp: frame_def same_thread_def LockInfo_AddWaiter_def kernel_simps)
    moreover have "AddWaiterImpl t w k = Some ?k'" using impl Some by simp
    moreover have "\<forall>s. m_num_kernel_waiters (threads ?k' s) =
      m_num_kernel_waiters (threads k s) + (if s = t \<and> m_is_kernel_address_key (threads k w) then 1 else 0)"
      by (auto simp: LockInfo_AddWaiter_def kernel_simps)
    ultimately show ?thesis using l(2) by blast
  next
    case None
    then have new: "wait_key k w \<notin> lock_key k ` set (held k t)"
      using FindHeldLock_None [of t "wait_key k w" ?k1] by (simp add: count_kernel_views wait_key_def)
    then obtain l ls where slab: "lock_slab k = l # ls" using assms(2) by (cases "lock_slab k") (auto simp: can_add_def)
    have fresh: "l \<notin> set (held k t)" using lock_okD(6) [OF locks_shapeD(3) [OF ok]] slab by force
    obtain k2 where k2: "LockInfo_Create ?a ?b ?k1 = Some (l, k2)" by (simp add: LockInfo_Create_def kernel_simps slab)
    then have k2_eq: "k2 = set_lock l (\<lambda>_. \<lparr>l_tree = [], l_address_key = ?a, l_owner = None, l_waiter_count = 0,
        l_is_kernel_address_key = ?b\<rparr>) (?k1\<lparr>lock_slab := ls\<rparr>)"
      by (simp add: LockInfo_Create_def kernel_simps slab)
    let ?k' = "LockInfo_AddWaiter l w (AddHeldLock t l k2)"
    have "attached t w l k ?k'" using fresh slab new
      by (auto simp: attached_def LockInfo_AddWaiter_def AddHeldLock_def k2_eq kernel_simps held_def tree_of_def lock_key_def
          wait_key_def fun_eq_iff)
    moreover have "frame k ?k'"
      by (auto simp: frame_def same_thread_def LockInfo_AddWaiter_def AddHeldLock_def k2_eq kernel_simps)
    moreover have "AddWaiterImpl t w k = Some ?k'" using impl None k2 by simp
    moreover have "\<forall>s. m_num_kernel_waiters (threads ?k' s) =
      m_num_kernel_waiters (threads k s) + (if s = t \<and> m_is_kernel_address_key (threads k w) then 1 else 0)"
      by (auto simp: LockInfo_AddWaiter_def AddHeldLock_def k2_eq kernel_simps)
    ultimately show ?thesis using fresh by blast
  qed
qed

lemma AddWaiterImpl_ok:
  assumes ok: "locks_ok k" and free: "m_waiting_lock_info (threads k w) = None" "m_condvar_tree (threads k w) = None" "w < 2 ^ 32 - 1"
    and "can_add k t w"
  shows "\<exists>k'. AddWaiterImpl t w k = Some k' \<and> locks_ok k' \<and> frame k k' \<and> GetLockOwner k' = (GetLockOwner k)(w := Some t)"
proof -
  have sh: "locks_shape k" using ok by (simp add: locks_ok_def)
  obtain k' l where k': "AddWaiterImpl t w k = Some k'" "attached t w l k k'" "frame k k'" "l \<in> set (held k t) \<longrightarrow> lock_key k l = wait_key k w"
    "\<forall>s. m_num_kernel_waiters (threads k' s) =
      m_num_kernel_waiters (threads k s) + (if s = t \<and> m_is_kernel_address_key (threads k w) then 1 else 0)"
    using AddWaiterImpl_attached [OF sh assms(5)] by blast
  have own: "GetLockOwner k' = (GetLockOwner k)(w := Some t)" by (rule attached_owners [OF sh k'(2)])
  have "GetLockOwner k w = None" using free(1) by (simp add: GetLockOwner_def)
  then have "m_num_kernel_waiters (threads k' s) = int (card (kernel_waiters k' s))" for s
    using count_attached [OF ok _ own k'(3)] k'(5) by blast
  moreover have "locks_shape k'" using attached_shape [OF sh k'(2,3) free] k'(4) by blast
  ultimately show ?thesis using k'(1,3) own unfolding locks_ok_def by blast
qed

lemma RemoveWaiterImpl_detached:
  assumes ok: "locks_shape k" and w: "GetLockOwner k w = Some t"
  shows "\<exists>k' l. RemoveWaiterImpl t w k = Some k' \<and> detached t w l k k' \<and> frame k k' \<and> wait_key k w = lock_key k l \<and>
    (\<forall>s. m_num_kernel_waiters (threads k' s) =
      m_num_kernel_waiters (threads k s) - (if s = t \<and> m_is_kernel_address_key (threads k w) then 1 else 0))"
proof -
  obtain l where l: "l \<in> set (held k t)" "w \<in> set (tree_of k l)" using w GetLockOwner_iff [OF ok] by blast
  note lo = locks_shapeD(3) [OF ok l(1)]
  have wl: "m_waiting_lock_info (threads k w) = Some l" "wait_key k w = lock_key k l" using lock_okD(7) [OF lo l(2)] by simp_all
  let ?k1 = "count_kernel t w (- 1) k"
  define k2 where "k2 = set_thread w (m_waiting_lock_info_update (\<lambda>_. None))
    (set_lock l (\<lambda>i. i\<lparr>l_tree := remove1 w (l_tree i), l_waiter_count := l_waiter_count i - 1\<rparr>) ?k1)"
  define k' where "k' = (if tree_of k l = [w] then LockInfo_Free l (erase_held t l k2) else k2)"
  have one: "length (tree_of k l) = 1 \<longleftrightarrow> tree_of k l = [w]" using l(2) by (auto simp: length_Suc_conv)
  have cnt: "l_waiter_count (lock_infos k2 l) = 0 \<longleftrightarrow> tree_of k l = [w]"
    using count_zero [OF lo] one by (simp add: k2_def kernel_simps)
  have k1: "?k1 = (if m_is_kernel_address_key (threads k w) then SetSchedulerUpdateNeeded
      (set_thread t (\<lambda>x. x\<lparr>m_num_kernel_waiters := m_num_kernel_waiters x - 1\<rparr>) k) else k)"
    by (simp add: count_kernel_def)
  have waits: "m_waiting_lock_info (threads ?k1 w) = Some l" using wl(1) by (simp only: count_kernel_views)
  have "w \<in> set (l_tree (lock_infos ?k1 l))" using l(2) by (simp add: kernel_simps tree_of_def)
  then have removed: "LockInfo_RemoveWaiter l w ?k1 = Some (tree_of k l = [w], k2)"
    using cnt by (simp add: LockInfo_RemoveWaiter_def k2_def Let_def)
  have "RemoveWaiterImpl t w k = (do {
      lock_info \<leftarrow> m_waiting_lock_info (threads ?k1 w);
      (last_waiter, k2) \<leftarrow> LockInfo_RemoveWaiter lock_info w ?k1;
      Some (if last_waiter then LockInfo_Free lock_info (erase_held t lock_info k2) else k2) })"
    by (simp only: RemoveWaiterImpl_def k1 Let_def)
  also have "\<dots> = Some k'" by (simp add: waits removed k'_def)
  finally have impl: "RemoveWaiterImpl t w k = Some k'" .
  have th: "threads k' s = (let x = threads k s in x\<lparr>
      m_num_kernel_waiters := m_num_kernel_waiters x - (if s = t \<and> m_is_kernel_address_key (threads k w) then 1 else 0),
      m_waiting_lock_info := (if s = w then None else m_waiting_lock_info x),
      m_held_lock_info_list := (if s = t \<and> tree_of k l = [w] then remove1 l (m_held_lock_info_list x) else m_held_lock_info_list x)\<rparr>)" for s
    by (simp add: k'_def k2_def LockInfo_Free_def erase_held_def kernel_simps Let_def)
  have li: "lock_infos k' = (lock_infos k)(l := (lock_infos k l)\<lparr>l_tree := remove1 w (tree_of k l), l_waiter_count := l_waiter_count (lock_infos k l) - 1\<rparr>)"
    by (simp add: k'_def k2_def LockInfo_Free_def erase_held_def kernel_simps tree_of_def)
  have len: "length (remove1 w (tree_of k l)) = length (tree_of k l) - 1" using l(2) by (simp add: length_remove1)
  have "length (tree_of k l) \<ge> 1" using l(2) by (cases "tree_of k l") simp_all
  then have "of_nat (length (tree_of k l)) - (1 :: u32) = of_nat (length (tree_of k l) - 1)" by (simp add: of_nat_diff)
  then have cnt': "l_waiter_count (lock_infos k' l) = of_nat (length (remove1 w (tree_of k l)))"
    using lock_okD(5) [OF lo] len by (simp add: li)
  have "detached t w l k k'"
    unfolding detached_def using l cnt' lock_okD(1) [OF lo]
    by (auto simp: th li Let_def held_def tree_of_def lock_key_def fun_eq_iff k'_def k2_def LockInfo_Free_def erase_held_def kernel_simps)
  moreover have "frame k k'"
    by (auto simp: frame_def same_thread_def th Let_def k'_def k2_def LockInfo_Free_def erase_held_def kernel_simps)
  moreover have "\<forall>s. m_num_kernel_waiters (threads k' s) =
      m_num_kernel_waiters (threads k s) - (if s = t \<and> m_is_kernel_address_key (threads k w) then 1 else 0)"
    by (simp add: th Let_def)
  ultimately show ?thesis using impl wl(2) by blast
qed

lemma RemoveWaiterImpl_ok:
  assumes ok: "locks_ok k" and w: "GetLockOwner k w = Some t"
  shows "\<exists>k'. RemoveWaiterImpl t w k = Some k' \<and> locks_ok k' \<and> frame k k' \<and> GetLockOwner k' = (GetLockOwner k)(w := None) \<and>
    m_waiting_lock_info (threads k' w) = None \<and> can_add k' t w \<and> m_condvar_tree (threads k' w) = None \<and> w < 2 ^ 32 - 1"
proof -
  have sh: "locks_shape k" using ok by (simp add: locks_ok_def)
  obtain k' l where k': "RemoveWaiterImpl t w k = Some k'" "detached t w l k k'" "frame k k'" "wait_key k w = lock_key k l"
    "\<forall>s. m_num_kernel_waiters (threads k' s) =
      m_num_kernel_waiters (threads k s) - (if s = t \<and> m_is_kernel_address_key (threads k w) then 1 else 0)"
    using RemoveWaiterImpl_detached [OF sh w] by blast
  note own = detached_owners [OF sh k'(2)] and d = detachedD [OF k'(2)]
  have "m_num_kernel_waiters (threads k' s) = int (card (kernel_waiters k' s))" for s
    using count_detached [OF ok own(2,1) k'(3)] k'(5) by blast
  then have lk: "locks_ok k'" using detached_shape [OF sh k'(2,3)] by (simp add: locks_ok_def)
  have "can_add k' t w"
  proof (cases "tree_of k l = [w]")
    case True
    then show ?thesis using d(3) by (simp add: can_add_def)
  next
    case False
    then have "l \<in> set (held k' t)" using d(1) by (simp add: d(4))
    moreover have "wait_key k' w = lock_key k' l" using k'(4) d(8) frameD(3) [OF k'(3)] by simp
    ultimately show ?thesis by (simp add: can_add_def)
  qed
  moreover have "m_waiting_lock_info (threads k' w) = None" by (simp add: d(10))
  moreover have "m_condvar_tree (threads k' w) = None \<and> w < 2 ^ 32 - 1"
    using lock_okD(7) [OF locks_shapeD(3) [OF sh d(1)] d(2)] frameD(4) [OF k'(3)] by simp
  ultimately show ?thesis using k'(1,3) lk own(1) by blast
qed

end
