(* ===== verification/Priority_Inheritance_Ops.thy ===== *)
theory Priority_Inheritance_Ops
  imports Priority_Inheritance
begin

text \<open>
  The propagation of priorities and the operations built on it: one change of a priority takes the thread out of
  the trees sorted by priority, changes it, puts it back and tells the scheduler; \<^const>\<open>RestorePriority\<close> repeats
  this along the chain of owners; adding, removing and handing over waiters and changing base priorities keep every
  thread at the priority it inherits.
\<close>

section \<open>Changing one priority\<close>

definition cv_le :: "KernelCore \<Rightarrow> nat \<Rightarrow> nat \<Rightarrow> bool" where
  "cv_le k a b \<longleftrightarrow> m_condvar_key (threads k a) < m_condvar_key (threads k b) \<or>
     m_condvar_key (threads k a) = m_condvar_key (threads k b) \<and> prio k a \<le> prio k b"

definition condvars_ok :: "KernelCore \<Rightarrow> bool" where
  "condvars_ok k \<longleftrightarrow>
     (\<forall>c. distinct (condvar_trees k c) \<and> sorted_wrt (cv_le k) (condvar_trees k c) \<and>
          (\<forall>t. t \<in> set (condvar_trees k c) \<longleftrightarrow> m_condvar_tree (threads k t) = Some c))"

text \<open>Only priorities and the bookkeeping of the locks may differ.\<close>

definition only_prio :: "KernelCore \<Rightarrow> KernelCore \<Rightarrow> bool" where
  "only_prio k k' \<longleftrightarrow>
     (\<forall>s. same_thread ((threads k s)\<lparr>m_priority := prio k' s\<rparr>) (threads k' s)) \<and> GetLockOwner k' = GetLockOwner k"

lemma only_prioD:
  assumes "only_prio k k'"
  shows "m_base_priority (threads k' s) = m_base_priority (threads k s)" "queued k' s = queued k s"
    "m_condvar_tree (threads k' s) = m_condvar_tree (threads k s)" "GetLockOwner k' = GetLockOwner k"
    "wait_key k' = wait_key k"
proof -
  have "same_thread ((threads k s)\<lparr>m_priority := prio k' s\<rparr>) (threads k' s)" for s using assms by (simp add: only_prio_def)
  note d = same_threadD [OF this]
  show "m_base_priority (threads k' s) = m_base_priority (threads k s)" "queued k' s = queued k s"
    "m_condvar_tree (threads k' s) = m_condvar_tree (threads k s)" "wait_key k' = wait_key k"
    by (simp_all add: d queued_def GetRawState_def IsDummyThread_def wait_key_def fun_eq_iff)
  show "GetLockOwner k' = GetLockOwner k" using assms by (simp add: only_prio_def)
qed

lemma only_prio_refl: "only_prio k k"
  by (simp add: only_prio_def same_thread_def prio_def)

lemma strip_priority:
  "x\<lparr>m_held_lock_info_list := [], m_waiting_lock_info := None, m_num_kernel_waiters := 0, m_priority := p\<rparr> =
   x\<lparr>m_priority := p, m_held_lock_info_list := [], m_waiting_lock_info := None, m_num_kernel_waiters := 0\<rparr>"
  by (cases x) simp

lemma only_prio_trans:
  assumes "only_prio a b" and "only_prio b c"
  shows "only_prio a c"
proof -
  have "same_thread ((threads a s)\<lparr>m_priority := prio c s\<rparr>) (threads c s)" for s
  proof -
    have e: "same_thread ((threads a s)\<lparr>m_priority := prio b s\<rparr>) (threads b s)" using assms(1) by (simp add: only_prio_def)
    have "same_thread ((threads a s)\<lparr>m_priority := prio c s\<rparr>) ((threads b s)\<lparr>m_priority := prio c s\<rparr>)"
      using arg_cong [OF e [unfolded same_thread_def], of "m_priority_update (\<lambda>_. prio c s)"]
      by (simp add: same_thread_def strip_priority)
    then show ?thesis using assms(2) by (simp add: only_prio_def same_thread_def)
  qed
  then show ?thesis using assms by (simp add: only_prio_def)
qed

lemma frame_trans: "frame a b \<Longrightarrow> frame b c \<Longrightarrow> frame a c"
  by (simp add: frame_def same_thread_def)

text \<open>A thread on no lock may change its priority freely.\<close>

lemma locks_ok_prio:
  assumes ok: "locks_ok k" and free: "m_waiting_lock_info (threads k t) = None" and li: "lock_infos k' = lock_infos k"
    and sl: "lock_slab k' = lock_slab k" and th: "threads k' = (threads k)(t := (threads k t)\<lparr>m_priority := p\<rparr>)"
  shows "locks_ok k'" and "GetLockOwner k' = GetLockOwner k"
proof -
  have sh: "locks_shape k" using ok by (simp add: locks_ok_def)
  have views: "held k' = held k" "lock_key k' = lock_key k" "wait_key k' = wait_key k" "tree_of k' = tree_of k"
    by (auto simp: held_def lock_key_def wait_key_def tree_of_def th li fun_eq_iff)
  have fields: "m_waiting_lock_info (threads k' s) = m_waiting_lock_info (threads k s)"
    "m_condvar_tree (threads k' s) = m_condvar_tree (threads k s)"
    "m_is_kernel_address_key (threads k' s) = m_is_kernel_address_key (threads k s)"
    "m_num_kernel_waiters (threads k' s) = m_num_kernel_waiters (threads k s)"
    "prio k' s = (if s = t then p else prio k s)" for s
    by (simp_all add: th prio_def)
  have lock: "lock_ok k' s l" if "l \<in> set (held k s)" for s l
  proof -
    note lo = locks_shapeD(3) [OF sh that]
    have ne: "x \<noteq> t" if "x \<in> set (tree_of k l)" for x using lock_okD(7) [OF lo that] free by auto
    have "sorted_wrt (\<lambda>x y. prio k' x \<le> prio k' y) (tree_of k l)"
      by (rule sorted_wrt_mono_rel [OF _ lock_okD(4) [OF lo]]) (simp add: fields(5) ne)
    then show ?thesis using lo unfolding lock_ok_def by (simp add: views fields(1,2) li sl)
  qed
  show own: "GetLockOwner k' = GetLockOwner k" by (simp add: GetLockOwner_def fields li fun_eq_iff split: option.split)
  have "locks_shape k'" using sh lock unfolding locks_shape_def views fields sl by blast
  then show "locks_ok k'" using ok by (simp add: locks_ok_def kernel_waiters_def own fields(3,4))
qed

lemma OnThreadPriorityChanged_keeps:
  assumes "OnThreadPriorityChanged t old k = Some k'"
  shows "lock_infos k' = lock_infos k" "lock_slab k' = lock_slab k" "condvar_trees k' = condvar_trees k"
  using assms
  by (auto simp: OnThreadPriorityChanged_def on_queue_def SetSchedulerUpdateNeeded_def IncrementScheduledCount_def set_process_def
      Let_def bind_eq_Some_conv split: if_splits option.splits)

text \<open>Taking a thread out of its condition variable's tree and putting it back where its new priority belongs.\<close>

lemma condvars_ok_cong:
  assumes "condvars_ok k" and "condvar_trees k' = condvar_trees k" and "prio k' = prio k"
    and "\<And>s. m_condvar_tree (threads k' s) = m_condvar_tree (threads k s)" and "\<And>s. m_condvar_key (threads k' s) = m_condvar_key (threads k s)"
  shows "condvars_ok k'"
proof -
  have "cv_le k' = cv_le k" by (simp add: cv_le_def fun_eq_iff assms)
  then show ?thesis using assms by (simp add: condvars_ok_def)
qed

lemma condvars_ok_prio:
  assumes ok: "condvars_ok k" and th: "threads k' = (threads k)(t := (threads k t)\<lparr>m_priority := p\<rparr>)"
    and tr: "condvar_trees k' = (case m_condvar_tree (threads k t) of
      Some c \<Rightarrow> (condvar_trees k)(c := rb_insert (ConditionVariableComparator k') t (remove1 t (condvar_trees k c)))
    | None \<Rightarrow> condvar_trees k)"
  shows "condvars_ok k'"
proof -
  have fields: "m_condvar_tree (threads k' s) = m_condvar_tree (threads k s)" for s by (simp add: th)
  have le: "cv_le k' x y = cv_le k x y" if "x \<noteq> t" "y \<noteq> t" for x y using that by (simp add: cv_le_def th prio_def)
  have mem: "s \<in> set (condvar_trees k c) \<longleftrightarrow> m_condvar_tree (threads k s) = Some c" for s c using ok by (simp add: condvars_ok_def)
  have d: "distinct (condvar_trees k c)" for c using ok by (simp add: condvars_ok_def)
  have so: "sorted_wrt (cv_le k') xs" if "sorted_wrt (cv_le k) xs" "t \<notin> set xs" for xs
  proof (rule sorted_wrt_mono_rel [OF _ that(1)])
    show "cv_le k' x y" if "x \<in> set xs" "y \<in> set xs" "cv_le k x y" for x y
    proof -
      have "x \<noteq> t" "y \<noteq> t" using that \<open>t \<notin> set xs\<close> by blast+
      then show ?thesis using le that(3) by simp
    qed
  qed
  have one: "distinct (condvar_trees k' c) \<and> sorted_wrt (cv_le k') (condvar_trees k' c) \<and>
      set (condvar_trees k' c) = set (condvar_trees k c)" for c
  proof (cases "m_condvar_tree (threads k t) = Some c")
    case True
    let ?r = "remove1 t (condvar_trees k c)"
    have "t \<notin> set ?r" "sorted_wrt (cv_le k) (condvar_trees k c)" using d ok by (simp_all add: condvars_ok_def)
    then have s: "sorted_wrt (cv_le k') ?r" using so [of ?r] sorted_wrt_remove1 [of "cv_le k"] by simp
    have "sorted_wrt (cv_le k') (rb_insert (ConditionVariableComparator k') t ?r)"
      by (rule rb_insert_sorted [OF _ _ _ s]) (auto simp: ConditionVariableComparator_def cv_le_def prio_def)
    moreover have "insert t (set ?r) = set (condvar_trees k c)" using d True mem by auto
    ultimately show ?thesis using d True by (simp add: tr)
  next
    case False
    then have "t \<notin> set (condvar_trees k c)" using mem by simp
    moreover have "condvar_trees k' c = condvar_trees k c" using False by (simp add: tr split: option.split)
    ultimately show ?thesis using d so ok by (simp add: condvars_ok_def)
  qed
  then show ?thesis unfolding condvars_ok_def fields using mem by simp
qed

text \<open>The state between two steps of the propagation.\<close>

definition kernel_ok :: "KernelCore \<Rightarrow> (nat \<Rightarrow> core_queues) \<Rightarrow> bool" where
  "kernel_ok k Q \<longleftrightarrow>
     sched_ok k Q \<and> locks_ok k \<and> condvars_ok k \<and> acyclic_waits (GetLockOwner k) \<and>
     (\<forall>t. HighestThreadPriority \<le> prio k t \<and> HighestThreadPriority \<le> m_base_priority (threads k t) \<and>
          (queued k t \<longrightarrow> IsValidPriority (m_base_priority (threads k t))))"

lemma no_owner:
  assumes "locks_shape k" and "GetLockOwner k t = None"
  shows "m_waiting_lock_info (threads k t) = None"
proof (cases "m_waiting_lock_info (threads k t)")
  case (Some l)
  then obtain s where "t \<in> set (tree_of k l)" "l \<in> set (held k s)" using locks_shapeD(4) [OF assms(1)] by blast
  then show ?thesis using GetLockOwner_iff [OF assms(1), of t s] assms(2) by auto
qed

text \<open>The middle of the step, for the condition variable.\<close>

definition requeue_condvar :: "nat \<Rightarrow> int \<Rightarrow> KernelCore \<Rightarrow> KernelCore option" where
  "requeue_condvar t p k = do {
     k2 \<leftarrow> (case m_condvar_tree (threads k t) of Some c \<Rightarrow> BeforeUpdatePriority c t k | None \<Rightarrow> Some k);
     let k3 = SetPriority t p k2;
     Some (case m_condvar_tree (threads k3 t) of Some c \<Rightarrow> AfterUpdatePriority c t k3 | None \<Rightarrow> k3)
   }"

lemma BeforeUpdatePriority_threads: "BeforeUpdatePriority c t k = Some k' \<Longrightarrow> threads k' = threads k"
  by (auto simp: BeforeUpdatePriority_def split: if_splits)

lemma change_priority_split:
  "change_priority t p k = do {
     k1 \<leftarrow> (case GetLockOwner k t of Some ow \<Rightarrow> RemoveWaiterImpl ow t k | None \<Rightarrow> Some k);
     k4 \<leftarrow> requeue_condvar t p k1;
     k5 \<leftarrow> (case GetLockOwner k t of Some ow \<Rightarrow> AddWaiterImpl ow t k4 | None \<Rightarrow> Some k4);
     OnThreadPriorityChanged t (m_priority (threads k1 t)) k5
   }"
  unfolding change_priority_def Let_def
proof (rule Option.bind_cong [OF HOL.refl])
  fix k1
  show "(do {
      k2 \<leftarrow> (case m_condvar_tree (threads k1 t) of Some c \<Rightarrow> BeforeUpdatePriority c t k1 | None \<Rightarrow> Some k1);
      k5 \<leftarrow> (case GetLockOwner k t of
        Some ow \<Rightarrow> AddWaiterImpl ow t (case m_condvar_tree (threads (SetPriority t p k2) t) of
          Some c \<Rightarrow> AfterUpdatePriority c t (SetPriority t p k2) | None \<Rightarrow> SetPriority t p k2)
      | None \<Rightarrow> Some (case m_condvar_tree (threads (SetPriority t p k2) t) of
          Some c \<Rightarrow> AfterUpdatePriority c t (SetPriority t p k2) | None \<Rightarrow> SetPriority t p k2));
      OnThreadPriorityChanged t (m_priority (threads k2 t)) k5 }) =
    (do {
      k4 \<leftarrow> requeue_condvar t p k1;
      k5 \<leftarrow> (case GetLockOwner k t of Some ow \<Rightarrow> AddWaiterImpl ow t k4 | None \<Rightarrow> Some k4);
      OnThreadPriorityChanged t (m_priority (threads k1 t)) k5 })"
    by (cases "m_condvar_tree (threads k1 t)")
      (auto simp: requeue_condvar_def Let_def BeforeUpdatePriority_def split: option.split)
qed

lemma condvar_update:
  assumes "condvars_ok k"
  shows "\<exists>k4. requeue_condvar t p k = Some k4 \<and> condvars_ok k4 \<and>
    threads k4 = (threads k)(t := (threads k t)\<lparr>m_priority := p\<rparr>) \<and> lock_infos k4 = lock_infos k \<and>
    lock_slab k4 = lock_slab k \<and> m_priority_queue k4 = m_priority_queue k"
proof (cases "m_condvar_tree (threads k t)")
  case None
  then have "condvars_ok (SetPriority t p k)"
    by (intro condvars_ok_prio [OF assms, where t = t and p = p]) (simp_all add: SetPriority_def kernel_simps)
  then show ?thesis using None by (simp add: SetPriority_def requeue_condvar_def kernel_simps Let_def)
next
  case (Some c)
  then have mem: "t \<in> set (condvar_trees k c)" using assms by (simp add: condvars_ok_def)
  define k3 where "k3 = SetPriority t p (k\<lparr>condvar_trees := (condvar_trees k)(c := remove1 t (condvar_trees k c))\<rparr>)"
  let ?k4 = "AfterUpdatePriority c t k3"
  have k3: "threads k3 = (threads k)(t := (threads k t)\<lparr>m_priority := p\<rparr>)" "lock_infos k3 = lock_infos k"
    "lock_slab k3 = lock_slab k" "m_priority_queue k3 = m_priority_queue k"
    "condvar_trees k3 = (condvar_trees k)(c := remove1 t (condvar_trees k c))"
    by (simp_all add: k3_def SetPriority_def kernel_simps)
  have k4: "threads ?k4 = threads k3" "lock_infos ?k4 = lock_infos k3" "lock_slab ?k4 = lock_slab k3"
    "m_priority_queue ?k4 = m_priority_queue k3"
    "condvar_trees ?k4 = (condvar_trees k3)(c := rb_insert (ConditionVariableComparator k3) t (condvar_trees k3 c))"
    by (simp_all add: AfterUpdatePriority_def)
  have "ConditionVariableComparator ?k4 = ConditionVariableComparator k3"
    by (simp add: ConditionVariableComparator_def k4(1) fun_eq_iff)
  then have "condvars_ok ?k4"
    using Some by (intro condvars_ok_prio [OF assms, where t = t and p = p]) (simp_all add: k4 k3)
  moreover have "requeue_condvar t p k = Some ?k4"
    using mem Some by (simp add: requeue_condvar_def BeforeUpdatePriority_def k3_def [symmetric] k3(1) Let_def)
  ultimately show ?thesis using k4 k3 by auto
qed

text \<open>Before the scheduler is told, the priority is changed and every structure is in order again.\<close>

definition requeued :: "nat \<Rightarrow> int \<Rightarrow> KernelCore \<Rightarrow> KernelCore \<Rightarrow> bool" where
  "requeued t p k k' \<longleftrightarrow>
     locks_ok k' \<and> condvars_ok k' \<and> GetLockOwner k' = GetLockOwner k \<and> m_priority_queue k' = m_priority_queue k \<and>
     (\<forall>s. same_thread ((threads k s)\<lparr>m_priority := if s = t then p else prio k s\<rparr>) (threads k' s))"

lemma same_thread_trans: "same_thread a b \<Longrightarrow> same_thread b c \<Longrightarrow> same_thread a c"
  by (simp add: same_thread_def)

lemma same_thread_prio: "same_thread a b \<Longrightarrow> same_thread (a\<lparr>m_priority := p\<rparr>) (b\<lparr>m_priority := p\<rparr>)"
  by (drule arg_cong [OF iffD1 [OF same_thread_def], of _ _ "m_priority_update (\<lambda>_. p)"])
    (simp add: same_thread_def strip_priority)

lemma requeue_free:
  assumes ok: "locks_ok k" and cv: "condvars_ok k" and free: "m_waiting_lock_info (threads k t) = None"
  shows "\<exists>k4. requeue_condvar t p k = Some k4 \<and> requeued t p k k4 \<and> lock_infos k4 = lock_infos k \<and> lock_slab k4 = lock_slab k \<and>
    threads k4 = (threads k)(t := (threads k t)\<lparr>m_priority := p\<rparr>)"
proof -
  obtain k4 where k4: "requeue_condvar t p k = Some k4" "condvars_ok k4"
    "threads k4 = (threads k)(t := (threads k t)\<lparr>m_priority := p\<rparr>)" "lock_infos k4 = lock_infos k"
    "lock_slab k4 = lock_slab k" "m_priority_queue k4 = m_priority_queue k"
    using condvar_update [OF cv] by blast
  note lk = locks_ok_prio [OF ok free k4(4,5,3)]
  have "same_thread ((threads k s)\<lparr>m_priority := if s = t then p else prio k s\<rparr>) (threads k4 s)" for s
    by (simp add: k4(3) same_thread_def prio_def)
  then have "requeued t p k k4" using lk k4(2,6) by (simp add: requeued_def)
  then show ?thesis using k4 by blast
qed

lemma requeue_ok:
  assumes ok: "locks_ok k" and cv: "condvars_ok k"
  shows "\<exists>k5. change_priority t p k = OnThreadPriorityChanged t (m_priority (threads k t)) k5 \<and> requeued t p k k5"
proof (cases "GetLockOwner k t")
  case None
  have free: "m_waiting_lock_info (threads k t) = None" using no_owner None ok by (simp add: locks_ok_def)
  show ?thesis using requeue_free [OF ok cv free, of p] None by (auto simp: change_priority_split)
next
  case (Some ow)
  obtain k1 where k1: "RemoveWaiterImpl ow t k = Some k1" "locks_ok k1" "frame k k1" "GetLockOwner k1 = (GetLockOwner k)(t := None)"
    "m_waiting_lock_info (threads k1 t) = None" "can_add k1 ow t" "m_condvar_tree (threads k1 t) = None" "t < 2 ^ 32 - 1"
    using RemoveWaiterImpl_ok [OF ok Some] by blast
  note f1 = frameD [OF k1(3)]
  have old: "m_priority (threads k1 t) = m_priority (threads k t)" using fun_cong [OF f1(2), of t] by (simp add: prio_def)
  have cv1: "condvars_ok k1" by (rule condvars_ok_cong [OF cv f1(8,2,4,9)])
  obtain k4 where k4: "requeued t p k1 k4" "lock_infos k4 = lock_infos k1" "lock_slab k4 = lock_slab k1"
    "threads k4 = (threads k1)(t := (threads k1 t)\<lparr>m_priority := p\<rparr>)" "requeue_condvar t p k1 = Some k4"
    using requeue_free [OF k1(2) cv1 k1(5), of p] by blast
  have "can_add k4 ow t"
    using k1(6) by (cases "ow = t") (simp_all add: can_add_def wait_key_def lock_key_def held_def k4(2-4) cong: image_cong)
  then obtain k5 where k5: "AddWaiterImpl ow t k4 = Some k5" "locks_ok k5" "frame k4 k5" "GetLockOwner k5 = (GetLockOwner k4)(t := Some ow)"
    using AddWaiterImpl_ok [of k4 t ow] k4(1,4) k1(5,7,8) by (auto simp: requeued_def)
  note f5 = frameD [OF k5(3)]
  have "condvars_ok k5" by (rule condvars_ok_cong [OF _ f5(8,2,4,9)]) (use k4(1) in \<open>simp add: requeued_def\<close>)
  moreover have "GetLockOwner k5 = GetLockOwner k" using k5(4) k4(1) k1(4) Some by (simp add: requeued_def fun_upd_idem)
  moreover have "m_priority_queue k5 = m_priority_queue k" using f5(5) f1(5) k4(1) by (simp add: requeued_def)
  moreover have "same_thread ((threads k s)\<lparr>m_priority := if s = t then p else prio k s\<rparr>) (threads k5 s)" for s
  proof -
    let ?p = "if s = t then p else prio k s"
    have "same_thread (threads k s) (threads k1 s)" "same_thread (threads k4 s) (threads k5 s)" using k1(3) k5(3) by (simp_all add: frame_def)
    moreover have "same_thread ((threads k1 s)\<lparr>m_priority := ?p\<rparr>) (threads k4 s)" using k4(1) unfolding requeued_def f1(2) by blast
    ultimately show ?thesis using same_thread_prio same_thread_trans by blast
  qed
  ultimately have "requeued t p k k5" using k5(2) by (simp add: requeued_def)
  then show ?thesis using k1(1) k4(5) k5(1) old Some by (auto simp: change_priority_split)
qed

lemma locks_cong:
  assumes "\<And>s. (threads k' s)\<lparr>m_base_priority := 0\<rparr> = (threads k s)\<lparr>m_base_priority := 0\<rparr>"
    and "lock_infos k' = lock_infos k" and "lock_slab k' = lock_slab k"
  shows "locks_ok k' = locks_ok k" and "GetLockOwner k' = GetLockOwner k" and "prio k' = prio k"
proof -
  have w: "m_waiting_lock_info (threads k' s) = m_waiting_lock_info (threads k s)"
    "m_held_lock_info_list (threads k' s) = m_held_lock_info_list (threads k s)"
    "m_address_key (threads k' s) = m_address_key (threads k s)"
    "m_is_kernel_address_key (threads k' s) = m_is_kernel_address_key (threads k s)"
    "m_priority (threads k' s) = m_priority (threads k s)" "m_condvar_tree (threads k' s) = m_condvar_tree (threads k s)"
    "m_num_kernel_waiters (threads k' s) = m_num_kernel_waiters (threads k s)" for s
    using arg_cong [OF assms(1) [of s], of m_waiting_lock_info] arg_cong [OF assms(1) [of s], of m_held_lock_info_list]
      arg_cong [OF assms(1) [of s], of m_address_key] arg_cong [OF assms(1) [of s], of m_is_kernel_address_key]
      arg_cong [OF assms(1) [of s], of m_priority] arg_cong [OF assms(1) [of s], of m_condvar_tree]
      arg_cong [OF assms(1) [of s], of m_num_kernel_waiters]
    by simp_all
  have v: "held k' = held k" "lock_key k' = lock_key k" "wait_key k' = wait_key k" "tree_of k' = tree_of k" "prio k' = prio k"
    "GetLockOwner k' = GetLockOwner k"
    by (simp_all add: held_def lock_key_def wait_key_def tree_of_def prio_def GetLockOwner_def assms(2) w fun_eq_iff split: option.split)
  then have "lock_ok k' = lock_ok k" by (simp add: lock_ok_def assms(2,3) w fun_eq_iff)
  then show "locks_ok k' = locks_ok k" by (simp add: locks_ok_def locks_shape_def kernel_waiters_def v w assms(2,3))
  show "GetLockOwner k' = GetLockOwner k" "prio k' = prio k" by (rule v(6), rule v(5))
qed

lemma change_priority_ok:
  assumes ok: "kernel_ok k Q" and p: "HighestThreadPriority \<le> p" "queued k t \<Longrightarrow> IsValidPriority p"
  shows "\<exists>k' Q'. change_priority t p k = Some k' \<and> kernel_ok k' Q' \<and> only_prio k k' \<and> prio k' = (prio k)(t := p) \<and>
    (queued k t \<longrightarrow> m_scheduler_update_needed k')"
proof -
  have parts: "sched_ok k Q" "locks_ok k" "condvars_ok k" using ok by (simp_all add: kernel_ok_def)
  obtain k5 where k5: "change_priority t p k = OnThreadPriorityChanged t (m_priority (threads k t)) k5" "requeued t p k k5"
    using requeue_ok [OF parts(2,3)] by blast
  have "same_thread ((threads k s)\<lparr>m_priority := if s = t then p else prio k s\<rparr>) (threads k5 s)" for s using k5(2) by (simp add: requeued_def)
  note th = same_threadD [OF this] and same = this
  have view: "member_of k5 = (member_of k)(t := (member_of k t)\<lparr>mb_priority := p\<rparr>)"
    by (auto simp: member_of_def th fun_eq_iff prio_def IsDummyThread_def)
  have "GetRawState k5 s = GetRawState k s" for s by (simp add: GetRawState_def th)
  moreover have "m_priority_queue k5 = m_priority_queue k" using k5(2) by (simp add: requeued_def)
  ultimately obtain k' Q' where k': "OnThreadPriorityChanged t (m_priority (threads k t)) k5 = Some k'" "sched_ok k' Q'"
    "threads k' = threads k5" "queued k t \<longrightarrow> m_scheduler_update_needed k'"
    using OnThreadPriorityChanged_ok [OF parts(1) view] p(2) by blast
  note kept = OnThreadPriorityChanged_keeps [OF k'(1)]
  note cong = locks_cong [OF _ kept(1,2), simplified k'(3), OF HOL.refl]
  have own: "GetLockOwner k' = GetLockOwner k" using k5(2) cong(2) by (simp add: requeued_def)
  have pr: "prio k' = (prio k)(t := p)" by (simp add: prio_def k'(3) th fun_eq_iff)
  have "only_prio k k'" using same own by (simp add: only_prio_def k'(3) pr)
  moreover have "condvars_ok k'"
    by (rule condvars_ok_cong [of k5]) (use k5(2) in \<open>simp_all add: requeued_def kept(3) k'(3) prio_def fun_eq_iff\<close>)
  then have "kernel_ok k' Q'"
    using ok p(1) k'(2) cong(1) k5(2) only_prioD(1,2) [OF calculation] unfolding kernel_ok_def own pr requeued_def by simp
  ultimately show ?thesis using k5(1) k' pr by auto
qed

section \<open>Restoring priorities\<close>

abbreviation inherits :: "KernelCore \<Rightarrow> nat \<Rightarrow> int" where
  "inherits k t \<equiv> inherited (GetLockOwner k) (\<lambda>s. m_base_priority (threads k s)) (prio k) t"

lemma inherit_loop_eq:
  assumes "\<And>l. l \<in> set ls \<Longrightarrow> tree_of k l \<noteq> [] \<and> sorted_wrt (\<lambda>x y. prio k x \<le> prio k y) (tree_of k l)"
  shows "inherit_loop ls p k = Some (Min (insert p (prio k ` (\<Union>l \<in> set ls. set (tree_of k l)))))"
  using assms
proof (induction ls arbitrary: p)
  case (Cons l ls)
  obtain w ws where t: "tree_of k l = w # ws" using Cons(2) [of l] by (cases "tree_of k l") auto
  let ?rest = "prio k ` (\<Union>l \<in> set ls. set (tree_of k l))"
  have "prio k w \<le> prio k x" if "x \<in> set ws" for x using Cons(2) [of l] that by (simp add: t)
  then have "Min (insert (prio k w) (prio k ` set ws)) = prio k w" by (intro Min_eqI) auto
  then have m: "Min (prio k ` set (tree_of k l)) = prio k w" by (simp add: t)
  have "Min (insert p (prio k ` (\<Union>l \<in> set (l # ls). set (tree_of k l)))) = Min (insert p ?rest \<union> prio k ` set (tree_of k l))"
    by (simp add: image_Un ac_simps)
  also have "\<dots> = min (Min (insert p ?rest)) (prio k w)" using m by (subst Min_Un) (simp_all add: t)
  also have "\<dots> = Min (insert (min p (prio k w)) ?rest)"
    by (cases "?rest = {}") (simp_all add: min.commute min.left_commute)
  finally show ?case using Cons by (simp add: GetHighestPriorityWaiter_def hd_opt_def tree_of_def [symmetric] t prio_def [symmetric])
qed simp

lemma inherit_loop_inherits:
  assumes ok: "locks_shape k"
  shows "inherit_loop (m_held_lock_info_list (threads k t)) (m_base_priority (threads k t)) k = Some (inherits k t)"
proof -
  have "(\<Union>l \<in> set (held k t). set (tree_of k l)) = {w. GetLockOwner k w = Some t}" using GetLockOwner_iff [OF ok] by blast
  moreover have "tree_of k l \<noteq> [] \<and> sorted_wrt (\<lambda>x y. prio k x \<le> prio k y) (tree_of k l)" if "l \<in> set (held k t)" for l
    using lock_okD(2,4) [OF locks_shapeD(3) [OF ok that]] by blast
  ultimately show ?thesis using inherit_loop_eq [of "held k t" k "m_base_priority (threads k t)"] by (simp add: inherited_def held_def)
qed

text \<open>Every thread except possibly one runs at the priority it inherits.\<close>

definition settled_except :: "nat option \<Rightarrow> KernelCore \<Rightarrow> bool" where
  "settled_except e k \<longleftrightarrow> (\<forall>t. Some t \<noteq> e \<longrightarrow> prio k t = inherits k t)"

lemma inherits_valid:
  assumes "kernel_ok k Q"
  shows "HighestThreadPriority \<le> inherits k t" and "queued k t \<Longrightarrow> IsValidPriority (inherits k t)"
proof -
  have fin: "waiters_finite (GetLockOwner k)" using assms owners_finite by (simp add: kernel_ok_def locks_ok_def)
  let ?base = "\<lambda>s. m_base_priority (threads k s)"
  have "HighestThreadPriority \<le> prio k s" "HighestThreadPriority \<le> ?base s" for s using assms by (simp_all add: kernel_ok_def)
  then show low: "HighestThreadPriority \<le> inherits k t" using inherited_cases [OF fin, of ?base "prio k" t] by metis
  show "IsValidPriority (inherits k t)" if "queued k t"
  proof -
    have "?base t \<le> LowestThreadPriority + 1" using assms that by (simp add: kernel_ok_def IsValidPriority_def)
    then show ?thesis using low inherited_bounds(1) [OF fin, of ?base "prio k" t] by (simp add: IsValidPriority_def)
  qed
qed

lemma settled_step:
  assumes acy: "acyclic_waits (GetLockOwner k)" and se: "settled_except (Some t) k" and op: "only_prio k k'"
    and pr: "prio k' = (prio k)(t := inherits k t)"
  shows "settled_except (GetLockOwner k t) k'"
  unfolding settled_except_def
proof (intro allI impI)
  fix s assume s: "Some s \<noteq> GetLockOwner k t"
  note d = only_prioD [OF op]
  have "inherits k' s = inherits k s"
    by (rule inherited_other [where w = t]) (use s in \<open>simp_all add: d pr\<close>)
  then show "prio k' s = inherits k' s" using se pr by (cases "s = t") (simp_all add: settled_except_def)
qed

lemma RestorePriority_ok:
  assumes "kernel_ok k Q" and "settled_except thread k"
  shows "\<exists>k' Q'. RestorePriority thread k = Some k' \<and> kernel_ok k' Q' \<and> only_prio k k' \<and> settled_except None k'"
proof -
  obtain r :: "nat \<Rightarrow> nat" where r: "\<And>w t. GetLockOwner k w = Some t \<Longrightarrow> r t < r w"
    using assms(1) unfolding kernel_ok_def acyclic_waits_def by blast
  show ?thesis
    using assms r
  proof (induction "case thread of None \<Rightarrow> 0 | Some t \<Rightarrow> Suc (r t)" arbitrary: thread k Q rule: less_induct)
    case less
    show ?case
    proof (cases thread)
      case None
      then show ?thesis using less(2,3) only_prio_refl by (subst RestorePriority.simps) auto
    next
      case (Some t)
      have sh: "locks_shape k" using less(2) by (simp add: kernel_ok_def locks_ok_def)
      note new = inherit_loop_inherits [OF sh, of t]
      show ?thesis
      proof (cases "inherits k t = prio k t")
        case True
        then have "prio k s = inherits k s" for s using less(3) Some by (cases "s = t") (simp_all add: settled_except_def)
        then have "settled_except None k" by (simp add: settled_except_def)
        moreover have "RestorePriority thread k = Some k"
          using Some True new by (subst RestorePriority.simps) (simp add: prio_def)
        ultimately show ?thesis using less(2) only_prio_refl by blast
      next
        case False
        obtain k1 Q1 where k1: "change_priority t (inherits k t) k = Some k1" "kernel_ok k1 Q1" "only_prio k k1"
          "prio k1 = (prio k)(t := inherits k t)"
          using change_priority_ok [OF less(2) inherits_valid(1) [OF less(2)], of t t] inherits_valid(2) [OF less(2), of t] by auto
        have "acyclic_waits (GetLockOwner k)" using less(2) by (simp add: kernel_ok_def)
        then have se: "settled_except (GetLockOwner k t) k1" using settled_step [OF _ _ k1(3,4)] less(3) Some by simp
        have own: "GetLockOwner k1 = GetLockOwner k" by (rule only_prioD(4) [OF k1(3)])
        have dec: "(case GetLockOwner k t of None \<Rightarrow> 0 | Some t \<Rightarrow> Suc (r t)) < (case thread of None \<Rightarrow> 0 | Some t \<Rightarrow> Suc (r t))"
          using less(4) Some by (cases "GetLockOwner k t") simp_all
        obtain k' Q' where k': "RestorePriority (GetLockOwner k t) k1 = Some k'" "kernel_ok k' Q'" "only_prio k1 k'" "settled_except None k'"
          using less(1) [OF dec k1(2) se] less(4) own by auto
        have "RestorePriority thread k = Some k'"
          using Some False new k1(1) k'(1) by (subst RestorePriority.simps) (simp add: prio_def)
        then show ?thesis using k'(2,4) only_prio_trans [OF k1(3) k'(3)] by blast
      qed
    qed
  qed
qed

section \<open>The operations on waiters\<close>

definition pi_ok :: "KernelCore \<Rightarrow> (nat \<Rightarrow> core_queues) \<Rightarrow> bool" where
  "pi_ok k Q \<longleftrightarrow> kernel_ok k Q \<and> settled_except None k"

lemma kernel_okD:
  assumes "kernel_ok k Q"
  shows "sched_ok k Q" "locks_ok k" "locks_shape k" "condvars_ok k" "acyclic_waits (GetLockOwner k)"
    "waiters_finite (GetLockOwner k)"
  using assms owners_finite by (simp_all add: kernel_ok_def locks_ok_def)

lemma pi_okD:
  assumes "pi_ok k Q"
  shows "kernel_ok k Q" "prio k t = inherits k t"
  using assms by (simp_all add: pi_ok_def settled_except_def)

lemma kernel_ok_frame:
  assumes ok: "kernel_ok k Q" and fr: "frame k k'" and "locks_ok k'" and "acyclic_waits (GetLockOwner k')"
  shows "kernel_ok k' Q"
proof -
  note f = frameD [OF fr]
  have "sched_ok k' Q" using sched_ok_view [OF f(1,5)] ok by (simp add: kernel_ok_def)
  moreover have "condvars_ok k'" by (rule condvars_ok_cong [OF _ f(8,2,4,9)]) (use ok in \<open>simp add: kernel_ok_def\<close>)
  moreover have "queued k' t = queued k t" for t using f(1) by (simp add: same_view_def)
  ultimately show ?thesis using ok assms(3,4) by (simp add: kernel_ok_def f(2,6))
qed

lemma settle:
  assumes "kernel_ok k Q" and "settled_except (Some t) k" and "\<not> b \<Longrightarrow> inherits k t = prio k t"
  shows "\<exists>k' Q'. (if b then RestorePriority (Some t) k else Some k) = Some k' \<and> pi_ok k' Q' \<and> only_prio k k'"
proof (cases b)
  case True
  then show ?thesis using RestorePriority_ok [OF assms(1,2)] by (auto simp: pi_ok_def)
next
  case False
  have "prio k s = inherits k s" for s using assms(2) assms(3) [OF False] by (cases "s = t") (simp_all add: settled_except_def)
  then have "pi_ok k Q" using assms(1) by (simp add: pi_ok_def settled_except_def)
  then show ?thesis using False only_prio_refl by auto
qed

lemma AddWaiter_ok:
  assumes ok: "pi_ok k Q"
    and free: "m_waiting_lock_info (threads k w) = None" "m_condvar_tree (threads k w) = None" "w < 2 ^ 32 - 1"
    and add: "can_add k t w" and nc: "\<not> waits_for (GetLockOwner k) t w"
  shows "\<exists>k' Q'. AddWaiter t w k = Some k' \<and> pi_ok k' Q' \<and> GetLockOwner k' = (GetLockOwner k)(w := Some t) \<and>
    (\<forall>s. m_base_priority (threads k' s) = m_base_priority (threads k s))"
proof -
  note ko = kernel_okD [OF pi_okD(1) [OF ok]]
  obtain k1 where k1: "AddWaiterImpl t w k = Some k1" "locks_ok k1" "frame k k1" "GetLockOwner k1 = (GetLockOwner k)(w := Some t)"
    using AddWaiterImpl_ok [OF ko(2) free add] by blast
  note f = frameD [OF k1(3)]
  have own: "GetLockOwner k w = None" using free(1) by (simp add: GetLockOwner_def)
  have ok1: "kernel_ok k1 Q"
    using kernel_ok_frame [OF pi_okD(1) [OF ok] k1(3,2)] acyclic_add [OF ko(5) own nc] k1(4) by simp
  have at: "inherits k1 t = min (prio k w) (prio k t)"
    using inherited_add [OF ko(6) own] pi_okD(2) [OF ok, of t] by (simp add: k1(4) f(2,6))
  have "inherits k1 s = inherits k s" if "s \<noteq> t" for s
    by (rule inherited_other [where w = w]) (use that own in \<open>simp_all add: k1(4) f(2,6)\<close>)
  then have se: "settled_except (Some t) k1" using pi_okD(2) [OF ok] by (simp add: settled_except_def f(2))
  have keep: "inherits k1 t = prio k1 t" if "\<not> prio k1 w < prio k1 t" using at that by (simp add: f(2))
  obtain k' Q' where k': "(if prio k1 w < prio k1 t then RestorePriority (Some t) k1 else Some k1) = Some k'" "pi_ok k' Q'" "only_prio k1 k'"
    using settle [OF ok1 se, of "prio k1 w < prio k1 t"] keep by blast
  have "AddWaiter t w k = Some k'" using k1(1) k'(1) by (simp add: AddWaiter_def prio_def)
  then show ?thesis using k'(2) k1(4) only_prioD(1,4) [OF k'(3)] f(6) by auto
qed

lemma RemoveWaiter_ok:
  assumes ok: "pi_ok k Q" and w: "GetLockOwner k w = Some t"
  shows "\<exists>k' Q'. RemoveWaiter t w k = Some k' \<and> pi_ok k' Q' \<and> GetLockOwner k' = (GetLockOwner k)(w := None) \<and>
    (\<forall>s. m_base_priority (threads k' s) = m_base_priority (threads k s))"
proof -
  note ko = kernel_okD [OF pi_okD(1) [OF ok]]
  obtain k1 where k1: "RemoveWaiterImpl t w k = Some k1" "locks_ok k1" "frame k k1" "GetLockOwner k1 = (GetLockOwner k)(w := None)"
    using RemoveWaiterImpl_ok [OF ko(2) w] by blast
  note f = frameD [OF k1(3)]
  have ok1: "kernel_ok k1 Q" using kernel_ok_frame [OF pi_okD(1) [OF ok] k1(3,2)] acyclic_remove [OF ko(5)] k1(4) by simp
  have "inherits k1 s = inherits k s" if "s \<noteq> t" for s
    by (rule inherited_other [where w = w]) (use that w in \<open>simp_all add: k1(4) f(2,6)\<close>)
  then have se: "settled_except (Some t) k1" using pi_okD(2) [OF ok] by (simp add: settled_except_def f(2))
  let ?b = "prio k1 t = prio k1 w \<and> prio k1 t < m_base_priority (threads k1 t)"
  have "prio k t \<le> prio k w" using inherited_bounds(2) [OF ko(6) w, of _ "prio k"] pi_okD(2) [OF ok, of t] by metis
  then have keep: "inherits k1 t = prio k1 t" if "\<not> ?b"
    unfolding f(2,6) by (intro inherited_lose [OF ko(6) kernel_okD(6) [OF ok1] pi_okD(2) [OF ok, of t], where p = "prio k w"])
      (use that in \<open>auto simp: k1(4) f(2,6) split: if_splits\<close>)
  obtain k' Q' where k': "(if ?b then RestorePriority (Some t) k1 else Some k1) = Some k'" "pi_ok k' Q'" "only_prio k1 k'"
    using settle [OF ok1 se, of ?b] keep by blast
  have "RemoveWaiter t w k = Some k'" using k1(1) k'(1) by (simp add: RemoveWaiter_def prio_def)
  then show ?thesis using k'(2) k1(4) only_prioD(1,4) [OF k'(3)] f(6) by auto
qed

lemma set_base_ok:
  assumes ok: "pi_ok k Q" and p: "HighestThreadPriority \<le> p" "queued k t \<Longrightarrow> IsValidPriority p"
  shows "\<exists>k' Q'. RestorePriority (Some t) (set_thread t (m_base_priority_update (\<lambda>_. p)) k) = Some k' \<and> pi_ok k' Q' \<and>
    GetLockOwner k' = GetLockOwner k \<and>
    (\<forall>s. m_base_priority (threads k' s) = (if s = t then p else m_base_priority (threads k s)))"
proof -
  let ?k1 = "set_thread t (m_base_priority_update (\<lambda>_. p)) k"
  have "(threads ?k1 s)\<lparr>m_base_priority := 0\<rparr> = (threads k s)\<lparr>m_base_priority := 0\<rparr>" for s by (simp add: kernel_simps)
  note c = locks_cong [OF this, simplified kernel_simps, OF HOL.refl HOL.refl]
  note ko = kernel_okD [OF pi_okD(1) [OF ok]]
  have view: "same_view k ?k1" by (simp add: same_view_def member_of_def queued_def GetRawState_def IsDummyThread_def kernel_simps)
  then have q: "queued ?k1 s = queued k s" for s by (simp add: same_view_def)
  have "sched_ok ?k1 Q" using sched_ok_view [OF view] ko(1) by (simp add: kernel_simps)
  moreover have "condvars_ok ?k1" by (rule condvars_ok_cong [OF ko(4)]) (simp_all add: kernel_simps c(3))
  ultimately have ok1: "kernel_ok ?k1 Q"
    using pi_okD(1) [OF ok] p by (simp add: kernel_ok_def c q) (simp add: kernel_simps)
  have "inherits ?k1 s = inherits k s" if "s \<noteq> t" for s
    using that by (simp add: inherited_def c kernel_simps)
  then have "settled_except (Some t) ?k1" using pi_okD(2) [OF ok] by (simp add: settled_except_def c)
  then obtain k' Q' where k': "RestorePriority (Some t) ?k1 = Some k'" "kernel_ok k' Q'" "only_prio ?k1 k'" "settled_except None k'"
    using RestorePriority_ok [OF ok1] by blast
  then show ?thesis using only_prioD(1,4) [OF k'(3)] c(2) by (auto simp: pi_ok_def kernel_simps)
qed

lemma SetBasePriority_ok:
  assumes "pi_ok k Q" and "HighestThreadPriority \<le> p" "p \<le> LowestThreadPriority"
  shows "\<exists>k' Q'. SetBasePriority t p k = Some k' \<and> pi_ok k' Q' \<and> GetLockOwner k' = GetLockOwner k \<and>
    (\<forall>s. m_base_priority (threads k' s) = (if s = t then p else m_base_priority (threads k s)))"
  unfolding SetBasePriority_def by (rule set_base_ok [OF assms(1,2)]) (use assms(2,3) in \<open>simp add: IsValidPriority_def\<close>)

lemma IncreaseBasePriority_ok:
  assumes "pi_ok k Q" and "HighestThreadPriority \<le> p" "p \<le> LowestThreadPriority"
  shows "\<exists>k' Q'. IncreaseBasePriority t p k = Some k' \<and> pi_ok k' Q' \<and> GetLockOwner k' = GetLockOwner k \<and>
    (\<forall>s. m_base_priority (threads k' s) =
      (if s = t then min p (m_base_priority (threads k t)) else m_base_priority (threads k s)))"
proof (cases "m_base_priority (threads k t) > p")
  case True
  then have "min p (m_base_priority (threads k t)) = p" "IncreaseBasePriority t p k = SetBasePriority t p k"
    by (simp_all add: IncreaseBasePriority_def SetBasePriority_def)
  then show ?thesis using SetBasePriority_ok [OF assms, of t] by metis
next
  case False
  then have "m_base_priority (threads k s) =
      (if s = t then min p (m_base_priority (threads k t)) else m_base_priority (threads k s))" for s by simp
  moreover have "IncreaseBasePriority t p k = Some k" using False by (simp add: IncreaseBasePriority_def)
  ultimately show ?thesis using assms(1) by auto
qed

section \<open>Handing a lock to its next owner\<close>

definition handed :: "nat \<Rightarrow> nat \<Rightarrow> nat \<Rightarrow> KernelCore \<Rightarrow> KernelCore \<Rightarrow> bool" where
  "handed t n l k k' \<longleftrightarrow>
     l \<in> set (held k t) \<and> n \<noteq> t \<and> lock_slab k' = lock_slab k \<and>
     held k' = (held k)(t := remove1 l (held k t), n := l # held k n) \<and>
     lock_infos k' = (lock_infos k)(l := (lock_infos k l)\<lparr>l_owner := Some n\<rparr>) \<and>
     (\<forall>s. m_waiting_lock_info (threads k' s) = m_waiting_lock_info (threads k s))"

lemma handed_shape:
  assumes ok: "locks_shape k" and ha: "handed t n l k k'" and fr: "frame k k'"
  shows "locks_shape k'"
    and "GetLockOwner k' = (\<lambda>x. if x \<in> set (tree_of k l) then Some n else GetLockOwner k x)"
proof -
  note sh = locks_shapeD [OF ok] and f = frameD [OF fr]
  have h: "l \<in> set (held k t)" "n \<noteq> t" "lock_slab k' = lock_slab k" "held k' = (held k)(t := remove1 l (held k t), n := l # held k n)"
    "lock_infos k' = (lock_infos k)(l := (lock_infos k l)\<lparr>l_owner := Some n\<rparr>)"
    "\<And>s. m_waiting_lock_info (threads k' s) = m_waiting_lock_info (threads k s)"
    using ha by (simp_all add: handed_def)
  have owner: "s = t" if "l \<in> set (held k s)" for s using held_owner [OF ok h(1) that] by simp
  have views: "tree_of k' = tree_of k" "lock_key k' = lock_key k" by (auto simp: tree_of_def lock_key_def h(5) fun_eq_iff)
  have new: "lock_ok k' n l" using sh(3) [OF h(1)] unfolding lock_ok_def views f(2-4) h(3,6) by (simp add: h(5))
  have other: "lock_ok k' s l'" if "l' \<in> set (held k s)" "l' \<noteq> l" for s l'
    using sh(3) [OF that(1)] that(2) unfolding lock_ok_def views f(2-4) h(3,6) by (simp add: h(5))
  have cases: "(l' = l \<and> s = n) \<or> (l' \<noteq> l \<and> l' \<in> set (held k s))" if "l' \<in> set (held k' s)" for s l'
    using that h(2) sh(2) [of t] owner [of s] by (auto simp: h(4) split: if_splits)
  have "lock_ok k' s l'" if "l' \<in> set (held k' s)" for s l' using cases [OF that] new other by blast
  moreover have "distinct (held k' s)" for s using sh(2) owner [of n] h(2) by (auto simp: h(4))
  moreover have "\<exists>s. l' \<in> set (held k' s)" if l': "l' \<in> set (held k s)" for l' s
  proof (cases "l' = l")
    case True
    then have "l' \<in> set (held k' n)" by (simp add: h(4))
    then show ?thesis by blast
  next
    case False
    then have "l' \<in> set (held k' s)" using l' by (auto simp: h(4))
    then show ?thesis by blast
  qed
  ultimately show "locks_shape k'" using sh(1,4) unfolding locks_shape_def views h(3,6) by blast
  have iff: "m_waiting_lock_info (threads k x) = Some l \<longleftrightarrow> x \<in> set (tree_of k l)" for x
    using sh(4) lock_okD(7) [OF sh(3) [OF h(1)]] by blast
  show "GetLockOwner k' = (\<lambda>x. if x \<in> set (tree_of k l) then Some n else GetLockOwner k x)"
    by (rule ext) (auto simp: GetLockOwner_def h(5,6) iff [symmetric] split: option.split)
qed

text \<open>The ranks that show the waits acyclic before show it after, with the new owner in the old one's place.\<close>

lemma acyclic_hand:
  assumes "acyclic_waits own" and n: "own n = Some t" and W: "\<And>x. x \<in> W \<Longrightarrow> own x = Some t"
  shows "acyclic_waits (\<lambda>x. if x = n then None else if x \<in> W then Some n else own x)"
proof -
  obtain r :: "nat \<Rightarrow> nat" where r: "\<And>w t. own w = Some t \<Longrightarrow> r t < r w" using assms(1) unfolding acyclic_waits_def by blast
  have "(r(n := r t)) s < (r(n := r t)) x" if "(if x = n then None else if x \<in> W then Some n else own x) = Some s" for x s
  proof (cases "x \<in> W")
    case True
    then show ?thesis using that r [OF W [OF True]] by (auto split: if_splits)
  next
    case False
    then have "x \<noteq> n" "own x = Some s" using that by (auto split: if_splits)
    then show ?thesis using r [of x s] r [OF n] by auto
  qed
  then show ?thesis unfolding acyclic_waits_def by blast
qed

text \<open>The state in which the next owner has the lock and priorities are not restored yet.\<close>

definition hand_over :: "nat \<Rightarrow> nat \<Rightarrow> nat \<Rightarrow> KernelCore \<Rightarrow> KernelCore \<Rightarrow> bool" where
  "hand_over t n l k k' \<longleftrightarrow>
     (let ws = tl (tree_of k l); b = l_is_kernel_address_key (lock_infos k l) in
      frame k k' \<and>
      (if ws = [] then detached t n l k k' else (\<exists>km. detached t n l k km \<and> frame k km \<and> frame km k' \<and> handed t n l km k')) \<and>
      (\<forall>s. m_num_kernel_waiters (threads k' s) = m_num_kernel_waiters (threads k s) -
         (if s = t \<and> b then int (length (tree_of k l)) else 0) + (if s = n \<and> b then int (length ws) else 0)))"

lemma unat_count:
  assumes "lock_ok k t l"
  shows "unat (l_waiter_count (lock_infos k l)) = length (tree_of k l)"
  using lock_okD(5) [OF assms] tree_length [OF assms] by (simp add: unat_of_nat take_bit_nat_def)

definition handed_thread :: "nat \<Rightarrow> nat \<Rightarrow> nat \<Rightarrow> nat list \<Rightarrow> bool \<Rightarrow> nat \<Rightarrow> KThread \<Rightarrow> KThread" where
  "handed_thread t n l ws b s x = x\<lparr>
     m_num_kernel_waiters := m_num_kernel_waiters x - (if s = t \<and> b then int (Suc (length ws)) else 0)
       + (if s = n \<and> b then int (length ws) else 0),
     m_waiting_lock_info := (if s = n then None else m_waiting_lock_info x),
     m_held_lock_info_list := (if s = t then remove1 l (m_held_lock_info_list x)
       else if s = n \<and> ws \<noteq> [] then l # m_held_lock_info_list x else m_held_lock_info_list x)\<rparr>"

lemma handed_thread_simps:
  "same_thread x (handed_thread t n l ws b s x)"
  "m_waiting_lock_info (handed_thread t n l ws b s x) = (if s = n then None else m_waiting_lock_info x)"
  "m_num_kernel_waiters (handed_thread t n l ws b s x) =
     m_num_kernel_waiters x - (if s = t \<and> b then int (Suc (length ws)) else 0) + (if s = n \<and> b then int (length ws) else 0)"
  "m_held_lock_info_list (handed_thread t n l ws b s x) = (if s = t then remove1 l (m_held_lock_info_list x)
     else if s = n \<and> ws \<noteq> [] then l # m_held_lock_info_list x else m_held_lock_info_list x)"
  by (simp_all add: handed_thread_def same_thread_def)

lemma hand_overI:
  assumes lo: "lock_ok k t l" and lh: "l \<in> set (held k t)" and tree: "tree_of k l = n # ws" and ne: "n \<noteq> t"
    and th: "\<And>s. threads k' s = handed_thread t n l ws (l_is_kernel_address_key (lock_infos k l)) s (threads k s)"
    and rest: "m_priority_queue k' = m_priority_queue k" "current_thread k' = current_thread k" "condvar_trees k' = condvar_trees k"
    and li: "lock_infos k' = (lock_infos k)(l := (lock_infos k l)\<lparr>l_tree := ws, l_waiter_count := of_nat (length ws),
      l_owner := Some (if ws = [] then t else n)\<rparr>)"
    and slab: "lock_slab k' = (if ws = [] then l # lock_slab k else lock_slab k)"
  shows "hand_over t n l k k'"
proof -
  have fr: "frame k k'" by (simp add: frame_def rest th handed_thread_simps)
  have count: "m_num_kernel_waiters (threads k' s) = m_num_kernel_waiters (threads k s) -
      (if s = t \<and> l_is_kernel_address_key (lock_infos k l) then int (length (tree_of k l)) else 0) +
      (if s = n \<and> l_is_kernel_address_key (lock_infos k l) then int (length ws) else 0)" for s
    by (simp add: th handed_thread_simps tree)
  show ?thesis
  proof (cases "ws = []")
    case True
    have "detached t n l k k'"
      unfolding detached_def using lh True tree
      by (auto simp: th handed_thread_simps li slab held_def tree_of_def lock_key_def fun_eq_iff)
    then show ?thesis using fr count True by (simp add: hand_over_def Let_def tree)
  next
    case False
    define km where "km = set_thread n (m_waiting_lock_info_update (\<lambda>_. None))
      (set_lock l (\<lambda>i. i\<lparr>l_tree := ws, l_waiter_count := of_nat (length ws)\<rparr>) k)"
    have kt: "l_tree (lock_infos k l) = n # ws" using tree by (simp add: tree_of_def)
    have "detached t n l k km"
      unfolding detached_def using lh False kt lock_okD(1) [OF lo]
      by (auto simp: km_def kernel_simps held_def tree_of_def lock_key_def fun_eq_iff)
    moreover have "frame k km" "frame km k'"
      using fr by (auto simp: km_def frame_def same_thread_def kernel_simps)
    moreover have "handed t n l km k'"
      unfolding handed_def using lh ne False
      by (auto simp: th handed_thread_simps li slab km_def kernel_simps held_def fun_eq_iff)
    ultimately show ?thesis using fr count False by (auto simp: hand_over_def Let_def tree)
  qed
qed

lemma RemoveWaiterByKey_split:
  assumes ok: "locks_shape k" and l: "FindHeldLock t a b k = Some l" and tree: "tree_of k l = n # ws" and ne: "n \<noteq> t"
  shows "\<exists>k4. hand_over t n l k k4 \<and>
    RemoveWaiterByKey t a b k = do {
      k5 \<leftarrow> (if prio k4 t = prio k4 n \<and> prio k4 t < m_base_priority (threads k4 t) then RestorePriority (Some t) k4 else Some k4);
      Some (Some n, ws \<noteq> [], k5) }"
proof -
  have lh: "l \<in> set (held k t)" by (rule FindHeldLock_Some(1) [OF l])
  note lo = locks_shapeD(3) [OF ok lh]
  let ?c = "l_waiter_count (lock_infos k l)" and ?b = "l_is_kernel_address_key (lock_infos k l)"
  have cnt: "unat ?c = Suc (length ws)" using unat_count [OF lo] tree by simp
  have one: "?c - 1 = 0 \<longleftrightarrow> ws = []" using count_zero [OF lo] tree by simp
  have cnt1: "?c - 1 = of_nat (length ws)" using lock_okD(5) [OF lo] tree by simp
  have "length ws < 2 ^ 32" using tree_length [OF lo] tree by simp
  then have ucnt1: "unat (?c - 1) = length ws" unfolding cnt1 by (simp add: unat_of_nat take_bit_nat_def)
  define k1 where "k1 = erase_held t l k"
  define k2 where "k2 = (if l_is_kernel_address_key (lock_infos k1 l) then SetSchedulerUpdateNeeded (set_thread t (\<lambda>x. x\<lparr>m_num_kernel_waiters :=
      m_num_kernel_waiters x - int (unat (l_waiter_count (lock_infos k1 l)))\<rparr>) k1) else k1)"
  define k3 where "k3 = set_thread n (m_waiting_lock_info_update (\<lambda>_. None))
      (set_lock l (\<lambda>i. i\<lparr>l_tree := remove1 n (l_tree i), l_waiter_count := l_waiter_count i - 1\<rparr>) k2)"
  define kh where "kh = AddHeldLock n l k3"
  define k4 where "k4 = (if ws = [] then LockInfo_Free l k3
      else if l_is_kernel_address_key (lock_infos kh l) then set_thread n (\<lambda>x. x\<lparr>m_num_kernel_waiters :=
        m_num_kernel_waiters x + int (unat (l_waiter_count (lock_infos kh l)))\<rparr>) kh else kh)"
  have li1: "lock_infos k1 = lock_infos k" by (simp add: k1_def erase_held_def kernel_simps)
  have li2: "lock_infos k2 = lock_infos k" by (simp add: k2_def li1 kernel_simps)
  have li3: "lock_infos k3 = (lock_infos k)(l := (lock_infos k l)\<lparr>l_tree := ws, l_waiter_count := ?c - 1\<rparr>)"
    using tree by (simp add: k3_def kernel_simps li2 tree_of_def)
  have lih: "lock_infos kh = (lock_infos k)(l := (lock_infos k l)\<lparr>l_tree := ws, l_waiter_count := ?c - 1, l_owner := Some n\<rparr>)"
    by (simp add: kh_def AddHeldLock_def kernel_simps li3)
  have high: "GetHighestPriorityWaiter l k2 = Some n" using tree by (simp add: GetHighestPriorityWaiter_def hd_opt_def li2 tree_of_def)
  have rem: "LockInfo_RemoveWaiter l n k2 = Some (ws = [], k3)"
    using tree one li3 by (simp add: LockInfo_RemoveWaiter_def li2 tree_of_def k3_def [symmetric] Let_def)
  have run: "RemoveWaiterByKey t a b k = do {
      k5 \<leftarrow> (if prio k4 t = prio k4 n \<and> prio k4 t < m_base_priority (threads k4 t) then RestorePriority (Some t) k4 else Some k4);
      Some (Some n, ws \<noteq> [], k5) }"
    by (simp only: RemoveWaiterByKey_def l option.case Let_def k1_def [symmetric] k2_def [symmetric] high rem bind.bind_lunit
        prod.case kh_def [symmetric] k4_def [symmetric] prio_def)
  have "threads k4 s = handed_thread t n l ws ?b s (threads k s)" for s
    using ne by (cases ?b; cases "ws = []")
      (auto simp: handed_thread_def k4_def lih ucnt1 kh_def k3_def k2_def li1 cnt k1_def LockInfo_Free_def AddHeldLock_def erase_held_def kernel_simps)
  moreover have "m_priority_queue k4 = m_priority_queue k" "current_thread k4 = current_thread k" "condvar_trees k4 = condvar_trees k"
    "lock_slab k4 = (if ws = [] then l # lock_slab k else lock_slab k)"
    by (auto simp: k4_def kh_def k3_def k2_def k1_def LockInfo_Free_def AddHeldLock_def erase_held_def kernel_simps)
  moreover have "lock_infos k4 = (if ws = [] then lock_infos k3 else lock_infos kh)"
    by (auto simp: k4_def LockInfo_Free_def kernel_simps)
  then have "lock_infos k4 = (lock_infos k)(l := (lock_infos k l)\<lparr>l_tree := ws, l_waiter_count := of_nat (length ws),
      l_owner := Some (if ws = [] then t else n)\<rparr>)"
    using lock_okD(1) [OF lo] cnt1 by (cases "lock_infos k l") (simp add: li3 lih)
  ultimately have "hand_over t n l k k4" using hand_overI [OF lo lh tree ne] by blast
  then show ?thesis using run by blast
qed

definition hand_owners :: "nat \<Rightarrow> nat list \<Rightarrow> (nat \<Rightarrow> nat option) \<Rightarrow> nat \<Rightarrow> nat option" where
  "hand_owners n ws own = (\<lambda>x. if x = n then None else if x \<in> set ws then Some n else own x)"

lemma hand_over_shape:
  assumes ok: "locks_shape k" and ha: "hand_over t n l k k'" and tree: "tree_of k l = n # ws"
  shows "locks_shape k'" and "GetLockOwner k' = hand_owners n ws (GetLockOwner k)" and "l \<in> set (held k t)"
proof -
  have "locks_shape k' \<and> GetLockOwner k' = hand_owners n ws (GetLockOwner k) \<and> l \<in> set (held k t)"
  proof (cases "ws = []")
    case True
    then have de: "detached t n l k k'" "frame k k'" using ha tree by (simp_all add: hand_over_def Let_def)
    then show ?thesis using detached_shape [OF ok de] detached_owners(1) [OF ok de(1)] detachedD(1) [OF de(1)] True
      by (auto simp: hand_owners_def fun_eq_iff)
  next
    case False
    then obtain km where km: "detached t n l k km" "frame k km" "frame km k'" "handed t n l km k'"
      using ha tree by (auto simp: hand_over_def Let_def)
    have shm: "locks_shape km" by (rule detached_shape [OF ok km(1,2)])
    have "tree_of km l = ws" using detachedD(6) [OF km(1)] tree by simp
    moreover have "n \<notin> set ws" using lock_okD(3) [OF locks_shapeD(3) [OF ok detachedD(1) [OF km(1)]]] tree by simp
    ultimately show ?thesis
      using handed_shape [OF shm km(4,3)] detached_owners(1) [OF ok km(1)] detachedD(1) [OF km(1)]
      by (auto simp: hand_owners_def fun_eq_iff)
  qed
  then show "locks_shape k'" "GetLockOwner k' = hand_owners n ws (GetLockOwner k)" "l \<in> set (held k t)" by blast+
qed

lemma hand_over_locks:
  assumes ok: "locks_ok k" and ha: "hand_over t n l k k'" and tree: "tree_of k l = n # ws" and ne: "n \<noteq> t"
  shows "locks_ok k'"
proof -
  have sh: "locks_shape k" using ok by (simp add: locks_ok_def)
  note hs = hand_over_shape [OF sh ha tree]
  note lo = locks_shapeD(3) [OF sh hs(3)]
  have fr: "frame k k'" using ha by (simp add: hand_over_def Let_def)
  have same: "m_is_kernel_address_key (threads k' x) = m_is_kernel_address_key (threads k x)" for x
    using fun_cong [OF frameD(3) [OF fr], of x] by (simp add: wait_key_def)
  let ?b = "l_is_kernel_address_key (lock_infos k l)"
  have d: "n \<notin> set ws" "distinct ws" using lock_okD(3) [OF lo] tree by simp_all
  have wk: "m_is_kernel_address_key (threads k x) = ?b" "GetLockOwner k x = Some t" if "x \<in> set (n # ws)" for x
    using lock_okD(1) [OF lo] lock_okD(7) [OF lo, of x] that tree by (simp_all add: wait_key_def lock_key_def GetLockOwner_def)
  have kw: "kernel_waiters k' s = (kernel_waiters k s - set (n # ws)) \<union> (if s = n \<and> ?b then set ws else {})" for s
    using wk d(1) by (auto simp: kernel_waiters_def hs(2) hand_owners_def same split: if_splits)
  have fin: "finite (kernel_waiters k s)" for s by (rule kernel_waiters_finite [OF sh])
  have card: "int (card (kernel_waiters k' s)) = int (card (kernel_waiters k s)) -
      (if s = t \<and> ?b then int (Suc (length ws)) else 0) + (if s = n \<and> ?b then int (length ws) else 0)" for s
  proof (cases "?b \<and> (s = t \<or> s = n)")
    case False
    then have "kernel_waiters k s \<inter> set (n # ws) = {}" using wk by (auto simp: kernel_waiters_def)
    then have "kernel_waiters k' s = kernel_waiters k s" using kw [of s] False by auto
    then show ?thesis using False by auto
  next
    case True
    show ?thesis
    proof (cases "s = t")
      case st: True
      have "set (n # ws) \<subseteq> kernel_waiters k t" using wk True by (auto simp: kernel_waiters_def)
      then have "card (kernel_waiters k t - set (n # ws)) = card (kernel_waiters k t) - card (set (n # ws))"
        "card (set (n # ws)) \<le> card (kernel_waiters k t)" using fin by (simp_all add: card_Diff_subset card_mono del: set_simps)
      moreover have "card (set (n # ws)) = Suc (length ws)" using d by (simp add: distinct_card)
      ultimately show ?thesis using kw [of s] st ne True by simp
    next
      case False
      then have sn: "s = n" using True by blast
      have none: "kernel_waiters k n \<inter> set (n # ws) = {}" using wk ne by (auto simp: kernel_waiters_def)
      then have "kernel_waiters k' n = kernel_waiters k n \<union> set ws" "kernel_waiters k n \<inter> set ws = {}"
        using kw [of n] True by auto
      then have "card (kernel_waiters k' n) = card (kernel_waiters k n) + length ws"
        using fin d(2) by (simp add: card_Un_disjoint distinct_card)
      then show ?thesis using sn ne True by simp
    qed
  qed
  have "m_num_kernel_waiters (threads k' s) = int (card (kernel_waiters k' s))" for s
    using ha ok card [of s] tree by (simp add: hand_over_def Let_def locks_ok_def)
  then show ?thesis using hs(1) by (simp add: locks_ok_def)
qed

text \<open>The new owner inherits nothing new: it was the best of the waiters.\<close>

lemma hand_inherits:
  assumes fin: "waiters_finite own" "waiters_finite (hand_owners n ws own)" and ne: "n \<noteq> t"
    and W: "\<And>x. x \<in> set (n # ws) \<Longrightarrow> own x = Some t" and best: "\<And>x. x \<in> set ws \<Longrightarrow> p n \<le> p x"
    and n: "p n = inherited own base p n"
  shows "inherited (hand_owners n ws own) base p n = p n"
    and "s \<noteq> t \<Longrightarrow> s \<noteq> n \<Longrightarrow> inherited (hand_owners n ws own) base p s = inherited own base p s"
proof -
  have "own n \<noteq> Some n" using W [of n] ne by simp
  show "inherited (hand_owners n ws own) base p n = p n"
  proof (rule inherited_eqI [OF fin(2)])
    show "p n \<le> base n" using inherited_bounds(1) [OF fin(1), of base p n] n by simp
    show "p n \<le> p w" if "hand_owners n ws own w = Some n" for w
    proof (cases "w \<in> set ws")
      case False
      then have "own w = Some n" using that by (simp add: hand_owners_def split: if_splits)
      then show ?thesis using inherited_bounds(2) [OF fin(1), of w n base p] n by simp
    qed (use best in blast)
    have "hand_owners n ws own w = Some n" if "own w = Some n" for w
      using that ne W [of n] by (auto simp: hand_owners_def)
    then show "p n = base n \<or> (\<exists>w. hand_owners n ws own w = Some n \<and> p n = p w)"
      using inherited_cases [OF fin(1), of base p n] n by metis
  qed
  have "{w. hand_owners n ws own w = Some s} = {w. own w = Some s}" if "s \<noteq> t" "s \<noteq> n"
    using W that by (auto simp: hand_owners_def split: if_splits)
  then show "s \<noteq> t \<Longrightarrow> s \<noteq> n \<Longrightarrow> inherited (hand_owners n ws own) base p s = inherited own base p s"
    by (simp add: inherited_def)
qed

lemma RemoveWaiterByKey_ok:
  assumes ok: "pi_ok k Q" and l: "FindHeldLock t a b k = Some l" and tree: "tree_of k l = n # ws"
  shows "\<exists>k' Q'. RemoveWaiterByKey t a b k = Some (Some n, ws \<noteq> [], k') \<and> pi_ok k' Q' \<and>
    GetLockOwner k' = hand_owners n ws (GetLockOwner k) \<and>
    (\<forall>s. m_base_priority (threads k' s) = m_base_priority (threads k s))"
proof -
  note ko = kernel_okD [OF pi_okD(1) [OF ok]]
  note lo = locks_shapeD(3) [OF ko(3) FindHeldLock_Some(1) [OF l]]
  have W: "GetLockOwner k x = Some t" if "x \<in> set (n # ws)" for x
    using lock_okD(1) [OF lo] lock_okD(7) [OF lo, of x] that tree by (simp add: GetLockOwner_def)
  have best: "prio k n \<le> prio k x" if "x \<in> set ws" for x using lock_okD(4) [OF lo] tree that by simp
  have ne: "n \<noteq> t" using acyclic_irrefl [OF ko(5), of t] W [of n] by auto
  obtain k4 where k4: "hand_over t n l k k4" "RemoveWaiterByKey t a b k = do {
      k5 \<leftarrow> (if prio k4 t = prio k4 n \<and> prio k4 t < m_base_priority (threads k4 t) then RestorePriority (Some t) k4 else Some k4);
      Some (Some n, ws \<noteq> [], k5) }"
    using RemoveWaiterByKey_split [OF ko(3) l tree ne] by blast
  have fr: "frame k k4" using k4(1) by (simp add: hand_over_def Let_def)
  note f = frameD [OF fr] and own = hand_over_shape(2) [OF ko(3) k4(1) tree]
  have "acyclic_waits (GetLockOwner k4)"
    unfolding own hand_owners_def by (rule acyclic_hand [OF ko(5)]) (use W in simp_all)
  then have ok4: "kernel_ok k4 Q" using kernel_ok_frame [OF pi_okD(1) [OF ok] fr hand_over_locks [OF ko(2) k4(1) tree ne]] by blast
  have fin4: "waiters_finite (hand_owners n ws (GetLockOwner k))" using kernel_okD(6) [OF ok4] own by simp
  note hi = hand_inherits [OF ko(6) fin4 ne W best pi_okD(2) [OF ok, of n]]
  have "prio k s = inherited (hand_owners n ws (GetLockOwner k)) (\<lambda>s. m_base_priority (threads k s)) (prio k) s" if "s \<noteq> t" for s
    using hi that pi_okD(2) [OF ok, of s] by (cases "s = n") simp_all
  then have se: "settled_except (Some t) k4" by (simp add: settled_except_def own f(2,6))
  let ?b = "prio k4 t = prio k4 n \<and> prio k4 t < m_base_priority (threads k4 t)"
  have "prio k t \<le> prio k n" using inherited_bounds(2) [OF ko(6) W [of n], of _ "prio k"] pi_okD(2) [OF ok, of t] by (metis list.set_intros(1))
  then have keep: "inherits k4 t = prio k4 t" if "\<not> ?b"
    unfolding f(2,6) own by (intro inherited_lose [OF ko(6) fin4 pi_okD(2) [OF ok, of t], where p = "prio k n"])
      (use that ne best in \<open>auto simp: f(2,6) hand_owners_def split: if_splits\<close>)
  obtain k' Q' where k': "(if ?b then RestorePriority (Some t) k4 else Some k4) = Some k'" "pi_ok k' Q'" "only_prio k4 k'"
    using settle [OF ok4 se, of ?b] keep by blast
  show ?thesis using k4(2) k' own only_prioD(1,4) [OF k'(3)] f(6) by auto
qed

section \<open>Sequences of operations\<close>

datatype WaitCall =
    Call_AddWaiter nat nat
  | Call_RemoveWaiter nat nat
  | Call_RemoveWaiterByKey nat nat bool
  | Call_SetBasePriority nat int
  | Call_IncreaseBasePriority nat int

text \<open>
  What the callers see to: a thread waits for one lock at a time and for no condition variable meanwhile, a lock
  object is left, no threads wait in a circle, only a waiter is removed, base priorities are in range.  Threads
  are numbered below the range of the 32-bit waiter count.
\<close>

fun wait_allowed :: "WaitCall \<Rightarrow> KernelCore \<Rightarrow> bool" where
  "wait_allowed (Call_AddWaiter this thread) k \<longleftrightarrow>
     m_waiting_lock_info (threads k thread) = None \<and> m_condvar_tree (threads k thread) = None \<and> thread < 2 ^ 32 - 1 \<and>
     can_add k this thread \<and> \<not> waits_for (GetLockOwner k) this thread"
| "wait_allowed (Call_RemoveWaiter this thread) k \<longleftrightarrow> GetLockOwner k thread = Some this"
| "wait_allowed (Call_RemoveWaiterByKey this key is_kernel) k \<longleftrightarrow> True"
| "wait_allowed (Call_SetBasePriority this p) k \<longleftrightarrow> HighestThreadPriority \<le> p \<and> p \<le> LowestThreadPriority"
| "wait_allowed (Call_IncreaseBasePriority this p) k \<longleftrightarrow> HighestThreadPriority \<le> p \<and> p \<le> LowestThreadPriority"

fun wait_do :: "WaitCall \<Rightarrow> KernelCore \<Rightarrow> KernelCore option" where
  "wait_do (Call_AddWaiter this thread) k = AddWaiter this thread k"
| "wait_do (Call_RemoveWaiter this thread) k = RemoveWaiter this thread k"
| "wait_do (Call_RemoveWaiterByKey this key is_kernel) k = map_option (\<lambda>(_, _, k'). k') (RemoveWaiterByKey this key is_kernel k)"
| "wait_do (Call_SetBasePriority this p) k = SetBasePriority this p k"
| "wait_do (Call_IncreaseBasePriority this p) k = IncreaseBasePriority this p k"

text \<open>What a call does to who waits for whom and to the base priorities.\<close>

abbreviation base_of :: "KernelCore \<Rightarrow> nat \<Rightarrow> int" where
  "base_of k s \<equiv> m_base_priority (threads k s)"

fun owners_after :: "WaitCall \<Rightarrow> KernelCore \<Rightarrow> nat \<Rightarrow> nat option" where
  "owners_after (Call_AddWaiter this thread) k = (GetLockOwner k)(thread := Some this)"
| "owners_after (Call_RemoveWaiter this thread) k = (GetLockOwner k)(thread := None)"
| "owners_after (Call_RemoveWaiterByKey this key is_kernel) k =
     (case FindHeldLock this key is_kernel k of
        None \<Rightarrow> GetLockOwner k
      | Some l \<Rightarrow> hand_owners (hd (l_tree (lock_infos k l))) (tl (l_tree (lock_infos k l))) (GetLockOwner k))"
| "owners_after (Call_SetBasePriority this p) k = GetLockOwner k"
| "owners_after (Call_IncreaseBasePriority this p) k = GetLockOwner k"

fun bases_after :: "WaitCall \<Rightarrow> KernelCore \<Rightarrow> nat \<Rightarrow> int" where
  "bases_after (Call_SetBasePriority this p) k = (base_of k)(this := p)"
| "bases_after (Call_IncreaseBasePriority this p) k = (base_of k)(this := min p (base_of k this))"
| "bases_after _ k = base_of k"

inductive wait_steps :: "KernelCore \<Rightarrow> WaitCall list \<Rightarrow> KernelCore \<Rightarrow> bool" where
  none: "wait_steps k [] k"
| one: "wait_steps k cs k1 \<Longrightarrow> wait_allowed c k1 \<Longrightarrow> wait_do c k1 = Some k2 \<Longrightarrow> wait_steps k (cs @ [c]) k2"

text \<open>A thread runs at the best base priority of all threads that wait for it, directly or not.\<close>

definition runs_at_best :: "KernelCore \<Rightarrow> nat \<Rightarrow> bool" where
  "runs_at_best k t \<longleftrightarrow>
     (\<exists>w. waits_for (GetLockOwner k) w t \<and> m_priority (threads k t) = m_base_priority (threads k w)) \<and>
     (\<forall>w. waits_for (GetLockOwner k) w t \<longrightarrow> m_priority (threads k t) \<le> m_base_priority (threads k w))"

lemma RemoveWaiterByKey_cases:
  assumes ok: "pi_ok k Q"
  shows "\<exists>r b k' Q'. RemoveWaiterByKey t a bk k = Some (r, b, k') \<and> pi_ok k' Q' \<and>
    GetLockOwner k' = owners_after (Call_RemoveWaiterByKey t a bk) k \<and> base_of k' = base_of k"
proof (cases "FindHeldLock t a bk k")
  case None
  then show ?thesis using ok by (auto simp: RemoveWaiterByKey_def)
next
  case (Some l)
  have "tree_of k l \<noteq> []"
    by (rule lock_okD(2) [OF locks_shapeD(3) [OF kernel_okD(3) [OF pi_okD(1) [OF ok]] FindHeldLock_Some(1) [OF Some]]])
  then obtain n ws where tree: "tree_of k l = n # ws" by (cases "tree_of k l") auto
  then have "owners_after (Call_RemoveWaiterByKey t a bk) k = hand_owners n ws (GetLockOwner k)" using Some by (simp add: tree_of_def)
  then show ?thesis using RemoveWaiterByKey_ok [OF ok Some tree] by (simp add: fun_eq_iff) blast
qed

lemma wait_do_ok:
  assumes ok: "pi_ok k Q" and al: "wait_allowed c k"
  shows "\<exists>k' Q'. wait_do c k = Some k' \<and> pi_ok k' Q' \<and> GetLockOwner k' = owners_after c k \<and> base_of k' = bases_after c k"
proof (cases c)
  case (Call_AddWaiter t w)
  then show ?thesis using AddWaiter_ok [OF ok, of w t] al by (auto simp: fun_eq_iff)
next
  case (Call_RemoveWaiter t w)
  then show ?thesis using RemoveWaiter_ok [OF ok, of w t] al by (auto simp: fun_eq_iff)
next
  case (Call_RemoveWaiterByKey t a b)
  obtain r h k' Q' where "RemoveWaiterByKey t a b k = Some (r, h, k')" "pi_ok k' Q'"
    "GetLockOwner k' = owners_after (Call_RemoveWaiterByKey t a b) k" "base_of k' = base_of k"
    using RemoveWaiterByKey_cases [OF ok] by blast
  then show ?thesis unfolding Call_RemoveWaiterByKey by (intro exI [of _ k'] exI [of _ Q']) simp
next
  case (Call_SetBasePriority t p)
  then show ?thesis using SetBasePriority_ok [OF ok, of p t] al by (auto simp: fun_eq_iff)
next
  case (Call_IncreaseBasePriority t p)
  then show ?thesis using IncreaseBasePriority_ok [OF ok, of p t] al by (auto simp: fun_eq_iff)
qed

lemma wait_steps_ok:
  assumes "wait_steps k cs k'" and "pi_ok k Q"
  shows "\<exists>Q'. pi_ok k' Q'"
  using assms
proof (induction rule: wait_steps.induct)
  case (one k cs k1 c k2)
  then obtain Q1 where "pi_ok k1 Q1" by blast
  then show ?case using wait_do_ok [of k1 Q1 c] one(2,3) by auto
qed blast

lemma pi_ok_best:
  assumes "pi_ok k Q"
  shows "runs_at_best k t"
proof -
  note ko = kernel_okD [OF pi_okD(1) [OF assms]]
  show ?thesis using inherited_global [OF ko(6,5) pi_okD(2) [OF assms], of t] by (simp add: runs_at_best_def prio_def)
qed

lemma two_threads_pi: "pi_ok two_threads two_queues"
proof -
  have none: "GetLockOwner two_threads = (\<lambda>_. None)" by (simp add: GetLockOwner_def two_threads_def idle_thread_record_def fun_eq_iff)
  have "locks_ok two_threads"
    by (simp add: locks_ok_def locks_shape_def kernel_waiters_def none) (simp add: two_threads_def idle_thread_record_def held_def)
  moreover have "condvars_ok two_threads" by (simp add: condvars_ok_def two_threads_def idle_thread_record_def)
  moreover have "acyclic_waits (GetLockOwner two_threads)" by (simp add: none acyclic_waits_def)
  moreover have "prio two_threads t = 44" "m_base_priority (threads two_threads t) = 44" for t
    by (simp_all add: prio_def two_threads_def idle_thread_record_def)
  ultimately show ?thesis
    using two_threads_ok(1) by (simp add: pi_ok_def kernel_ok_def settled_except_def inherited_def none HighestThreadPriority_def
        IsValidPriority_def LowestThreadPriority_def)
qed

text \<open>
  C3: Priority inheritance.  However threads add and remove waiters, hand locks over and change base priorities,
  every thread runs at the best base priority among the threads waiting for it directly or through others, itself
  included; every count of kernel waiters is exact; and the scheduler's queues match the threads.  Every further
  call its caller may make returns and changes who waits for whom and the base priorities as the call asks.
\<close>
theorem priority_inheritance_correct:
  assumes "pi_ok k0 Q0" and "wait_steps k0 cs k"
  shows "(\<exists>Q. sched_ok k Q) \<and> (\<forall>t. runs_at_best k t) \<and>
    (\<forall>t. m_num_kernel_waiters (threads k t) =
      int (card {w. GetLockOwner k w = Some t \<and> m_is_kernel_address_key (threads k w)})) \<and>
    (\<forall>c. wait_allowed c k \<longrightarrow>
      (\<exists>k'. wait_do c k = Some k' \<and> GetLockOwner k' = owners_after c k \<and> base_of k' = bases_after c k))"
proof -
  obtain Q where ok: "pi_ok k Q" using wait_steps_ok [OF assms(2,1)] by blast
  note ko = kernel_okD [OF pi_okD(1) [OF ok]]
  have "\<forall>t. m_num_kernel_waiters (threads k t) =
      int (card {w. GetLockOwner k w = Some t \<and> m_is_kernel_address_key (threads k w)})"
    using ko(2) by (simp add: locks_ok_def kernel_waiters_def)
  then show ?thesis using ko(1) pi_ok_best [OF ok] wait_do_ok [OF ok] by blast
qed

theorem priority_inheritance_correct_witness:
  "\<exists>k. wait_steps two_threads [Call_SetBasePriority 8 20] k \<and> (\<forall>t. runs_at_best k t) \<and>
     (\<exists>k'. AddWaiter 7 8 two_threads = Some k' \<and> GetLockOwner k' 8 = Some 7)"
proof -
  note start = priority_inheritance_correct [OF two_threads_pi wait_steps.none]
  have p: "wait_allowed (Call_SetBasePriority 8 20) two_threads"
    by (simp add: HighestThreadPriority_def LowestThreadPriority_def)
  then obtain k where "wait_do (Call_SetBasePriority 8 20) two_threads = Some k" using start by blast
  then have run: "wait_steps two_threads [Call_SetBasePriority 8 20] k" using wait_steps.one [OF wait_steps.none p] by simp
  have "GetLockOwner two_threads 7 = None" by (simp add: GetLockOwner_def two_threads_def idle_thread_record_def)
  then have "\<not> waits_for (GetLockOwner two_threads) 7 8" by (auto elim: waits_for.cases)
  then have "wait_allowed (Call_AddWaiter 7 8) two_threads"
    by (simp add: can_add_def) (simp add: two_threads_def idle_thread_record_def)
  then obtain k' where "wait_do (Call_AddWaiter 7 8) two_threads = Some k'"
    "GetLockOwner k' = owners_after (Call_AddWaiter 7 8) two_threads" using start by blast
  then show ?thesis using run priority_inheritance_correct [OF two_threads_pi run] by auto
qed

definition locked_threads :: KernelCore where
  "locked_threads =
     set_thread 7 (m_held_lock_info_list_update (\<lambda>_. [0]))
       (set_thread 8 (m_waiting_lock_info_update (\<lambda>_. Some 0))
         (set_lock 0 (\<lambda>_. \<lparr>l_tree = [8], l_address_key = 0, l_owner = Some 7, l_waiter_count = 1, l_is_kernel_address_key = False\<rparr>)
           (two_threads\<lparr>lock_slab := [1, 2]\<rparr>)))"

lemma locked_threads_pi: "pi_ok locked_threads two_queues"
proof -
  have own: "GetLockOwner locked_threads = (\<lambda>x. if x = 8 then Some 7 else None)"
    by (auto simp: GetLockOwner_def locked_threads_def kernel_simps two_threads_def idle_thread_record_def fun_eq_iff)
  have view: "same_view two_threads locked_threads"
    by (simp add: same_view_def locked_threads_def member_of_def queued_def GetRawState_def IsDummyThread_def kernel_simps)
  have q: "queued locked_threads t = queued two_threads t" for t using view by (simp add: same_view_def)
  have sched: "sched_ok locked_threads two_queues"
    using two_threads_ok(1) sched_ok_view [OF view] by (simp add: locked_threads_def kernel_simps)
  have p: "prio locked_threads t = 44" "m_base_priority (threads locked_threads t) = 44"
    "m_is_kernel_address_key (threads locked_threads t) = False" "m_num_kernel_waiters (threads locked_threads t) = 0" for t
    by (simp_all add: prio_def locked_threads_def kernel_simps two_threads_def idle_thread_record_def)
  have h: "held locked_threads t = (if t = 7 then [0] else [])" for t
    by (simp add: held_def locked_threads_def kernel_simps two_threads_def idle_thread_record_def)
  have "lock_ok locked_threads 7 0"
    by (simp add: lock_ok_def tree_of_def wait_key_def lock_key_def locked_threads_def kernel_simps two_threads_def idle_thread_record_def)
  then have "locks_shape locked_threads"
    unfolding locks_shape_def h
    by (auto simp: tree_of_def locked_threads_def kernel_simps two_threads_def idle_thread_record_def split: if_splits)
  then have locks: "locks_ok locked_threads" by (simp add: locks_ok_def kernel_waiters_def p)
  have cv: "condvars_ok locked_threads"
    by (simp add: condvars_ok_def locked_threads_def kernel_simps two_threads_def idle_thread_record_def)
  have "acyclic_waits (GetLockOwner locked_threads)"
    unfolding acyclic_waits_def own by (rule exI [of _ id]) simp
  then have "kernel_ok locked_threads two_queues"
    using sched locks cv by (simp add: kernel_ok_def p HighestThreadPriority_def LowestThreadPriority_def IsValidPriority_def)
  moreover have "prio locked_threads t = inherits locked_threads t" for t
    by (rule inherited_eqI [symmetric]) (simp_all add: waiters_finite_def own p dom_def)
  ultimately show ?thesis by (simp add: pi_ok_def settled_except_def)
qed

text \<open>
  C11: Releasing a lock by its key.  When no thread waits for the lock nothing changes.  Otherwise the waiter with
  the best priority becomes the owner and waits no more, the other waiters now wait for it, the caller learns
  whether there are any, and every thread again runs at the priority it inherits.
\<close>
theorem RemoveWaiterByKey_correct:
  assumes "pi_ok k Q"
  shows "case FindHeldLock t key is_kernel k of
      None \<Rightarrow> RemoveWaiterByKey t key is_kernel k = Some (None, False, k)
    | Some l \<Rightarrow> (\<exists>n ws k' Q'. l_tree (lock_infos k l) = n # ws \<and>
        RemoveWaiterByKey t key is_kernel k = Some (Some n, ws \<noteq> [], k') \<and>
        (\<forall>w \<in> set ws. m_priority (threads k n) \<le> m_priority (threads k w)) \<and>
        (\<forall>w. GetLockOwner k' w = (if w = n then None else if w \<in> set ws then Some n else GetLockOwner k w)) \<and>
        (\<forall>s. m_base_priority (threads k' s) = m_base_priority (threads k s)) \<and> pi_ok k' Q' \<and> (\<forall>s. runs_at_best k' s))"
proof (cases "FindHeldLock t key is_kernel k")
  case None
  then show ?thesis by (simp add: RemoveWaiterByKey_def)
next
  case (Some l)
  note lo = lock_okD [OF locks_shapeD(3) [OF kernel_okD(3) [OF pi_okD(1) [OF assms]] FindHeldLock_Some(1) [OF Some]]]
  obtain n ws where tree: "tree_of k l = n # ws" using lo(2) by (cases "tree_of k l") auto
  have best: "\<forall>w \<in> set ws. m_priority (threads k n) \<le> m_priority (threads k w)" using lo(4) tree by (simp add: prio_def)
  obtain k' Q' where k': "RemoveWaiterByKey t key is_kernel k = Some (Some n, ws \<noteq> [], k')" "pi_ok k' Q'"
    "GetLockOwner k' = hand_owners n ws (GetLockOwner k)" "\<forall>s. m_base_priority (threads k' s) = m_base_priority (threads k s)"
    using RemoveWaiterByKey_ok [OF assms Some tree] by blast
  moreover have "l_tree (lock_infos k l) = n # ws" using tree by (simp add: tree_of_def)
  moreover have "\<forall>w. GetLockOwner k' w = (if w = n then None else if w \<in> set ws then Some n else GetLockOwner k w)"
    by (simp add: k'(3) hand_owners_def)
  ultimately show ?thesis using Some best pi_ok_best [OF k'(2)] by auto
qed

theorem RemoveWaiterByKey_correct_witness:
  "\<exists>k'. RemoveWaiterByKey 7 0 False locked_threads = Some (Some 8, False, k') \<and> GetLockOwner k' 8 = None"
proof -
  have "FindHeldLock 7 0 False locked_threads = Some 0" "l_tree (lock_infos locked_threads 0) = [8]"
    by (simp_all add: FindHeldLock_def locked_threads_def kernel_simps)
  then show ?thesis using RemoveWaiterByKey_correct [OF locked_threads_pi, of 7 0 False] by auto
qed

text \<open>
  Restoring a priority ends.  From any thread whose priority may be out of date, the walk along the chain of
  owners returns, changes nothing but priorities, and leaves every thread at the priority it inherits.
\<close>
theorem RestorePriority_terminates:
  assumes "kernel_ok k Q" and "\<And>s. s \<noteq> t \<Longrightarrow> m_priority (threads k s) = inherits k s"
  shows "\<exists>k' Q'. RestorePriority (Some t) k = Some k' \<and> kernel_ok k' Q' \<and> only_prio k k' \<and> (\<forall>s. runs_at_best k' s)"
proof -
  have "settled_except (Some t) k" using assms(2) by (simp add: settled_except_def prio_def)
  then show ?thesis using RestorePriority_ok [OF assms(1)] pi_ok_best unfolding pi_ok_def by meson
qed

theorem RestorePriority_terminates_witness:
  "\<exists>k'. RestorePriority (Some 8) locked_threads = Some k' \<and> runs_at_best k' 7"
proof -
  have "m_priority (threads locked_threads s) = inherits locked_threads s" for s
    using pi_okD(2) [OF locked_threads_pi, of s] by (simp add: prio_def)
  then show ?thesis using RestorePriority_terminates [OF pi_okD(1) [OF locked_threads_pi], of 8] by blast
qed

end
