(* ===== verification/Spec2Isabelle.thy ===== *)
theory Spec2Isabelle
  imports Free_Area Handle_Table Resource_Limit Page_Heap_Alloc Priority_Inheritance_Ops
begin

text \<open>
  Verification of the Horizon kernel core of the emulator: the parts of \<^verbatim>\<open>src/src/core/hle/kernel\<close> that keep
  the kernel's own data structures, and the helpers of \<^verbatim>\<open>src/src/common\<close> they rest on.

  \<^bold>\<open>The program and its theories.\<close>  The kernel emulates the operating system of the console for guest
  programs.  Four groups of its components are modelled, each operation as one definition with the name of the
  C++ function (prefixed by the class where that is needed):

  \<^item> Guest address spaces.  \<open>Memory_State\<close> has the flag words of \<^verbatim>\<open>svc_types.h\<close> and \<^verbatim>\<open>k_memory_block.h\<close>;
    \<open>Memory_Block\<close> has \<^verbatim>\<open>KMemoryBlock\<close>, a run of pages with its properties and lock counts;
    \<open>Memory_Block_Manager\<close> has \<^verbatim>\<open>KMemoryBlockManager\<close> and its update allocator, the red-black tree being
    the list of its blocks in order; \<open>Memory_Block_Update\<close> and \<open>Free_Area\<close> prove it correct.
  \<^item> Physical memory.  \<open>Tiny_MT\<close> is \<^verbatim>\<open>common/tiny_mt.h\<close>; \<open>Page_Bitmap\<close> and \<open>Page_Bitmap_Search\<close> are
    \<^verbatim>\<open>KPageBitmap\<close> and its random bit generator; \<open>Page_Heap\<close> and \<open>Page_Heap_Alloc\<close> are \<^verbatim>\<open>KPageHeap\<close>, the
    buddy allocator that keeps one bitmap for each of its seven block sizes.
  \<^item> Objects and quotas.  \<open>Bit_Field\<close> is \<^verbatim>\<open>common/bit_field.h\<close>; \<open>Auto_Object\<close> is the class tokens and
    reference counts of \<^verbatim>\<open>KAutoObject\<close>; \<open>Handle_Table\<close> is \<^verbatim>\<open>KHandleTable\<close>, which stores objects under
    handles built with bit fields; \<open>Resource_Limit\<close> is \<^verbatim>\<open>KResourceLimit\<close> and its scoped reservation, with
    the threads that wait in \<^verbatim>\<open>Reserve\<close> as the steps of a transition relation.
  \<^item> Scheduling.  \<open>Priority_Queue\<close> and \<open>Priority_Queue_Ops\<close> are \<^verbatim>\<open>KPriorityQueue\<close>, doubly linked queues
    for every core and priority; \<open>Scheduler\<close> and \<open>Scheduler_Update\<close> are \<^verbatim>\<open>KScheduler\<close> and
    \<^verbatim>\<open>GlobalSchedulerContext\<close> over that queue; \<open>Priority_Inheritance\<close> and \<open>Priority_Inheritance_Ops\<close>
    are the lock and priority operations of \<^verbatim>\<open>KThread\<close>, which call the scheduler.  The state of this group is
    the record \<open>KernelCore\<close>: the threads, processes and schedulers by number, the queue, the locks, the
    trees of the condition variables and the current thread.

  \<open>Kernel_Prelude\<close> holds what all of them share: word types, wrap-around arithmetic, alignment, result codes.

  \<^bold>\<open>What is proved.\<close>
  \<^item> An address space stays covered by blocks without gaps, overlaps or neighbours that could be merged; an
    update changes exactly the pages of its range, in exactly the way asked for, together with the flags that
    forbid merging at the block starts of the range, with the two blocks its allocator holds and without leaking
    any; locking and sharing undo unlocking and unsharing; a free area found is the lowest suitable one.
  \<^item> A page bitmap is a set of offsets; its searches find the least element, some element, or a free range.
    A page heap is a set of free bytes: freeing adds and allocating removes exactly the range in question,
    complete groups of buddies are merged so that wholly free aligned ranges lie in one block, and
    the storage computed beforehand suffices.
  \<^item> A handle table is a map from handles to objects, handles in use are distinct, a reference is held for each
    entry, and lookups that fail leave no reference behind.  No interleaving of reservations and releases exceeds
    a limit, waiting threads are woken, and a scoped reservation undoes itself.
  \<^item> The linked queues represent lists; the scheduler keeps them in step with the threads, runs on every core the
    first thread of its queue, leaves no core idle while a thread that may run there waits, and rotates and
    yields fairly.  Whatever is done with locks, every thread runs at the best base priority of the
    threads that wait for it, directly or through others.

  \<^bold>\<open>Interfaces.\<close>  \<open>page_update\<close> is the contract between the update loop of the block manager and the method
  it applies to a block; \<open>lock_function\<close> extends it for the lock methods and is interpreted for the five of them,
  \<open>page_update\<close> itself for the attribute update and, at the properties asked for, for the two plain updates.  \<open>object_table\<close> is the contract of a table of objects, interpreted
  on the handle table.  \<open>queue_walk\<close> is the contract of a walk over the suggested threads that may move
  one of them, interpreted for the five walks of the scheduler.

  \<^bold>\<open>Representation.\<close>  Flag words, handles, bitmap words and reference counts are machine words.  Addresses and
  sizes are natural numbers with the wrap-around of the code written out; the page heap, whose region lies below
  the limit of physical addresses, adds without wrap-around and subtracts with it.  Signed counters that
  only count events or resources are integers: the values, hints and limits of a resource limit (64 bits; a
  reservation whose sum would not fit is refused first, with the wrapping addition of the code), the number of waiters of a limit, the schedule counts of processes and the tick of a thread (64 bits,
  counted up from zero), and the count of kernel waiters of a thread (32 bits, at most the number of threads).
  Threads, objects and locks are numbers; a null pointer is \<open>None\<close>.  A soft assertion never
  changes the control flow; the ones that matter are the predicates named \<open>..._asserts\<close>.  Dereferencing a null
  pointer, erasing what is not in a tree, exhausting a slab and reading past a storage in a loop
  are the result \<open>None\<close>, and the theorems show that a result exists.

  \<^bold>\<open>Termination.\<close>  There is no fuel.  Loops that follow a structure are structural or have a measure.  Loops
  that could run on in the code are partial functions into \<open>option\<close>: the words written by
  \<^verbatim>\<open>TinyMT::GenerateRandomBytes\<close>, the whole words cleared by \<^verbatim>\<open>KPageBitmap::ClearRange\<close>, the five walks along
  the links of a queue in the scheduler, and the chain of owners followed by \<^verbatim>\<open>KThread::RestorePriority\<close>; each is
  shown to return where it is used.  \<^verbatim>\<open>KResourceLimit::Reserve\<close>
  takes what the limit has become at each wake-up as a list, and returns after as many waits as the list has.

  \<^bold>\<open>Parameters.\<close>  The seed of the random bit generator (taken from the host) and the clock a reservation reads are
  arguments.  The scheduler lock, the host mutexes and the light lock around an operation are taken to be held.

  \<^bold>\<open>Not modelled.\<close>  Page tables and the memory manager (they map host memory), sessions and message
  marshalling, process and thread start-up and exit, suspension and pinning, fibers, interrupts, timers and
  host threads, the supervisor call dispatch, the guest CPU, services, file systems, graphics, audio, input, network and
  the frontends: host execution, input and output, or generated code.  The floating-point outputs of the
  random generator are left out.
\<close>

end
